(* ===== verification/Prelude.thy ===== *)
theory Prelude
  imports Main "HOL-Library.Word"
begin

text \<open>
  Shared vocabulary of the development: machine integers at their width, the outcome of
  a kernel routine, and the list lemmas the components use.

  \<^item> \<open>size_t\<close> and \<open>FlatPtr\<close> are 64 bits wide on every target of the kernel. They are
    modelled as \<open>nat\<close>; where a caller can make an addition, subtraction or multiplication
    wrap, the wrap is written out with \<open>size_add\<close>, \<open>size_sub\<close>, \<open>size_mul\<close>.
  \<^item> A \<open>VERIFY\<close> that does not hold stops the kernel, an access outside of an object is
    undefined behaviour, a loop may never end, and \<open>ErrorOr\<close> carries an errno value. All of
    these are values of \<open>error\<close>; a routine that can end in one of them returns \<open>error + 'a\<close>.
\<close>

unbundle bit_operations_syntax

section \<open>Collections\<close>

named_theorems size_simps \<open>size_t arithmetic that does not wrap\<close>
named_theorems result_elims \<open>inversion of successful results\<close>

section \<open>Outcomes\<close>

datatype errno =
    EPERM | ENOENT | ESRCH | EINTR | EINVAL | ENOMEM | EFAULT | EACCES
  | EOVERFLOW | EAGAIN | ENOTSUP | ENAMETOOLONG | EIO | E2BIG | EPROMISEVIOLATION | EHOSTUNREACH

datatype error = VerifyFailed | OutOfBounds | NeverReturns | Err errno

type_synonym 'a result = "error + 'a"

fun bindR :: "'e + 'a \<Rightarrow> ('a \<Rightarrow> 'e + 'b) \<Rightarrow> 'e + 'b" where
  "bindR (Inl e) f = Inl e"
| "bindR (Inr x) f = f x"

lemma bindR_Inr_iff [result_elims]: "bindR m f = Inr y \<longleftrightarrow> (\<exists>x. m = Inr x \<and> f x = Inr y)"
  by (cases m) auto

lemma bindR_Inl_iff: "bindR m f = Inl e \<longleftrightarrow> m = Inl e \<or> (\<exists>x. m = Inr x \<and> f x = Inl e)"
  by (cases m) auto

lemma bindR_assoc: "bindR (bindR m f) g = bindR m (\<lambda>x. bindR (f x) g)"
  by (cases m) auto

lemma bindR_cong [fundef_cong]:
  assumes "m = m'" and "\<And>x. m' = Inr x \<Longrightarrow> f x = f' x"
  shows "bindR m f = bindR m' f'"
  using assms by (cases m') auto

section \<open>size_t\<close>

abbreviation size_limit :: nat where
  "size_limit \<equiv> 2 ^ 64"

definition size_add :: "nat \<Rightarrow> nat \<Rightarrow> nat" where
  "size_add a b = (a + b) mod size_limit"

definition size_sub :: "nat \<Rightarrow> nat \<Rightarrow> nat" where
  "size_sub a b = nat ((int a - int b) mod int size_limit)"

definition size_mul :: "nat \<Rightarrow> nat \<Rightarrow> nat" where
  "size_mul a b = (a * b) mod size_limit"

lemma size_add_exact [size_simps]: "a + b < size_limit \<Longrightarrow> size_add a b = a + b"
  by (simp add: size_add_def)

lemma size_sub_exact [size_simps]: "b \<le> a \<Longrightarrow> a < size_limit \<Longrightarrow> size_sub a b = a - b"
  by (simp add: size_sub_def nat_eq_iff flip: of_nat_diff)

lemma size_mul_exact [size_simps]: "a * b < size_limit \<Longrightarrow> size_mul a b = a * b"
  by (simp add: size_mul_def)

lemma size_add_less [simp]: "size_add a b < size_limit"
  by (simp add: size_add_def)

lemma size_sub_less [simp]: "size_sub a b < size_limit"
  by (simp add: size_sub_def nat_less_iff)

lemma size_add_wraps:
  assumes "a < size_limit" and "b < size_limit"
  shows "size_add a b < a \<longleftrightarrow> size_limit \<le> a + b"
proof (cases "a + b < size_limit")
  case True
  then show ?thesis by (simp add: size_add_exact)
next
  case False
  then have "size_add a b = a + b - size_limit"
    using assms by (simp add: size_add_def mod_if)
  then show ?thesis using False assms by simp
qed

definition ceil_div :: "nat \<Rightarrow> nat \<Rightarrow> nat" where
  "ceil_div a b = (if a mod b \<noteq> 0 \<and> (a > 0) = (b > 0) then a div b + 1 else a div b)"

lemma ceil_div_le: "0 < b \<Longrightarrow> ceil_div a b \<le> a div b + 1"
  by (simp add: ceil_div_def)

lemma ceil_div_bound:
  assumes "0 < b"
  shows "a \<le> ceil_div a b * b"
proof (cases "a mod b = 0")
  case True
  then show ?thesis by (auto simp: ceil_div_def)
next
  case False
  then have "0 < a" by (cases a) simp_all
  then show ?thesis
    using assms False dividend_less_div_times [of b a] by (simp add: ceil_div_def)
qed

lemma less_imp_div_less_ceil_div: "0 < b \<Longrightarrow> i < a \<Longrightarrow> i div b < ceil_div a b"
  using ceil_div_bound [of b a] by (simp add: div_less_iff_less_mult)

lemma div_le_ceil_div: "a div b \<le> ceil_div a b"
  by (simp add: ceil_div_def)

section \<open>Lists\<close>

definition fill_range :: "'a list \<Rightarrow> nat \<Rightarrow> nat \<Rightarrow> 'a \<Rightarrow> 'a list" where
  "fill_range xs off n v = take off xs @ replicate n v @ drop (off + n) xs"

lemma length_fill_range [simp]:
  "off + n \<le> length xs \<Longrightarrow> length (fill_range xs off n v) = length xs"
  by (simp add: fill_range_def)

lemma nth_fill_range:
  assumes "off + n \<le> length xs" and "i < length xs"
  shows "fill_range xs off n v ! i = (if off \<le> i \<and> i < off + n then v else xs ! i)"
  using assms by (auto simp: fill_range_def nth_append)

end
