(* ===== verification/Bits.thy ===== *)
theory Bits
  imports Prelude
begin

text \<open>
  The bit counting helpers of \<^verbatim>\<open>AK/BuiltinWrappers.h\<close> over words of any width, and the
  little-endian view of eight bytes as one \<open>size_t\<close> that \<^verbatim>\<open>AK/BitmapView.h\<close> reads through
  a cast pointer. The portable loops of the header are what is modelled; the compiler
  builtins the header prefers agree with them on every argument they are defined for.
\<close>

type_synonym u8 = "8 word"
type_synonym u32 = "32 word"
type_synonym u64 = "64 word"

section \<open>Counting bits\<close>

definition popcount :: "'a::len word \<Rightarrow> nat" where
  "popcount value = length (filter (\<lambda>i. bit value i) [0..<LENGTH('a)])"

definition count_trailing_zeroes :: "'a::len word \<Rightarrow> nat" where
  "count_trailing_zeroes value = length (takeWhile (\<lambda>i. \<not> bit value i) [0..<LENGTH('a)])"

definition bit_scan_forward :: "'a::len word \<Rightarrow> nat" where
  "bit_scan_forward value = (if value = 0 then 0 else 1 + count_trailing_zeroes value)"

lemma ctz_le_length: "count_trailing_zeroes (w :: 'a::len word) \<le> LENGTH('a)"
  using length_takeWhile_le [of "\<lambda>i. \<not> bit w i" "[0..<LENGTH('a)]"]
  by (simp add: count_trailing_zeroes_def)

lemma not_bit_below_ctz:
  fixes w :: "'a::len word"
  assumes "i < count_trailing_zeroes w"
  shows "\<not> bit w i"
proof -
  let ?xs = "takeWhile (\<lambda>i. \<not> bit w i) [0..<LENGTH('a)]"
  have i: "i < length ?xs" and n: "i < LENGTH('a)"
    using assms ctz_le_length [of w] by (simp_all add: count_trailing_zeroes_def)
  have "?xs ! i = i"
    using n takeWhile_nth [OF i] by simp
  then have "i \<in> set ?xs"
    using nth_mem [OF i] by simp
  then show ?thesis
    by (blast dest: set_takeWhileD)
qed

lemma word_nonzero_bit:
  fixes w :: "'a::len word"
  assumes "w \<noteq> 0"
  shows "\<exists>i < LENGTH('a). bit w i"
proof (rule ccontr)
  assume "\<not> ?thesis"
  then have "w = 0" by (intro bit_word_eqI) simp
  with assms show False by simp
qed

lemma ctz_less_length:
  fixes w :: "'a::len word"
  assumes "w \<noteq> 0"
  shows "count_trailing_zeroes w < LENGTH('a)"
proof -
  obtain i where "i < LENGTH('a)" and "bit w i"
    using word_nonzero_bit [OF assms] by blast
  then have "\<not> i < count_trailing_zeroes w"
    using not_bit_below_ctz by blast
  with \<open>i < LENGTH('a)\<close> show ?thesis by simp
qed

lemma bit_at_ctz:
  assumes "(w :: 'a::len word) \<noteq> 0"
  shows "bit w (count_trailing_zeroes w)"
proof -
  have "count_trailing_zeroes w < length [0..<LENGTH('a)]"
    using ctz_less_length [OF assms] by simp
  then have "\<not> \<not> bit w ([0..<LENGTH('a)] ! count_trailing_zeroes w)"
    unfolding count_trailing_zeroes_def by (rule nth_length_takeWhile)
  then show ?thesis
    using ctz_less_length [OF assms] by simp
qed

lemma bit_0_drop_ctz: "w \<noteq> 0 \<Longrightarrow> bit (drop_bit (count_trailing_zeroes w) w) 0"
  by (simp add: bit_drop_bit_eq bit_at_ctz)

lemma ctz_pos:
  fixes w :: "'a::len word"
  assumes "\<not> bit w 0"
  shows "0 < count_trailing_zeroes w"
  using assms by (simp add: count_trailing_zeroes_def upt_conv_Cons)

lemma bit_below_ctz_not: "i < count_trailing_zeroes (NOT w) \<Longrightarrow> bit (w :: 'a::len word) i"
  using not_bit_below_ctz [of i "NOT w"] ctz_le_length [of "NOT w"]
  by (simp add: bit_not_iff)

section \<open>Reading a size_t out of a byte buffer\<close>

definition read_size_t :: "u8 list \<Rightarrow> nat \<Rightarrow> u64" where
  "read_size_t d off =
     horner_sum of_bool 2 (map (\<lambda>k. bit (d ! (off + k div 8)) (k mod 8)) [0..<64])"

lemma bit_read_size_t:
  "bit (read_size_t d off) k \<longleftrightarrow> k < 64 \<and> bit (d ! (off + k div 8)) (k mod 8)"
  by (auto simp: read_size_t_def bit_horner_sum_bit_word_iff)

lemma read_size_t_eq_0: "read_size_t d off = 0 \<longleftrightarrow> (\<forall>k < 64. \<not> bit (d ! (off + k div 8)) (k mod 8))"
  by (auto simp: bit_eq_iff bit_read_size_t)

lemma read_size_t_eq_max:
  "read_size_t d off = - 1 \<longleftrightarrow> (\<forall>k < 64. bit (d ! (off + k div 8)) (k mod 8))"
  by (auto simp: bit_eq_iff bit_read_size_t)

section \<open>Rounding up\<close>

definition PAGE_SIZE :: nat where
  "PAGE_SIZE = 4096"

definition round_up_to_power_of_two :: "nat \<Rightarrow> nat \<Rightarrow> nat" where
  "round_up_to_power_of_two value power_of_two =
     (let v = word_of_nat value; p = word_of_nat power_of_two :: u64
      in unat (((v - 1) AND NOT (p - 1)) + p))"

text \<open>Also for a number that is not a power of two the result is less than that number above the value.\<close>
lemma and_not_bounds:
  fixes w m :: "'a::len word"
  shows "unat (w AND NOT m) \<le> unat w" and "unat w \<le> unat (w AND NOT m) + unat m"
proof -
  have "(w AND m) + (w AND NOT m) = (w AND m) OR (w AND NOT m)" by (rule disjunctive_add) (auto simp: bit_simps)
  then have w: "w = (w AND m) + (w AND NOT m)" by (simp add: bit_eq_iff bit_simps) (auto simp: bit_imp_le_length)
  show "unat (w AND NOT m) \<le> unat w" by (simp add: word_le_nat_alt [symmetric] word_and_le2)
  have "unat w \<le> unat (w AND m) + unat (w AND NOT m)" by (subst w) (simp add: unat_word_ariths(1))
  moreover have "unat (w AND m) \<le> unat m" by (simp add: word_le_nat_alt [symmetric] word_and_le1)
  ultimately show "unat w \<le> unat (w AND NOT m) + unat m" by simp
qed

lemma round_up_bounds:
  assumes "0 < a" and "v + a < size_limit"
  shows "v \<le> round_up_to_power_of_two v a \<and> round_up_to_power_of_two v a < v + a"
proof -
  let ?w = "word_of_nat v - 1 :: u64" and ?m = "word_of_nat a - 1 :: u64"
  have a: "unat (word_of_nat a :: u64) = a" using assms by (simp add: unat_of_nat take_bit_nat_eq_self)
  have "?m = word_of_nat (a - 1)" using assms(1) by (cases a) simp_all
  moreover have "unat (word_of_nat (a - 1) :: u64) = a - 1" using assms by (simp only: unat_of_nat) simp
  ultimately have m: "unat ?m = a - 1" by (simp only:)
  show ?thesis
  proof (cases "v = 0")
    case True
    have "?w AND NOT ?m = NOT ?m" using True by simp
    also have "NOT ?m = - word_of_nat a" by (simp add: not_eq_complement)
    finally show ?thesis using True assms(1) by (simp add: round_up_to_power_of_two_def Let_def)
  next
    case False
    have "?w = word_of_nat (v - 1)" using False by (cases v) simp_all
    moreover have "unat (word_of_nat (v - 1) :: u64) = v - 1" using assms by (simp only: unat_of_nat) simp
    ultimately have w: "unat ?w = v - 1" by (simp only:)
    have b: "unat (?w AND NOT ?m) \<le> v - 1" "v - 1 \<le> unat (?w AND NOT ?m) + (a - 1)"
      using and_not_bounds [of ?w ?m] w m by simp_all
    then have "unat ((?w AND NOT ?m) + word_of_nat a) = unat (?w AND NOT ?m) + a"
      using assms a by (subst unat_add_lem [THEN iffD1]) simp_all
    moreover have "v \<le> unat (?w AND NOT ?m) + a" "unat (?w AND NOT ?m) + a < v + a" using b False assms(1) by linarith+
    ultimately show ?thesis by (simp only: round_up_to_power_of_two_def Let_def simp_thms)
  qed
qed

end
