(* ===== verification/Bitmap.thy ===== *)
theory Bitmap
  imports Bits
begin

text \<open>
  \<^verbatim>\<open>AK/BitmapView.h\<close> and \<^verbatim>\<open>AK/Bitmap.h\<close>: bit vectors over a byte buffer, the allocation map
  of the kernel heap, of the buddy allocator and of the file systems.

  A \<open>bitmap\<close> holds the address and the bytes of the buffer behind \<open>m_data\<close>, and the number
  of bits \<open>m_size\<close>. A buffer may be longer than \<open>size_in_bytes\<close>: the heap places its bitmap
  in a larger area. Pointers into the buffer are byte offsets; where the code aligns a
  pointer, the address of the buffer takes part. Reading or writing outside of the buffer
  is the outcome \<open>OutOfBounds\<close>.
\<close>

section \<open>The data\<close>

record bitmap =
  m_addr :: nat
  m_data :: "u8 list"
  m_size :: nat

definition max_size :: nat where
  "max_size = 0xffffffff"

definition bitmask_first_byte :: "u8 list" where
  "bitmask_first_byte = [0xFF, 0xFE, 0xFC, 0xF8, 0xF0, 0xE0, 0xC0, 0x80]"

definition bitmask_last_byte :: "u8 list" where
  "bitmask_last_byte = [0x00, 0x1, 0x3, 0x7, 0xF, 0x1F, 0x3F, 0x7F]"

definition size_in_bytes :: "bitmap \<Rightarrow> nat" where
  "size_in_bytes bm = ceil_div (m_size bm) 8"

definition read_byte :: "bitmap \<Rightarrow> nat \<Rightarrow> u8 result" where
  "read_byte bm i = (if i < length (m_data bm) then Inr (m_data bm ! i) else Inl OutOfBounds)"

definition write_byte :: "bitmap \<Rightarrow> nat \<Rightarrow> u8 \<Rightarrow> bitmap result" where
  "write_byte bm i b =
     (if i < length (m_data bm) then Inr (bm\<lparr>m_data := (m_data bm)[i := b]\<rparr>) else Inl OutOfBounds)"

definition read_word :: "bitmap \<Rightarrow> nat \<Rightarrow> u64 result" where
  "read_word bm i =
     (if i + 8 \<le> length (m_data bm) then Inr (read_size_t (m_data bm) i) else Inl OutOfBounds)"

definition memset_bytes :: "bitmap \<Rightarrow> nat \<Rightarrow> u8 \<Rightarrow> nat \<Rightarrow> bitmap result" where
  "memset_bytes bm off b n =
     (if off + n \<le> length (m_data bm) then Inr (bm\<lparr>m_data := fill_range (m_data bm) off n b\<rparr>)
      else Inl OutOfBounds)"

definition memcpy_bytes :: "bitmap \<Rightarrow> u8 list \<Rightarrow> nat \<Rightarrow> bitmap result" where
  "memcpy_bytes bm source n =
     (if n \<le> length (m_data bm) \<and> n \<le> length source
      then Inr (bm\<lparr>m_data := take n source @ drop n (m_data bm)\<rparr>) else Inl OutOfBounds)"

section \<open>Single bits\<close>

definition bitmap_get :: "bitmap \<Rightarrow> nat \<Rightarrow> bool result" where
  "bitmap_get bm index =
     (if \<not> index < m_size bm then Inl VerifyFailed
      else bindR (read_byte bm (index div 8))
             (\<lambda>byte. Inr (0 \<noteq> byte AND push_bit (index mod 8) 1)))"

definition bitmap_set :: "bitmap \<Rightarrow> nat \<Rightarrow> bool \<Rightarrow> bitmap result" where
  "bitmap_set bm index value =
     (if \<not> index < m_size bm then Inl VerifyFailed
      else bindR (read_byte bm (index div 8))
             (\<lambda>byte. write_byte bm (index div 8)
                (if value then byte OR push_bit (index mod 8) 1
                 else byte AND NOT (push_bit (index mod 8) 1))))"

section \<open>Ranges of bits\<close>

definition apply_mask :: "bool \<Rightarrow> bool \<Rightarrow> bitmap \<Rightarrow> nat \<Rightarrow> u8 \<Rightarrow> bitmap result" where
  "apply_mask value verify_that_all_bits_flip bm i byte_mask =
     bindR (read_byte bm i) (\<lambda>byte.
       if verify_that_all_bits_flip \<and>
          \<not> (if value then byte AND byte_mask = 0 else byte AND byte_mask = byte_mask)
       then Inl VerifyFailed
       else write_byte bm i (if value then byte OR byte_mask else byte AND NOT byte_mask))"

definition set_range_template :: "bool \<Rightarrow> bool \<Rightarrow> bitmap \<Rightarrow> nat \<Rightarrow> nat \<Rightarrow> bitmap result" where
  "set_range_template value flip bm start len =
     (if \<not> start < m_size bm then Inl VerifyFailed
      else if \<not> size_add start len \<le> m_size bm then Inl VerifyFailed
      else if len = 0 then Inr bm
      else
        let first = start div 8; last = size_add start len div 8;
            byte_mask = bitmask_first_byte ! (start mod 8);
            last_mask = bitmask_last_byte ! (size_add start len mod 8)
        in if first = last then apply_mask value flip bm first (byte_mask AND last_mask)
           else bindR (apply_mask value flip bm first byte_mask) (\<lambda>bm1.
                bindR (apply_mask value flip bm1 last last_mask) (\<lambda>bm2.
                if first + 1 < last
                then memset_bytes bm2 (first + 1) (if value then 0xFF else 0x0) (last - (first + 1))
                else Inr bm2)))"

definition bitmap_set_range :: "bitmap \<Rightarrow> nat \<Rightarrow> nat \<Rightarrow> bool \<Rightarrow> bitmap result" where
  "bitmap_set_range bm start len value =
     (if value then set_range_template True False bm start len
      else set_range_template False False bm start len)"

definition set_range_and_verify_that_all_bits_flip ::
    "bitmap \<Rightarrow> nat \<Rightarrow> nat \<Rightarrow> bool \<Rightarrow> bitmap result" where
  "set_range_and_verify_that_all_bits_flip bm start len value =
     (if value then set_range_template True True bm start len
      else set_range_template False True bm start len)"

definition bitmap_fill :: "bitmap \<Rightarrow> bool \<Rightarrow> bitmap result" where
  "bitmap_fill bm value = memset_bytes bm 0 (if value then 0xff else 0x00) (size_in_bytes bm)"

text \<open>
  \<open>kmalloc\<close> is a parameter: it returns the address and the (unspecified) contents of a
  block of the size asked for, or nothing.
\<close>

type_synonym kmalloc = "nat \<Rightarrow> (nat \<times> u8 list) option"

definition bitmap_create :: "kmalloc \<Rightarrow> nat \<Rightarrow> bool \<Rightarrow> bitmap result" where
  "bitmap_create kmalloc new_size default_value =
     (if new_size = 0 then Inl VerifyFailed
      else case kmalloc (ceil_div new_size 8) of
        None \<Rightarrow> Inl (Err ENOMEM)
      | Some (addr, bytes) \<Rightarrow>
          bitmap_fill \<lparr>m_addr = addr, m_data = bytes, m_size = new_size\<rparr> default_value)"

definition bitmap_grow :: "kmalloc \<Rightarrow> bitmap \<Rightarrow> nat \<Rightarrow> bool \<Rightarrow> bitmap result" where
  "bitmap_grow kmalloc bm new_size default_value =
     (if \<not> new_size > m_size bm then Inl VerifyFailed
      else case kmalloc (ceil_div new_size 8) of
        None \<Rightarrow> Inl OutOfBounds
      | Some (addr, bytes) \<Rightarrow>
          bindR (bitmap_fill \<lparr>m_addr = addr, m_data = bytes, m_size = new_size\<rparr> default_value) (\<lambda>bm1.
          if m_addr bm \<noteq> 0 then
            bindR (memcpy_bytes bm1 (m_data bm) (size_in_bytes bm)) (\<lambda>bm2.
            if m_size bm mod 8 \<noteq> 0
            then bitmap_set_range bm2 (m_size bm) (8 - m_size bm mod 8) default_value
            else Inr bm2)
          else Inr bm1))"

section \<open>Counting\<close>

function count_bytes :: "bitmap \<Rightarrow> nat \<Rightarrow> nat \<Rightarrow> nat \<Rightarrow> nat result" where
  "count_bytes bm first last_byte count =
     (if first < last_byte
      then bindR (read_byte bm first) (\<lambda>byte. count_bytes bm (first + 1) last_byte (count + popcount byte))
      else Inr count)"
  by pat_completeness auto
termination
  by (relation "measure (\<lambda>(bm, first, last_byte, count). last_byte - first)") auto

function count_words :: "bitmap \<Rightarrow> nat \<Rightarrow> nat \<Rightarrow> nat \<Rightarrow> (nat \<times> nat) result" where
  "count_words bm ptr_large last_large count =
     (if ptr_large < last_large
      then bindR (read_word bm ptr_large)
             (\<lambda>w. count_words bm (ptr_large + 8) last_large (count + popcount w))
      else Inr (ptr_large, count))"
  by pat_completeness auto
termination
  by (relation "measure (\<lambda>(bm, ptr, last_byte, count). last_byte - ptr)") auto

declare count_bytes.simps [simp del] count_words.simps [simp del]

definition count_in_range :: "bitmap \<Rightarrow> nat \<Rightarrow> nat \<Rightarrow> bool \<Rightarrow> nat result" where
  "count_in_range bm start len value =
     (if \<not> start < m_size bm then Inl VerifyFailed
      else if \<not> size_add start len \<le> m_size bm then Inl VerifyFailed
      else if len = 0 then Inr 0
      else
        let first = start div 8; last = size_add start len div 8;
            first_mask = bitmask_first_byte ! (start mod 8);
            last_mask = bitmask_last_byte ! (size_add start len mod 8)
        in bindR (read_byte bm first) (\<lambda>byte0.
           bindR
             (if first = last then Inr (popcount (byte0 AND first_mask AND last_mask))
              else bindR
                (if last < size_in_bytes bm
                 then bindR (read_byte bm last)
                        (\<lambda>b. Inr (popcount (byte0 AND first_mask) + popcount (b AND last_mask)))
                 else Inr (popcount (byte0 AND first_mask))) (\<lambda>count.
                if first + 1 < last then
                  let aligned = (m_addr bm + (first + 1) + 7) div 8 * 8 - m_addr bm;
                      ptr_large = (if aligned > last then last else aligned);
                      last_large = (m_addr bm + last) div 8 * 8 - m_addr bm
                  in bindR (count_bytes bm (first + 1) ptr_large count) (\<lambda>count1.
                     bindR (count_words bm ptr_large last_large count1) (\<lambda>(ptr, count2).
                     count_bytes bm ptr last count2))
                else Inr count))
           (\<lambda>count. Inr (if \<not> value then len - count else count))))"

definition count_slow :: "bitmap \<Rightarrow> bool \<Rightarrow> nat result" where
  "count_slow bm value = count_in_range bm 0 (m_size bm) value"

section \<open>Searching for one bit\<close>

function skip_bytes :: "bitmap \<Rightarrow> nat \<Rightarrow> nat \<Rightarrow> u8 \<Rightarrow> nat result" where
  "skip_bytes bm i byte_count byte =
     (if i < byte_count
      then bindR (read_byte bm i)
             (\<lambda>b. if b = byte then skip_bytes bm (i + 1) byte_count byte else Inr i)
      else Inr i)"
  by pat_completeness auto
termination
  by (relation "measure (\<lambda>(bm, i, n, byte). n - i)") auto

declare skip_bytes.simps [simp del]

definition hit_in_byte :: "bool \<Rightarrow> bitmap \<Rightarrow> nat \<Rightarrow> nat option result" where
  "hit_in_byte value bm i =
     bindR (read_byte bm i) (\<lambda>b.
       let byte = (if value then b else NOT b)
       in if byte = 0 then Inl VerifyFailed
          else Inr (Some (i * 8 + bit_scan_forward byte - 1)))"

definition find_first :: "bool \<Rightarrow> bitmap \<Rightarrow> nat option result" where
  "find_first value bm =
     bindR (skip_bytes bm 0 (size_in_bytes bm) (if value then 0x00 else 0xff)) (\<lambda>i.
       if i = size_in_bytes bm then Inr None else hit_in_byte value bm i)"

text \<open>
  \<open>find_one_anywhere\<close> works on absolute addresses, since it aligns pointers down to a
  multiple of \<open>sizeof(size_t)\<close>. It goes round its outer loop again only with \<open>hint = 0\<close>,
  which makes \<open>hint\<close> a measure.
\<close>

definition align_down :: "nat \<Rightarrow> nat" where
  "align_down p = p div 8 * 8"

function skip_words :: "bool \<Rightarrow> bitmap \<Rightarrow> nat \<Rightarrow> nat \<Rightarrow> nat result" where
  "skip_words value bm ptr_large end_large =
     (if ptr_large < end_large
      then bindR (read_word bm (ptr_large - m_addr bm))
             (\<lambda>w. if w = (if value then 0 else - 1) then skip_words value bm (ptr_large + 8) end_large
                  else Inr ptr_large)
      else Inr ptr_large)"
  by pat_completeness auto
termination
  by (relation "measure (\<lambda>(value, bm, p, e). e - p)") auto

declare skip_words.simps [simp del]

function find_one_anywhere_loop :: "bool \<Rightarrow> bitmap \<Rightarrow> nat \<Rightarrow> nat \<Rightarrow> nat option result" where
  "find_one_anywhere_loop value bm hint end_ptr =
     (let byte = (if value then 0x00 else 0xff);
          ptr0 = align_down (m_addr bm + hint div 8)
      in bindR
           (if ptr0 < m_addr bm then
              let start_ptr_large = ptr0 + 8 - m_addr bm
              in bindR (skip_bytes bm 0 start_ptr_large byte) (\<lambda>i.
                   if i < start_ptr_large
                   then bindR (hit_in_byte value bm i) (\<lambda>r. Inr (Inl r))
                   else Inr (Inr (ptr0 + 8)))
            else Inr (Inr ptr0))
         (\<lambda>step. case step of
              Inl r \<Rightarrow> Inr r
            | Inr ptr_large \<Rightarrow>
                bindR (skip_words value bm ptr_large (align_down end_ptr)) (\<lambda>ptr.
                  if ptr = align_down end_ptr then
                    let i0 = size_sub ptr (m_addr bm); byte_count = size_in_bytes bm
                    in if \<not> i0 \<le> byte_count then Inl VerifyFailed
                       else bindR (skip_bytes bm i0 byte_count byte) (\<lambda>i.
                         if i = byte_count then
                           if hint \<le> 8 then Inr None
                           else find_one_anywhere_loop value bm 0 (align_down (m_addr bm + hint div 8))
                         else hit_in_byte value bm i)
                  else
                    bindR (read_word bm (ptr - m_addr bm)) (\<lambda>w.
                      let val_large = (if value then w else NOT w)
                      in if val_large = 0 then Inl VerifyFailed
                         else Inr (Some ((ptr - m_addr bm) * 8 + bit_scan_forward val_large - 1))))))"
  by pat_completeness auto
termination
  by (relation "measure (\<lambda>(value, bm, hint, e). hint)") auto

declare find_one_anywhere_loop.simps [simp del]

definition find_one_anywhere :: "bool \<Rightarrow> bitmap \<Rightarrow> nat \<Rightarrow> nat option result" where
  "find_one_anywhere value bm hint =
     (if \<not> hint < m_size bm then Inl VerifyFailed
      else find_one_anywhere_loop value bm hint (m_addr bm + size_in_bytes bm))"

section \<open>Searching for a range of unset bits\<close>

text \<open>
  \<open>scan_bucket\<close> is the inner loop over the bits of one 64 bit bucket, \<open>scan_buckets\<close> the
  loop over the buckets, \<open>scan_trailing\<close> the loop over the bits after the last full bucket.
  The reference parameter \<open>from\<close> and the running length \<open>free_chunks\<close> are threaded
  through; a final \<open>Some\<close> is a \<open>return\<close> from inside the loop.
\<close>

function scan_bucket ::
    "nat \<Rightarrow> nat \<Rightarrow> nat \<Rightarrow> u64 \<Rightarrow> nat \<Rightarrow> nat \<Rightarrow> nat \<Rightarrow> nat \<times> nat \<times> nat option" where
  "scan_bucket base min_length max_length bucket viewed_bits from free_chunks =
     (if viewed_bits < 64 then
        if bucket = 0 then
          scan_bucket base min_length max_length bucket 64
            (if free_chunks = 0 then base + viewed_bits else from)
            (free_chunks + (64 - viewed_bits))
        else
          let trailing_zeroes = count_trailing_zeroes bucket;
              bucket' = drop_bit trailing_zeroes bucket;
              from' = (if free_chunks = 0 then base + viewed_bits else from);
              free' = free_chunks + trailing_zeroes;
              viewed' = viewed_bits + trailing_zeroes
          in if free' \<ge> min_length then (from', free', Some (min free' max_length))
             else
               let trailing_ones = count_trailing_zeroes (NOT bucket')
               in scan_bucket base min_length max_length (drop_bit trailing_ones bucket')
                    (viewed' + trailing_ones) from' 0
      else (from, free_chunks, None))"
  by pat_completeness auto
termination
proof (relation "measure (\<lambda>(base, mn, mx, bucket, viewed, from, free). 64 - viewed)", goal_cases)
  case (3 base min_length max_length bucket viewed_bits fr free_chunks tz bucket' fr' free' viewed' ones)
  then have "\<not> bit (NOT bucket') 0"
    by (simp add: bit_not_iff bit_0_drop_ctz)
  then have "0 < ones" using 3 ctz_pos by blast
  then show ?case using 3 by simp
qed auto

declare scan_bucket.simps [simp del]

function scan_buckets ::
    "bitmap \<Rightarrow> nat \<Rightarrow> nat \<Rightarrow> nat \<Rightarrow> nat \<Rightarrow> nat \<Rightarrow> nat \<Rightarrow> (nat \<times> nat \<times> nat option) result" where
  "scan_buckets bm min_length max_length bucket_index start_bucket_bit from free_chunks =
     (if bucket_index < m_size bm div 64 then
        bindR (read_word bm (8 * bucket_index)) (\<lambda>bucket.
          if bucket = - 1 then
            if free_chunks \<ge> min_length
            then Inr (from, free_chunks, Some (min free_chunks max_length))
            else scan_buckets bm min_length max_length (bucket_index + 1) 0 from 0
          else if bucket = 0 then
            let from' = (if free_chunks = 0 then bucket_index * 64 else from);
                free' = free_chunks + 64
            in if free' \<ge> max_length then Inr (from', free', Some max_length)
               else scan_buckets bm min_length max_length (bucket_index + 1) 0 from' free'
          else
            case scan_bucket (bucket_index * 64) min_length max_length
                   (drop_bit start_bucket_bit bucket) start_bucket_bit from free_chunks of
              (from', free', Some r) \<Rightarrow> Inr (from', free', Some r)
            | (from', free', None) \<Rightarrow>
                scan_buckets bm min_length max_length (bucket_index + 1) 0 from' free')
      else Inr (from, free_chunks, None))"
  by pat_completeness auto
termination
  by (relation "measure (\<lambda>(bm, mn, mx, idx, sb, from, free). m_size bm div 64 - idx)") auto

declare scan_buckets.simps [simp del]

function scan_trailing ::
    "bitmap \<Rightarrow> nat \<Rightarrow> nat \<Rightarrow> nat \<Rightarrow> nat \<Rightarrow> nat \<Rightarrow> (nat \<times> nat option) result" where
  "scan_trailing bm min_length max_length i from free_chunks =
     (if i < m_size bm mod 64 then
        bindR (bitmap_get bm (m_size bm div 64 * 64 + i)) (\<lambda>b.
          if \<not> b then
            let from' = (if free_chunks = 0 then m_size bm div 64 * 64 + i else from);
                free' = free_chunks + 1
            in if free' \<ge> min_length then Inr (from', Some (min free' max_length))
               else scan_trailing bm min_length max_length (i + 1) from' free'
          else scan_trailing bm min_length max_length (i + 1) from 0)
      else Inr (from, None))"
  by pat_completeness auto
termination
  by (relation "measure (\<lambda>(bm, mn, mx, i, from, free). m_size bm mod 64 - i)") auto

declare scan_trailing.simps [simp del]

definition find_next_range_of_unset_bits ::
    "bitmap \<Rightarrow> nat \<Rightarrow> nat \<Rightarrow> nat \<Rightarrow> (nat \<times> nat option) result" where
  "find_next_range_of_unset_bits bm from min_length max_length =
     (if min_length > max_length then Inr (from, None)
      else
        bindR (scan_buckets bm min_length max_length (from div 64) (from mod 64) from 0)
          (\<lambda>(from', free_chunks, r).
             case r of
               Some n \<Rightarrow> Inr (from', Some n)
             | None \<Rightarrow>
                 if free_chunks < min_length
                 then scan_trailing bm min_length max_length 0 from' free_chunks
                 else Inr (from', Some (min free_chunks max_length))))"

text \<open>
  The three searches built on it. The loops of \<open>find_longest_range_of_unset_bits\<close> and
  \<open>find_best_fit\<close> have no bound in the code; an outer \<open>None\<close> is a search that never
  returns.
\<close>

partial_function (option) find_longest_loop ::
    "bitmap \<Rightarrow> nat \<Rightarrow> nat \<Rightarrow> nat \<Rightarrow> nat \<Rightarrow> (nat \<times> nat option) result option" where
  "find_longest_loop bm max_length start max_region_start max_region_size =
     (case find_next_range_of_unset_bits bm start (max_region_size + 1) max_length of
        Inl e \<Rightarrow> Some (Inl e)
      | Inr (start', Some len) \<Rightarrow> find_longest_loop bm max_length (start' + len) start' len
      | Inr (start', None) \<Rightarrow>
          Some (Inr (max_region_size, if max_region_size \<noteq> 0 then Some max_region_start else None)))"

definition find_longest_range_of_unset_bits :: "bitmap \<Rightarrow> nat \<Rightarrow> (nat \<times> nat option) result option" where
  "find_longest_range_of_unset_bits bm max_length = find_longest_loop bm max_length 0 0 0"

definition find_first_fit :: "bitmap \<Rightarrow> nat \<Rightarrow> nat option result" where
  "find_first_fit bm minimum_length =
     bindR (find_next_range_of_unset_bits bm 0 minimum_length minimum_length)
       (\<lambda>(start, r). Inr (case r of Some _ \<Rightarrow> Some start | None \<Rightarrow> None))"

partial_function (option) find_best_loop ::
    "bitmap \<Rightarrow> nat \<Rightarrow> nat \<Rightarrow> nat \<Rightarrow> nat \<Rightarrow> bool \<Rightarrow> nat option result option" where
  "find_best_loop bm minimum_length start best_region_start best_region_size found =
     (case find_next_range_of_unset_bits bm start minimum_length best_region_size of
        Inl e \<Rightarrow> Some (Inl e)
      | Inr (start', Some len) \<Rightarrow>
          if best_region_size > len \<or> \<not> found
          then find_best_loop bm minimum_length (start' + len) start' len True
          else find_best_loop bm minimum_length (start' + len) best_region_start best_region_size found
      | Inr (start', None) \<Rightarrow> Some (Inr (if found then Some best_region_start else None)))"

definition find_best_fit :: "bitmap \<Rightarrow> nat \<Rightarrow> nat option result option" where
  "find_best_fit bm minimum_length = find_best_loop bm minimum_length 0 0 max_size False"

end
