(* ===== verification/Bitmap_Ranges.thy ===== *)
theory Bitmap_Ranges
  imports Bitmap
begin

text \<open>
  What the single bit and range operations of a bitmap do, in terms of its bits: \<open>bit_at\<close>
  reads the bit at a position straight off the buffer, and \<open>set_range\<close>, \<open>count_in_range\<close>
  and \<open>grow\<close>, which work on bytes, masks and words, are shown to do what a loop over the
  single bits would do.
\<close>

section \<open>Bits and well-formedness\<close>

definition bit_at :: "bitmap \<Rightarrow> nat \<Rightarrow> bool" where
  "bit_at bm i \<longleftrightarrow> bit (m_data bm ! (i div 8)) (i mod 8)"

definition wf_bitmap :: "bitmap \<Rightarrow> bool" where
  "wf_bitmap bm \<longleftrightarrow> size_in_bytes bm \<le> length (m_data bm) \<and> m_size bm < size_limit"

lemma wf_bitmap_byte: "wf_bitmap bm \<Longrightarrow> i < m_size bm \<Longrightarrow> i div 8 < length (m_data bm)"
  using less_imp_div_less_ceil_div [of 8 i "m_size bm"]
  by (simp add: wf_bitmap_def size_in_bytes_def)

lemma bits_in_buffer: "wf_bitmap bm \<Longrightarrow> m_size bm \<le> 8 * length (m_data bm)"
  using ceil_div_bound [of 8 "m_size bm"]
  by (simp add: wf_bitmap_def size_in_bytes_def)

lemma bitmap_get_eq:
  assumes "wf_bitmap bm"
  shows "bitmap_get bm i = (if i < m_size bm then Inr (bit_at bm i) else Inl VerifyFailed)"
  using assms by (simp add: bitmap_get_def read_byte_def wf_bitmap_byte bit_at_def and_exp_eq_0_iff_not_bit)

definition same_shape :: "bitmap \<Rightarrow> bitmap \<Rightarrow> bool" where
  "same_shape bm bm' \<longleftrightarrow>
     m_size bm' = m_size bm \<and> m_addr bm' = m_addr bm \<and> length (m_data bm') = length (m_data bm)"

lemma same_shape_refl [simp]: "same_shape bm bm"
  by (simp add: same_shape_def)

lemma same_shape_trans: "same_shape a b \<Longrightarrow> same_shape b c \<Longrightarrow> same_shape a c"
  by (simp add: same_shape_def)

lemma same_shape_wf: "same_shape bm bm' \<Longrightarrow> wf_bitmap bm \<Longrightarrow> wf_bitmap bm'"
  by (simp add: same_shape_def wf_bitmap_def size_in_bytes_def)

lemma bit_at_update:
  assumes "j < length (m_data bm)"
  shows "bit_at (bm\<lparr>m_data := (m_data bm)[j := b]\<rparr>) i =
           (if i div 8 = j then bit b (i mod 8) else bit_at bm i)"
  using assms by (auto simp: bit_at_def nth_list_update)

lemma bitmap_set_eq:
  assumes "wf_bitmap bm" and "index < m_size bm"
  shows "\<exists>bm'. bitmap_set bm index value = Inr bm' \<and> same_shape bm bm' \<and>
           (\<forall>i. bit_at bm' i = (if i = index then value else bit_at bm i))"
proof -
  let ?b = "m_data bm ! (index div 8)"
  let ?v = "if value then ?b OR push_bit (index mod 8) 1 else ?b AND NOT (push_bit (index mod 8) 1)"
  let ?bm = "bm\<lparr>m_data := (m_data bm)[index div 8 := ?v]\<rparr>"
  have len: "index div 8 < length (m_data bm)"
    using assms by (rule wf_bitmap_byte)
  have "bitmap_set bm index value = Inr ?bm"
    using assms len by (simp add: bitmap_set_def read_byte_def write_byte_def)
  moreover have "bit_at ?bm i = (if i = index then value else bit_at bm i)" for i
  proof -
    have "i = index \<longleftrightarrow> i div 8 = index div 8 \<and> i mod 8 = index mod 8"
      by (metis div_mult_mod_eq)
    then show ?thesis
      unfolding bit_at_update [OF len]
      by (auto simp: bit_at_def bit_simps)
  qed
  ultimately show ?thesis by (auto simp: same_shape_def)
qed

section \<open>Masks\<close>

lemma less_8_cases: "(r :: nat) < 8 \<Longrightarrow> r = 0 \<or> r = 1 \<or> r = 2 \<or> r = 3 \<or> r = 4 \<or> r = 5 \<or> r = 6 \<or> r = 7"
  by linarith

lemma bitmask_last_byte_eq: "r < 8 \<Longrightarrow> bitmask_last_byte ! r = mask r"
  by (drule less_8_cases) (auto simp: bitmask_last_byte_def mask_eq_exp_minus_1)

lemma bitmask_first_byte_eq: "r < 8 \<Longrightarrow> bitmask_first_byte ! r = NOT (mask r)"
  by (drule less_8_cases) (auto simp: bitmask_first_byte_def mask_eq_exp_minus_1)

lemma bit_last_mask: "r < 8 \<Longrightarrow> bit (bitmask_last_byte ! r) k \<longleftrightarrow> k < r"
  by (auto simp: bitmask_last_byte_eq bit_simps)

lemma bit_first_mask: "r < 8 \<Longrightarrow> bit (bitmask_first_byte ! r) k \<longleftrightarrow> r \<le> k \<and> k < 8"
  by (auto simp: bitmask_first_byte_eq bit_simps)

lemma apply_mask_eq:
  assumes len: "j < length (m_data bm)"
    and flip: "\<And>k. flip \<Longrightarrow> bit byte_mask k \<Longrightarrow> bit (m_data bm ! j) k \<noteq> value"
  shows "\<exists>bm'. apply_mask value flip bm j byte_mask = Inr bm' \<and> same_shape bm bm' \<and>
           (\<forall>i. bit_at bm' i = (if i div 8 = j \<and> bit byte_mask (i mod 8) then value else bit_at bm i))"
proof -
  let ?b = "m_data bm ! j"
  let ?v = "if value then ?b OR byte_mask else ?b AND NOT byte_mask"
  have "\<not> (flip \<and> \<not> (if value then ?b AND byte_mask = 0 else ?b AND byte_mask = byte_mask))"
    using flip by (auto simp: bit_eq_iff bit_simps)
  then have "apply_mask value flip bm j byte_mask = Inr (bm\<lparr>m_data := (m_data bm)[j := ?v]\<rparr>)"
    using len by (auto simp: apply_mask_def read_byte_def write_byte_def)
  moreover have "bit_at (bm\<lparr>m_data := (m_data bm)[j := ?v]\<rparr>) i =
      (if i div 8 = j \<and> bit byte_mask (i mod 8) then value else bit_at bm i)" for i
    unfolding bit_at_update [OF len] by (auto simp: bit_at_def bit_simps)
  ultimately show ?thesis by (auto simp: same_shape_def)
qed

lemma apply_mask_no_flip:
  assumes "j < length (m_data bm)" and "bit byte_mask k" and "bit (m_data bm ! j) k = value"
  shows "apply_mask value True bm j byte_mask = Inl VerifyFailed"
proof -
  have "k < 8" using assms(2) bit_imp_le_length [of byte_mask k] by simp
  with assms have "\<not> (if value then m_data bm ! j AND byte_mask = 0 else m_data bm ! j AND byte_mask = byte_mask)"
    by (auto simp: bit_eq_iff bit_simps)
  with assms(1) show ?thesis by (simp add: apply_mask_def read_byte_def)
qed

lemma memset_bytes_eq:
  assumes "off + n \<le> length (m_data bm)"
  shows "\<exists>bm'. memset_bytes bm off b n = Inr bm' \<and> same_shape bm bm' \<and>
           (\<forall>i. i div 8 < length (m_data bm) \<longrightarrow>
             bit_at bm' i = (if off \<le> i div 8 \<and> i div 8 < off + n then bit b (i mod 8) else bit_at bm i))"
  using assms by (auto simp: memset_bytes_def same_shape_def bit_at_def nth_fill_range)

section \<open>Ranges\<close>

text \<open>
  \<open>range_in_buffer\<close> is what the byte accesses of \<open>set_range\<close> need: the byte that holds
  position \<open>start + len\<close> is touched, even if no bit of it changes, as soon as it is not the
  byte that holds \<open>start\<close>.
\<close>

definition range_in_buffer :: "bitmap \<Rightarrow> nat \<Rightarrow> nat \<Rightarrow> bool" where
  "range_in_buffer bm start len \<longleftrightarrow>
     start div 8 = (start + len) div 8 \<or> (start + len) div 8 < length (m_data bm)"

definition bits_set_in :: "bitmap \<Rightarrow> nat \<Rightarrow> nat \<Rightarrow> bool \<Rightarrow> bitmap \<Rightarrow> bool" where
  "bits_set_in bm start len value bm' \<longleftrightarrow> same_shape bm bm' \<and>
     (\<forall>i < 8 * length (m_data bm).
        bit_at bm' i = (if start \<le> i \<and> i < start + len then value else bit_at bm i))"

lemma byte_split: "8 * (x div 8) + x mod 8 = (x :: nat)" and mod_8_less: "x mod 8 < (8 :: nat)"
  by simp_all

lemma same_byte_range:
  fixes i start e :: nat
  assumes "start div 8 = e div 8"
  shows "i div 8 = start div 8 \<and> start mod 8 \<le> i mod 8 \<and> i mod 8 < e mod 8 \<longleftrightarrow> start \<le> i \<and> i < e"
  (is "?l \<longleftrightarrow> ?r")
proof
  assume ?l
  then show ?r
    using assms byte_split [of start] byte_split [of i] byte_split [of e] by linarith
next
  assume r: ?r
  then have "start div 8 \<le> i div 8" and "i div 8 \<le> e div 8"
    by (simp_all add: div_le_mono)
  then have "i div 8 = start div 8" using assms by simp
  then show ?l
    using r assms byte_split [of start] byte_split [of i] byte_split [of e] by linarith
qed

lemma split_byte_range:
  fixes i start e :: nat
  assumes "start div 8 < e div 8"
  shows "(i div 8 = start div 8 \<and> start mod 8 \<le> i mod 8) \<or> (i div 8 = e div 8 \<and> i mod 8 < e mod 8) \<or>
         (start div 8 < i div 8 \<and> i div 8 < e div 8) \<longleftrightarrow> start \<le> i \<and> i < e"
  (is "?l \<longleftrightarrow> ?r")
proof
  assume ?l
  then show ?r
    using assms byte_split [of start] byte_split [of i] byte_split [of e]
      mod_8_less [of start] mod_8_less [of i] by linarith
next
  assume r: ?r
  then have "start div 8 \<le> i div 8" and "i div 8 \<le> e div 8"
    by (simp_all add: div_le_mono)
  then show ?l
    using r byte_split [of start] byte_split [of i] byte_split [of e] by linarith
qed

lemma bit_of_byte: "bit (m_data bm ! j) k = bit_at bm (8 * j + k)" if "k < 8"
  using that by (simp add: bit_at_def)

lemma bit_byte_iff: "bit (m_data bm ! j) k \<longleftrightarrow> k < 8 \<and> bit_at bm (8 * j + k)"
  using bit_imp_le_length [of "m_data bm ! j" k] by (auto simp: bit_of_byte)

lemma set_range_one_byte:
  assumes "start div 8 = (start + len) div 8" and "start div 8 < length (m_data bm)"
    and "\<And>i. flip \<Longrightarrow> start \<le> i \<Longrightarrow> i < start + len \<Longrightarrow> bit_at bm i \<noteq> value"
  shows "\<exists>bm'. apply_mask value flip bm (start div 8)
           (bitmask_first_byte ! (start mod 8) AND bitmask_last_byte ! ((start + len) mod 8)) = Inr bm'
         \<and> bits_set_in bm start len value bm'"
proof -
  let ?m = "bitmask_first_byte ! (start mod 8) AND bitmask_last_byte ! ((start + len) mod 8)"
  have m: "bit ?m k \<longleftrightarrow> start mod 8 \<le> k \<and> k < (start + len) mod 8" for k
    using less_trans [of k "(start + len) mod 8" 8]
    by (auto simp: bit_simps bit_first_mask bit_last_mask)
  have "bit (m_data bm ! (start div 8)) k \<noteq> value" if "flip" "bit ?m k" for k
  proof -
    have k: "start mod 8 \<le> k" "k < (start + len) mod 8" using that m by auto
    then have "k < 8" using less_trans [of k "(start + len) mod 8" 8] by simp
    moreover have "start \<le> 8 * (start div 8) + k \<and> 8 * (start div 8) + k < start + len"
      using k assms(1) byte_split [of start] byte_split [of "start + len"] by linarith
    ultimately show ?thesis using assms(3) \<open>flip\<close> by (simp add: bit_of_byte)
  qed
  from apply_mask_eq [OF assms(2), of flip ?m "value", OF this] obtain bm' where
    "apply_mask value flip bm (start div 8) ?m = Inr bm'" and sh: "same_shape bm bm'" and
    b: "\<And>i. bit_at bm' i = (if i div 8 = start div 8 \<and> bit ?m (i mod 8) then value else bit_at bm i)"
    by blast
  moreover have "bits_set_in bm start len value bm'"
    using sh same_byte_range [OF assms(1)] unfolding bits_set_in_def b m by simp
  ultimately show ?thesis by blast
qed

lemma set_range_many_bytes:
  assumes "start div 8 < (start + len) div 8" and "(start + len) div 8 < length (m_data bm)"
    and flip: "\<And>i. flip \<Longrightarrow> start \<le> i \<Longrightarrow> i < start + len \<Longrightarrow> bit_at bm i \<noteq> value"
  shows "\<exists>bm'. bindR (apply_mask value flip bm (start div 8) (bitmask_first_byte ! (start mod 8))) (\<lambda>bm1.
           bindR (apply_mask value flip bm1 ((start + len) div 8) (bitmask_last_byte ! ((start + len) mod 8))) (\<lambda>bm2.
           if start div 8 + 1 < (start + len) div 8
           then memset_bytes bm2 (start div 8 + 1) (if value then 0xFF else 0x0)
                  ((start + len) div 8 - (start div 8 + 1))
           else Inr bm2)) = Inr bm'
         \<and> bits_set_in bm start len value bm'"
proof -
  let ?s = "start div 8" and ?e = "(start + len) div 8"
  let ?m1 = "bitmask_first_byte ! (start mod 8)" and ?m2 = "bitmask_last_byte ! ((start + len) mod 8)"
  let ?fill = "if value then 0xFF else 0x0 :: u8"
  have "bit (m_data bm ! ?s) k \<noteq> value" if "flip" "bit ?m1 k" for k
  proof -
    have k: "start mod 8 \<le> k" "k < 8" using that bit_first_mask by auto
    moreover have "start \<le> 8 * ?s + k \<and> 8 * ?s + k < start + len"
      using k assms(1) byte_split [of start] byte_split [of "start + len"] by linarith
    ultimately show ?thesis using flip \<open>flip\<close> by (simp add: bit_of_byte)
  qed
  from apply_mask_eq [of ?s bm flip ?m1 "value", OF _ this] assms obtain bm1 where
    r1: "apply_mask value flip bm ?s ?m1 = Inr bm1" and sh1: "same_shape bm bm1" and
    b1: "\<And>i. bit_at bm1 i = (if i div 8 = ?s \<and> bit ?m1 (i mod 8) then value else bit_at bm i)"
    by auto
  have len1: "?e < length (m_data bm1)" using sh1 assms by (simp add: same_shape_def)
  have "bit (m_data bm1 ! ?e) k \<noteq> value" if "flip" "bit ?m2 k" for k
  proof -
    have k: "k < (start + len) mod 8" using that bit_last_mask by auto
    then have "k < 8" using less_trans [of k "(start + len) mod 8" 8] by simp
    moreover have "start \<le> 8 * ?e + k \<and> 8 * ?e + k < start + len"
      using k assms(1) byte_split [of start] byte_split [of "start + len"] by linarith
    ultimately show ?thesis using flip \<open>flip\<close> assms(1) by (simp add: bit_of_byte b1)
  qed
  from apply_mask_eq [OF len1, of flip ?m2 "value", OF this] obtain bm2 where
    r2: "apply_mask value flip bm1 ?e ?m2 = Inr bm2" and sh2: "same_shape bm1 bm2" and
    b2: "\<And>i. bit_at bm2 i = (if i div 8 = ?e \<and> bit ?m2 (i mod 8) then value else bit_at bm1 i)"
    by auto
  have sh12: "same_shape bm bm2" using sh1 sh2 by (rule same_shape_trans)
  have len2: "?s + 1 + (?e - (?s + 1)) \<le> length (m_data bm2)"
    using sh12 assms by (simp add: same_shape_def)
  obtain bm3 where
    r3: "(if ?s + 1 < ?e then memset_bytes bm2 (?s + 1) ?fill (?e - (?s + 1)) else Inr bm2) = Inr bm3"
    and sh3: "same_shape bm2 bm3" and
    b3: "\<And>i. i div 8 < length (m_data bm2) \<Longrightarrow>
      bit_at bm3 i = (if ?s < i div 8 \<and> i div 8 < ?e then value else bit_at bm2 i)"
  proof (cases "?s + 1 < ?e")
    case True
    have "bit ?fill (i mod 8) = value" for i
      using bit_first_mask [of 0 "i mod 8"] by (simp add: bitmask_first_byte_def)
    with memset_bytes_eq [OF len2, of ?fill] True that show ?thesis
      by (auto simp: less_Suc_eq_le Suc_le_eq)
  next
    case False
    then have "\<not> (?s < i div 8 \<and> i div 8 < ?e)" for i by linarith
    with False show ?thesis by (intro that [of bm2]) auto
  qed
  have "bits_set_in bm start len value bm3"
    unfolding bits_set_in_def
  proof (intro conjI allI impI)
    show "same_shape bm bm3" using sh12 sh3 by (rule same_shape_trans)
    fix i assume "i < 8 * length (m_data bm)"
    then have "i div 8 < length (m_data bm2)" using sh12 by (simp add: same_shape_def)
    then show "bit_at bm3 i = (if start \<le> i \<and> i < start + len then value else bit_at bm i)"
      using split_byte_range [OF assms(1), of i]
      by (auto simp: b3 b2 b1 bit_first_mask bit_last_mask)
  qed
  with r1 r2 r3 show ?thesis by auto
qed

lemma set_range_template_eq:
  assumes "wf_bitmap bm" and "start < m_size bm" and "start + len \<le> m_size bm"
    and "range_in_buffer bm start len"
    and "\<And>i. flip \<Longrightarrow> start \<le> i \<Longrightarrow> i < start + len \<Longrightarrow> bit_at bm i \<noteq> value"
  shows "\<exists>bm'. set_range_template value flip bm start len = Inr bm' \<and> bits_set_in bm start len value bm'"
proof -
  have add: "size_add start len = start + len"
    using assms by (simp add: wf_bitmap_def size_add_exact)
  have len: "start div 8 < length (m_data bm)"
    using assms by (simp add: wf_bitmap_byte)
  consider "len = 0" | "0 < len" "start div 8 = (start + len) div 8"
    | "0 < len" "start div 8 < (start + len) div 8" "(start + len) div 8 < length (m_data bm)"
    using assms(4) div_le_mono [of start "start + len" 8]
    by (auto simp: range_in_buffer_def le_less)
  then show ?thesis
  proof cases
    case 1
    then show ?thesis using assms add by (auto simp: set_range_template_def bits_set_in_def)
  next
    case 2
    then show ?thesis
      using assms add set_range_one_byte [OF 2(2) len, of flip "value", OF assms(5)]
      by (simp add: set_range_template_def)
  next
    case 3
    then show ?thesis
      using assms add set_range_many_bytes [OF 3(2,3), of flip "value", OF assms(5)]
      by (simp add: set_range_template_def Let_def)
  qed
qed

section \<open>Counting\<close>

definition ones :: "bitmap \<Rightarrow> nat \<Rightarrow> nat \<Rightarrow> nat" where
  "ones bm a b = card {i. a \<le> i \<and> i < b \<and> bit_at bm i}"

lemma ones_split: "a \<le> b \<Longrightarrow> b \<le> c \<Longrightarrow> ones bm a c = ones bm a b + ones bm b c"
proof -
  assume "a \<le> b" "b \<le> c"
  then have "{i. a \<le> i \<and> i < c \<and> bit_at bm i} =
      {i. a \<le> i \<and> i < b \<and> bit_at bm i} \<union> {i. b \<le> i \<and> i < c \<and> bit_at bm i}"
    by auto
  then show ?thesis by (simp add: ones_def card_Un_disjoint disjoint_iff)
qed

lemma ones_empty [simp]: "ones bm a a = 0"
  by (simp add: ones_def)

lemma popcount_card: "popcount (w :: 'a::len word) = card {k. k < LENGTH('a) \<and> bit w k}"
proof -
  have "popcount w = card (set (filter (\<lambda>i. bit w i) [0..<LENGTH('a)]))"
    by (subst distinct_card) (simp_all add: popcount_def)
  also have "set (filter (\<lambda>i. bit w i) [0..<LENGTH('a)]) = {k. k < LENGTH('a) \<and> bit w k}"
    by auto
  finally show ?thesis .
qed

lemma popcount_shift:
  assumes "\<And>k. bit (w :: 'a::len word) k \<longleftrightarrow> k < LENGTH('a) \<and> lo \<le> base + k \<and> base + k < hi \<and> bit_at bm (base + k)"
    and "base \<le> lo" and "hi \<le> base + LENGTH('a)"
  shows "popcount w = ones bm lo hi"
proof -
  have "bij_betw (\<lambda>k. base + k) {k. k < LENGTH('a) \<and> bit w k} {i. lo \<le> i \<and> i < hi \<and> bit_at bm i}"
  proof (rule bij_betw_imageI)
    show "inj_on ((+) base) {k. k < LENGTH('a) \<and> bit w k}" by simp
    show "(+) base ` {k. k < LENGTH('a) \<and> bit w k} = {i. lo \<le> i \<and> i < hi \<and> bit_at bm i}"
    proof (intro set_eqI iffI)
      fix i assume "i \<in> {i. lo \<le> i \<and> i < hi \<and> bit_at bm i}"
      with assms(2,3) show "i \<in> (+) base ` {k. k < LENGTH('a) \<and> bit w k}"
        by (intro image_eqI [of _ _ "i - base"]) (auto simp: assms(1))
    qed (auto simp: assms(1))
  qed
  then show ?thesis unfolding popcount_card ones_def by (rule bij_betw_same_card)
qed

lemma popcount_byte:
  assumes "\<And>k. bit byte_mask k \<longleftrightarrow> k < 8 \<and> lo \<le> 8 * j + k \<and> 8 * j + k < hi"
    and "8 * j \<le> lo" and "hi \<le> 8 * j + 8"
  shows "popcount (m_data bm ! j AND byte_mask) = ones bm lo hi"
  using assms by (intro popcount_shift [of _ lo "8 * j"]) (auto simp: bit_simps bit_byte_iff)

lemma popcount_whole_byte: "popcount (m_data bm ! j) = ones bm (8 * j) (8 * j + 8)"
  by (intro popcount_shift [of _ _ "8 * j"]) (auto simp: bit_byte_iff)

lemma popcount_word: "popcount (read_size_t (m_data bm) j) = ones bm (8 * j) (8 * j + 64)"
  by (intro popcount_shift [of _ _ "8 * j"]) (auto simp: bit_read_size_t bit_at_def)

lemma count_bytes_eq:
  "first \<le> last_byte \<Longrightarrow> last_byte \<le> length (m_data bm) \<Longrightarrow>
   count_bytes bm first last_byte count = Inr (count + ones bm (8 * first) (8 * last_byte))"
proof (induction bm first last_byte count rule: count_bytes.induct)
  case (1 bm first last_byte count)
  show ?case
  proof (cases "first < last_byte")
    case True
    have "ones bm (8 * first) (8 * last_byte) =
        popcount (m_data bm ! first) + ones bm (8 * (first + 1)) (8 * last_byte)"
      using True ones_split [of "8 * first" "8 * first + 8" "8 * last_byte" bm]
      by (simp add: popcount_whole_byte add.commute)
    then show ?thesis
      using True 1 by (subst count_bytes.simps) (simp add: read_byte_def)
  next
    case False
    then show ?thesis using 1 by (subst count_bytes.simps) simp
  qed
qed

lemma count_words_eq:
  "ptr \<le> last_large \<Longrightarrow> last_large \<le> length (m_data bm) \<Longrightarrow> 8 dvd (last_large - ptr) \<Longrightarrow>
   count_words bm ptr last_large count = Inr (last_large, count + ones bm (8 * ptr) (8 * last_large))"
proof (induction bm ptr last_large count rule: count_words.induct)
  case (1 bm ptr last_large count)
  show ?case
  proof (cases "ptr < last_large")
    case True
    then have le: "ptr + 8 \<le> last_large"
      using 1(4) dvd_imp_le [of 8 "last_large - ptr"] by linarith
    have dvd: "8 dvd (last_large - (ptr + 8))"
      using 1(4) le dvd_diff_nat [of 8 "last_large - ptr" 8] by (simp add: diff_diff_add)
    have "ones bm (8 * ptr) (8 * last_large) =
        popcount (read_size_t (m_data bm) ptr) + ones bm (8 * (ptr + 8)) (8 * last_large)"
      using le ones_split [of "8 * ptr" "8 * ptr + 64" "8 * last_large" bm]
      by (simp add: popcount_word algebra_simps)
    then show ?thesis
      using True le dvd 1 by (subst count_words.simps) (simp add: read_word_def)
  next
    case False
    then show ?thesis using 1 by (subst count_words.simps) simp
  qed
qed

lemma count_words_none: "last_large \<le> ptr \<Longrightarrow> count_words bm ptr last_large count = Inr (ptr, count)"
  by (subst count_words.simps) simp

lemma count_middle:
  assumes "a \<le> l" and "l \<le> length (m_data bm)"
  shows "(let aligned = (m_addr bm + a + 7) div 8 * 8 - m_addr bm;
              ptr_large = (if aligned > l then l else aligned);
              last_large = (m_addr bm + l) div 8 * 8 - m_addr bm
          in bindR (count_bytes bm a ptr_large count) (\<lambda>count1.
             bindR (count_words bm ptr_large last_large count1) (\<lambda>(ptr, count2).
             count_bytes bm ptr l count2))) = Inr (count + ones bm (8 * a) (8 * l))"
proof -
  define up where "up = (m_addr bm + a + 7) div 8"
  define down where "down = (m_addr bm + l) div 8"
  define ptr where "ptr = (if up * 8 - m_addr bm > l then l else up * 8 - m_addr bm)"
  have up: "m_addr bm + a \<le> up * 8" and down: "down * 8 \<le> m_addr bm + l"
    unfolding up_def down_def by linarith+
  have ptr: "a \<le> ptr" "ptr \<le> l"
    using up assms by (auto simp: ptr_def)
  have c1: "count_bytes bm a ptr count = Inr (count + ones bm (8 * a) (8 * ptr))"
    using ptr assms by (intro count_bytes_eq) auto
  show ?thesis
  proof (cases "ptr < down * 8 - m_addr bm")
    case True
    then have p: "ptr = up * 8 - m_addr bm" using down by (auto simp: ptr_def split: if_splits)
    have "8 dvd (down * 8 - m_addr bm - ptr)"
      unfolding p using up True by (simp add: diff_diff_eq flip: diff_mult_distrib)
    then have c2: "count_words bm ptr (down * 8 - m_addr bm) c =
        Inr (down * 8 - m_addr bm, c + ones bm (8 * ptr) (8 * (down * 8 - m_addr bm)))" for c
      using True down assms by (intro count_words_eq) auto
    have c3: "count_bytes bm (down * 8 - m_addr bm) l c =
        Inr (c + ones bm (8 * (down * 8 - m_addr bm)) (8 * l))" for c
      using down assms by (intro count_bytes_eq) auto
    have "ones bm (8 * a) (8 * l) = ones bm (8 * a) (8 * ptr) +
        ones bm (8 * ptr) (8 * (down * 8 - m_addr bm)) + ones bm (8 * (down * 8 - m_addr bm)) (8 * l)"
      using ptr True down ones_split [of "8 * a" "8 * ptr" "8 * l" bm]
        ones_split [of "8 * ptr" "8 * (down * 8 - m_addr bm)" "8 * l" bm] by simp
    with c1 c2 c3 show ?thesis
      by (simp add: Let_def ptr_def [symmetric] up_def [symmetric] down_def [symmetric])
  next
    case False
    have c3: "count_bytes bm ptr l c = Inr (c + ones bm (8 * ptr) (8 * l))" for c
      using ptr assms by (intro count_bytes_eq) auto
    have "ones bm (8 * a) (8 * l) = ones bm (8 * a) (8 * ptr) + ones bm (8 * ptr) (8 * l)"
      using ptr ones_split [of "8 * a" "8 * ptr" "8 * l" bm] by simp
    with False c1 c3 show ?thesis
      by (simp add: Let_def ptr_def [symmetric] up_def [symmetric] down_def [symmetric] count_words_none)
  qed
qed

lemma ones_value:
  "(if \<not> value then len - ones bm start (start + len) else ones bm start (start + len)) =
   card {i. start \<le> i \<and> i < start + len \<and> bit_at bm i = value}"
proof (cases "value")
  case True
  then show ?thesis by (simp add: ones_def)
next
  case False
  let ?A = "{i. start \<le> i \<and> i < start + len}" and ?B = "{i. start \<le> i \<and> i < start + len \<and> bit_at bm i}"
  have "?A = {start ..< start + len}" by auto
  then have "card ?A = len" and "finite ?A" by simp_all
  moreover have "{i. start \<le> i \<and> i < start + len \<and> bit_at bm i = value} = ?A - ?B"
    using False by auto
  moreover have "?B \<subseteq> ?A" by auto
  ultimately show ?thesis
    using False card_Diff_subset [of ?B ?A] finite_subset [of ?B ?A] by (simp add: ones_def)
qed

lemma bit_first_mask_pos: "bit (bitmask_first_byte ! (x mod 8)) k \<longleftrightarrow> k < 8 \<and> x \<le> 8 * (x div 8) + k"
  using bit_first_mask [of "x mod 8" k] byte_split [of x] by (auto, linarith+)

lemma bit_last_mask_pos: "bit (bitmask_last_byte ! (x mod 8)) k \<longleftrightarrow> k < 8 \<and> 8 * (x div 8) + k < x"
  using bit_last_mask [of "x mod 8" k] byte_split [of x] mod_8_less [of x] by (auto, linarith+)

lemma count_first_last:
  assumes "start div 8 < e div 8" and "e \<le> m_size bm" and wf: "wf_bitmap bm"
  shows "(if e div 8 < size_in_bytes bm
          then bindR (read_byte bm (e div 8))
                 (\<lambda>b. Inr (popcount (m_data bm ! (start div 8) AND bitmask_first_byte ! (start mod 8)) +
                            popcount (b AND bitmask_last_byte ! (e mod 8))))
          else Inr (popcount (m_data bm ! (start div 8) AND bitmask_first_byte ! (start mod 8)))) =
         Inr (ones bm start (8 * (start div 8 + 1)) + ones bm (8 * (e div 8)) e)"
proof -
  have f: "popcount (m_data bm ! (start div 8) AND bitmask_first_byte ! (start mod 8)) =
      ones bm start (8 * (start div 8 + 1))"
    by (intro popcount_byte) (auto simp: bit_first_mask_pos)
  have l: "popcount (m_data bm ! (e div 8) AND bitmask_last_byte ! (e mod 8)) = ones bm (8 * (e div 8)) e"
    using byte_split [of e] mod_8_less [of e]
    by (intro popcount_byte) (auto simp: bit_last_mask_pos)
  show ?thesis
  proof (cases "e div 8 < size_in_bytes bm")
    case True
    then have "e div 8 < length (m_data bm)" using wf by (simp add: wf_bitmap_def)
    with True f l show ?thesis by (simp add: read_byte_def)
  next
    case False
    then have "e \<le> 8 * (e div 8)"
      using assms(2) ceil_div_bound [of 8 "m_size bm"] by (simp add: size_in_bytes_def)
    then have "ones bm (8 * (e div 8)) e = 0" by (simp add: ones_def)
    with False f show ?thesis by simp
  qed
qed

lemma count_in_range_ones:
  assumes "wf_bitmap bm" and "start < m_size bm" and "start + len \<le> m_size bm"
  shows "count_in_range bm start len value =
           Inr (if \<not> value then len - ones bm start (start + len) else ones bm start (start + len))"
proof -
  let ?e = "start + len"
  have add: "size_add start len = ?e"
    using assms by (simp add: wf_bitmap_def size_add_exact)
  have s: "start div 8 < length (m_data bm)"
    using assms by (simp add: wf_bitmap_byte)
  consider "len = 0" | "0 < len" "start div 8 = ?e div 8" | "0 < len" "start div 8 < ?e div 8"
    using div_le_mono [of start ?e 8] by (auto simp: le_less)
  then show ?thesis
  proof cases
    case 1
    then show ?thesis using assms add by (simp add: count_in_range_def)
  next
    case 2
    have "popcount (m_data bm ! (start div 8) AND (bitmask_first_byte ! (start mod 8) AND bitmask_last_byte ! (?e mod 8))) =
        ones bm start ?e"
    proof (rule popcount_byte)
      show "?e \<le> 8 * (start div 8) + 8"
        using 2 byte_split [of ?e] mod_8_less [of ?e] by linarith
    qed (use 2 in \<open>auto simp: bit_simps bit_first_mask_pos bit_last_mask_pos\<close>)
    then show ?thesis
      using 2 assms add s by (simp add: count_in_range_def read_byte_def and.assoc)
  next
    case 3
    have l: "?e div 8 \<le> length (m_data bm)"
      using assms bits_in_buffer [of bm] by linarith
    have "ones bm start ?e = ones bm start (8 * (start div 8 + 1)) + ones bm (8 * (?e div 8)) ?e +
        ones bm (8 * (start div 8 + 1)) (8 * (?e div 8))"
    proof -
      have "start \<le> 8 * (start div 8 + 1)" by presburger
      moreover have "8 * (start div 8 + 1) \<le> 8 * (?e div 8)"
        using 3 by simp
      moreover have "8 * (?e div 8) \<le> ?e" by simp
      ultimately show ?thesis
        using ones_split [of start "8 * (start div 8 + 1)" ?e bm]
          ones_split [of "8 * (start div 8 + 1)" "8 * (?e div 8)" ?e bm] by simp
    qed
    moreover have "\<not> Suc (start div 8) < ?e div 8 \<Longrightarrow> ones bm (8 + 8 * (start div 8)) (8 * (?e div 8)) = 0"
      by (auto simp: ones_def)
    ultimately show ?thesis
      using 3 assms add s l count_first_last [OF 3(2) assms(3,1)]
        count_middle [of "start div 8 + 1" "?e div 8" bm]
      by (auto simp: count_in_range_def read_byte_def Let_def [where s = "start div 8"]
          Let_def [where s = "_ div 8"] Let_def [where s = "_ ! _"])
  qed
qed

section \<open>Growing\<close>

definition fresh_block :: "kmalloc \<Rightarrow> nat \<Rightarrow> bool" where
  "fresh_block kmalloc n \<longleftrightarrow> (\<exists>addr bytes. kmalloc n = Some (addr, bytes) \<and> addr \<noteq> 0 \<and> length bytes = n)"

lemma bitmap_fill_eq:
  assumes "size_in_bytes bm \<le> length (m_data bm)"
  shows "\<exists>bm'. bitmap_fill bm value = Inr bm' \<and> same_shape bm bm' \<and>
           (\<forall>i < 8 * size_in_bytes bm. bit_at bm' i = value)"
proof -
  have "bit (if value then 0xff else 0x00 :: u8) (i mod 8) = value" for i
    using bit_first_mask [of 0 "i mod 8"] by (simp add: bitmask_first_byte_def)
  moreover have "i div 8 < length (m_data bm)" if "i < 8 * size_in_bytes bm" for i
    using that assms by linarith
  ultimately show ?thesis
    using memset_bytes_eq [of 0 "size_in_bytes bm" bm "if value then 0xff else 0x00"] assms
    by (fastforce simp: bitmap_fill_def)
qed

lemma memcpy_bytes_eq:
  assumes "n \<le> length (m_data bm)" and "n \<le> length (m_data old)"
  shows "\<exists>bm'. memcpy_bytes bm (m_data old) n = Inr bm' \<and> same_shape bm bm' \<and>
           (\<forall>i < 8 * length (m_data bm). bit_at bm' i = (if i < 8 * n then bit_at old i else bit_at bm i))"
proof -
  have "(take n (m_data old) @ drop n (m_data bm)) ! (i div 8) =
      (if i < 8 * n then m_data old ! (i div 8) else m_data bm ! (i div 8))" for i
    using assms by (auto simp: nth_append)
  then show ?thesis
    using assms by (auto simp: memcpy_bytes_def same_shape_def bit_at_def)
qed

lemma round_up_8: "m mod 8 \<noteq> 0 \<Longrightarrow> m + (8 - m mod 8) = 8 * (m div 8 + 1)" for m :: nat
  by presburger

lemma ceil_div_8: "8 * ceil_div m 8 = (if m mod 8 = 0 then m else 8 * (m div 8 + 1))"
  using byte_split [of m] by (auto simp: ceil_div_def)

lemma grow_copied:
  assumes "wf_bitmap bm" and "m_size bm < new_size" and "m_addr bm \<noteq> 0"
    and "fresh_block kmalloc (ceil_div new_size 8)"
  shows "\<exists>bm2. bitmap_grow kmalloc bm new_size v =
             (if m_size bm mod 8 \<noteq> 0 then bitmap_set_range bm2 (m_size bm) (8 - m_size bm mod 8) v
              else Inr bm2) \<and>
           m_size bm2 = new_size \<and> length (m_data bm2) = ceil_div new_size 8 \<and>
           (\<forall>i < 8 * ceil_div new_size 8. bit_at bm2 i = (if i < 8 * ceil_div (m_size bm) 8 then bit_at bm i else v))"
proof -
  from assms(4) obtain addr bytes where
    k: "kmalloc (ceil_div new_size 8) = Some (addr, bytes)" "length bytes = ceil_div new_size 8"
    by (auto simp: fresh_block_def)
  let ?bm0 = "\<lparr>m_addr = addr, m_data = bytes, m_size = new_size\<rparr>"
  obtain bm1 where f: "bitmap_fill ?bm0 v = Inr bm1" "same_shape ?bm0 bm1"
    "\<And>i. i < 8 * ceil_div new_size 8 \<Longrightarrow> bit_at bm1 i = v"
    using bitmap_fill_eq [of ?bm0 v] k by (auto simp: size_in_bytes_def)
  have "ceil_div (m_size bm) 8 \<le> ceil_div new_size 8"
    using assms(2) ceil_div_8 [of "m_size bm"] ceil_div_8 [of new_size] div_le_mono [of "m_size bm" new_size 8]
    by (auto split: if_splits)
  then obtain bm2 where m: "memcpy_bytes bm1 (m_data bm) (ceil_div (m_size bm) 8) = Inr bm2" "same_shape bm1 bm2"
    "\<And>i. i < 8 * ceil_div new_size 8 \<Longrightarrow>
       bit_at bm2 i = (if i < 8 * ceil_div (m_size bm) 8 then bit_at bm i else bit_at bm1 i)"
    using memcpy_bytes_eq [of "ceil_div (m_size bm) 8" bm1 bm] f(2) k assms(1)
    by (auto simp: wf_bitmap_def size_in_bytes_def same_shape_def)
  show ?thesis
    using assms(2,3) k f m
    by (intro exI [of _ bm2]) (auto simp: bitmap_grow_def size_in_bytes_def same_shape_def)
qed

section \<open>Properties\<close>

lemma bits_set_in_unique:
  assumes "bits_set_in bm start len value a" and "bits_set_in bm start len value b"
  shows "a = b"
proof -
  have sh: "same_shape bm a" "same_shape bm b" using assms by (simp_all add: bits_set_in_def)
  have "m_data a = m_data b"
  proof (rule nth_equalityI)
    show "length (m_data a) = length (m_data b)" using sh by (simp add: same_shape_def)
    fix j assume "j < length (m_data a)"
    then have j: "j < length (m_data bm)" using sh by (simp add: same_shape_def)
    show "m_data a ! j = m_data b ! j"
    proof (rule bit_word_eqI)
      fix n assume "n < LENGTH(8)"
      then have n: "(8 * j + n) div 8 = j" "(8 * j + n) mod 8 = n" "8 * j + n < 8 * length (m_data bm)" using j by simp_all
      have "bit_at a (8 * j + n) = bit_at b (8 * j + n)" using assms n(3) by (simp add: bits_set_in_def)
      then show "bit (m_data a ! j) n = bit (m_data b ! j) n" using n(1,2) by (simp add: bit_at_def)
    qed
  qed
  then show ?thesis using sh by (cases a; cases b) (simp add: same_shape_def)
qed

lemma bits_set_get:
  assumes "wf_bitmap bm" and "bits_set_in bm start len value bm'"
  shows "m_size bm' = m_size bm \<and> wf_bitmap bm' \<and>
    (\<forall>i < m_size bm. bitmap_get bm' i = (if start \<le> i \<and> i < start + len then Inr value else bitmap_get bm i))"
proof -
  from assms(2) have sh: "same_shape bm bm'" by (simp add: bits_set_in_def)
  then have wf: "wf_bitmap bm'" using assms(1) by (rule same_shape_wf)
  have "bit_at bm' i = (if start \<le> i \<and> i < start + len then value else bit_at bm i)" if "i < m_size bm" for i
    using assms(2) that bits_in_buffer [OF assms(1)] by (simp add: bits_set_in_def)
  with sh wf assms(1) show ?thesis by (auto simp: bitmap_get_eq same_shape_def)
qed

text \<open>
  C18: Setting a range of bits that ends inside the buffer changes exactly the bits of the range, though the code works
  with two byte masks and a \<open>memset\<close> in between: \<open>set_range\<close> does so whatever the bits are, and
  \<open>set_range_and_verify_that_all_bits_flip\<close> if all of them have the other value.
\<close>
theorem set_range_correct:
  assumes "wf_bitmap bm" and "start < m_size bm" and "start + len \<le> m_size bm" and "range_in_buffer bm start len"
  shows "\<exists>bm'. bitmap_set_range bm start len value = Inr bm' \<and>
      ((\<forall>i. start \<le> i \<and> i < start + len \<longrightarrow> bit_at bm i \<noteq> value) \<longrightarrow>
        set_range_and_verify_that_all_bits_flip bm start len value = Inr bm') \<and>
      m_size bm' = m_size bm \<and> wf_bitmap bm' \<and>
      (\<forall>i < m_size bm. bitmap_get bm' i = (if start \<le> i \<and> i < start + len then Inr value else bitmap_get bm i))"
proof -
  obtain bm' where r: "set_range_template value False bm start len = Inr bm'" and b: "bits_set_in bm start len value bm'"
    using set_range_template_eq [OF assms, of False "value"] by blast
  have "set_range_template value True bm start len = Inr bm'" if flips: "\<forall>i. start \<le> i \<and> i < start + len \<longrightarrow> bit_at bm i \<noteq> value"
  proof -
    obtain bm2 where r2: "set_range_template value True bm start len = Inr bm2" and b2: "bits_set_in bm start len value bm2"
      using set_range_template_eq [OF assms, of True "value"] flips by blast
    then show ?thesis using bits_set_in_unique [OF b2 b] by simp
  qed
  then show ?thesis using r bits_set_get [OF assms(1) b]
    by (intro exI [of _ bm'], cases "value") (simp_all add: bitmap_set_range_def set_range_and_verify_that_all_bits_flip_def)
qed

definition example_bitmap :: bitmap where
  "example_bitmap = \<lparr>m_addr = 4096, m_data = [0, 0, 0, 0], m_size = 27\<rparr>"

lemma example_bitmap_wf: "wf_bitmap example_bitmap"
  by (simp add: wf_bitmap_def example_bitmap_def size_in_bytes_def ceil_div_def)

lemma example_bitmap_clear: "i < 32 \<Longrightarrow> \<not> bit_at example_bitmap i"
  using less_mult_imp_div_less [of i 4 8]
  by (auto simp: bit_at_def example_bitmap_def nth_Cons split: nat.splits)

theorem set_range_correct_witness:
  "\<exists>bm'. bitmap_set_range example_bitmap 5 20 True = Inr bm' \<and> set_range_and_verify_that_all_bits_flip example_bitmap 5 20 True = Inr bm' \<and>
     bitmap_get bm' 4 = Inr False \<and> bitmap_get bm' 5 = Inr True \<and>
     bitmap_get bm' 24 = Inr True \<and> bitmap_get bm' 25 = Inr False"
proof -
  have "m_size example_bitmap = 27" and "range_in_buffer example_bitmap 5 20"
    by (simp_all add: example_bitmap_def range_in_buffer_def)
  moreover have "\<forall>i. 5 \<le> i \<and> i < 5 + 20 \<longrightarrow> bit_at example_bitmap i \<noteq> True"
    by (simp add: example_bitmap_clear)
  ultimately show ?thesis
    using set_range_correct [OF example_bitmap_wf, of 5 20 True]
    by (auto simp: bitmap_get_eq [OF example_bitmap_wf] example_bitmap_clear)
qed

text \<open>
  C25: \<open>count_in_range\<close>, which counts by masked bytes, aligned 64 bit words and remaining bytes,
  returns the number of bits of the range that have the value asked for.
\<close>
theorem count_in_range_correct:
  assumes "wf_bitmap bm" and "start < m_size bm" and "start + len \<le> m_size bm"
  shows "count_in_range bm start len value =
           Inr (card {i. start \<le> i \<and> i < start + len \<and> bitmap_get bm i = Inr value})"
proof -
  have "{i. start \<le> i \<and> i < start + len \<and> bitmap_get bm i = Inr value} =
      {i. start \<le> i \<and> i < start + len \<and> bit_at bm i = value}"
    using assms by (auto simp: bitmap_get_eq)
  then show ?thesis
    using count_in_range_ones [OF assms, of "value"] by (simp add: ones_value)
qed

theorem count_in_range_correct_witness:
  "count_in_range example_bitmap 3 20 False =
     Inr (card {i. 3 \<le> i \<and> i < 3 + 20 \<and> bitmap_get example_bitmap i = Inr False})"
  by (rule count_in_range_correct [OF example_bitmap_wf]) (simp_all add: example_bitmap_def)

text \<open>
  Growing a bitmap past the byte that holds its last bit keeps all of its bits and gives the
  new bits the default value, although the bytes are copied whole and the padding bits of the
  old last byte are copied with them.
\<close>
theorem bitmap_grow_correct:
  assumes "wf_bitmap bm" and "m_addr bm \<noteq> 0" and "8 * size_in_bytes bm < new_size"
    and "new_size < size_limit" and "fresh_block kmalloc (ceil_div new_size 8)"
  shows "\<exists>bm'. bitmap_grow kmalloc bm new_size v = Inr bm' \<and> m_size bm' = new_size \<and> wf_bitmap bm' \<and>
           (\<forall>i < new_size. bitmap_get bm' i = (if i < m_size bm then bitmap_get bm i else Inr v))"
proof -
  have lt: "m_size bm < new_size"
    using assms(3) ceil_div_bound [of 8 "m_size bm"] by (simp add: size_in_bytes_def)
  obtain bm2 where g: "bitmap_grow kmalloc bm new_size v =
      (if m_size bm mod 8 \<noteq> 0 then bitmap_set_range bm2 (m_size bm) (8 - m_size bm mod 8) v else Inr bm2)"
    and sz: "m_size bm2 = new_size" "length (m_data bm2) = ceil_div new_size 8"
    and b2: "\<And>i. i < 8 * ceil_div new_size 8 \<Longrightarrow>
      bit_at bm2 i = (if i < 8 * ceil_div (m_size bm) 8 then bit_at bm i else v)"
    using grow_copied [OF assms(1) lt assms(2,5), of v] by blast
  have wf2: "wf_bitmap bm2" using sz assms(4) by (simp add: wf_bitmap_def size_in_bytes_def)
  have ceil: "i < 8 * ceil_div new_size 8" if "i < new_size" for i
    using that ceil_div_bound [of 8 new_size] by simp
  show ?thesis
  proof (cases "m_size bm mod 8 = 0")
    case True
    then have "8 * ceil_div (m_size bm) 8 = m_size bm" by (simp add: ceil_div_8)
    with True g sz wf2 b2 ceil assms(1) show ?thesis
      by (intro exI [of _ bm2]) (auto simp: bitmap_get_eq)
  next
    case False
    let ?len = "8 - m_size bm mod 8"
    have e: "m_size bm + ?len = 8 * ceil_div (m_size bm) 8"
      using False round_up_8 [of "m_size bm"] by (simp add: ceil_div_8)
    have "m_size bm + ?len \<le> m_size bm2" and "range_in_buffer bm2 (m_size bm) ?len"
      using assms(3) e sz ceil [of "m_size bm + ?len"] by (auto simp: range_in_buffer_def size_in_bytes_def)
    then obtain bm3 where r: "bitmap_set_range bm2 (m_size bm) ?len v = Inr bm3"
      and b3: "bits_set_in bm2 (m_size bm) ?len v bm3"
      using set_range_template_eq [OF wf2, of "m_size bm" ?len False v] lt sz
      by (cases v) (auto simp: bitmap_set_range_def)
    have "same_shape bm2 bm3" using b3 by (simp add: bits_set_in_def)
    then have wf3: "wf_bitmap bm3" and sz3: "m_size bm3 = new_size"
      using wf2 sz same_shape_wf [of bm2 bm3] by (simp_all add: same_shape_def)
    have "bit_at bm3 i = (if i < m_size bm then bit_at bm i else v)" if "i < new_size" for i
      using b3 ceil [OF that] b2 sz e by (auto simp: bits_set_in_def)
    with g False r wf3 sz3 assms(1) show ?thesis
      by (intro exI [of _ bm3]) (auto simp: bitmap_get_eq)
  qed
qed

definition example_kmalloc :: kmalloc where
  "example_kmalloc n = Some (8192, replicate n 0xAA)"

theorem bitmap_grow_correct_witness:
  "\<exists>bm'. bitmap_grow example_kmalloc example_bitmap 100 True = Inr bm' \<and> m_size bm' = 100 \<and>
     bitmap_get bm' 26 = Inr False \<and> bitmap_get bm' 27 = Inr True"
proof -
  have "fresh_block example_kmalloc (ceil_div 100 8)"
    by (simp add: fresh_block_def example_kmalloc_def)
  moreover have sz: "m_addr example_bitmap \<noteq> 0" "m_size example_bitmap = 27" "8 * size_in_bytes example_bitmap < 100"
    by (simp_all add: example_bitmap_def size_in_bytes_def ceil_div_def)
  ultimately show ?thesis
    using bitmap_grow_correct [OF example_bitmap_wf, of 100 example_kmalloc True]
    by (auto simp: bitmap_get_eq [OF example_bitmap_wf] example_bitmap_clear)
qed

text \<open>
  Growing a bitmap by fewer bits than are left in its last byte does not return: the code
  then sets the padding bits up to the next byte boundary, past the new size, and stops in the
  \<open>VERIFY\<close> of \<open>set_range\<close>.
\<close>
theorem bitmap_grow_in_last_byte_fails:
  assumes "wf_bitmap bm" and "m_addr bm \<noteq> 0" and "m_size bm < new_size"
    and "new_size < 8 * size_in_bytes bm" and "8 * size_in_bytes bm < size_limit"
    and "fresh_block kmalloc (ceil_div new_size 8)"
  shows "bitmap_grow kmalloc bm new_size v = Inl VerifyFailed"
proof -
  have mod: "m_size bm mod 8 \<noteq> 0"
    using assms(3,4) by (auto simp: size_in_bytes_def ceil_div_8 split: if_splits)
  then have e: "m_size bm + (8 - m_size bm mod 8) = 8 * size_in_bytes bm"
    using round_up_8 [of "m_size bm"] by (simp add: size_in_bytes_def ceil_div_8)
  obtain bm2 where g: "bitmap_grow kmalloc bm new_size v = bitmap_set_range bm2 (m_size bm) (8 - m_size bm mod 8) v"
    and sz: "m_size bm2 = new_size"
    using grow_copied [OF assms(1,3,2,6), of v] mod by auto
  then show ?thesis
    using assms(4,5) e by (simp add: bitmap_set_range_def set_range_template_def size_add_def)
qed

theorem bitmap_grow_in_last_byte_fails_witness:
  "bitmap_grow example_kmalloc example_bitmap 30 True = Inl VerifyFailed"
proof (rule bitmap_grow_in_last_byte_fails [OF example_bitmap_wf])
  show "fresh_block example_kmalloc (ceil_div 30 8)"
    by (simp add: fresh_block_def example_kmalloc_def)
qed (simp_all add: example_bitmap_def size_in_bytes_def ceil_div_def)

text \<open>
  \<open>set_range_and_verify_that_all_bits_flip\<close> verifies the first and the last byte of the range
  only: a range with a bit in a middle byte that already has the new value is accepted.
\<close>
theorem set_range_flip_unverified_middle:
  "bitmap_get \<lparr>m_addr = 4096, m_data = [0, 0x10, 0, 0], m_size = 32\<rparr> 12 = Inr True \<and>
   set_range_and_verify_that_all_bits_flip \<lparr>m_addr = 4096, m_data = [0, 0x10, 0, 0], m_size = 32\<rparr> 0 20 True =
     Inr \<lparr>m_addr = 4096, m_data = [0xFF, 0xFF, 0xF, 0], m_size = 32\<rparr>"
  by (simp add: bitmap_get_def read_byte_def set_range_and_verify_that_all_bits_flip_def
      set_range_template_def size_add_def apply_mask_def write_byte_def memset_bytes_def fill_range_def
      bitmask_first_byte_def bitmask_last_byte_def)

text \<open>
  Setting a range that ends at the last bit of a buffer of whole bytes writes one byte past the
  buffer, unless the range lies within one byte and does not end at its end. The byte is written
  back unchanged; \<open>count_in_range\<close> guards the same access.
\<close>
theorem set_range_touches_byte_past_end:
  assumes "start < m_size bm" and "start + len = m_size bm" and "m_size bm < size_limit"
    and "length (m_data bm) = size_in_bytes bm" and "m_size bm mod 8 = 0"
  shows "bitmap_set_range bm start len v = Inl OutOfBounds"
proof -
  have l: "(start + len) div 8 = length (m_data bm)"
    using assms(2,4,5) by (simp add: size_in_bytes_def ceil_div_def)
  have s: "start div 8 < length (m_data bm)"
    using assms(1,2,5) l byte_split [of "m_size bm"] by (simp add: less_mult_imp_div_less)
  have add: "size_add start len = start + len" using assms by (simp add: size_add_exact)
  obtain bm1 where "apply_mask v False bm (start div 8) (bitmask_first_byte ! (start mod 8)) = Inr bm1"
    and "same_shape bm bm1"
    using apply_mask_eq [OF s, of False] by blast
  moreover from this have "apply_mask v False bm1 ((start + len) div 8) m = Inl OutOfBounds" for m
    using l by (simp add: apply_mask_def read_byte_def same_shape_def)
  ultimately show ?thesis
    using assms(1,2) add l s
    by (cases v) (auto simp: bitmap_set_range_def set_range_template_def Let_def)
qed

theorem set_range_touches_byte_past_end_witness:
  "bitmap_set_range \<lparr>m_addr = 4096, m_data = [0, 0], m_size = 16\<rparr> 12 4 True = Inl OutOfBounds"
  by (rule set_range_touches_byte_past_end) (simp_all add: size_in_bytes_def ceil_div_def)

end
