(* ===== verification/Bitmap_Search.thy ===== *)
theory Bitmap_Search
  imports Bitmap_Ranges
begin

text \<open>
  The searches for runs of unset bits. The scan over 64 bit buckets and trailing bits is
  related to the bits of the map by one invariant, \<open>scan_inv\<close>, that every step of the three
  loops keeps; from it follow what \<open>find_next_range_of_unset_bits\<close> returns, that
  \<open>find_first_fit\<close> finds the lowest run, and when the two unbounded searches return.
\<close>

section \<open>Runs and the invariant of the scan\<close>

definition unset_between :: "bitmap \<Rightarrow> nat \<Rightarrow> nat \<Rightarrow> bool" where
  "unset_between bm a b \<longleftrightarrow> (\<forall>i. a \<le> i \<and> i < b \<longrightarrow> \<not> bit_at bm i)"

definition unset_run :: "bitmap \<Rightarrow> nat \<Rightarrow> nat \<Rightarrow> bool" where
  "unset_run bm s n \<longleftrightarrow> s + n \<le> m_size bm \<and> unset_between bm s (s + n)"

text \<open>
  \<open>scan_inv bm lo mn p fr free\<close>: the scan started at \<open>lo\<close>, looks for \<open>mn\<close> unset bits and has
  seen the bits below \<open>p\<close>. If \<open>free\<close> is not 0, the bits from \<open>fr\<close> to \<open>p\<close> are unset and the
  run cannot be extended to the left; and every long enough run seen so far lies in it.
\<close>

definition scan_inv :: "bitmap \<Rightarrow> nat \<Rightarrow> nat \<Rightarrow> nat \<Rightarrow> nat \<Rightarrow> nat \<Rightarrow> bool" where
  "scan_inv bm lo mn p fr free \<longleftrightarrow>
     (0 < free \<longrightarrow> fr + free = p \<and> unset_between bm fr p) \<and>
     (let cur = (if free = 0 then p else fr)
      in (lo < cur \<longrightarrow> bit_at bm (cur - 1)) \<and> lo div 64 * 64 \<le> cur) \<and>
     (\<forall>s. lo \<le> s \<and> s + mn \<le> p \<and> unset_between bm s (s + mn) \<longrightarrow> mn \<le> free \<and> fr \<le> s)"

definition found_at :: "bitmap \<Rightarrow> nat \<Rightarrow> nat \<Rightarrow> nat \<Rightarrow> nat \<Rightarrow> nat \<Rightarrow> bool" where
  "found_at bm lo mn mx fr len \<longleftrightarrow>
     mn \<le> len \<and> len \<le> mx \<and> unset_run bm fr len \<and> lo div 64 * 64 \<le> fr \<and>
     (\<forall>s. lo \<le> s \<and> s < fr \<longrightarrow> \<not> unset_run bm s mn) \<and>
     (len < mx \<longrightarrow> m_size bm div 64 * 64 \<le> fr + len \<or> bit_at bm (fr + len))"

lemma unset_between_append:
  "unset_between bm a b \<Longrightarrow> unset_between bm b c \<Longrightarrow> unset_between bm a c"
  unfolding unset_between_def by (meson not_le_imp_less)

lemma unset_between_mono:
  "unset_between bm a b \<Longrightarrow> a \<le> a' \<Longrightarrow> b' \<le> b \<Longrightarrow> unset_between bm a' b'"
  by (auto simp: unset_between_def)

lemma unset_betweenD: "unset_between bm a b \<Longrightarrow> a \<le> i \<Longrightarrow> i < b \<Longrightarrow> \<not> bit_at bm i"
  by (simp add: unset_between_def)

lemma unset_between_pred:
  assumes "unset_between bm s e" and "bit_at bm (q - 1)" and "s < q" and "q \<le> e"
  shows False
  using assms unset_betweenD [of bm s e "q - 1"] by linarith

lemma scan_inv_start:
  assumes "0 < mn" and "p \<le> lo" and "lo div 64 * 64 \<le> p"
  shows "scan_inv bm lo mn p fr 0"
  using assms by (auto simp: scan_inv_def)

lemma scan_inv_extend:
  assumes inv: "scan_inv bm lo mn p fr free" and mn: "0 < mn" and un: "unset_between bm p (p + t)"
  shows "scan_inv bm lo mn (p + t) (if free = 0 then p else fr) (free + t)"
proof (cases "free = 0")
  case True
  have "mn \<le> t \<and> p \<le> s" if s: "lo \<le> s" "s + mn \<le> p + t" "unset_between bm s (s + mn)" for s
  proof -
    have "\<not> s < p"
    proof
      assume "s < p"
      then have "bit_at bm (p - 1)" using inv s(1) True by (auto simp: scan_inv_def)
      moreover have "s + mn \<le> p \<Longrightarrow> False" using inv s mn True by (auto simp: scan_inv_def)
      ultimately show False
        using unset_between_pred [OF s(3), of p] \<open>s < p\<close> by (cases "s + mn \<le> p") auto
    qed
    with s(2) show ?thesis by simp
  qed
  with True inv un show ?thesis by (auto simp: scan_inv_def Let_def)
next
  case False
  have run: "fr + free = p" "unset_between bm fr p" using inv False by (auto simp: scan_inv_def)
  have "mn \<le> free + t \<and> fr \<le> s" if s: "lo \<le> s" "s + mn \<le> p + t" "unset_between bm s (s + mn)" for s
  proof -
    have "\<not> s < fr"
    proof
      assume "s < fr"
      then have "bit_at bm (fr - 1)" using inv s(1) False by (auto simp: scan_inv_def)
      moreover have "s + mn \<le> p \<Longrightarrow> False" using inv s \<open>s < fr\<close> by (auto simp: scan_inv_def)
      ultimately show False
        using unset_between_pred [OF s(3), of fr] \<open>s < fr\<close> run by (cases "s + mn \<le> p") auto
    qed
    with s(2) run show ?thesis by simp
  qed
  moreover have "unset_between bm fr (p + t)" using run(2) un by (rule unset_between_append)
  ultimately show ?thesis using False inv run by (auto simp: scan_inv_def Let_def)
qed

lemma scan_inv_reset:
  assumes inv: "scan_inv bm lo mn p fr free" and "0 < mn" and "free < mn" and "0 < t"
    and set: "\<And>i. p \<le> i \<Longrightarrow> i < p + t \<Longrightarrow> bit_at bm i"
  shows "scan_inv bm lo mn (p + t) fr' 0"
proof -
  have "False" if s: "lo \<le> s" "s + mn \<le> p + t" "unset_between bm s (s + mn)" for s
  proof (cases "s + mn \<le> p")
    case True
    with inv s \<open>free < mn\<close> show False by (auto simp: scan_inv_def)
  next
    case False
    then have "p \<le> s + mn - 1" and "s + mn - 1 < p + t"
      using s(2) \<open>0 < mn\<close> by linarith+
    then have "bit_at bm (s + mn - 1)" by (rule set)
    with s(3) \<open>0 < mn\<close> show False
      using unset_between_pred [OF s(3), of "s + mn"] by simp
  qed
  moreover have "lo div 64 * 64 \<le> p + t"
    using inv by (auto simp: scan_inv_def Let_def split: if_splits)
  moreover have "bit_at bm (p + t - 1)" using set [of "p + t - 1"] \<open>0 < t\<close> by auto
  ultimately show ?thesis by (auto simp: scan_inv_def)
qed

lemma scan_inv_found:
  assumes inv: "scan_inv bm lo mn p fr free" and "0 < mn" and "mn \<le> free" and "mn \<le> mx"
    and "p \<le> m_size bm" and right: "free < mx \<Longrightarrow> m_size bm div 64 * 64 \<le> p \<or> bit_at bm p"
  shows "found_at bm lo mn mx fr (min free mx)"
proof -
  have run: "fr + free = p" "unset_between bm fr p" and lo: "lo div 64 * 64 \<le> fr"
    and left: "lo < fr \<Longrightarrow> bit_at bm (fr - 1)"
    using inv \<open>0 < mn\<close> \<open>mn \<le> free\<close> by (auto simp: scan_inv_def Let_def)
  have "\<not> unset_run bm s mn" if "lo \<le> s" "s < fr" for s
  proof
    assume "unset_run bm s mn"
    then have un: "unset_between bm s (s + mn)" by (simp add: unset_run_def)
    have "\<not> s + mn \<le> p" using inv that un by (auto simp: scan_inv_def)
    then show False
      using unset_between_pred [OF un, of fr] left that run by auto
  qed
  moreover have "unset_run bm fr (min free mx)"
    using run \<open>p \<le> m_size bm\<close> by (auto simp: unset_run_def intro: unset_between_mono)
  ultimately show ?thesis
    using assms run lo right by (auto simp: found_at_def)
qed

lemma scan_inv_none:
  assumes "scan_inv bm lo mn (m_size bm) fr free" and "free < mn" and "lo \<le> s"
  shows "\<not> unset_run bm s mn"
  using assms by (auto simp: scan_inv_def unset_run_def)

section \<open>The loops keep the invariant\<close>

definition bucket_bits :: "bitmap \<Rightarrow> nat \<Rightarrow> nat \<Rightarrow> u64 \<Rightarrow> bool" where
  "bucket_bits bm base viewed bucket \<longleftrightarrow>
     (\<forall>k. bit bucket k \<longleftrightarrow> k < 64 - viewed \<and> bit_at bm (base + viewed + k))"

lemma bucket_bitsD:
  "bucket_bits bm base viewed bucket \<Longrightarrow> bit bucket k \<longleftrightarrow> k < 64 - viewed \<and> bit_at bm (base + viewed + k)"
  unfolding bucket_bits_def by blast

lemma bucket_bits_drop:
  assumes "bucket_bits bm base viewed bucket" and "viewed + t \<le> 64"
  shows "bucket_bits bm base (viewed + t) (drop_bit t bucket)"
  unfolding bucket_bits_def
proof
  fix k
  have "bit bucket (t + k) \<longleftrightarrow> t + k < 64 - viewed \<and> bit_at bm (base + viewed + (t + k))"
    using assms(1) by (rule bucket_bitsD)
  then show "bit (drop_bit t bucket) k \<longleftrightarrow> k < 64 - (viewed + t) \<and> bit_at bm (base + (viewed + t) + k)"
    using assms(2) by (simp add: bit_drop_bit_eq add.assoc) linarith
qed

lemma bucket_bits_at:
  assumes "bucket_bits bm base viewed bucket" and "base + viewed \<le> i" and "i < base + 64"
  shows "bit bucket (i - (base + viewed)) = bit_at bm i"
  using bucket_bitsD [OF assms(1), of "i - (base + viewed)"] assms(2,3) by auto

lemma bucket_bits_zero:
  assumes "bucket_bits bm base viewed 0"
  shows "unset_between bm (base + viewed) (base + 64)"
  using bucket_bits_at [OF assms] by (auto simp: unset_between_def)

lemma bucket_ctz:
  assumes "bucket_bits bm base viewed bucket" and "bucket \<noteq> 0"
  defines "t \<equiv> count_trailing_zeroes bucket"
  shows "viewed + t < 64" and "unset_between bm (base + viewed) (base + viewed + t)"
    and "bit_at bm (base + viewed + t)"
proof -
  have b: "bit bucket t" using assms(2) unfolding t_def by (rule bit_at_ctz)
  with bucket_bitsD [OF assms(1), of t] show lt: "viewed + t < 64" and "bit_at bm (base + viewed + t)"
    by auto
  show "unset_between bm (base + viewed) (base + viewed + t)"
    unfolding unset_between_def
  proof (intro allI impI)
    fix i assume i: "base + viewed \<le> i \<and> i < base + viewed + t"
    then have "\<not> bit bucket (i - (base + viewed))"
      unfolding t_def by (intro not_bit_below_ctz) auto
    with i lt bucket_bits_at [OF assms(1), of i] show "\<not> bit_at bm i" by auto
  qed
qed

lemma bucket_ones:
  assumes "bucket_bits bm base viewed bucket" and "bit bucket 0" and "viewed \<le> 64"
  defines "t \<equiv> count_trailing_zeroes (NOT bucket)"
  shows "0 < t" and "viewed + t \<le> 64"
    and "\<And>i. base + viewed \<le> i \<Longrightarrow> i < base + viewed + t \<Longrightarrow> bit_at bm i"
proof -
  show pos: "0 < t" unfolding t_def using assms(2) by (intro ctz_pos) (simp add: bit_not_iff)
  have "bit bucket (t - 1)" unfolding t_def using pos by (intro bit_below_ctz_not) (simp add: t_def)
  then show le: "viewed + t \<le> 64" using bucket_bitsD [OF assms(1), of "t - 1"] assms(3) by auto
  fix i assume i: "base + viewed \<le> i" "i < base + viewed + t"
  then have "bit bucket (i - (base + viewed))"
    unfolding t_def by (intro bit_below_ctz_not) auto
  with i le bucket_bits_at [OF assms(1), of i] show "bit_at bm i" by auto
qed

definition scan_post :: "bitmap \<Rightarrow> nat \<Rightarrow> nat \<Rightarrow> nat \<Rightarrow> nat \<Rightarrow> nat \<times> nat \<times> nat option \<Rightarrow> bool" where
  "scan_post bm lo mn mx p res \<longleftrightarrow>
     (case res of (fr, free, Some n) \<Rightarrow> found_at bm lo mn mx fr n
                | (fr, free, None) \<Rightarrow> scan_inv bm lo mn p fr free)"

lemma scan_bucket_inv:
  assumes "scan_inv bm lo mn (base + viewed) fr free" and "viewed \<le> 64" and "bucket_bits bm base viewed bucket"
    and "0 < mn" and "mn \<le> mx" and "base + 64 \<le> m_size bm"
  shows "scan_post bm lo mn mx (base + 64) (scan_bucket base mn mx bucket viewed fr free)"
  using assms
proof (induction base mn mx bucket viewed fr free rule: scan_bucket.induct)
  case (1 base mn mx bucket viewed fr free)
  let ?fr = "if free = 0 then base + viewed else fr"
  consider "viewed = 64" | "viewed < 64" "bucket = 0" | "viewed < 64" "bucket \<noteq> 0"
    using 1(4) by linarith
  then show ?case
  proof cases
    case 1
    with "1.prems" show ?thesis by (subst scan_bucket.simps) (simp add: scan_post_def)
  next
    case 2
    have "scan_inv bm lo mn (base + viewed + (64 - viewed)) ?fr (free + (64 - viewed))"
      using 2 "1.prems" by (intro scan_inv_extend) (auto dest: bucket_bits_zero)
    then have "scan_inv bm lo mn (base + 64) ?fr (free + (64 - viewed))" using 2 by simp
    moreover have "scan_bucket base mn mx bucket viewed fr free =
        scan_bucket base mn mx bucket 64 ?fr (free + (64 - viewed))"
      using 2 by (subst scan_bucket.simps) simp
    moreover have "bucket_bits bm base 64 bucket" using 2 by (simp add: bucket_bits_def)
    ultimately show ?thesis
      using "1.IH"(1) [OF 2] "1.prems" by simp
  next
    case 3
    let ?t = "count_trailing_zeroes bucket"
    let ?b = "drop_bit ?t bucket"
    let ?o = "count_trailing_zeroes (NOT ?b)"
    note ctz = bucket_ctz [OF "1.prems"(3) 3(2)]
    have inv: "scan_inv bm lo mn (base + viewed + ?t) ?fr (free + ?t)"
      using "1.prems"(1,4) ctz(2) by (intro scan_inv_extend)
    have bits: "bucket_bits bm base (viewed + ?t) ?b"
      using "1.prems"(3) ctz(1) by (intro bucket_bits_drop) simp_all
    have b0: "bit ?b 0" using 3(2) by (rule bit_0_drop_ctz)
    have ones: "0 < ?o" "viewed + ?t + ?o \<le> 64"
      "\<And>i. base + (viewed + ?t) \<le> i \<Longrightarrow> i < base + (viewed + ?t) + ?o \<Longrightarrow> bit_at bm i"
      using bucket_ones [OF bits b0] ctz(1) by auto
    show ?thesis
    proof (cases "mn \<le> free + ?t")
      case True
      have "found_at bm lo mn mx ?fr (min (free + ?t) mx)"
        using inv "1.prems"(4) True "1.prems"(5)
      proof (rule scan_inv_found)
        show "base + viewed + ?t \<le> m_size bm" using ctz(1) "1.prems"(6) by linarith
      qed (use ctz(3) in blast)
      moreover have "scan_bucket base mn mx bucket viewed fr free = (?fr, free + ?t, Some (min (free + ?t) mx))"
        using 3 True by (subst scan_bucket.simps) (simp add: Let_def)
      ultimately show ?thesis by (simp add: scan_post_def)
    next
      case False
      have "scan_bucket base mn mx bucket viewed fr free =
          scan_bucket base mn mx (drop_bit ?o ?b) (viewed + ?t + ?o) ?fr 0"
        using 3 False by (subst scan_bucket.simps) (simp add: Let_def)
      moreover have "scan_inv bm lo mn (base + viewed + ?t + ?o) ?fr 0"
        using inv "1.prems"(4) False ones(1,3) by (intro scan_inv_reset [where fr = ?fr]) (auto simp: add.assoc)
      moreover have "bucket_bits bm base (viewed + ?t + ?o) (drop_bit ?o ?b)"
        using bits ones(2) by (rule bucket_bits_drop)
      ultimately show ?thesis
        using "1.IH"(2) [OF 3 refl refl refl refl refl _ refl] False ones(2) "1.prems"(4-6)
        by (simp add: add.assoc)
    qed
  qed
qed

lemma bucket_in_size: "idx < n div 64 \<Longrightarrow> idx * 64 + 64 \<le> n" for n :: nat
  using less_eq_div_iff_mult_less_eq [of 64 "idx + 1" n] by simp

lemma read_bucket:
  assumes "wf_bitmap bm" and "idx < m_size bm div 64"
  shows "\<exists>w. read_word bm (8 * idx) = Inr w \<and> bucket_bits bm (idx * 64) 0 w"
proof -
  have "8 * idx + 8 \<le> length (m_data bm)"
    using bucket_in_size [OF assms(2)] bits_in_buffer [OF assms(1)] by linarith
  moreover have "bucket_bits bm (idx * 64) 0 (read_size_t (m_data bm) (8 * idx))"
    unfolding bucket_bits_def
  proof
    fix k
    have "idx * 64 + k = k + (8 * idx) * 8" by simp
    then have "(idx * 64 + k) div 8 = 8 * idx + k div 8" and "(idx * 64 + k) mod 8 = k mod 8"
      by (simp_all only: div_mult_self1 mod_mult_self1)
    then show "bit (read_size_t (m_data bm) (8 * idx)) k \<longleftrightarrow> k < 64 - 0 \<and> bit_at bm (idx * 64 + 0 + k)"
      by (simp add: bit_read_size_t bit_at_def)
  qed
  ultimately show ?thesis by (simp add: read_word_def)
qed

lemma bucket_full:
  assumes "bucket_bits bm base 0 (- 1)" and "base \<le> i" and "i < base + 64"
  shows "bit_at bm i"
  using bucket_bits_at [OF assms(1), of i] assms(2,3) by auto

lemma scan_inv_zero_bucket:
  assumes inv: "scan_inv bm lo mn (base + sb) fr free" and "0 < mn" and "sb < 64"
    and start: "0 < sb \<Longrightarrow> free = 0 \<and> lo = base + sb" and "64 dvd base"
    and un: "unset_between bm base (base + 64)"
  shows "scan_inv bm lo mn (base + 64) (if free = 0 then base else fr) (free + 64)"
proof (cases "sb = 0")
  case True
  then show ?thesis
    using scan_inv_extend [of bm lo mn base fr free 64] inv un \<open>0 < mn\<close> by simp
next
  case False
  with start have "free = 0" and lo: "lo = base + sb" by auto
  have "lo div 64 * 64 = base" using \<open>64 dvd base\<close> \<open>sb < 64\<close> lo by (auto elim!: dvdE)
  then show ?thesis
    using \<open>free = 0\<close> lo un by (auto simp: scan_inv_def)
qed

lemma scan_buckets_inv:
  assumes "wf_bitmap bm" and "0 < mn" and "mn \<le> mx" and "sb < 64"
    and "scan_inv bm lo mn (idx * 64 + sb) fr free"
    and "0 < sb \<Longrightarrow> free = 0 \<and> lo = idx * 64 + sb" and "idx \<le> m_size bm div 64"
  shows "\<exists>res. scan_buckets bm mn mx idx sb fr free = Inr res \<and>
           scan_post bm lo mn mx (m_size bm div 64 * 64) res"
  using assms
proof (induction bm mn mx idx sb fr free rule: scan_buckets.induct)
  case (1 bm mn mx idx sb fr free)
  note prems = "1.prems"
  show ?case
  proof (cases "idx < m_size bm div 64")
    case False
    with prems(7) have idx: "idx = m_size bm div 64" by simp
    have "scan_inv bm lo mn (m_size bm div 64 * 64) fr free"
    proof (cases "sb = 0")
      case True
      then show ?thesis using prems(5) idx by simp
    next
      case False
      then have "free = 0" "lo = m_size bm div 64 * 64 + sb" using prems(6) idx by auto
      then show ?thesis using prems(2,4) by (auto intro!: scan_inv_start)
    qed
    then show ?thesis
      using False by (subst scan_buckets.simps) (simp add: scan_post_def)
  next
    case True
    let ?base = "idx * 64"
    have size: "?base + 64 \<le> m_size bm" using True by (rule bucket_in_size)
    obtain w where w: "read_word bm (8 * idx) = Inr w" "bucket_bits bm ?base 0 w"
      using read_bucket [OF prems(1) True] by blast
    have next_base: "?base + 64 = (idx + 1) * 64" by simp
    note IH = "1.IH" [OF True w(1)]
    consider "w = - 1" "mn \<le> free" | "w = - 1" "free < mn" | "w = 0" | "w \<noteq> - 1" "w \<noteq> 0"
      by linarith
    then show ?thesis
    proof cases
      case 1
      with prems(2,6) have sb: "sb = 0" by (cases "sb = 0") auto
      have "found_at bm lo mn mx fr (min free mx)"
      proof (rule scan_inv_found)
        show "scan_inv bm lo mn ?base fr free" using prems(5) sb by simp
        show "m_size bm div 64 * 64 \<le> ?base \<or> bit_at bm ?base"
          using bucket_full [of bm ?base ?base] w(2) 1 by simp
      qed (use prems 1 size in auto)
      then show ?thesis
        using True w 1 by (subst scan_buckets.simps) (simp add: scan_post_def)
    next
      case 2
      have "scan_inv bm lo mn (?base + sb + (64 - sb)) fr 0"
        using prems(5,2) 2 prems(4) w(2)
        by (intro scan_inv_reset [where fr = fr]) (auto intro!: bucket_full [of bm ?base])
      then have "scan_inv bm lo mn ((idx + 1) * 64 + 0) fr 0" using prems(4) by (simp add: algebra_simps)
      then show ?thesis
        using IH(1) 2 prems True w by (subst scan_buckets.simps) simp
    next
      case 3
      let ?fr = "if free = 0 then ?base else fr"
      have un: "unset_between bm ?base (?base + 64)"
        using bucket_bits_zero [of bm ?base 0] w(2) 3 by simp
      have inv: "scan_inv bm lo mn (?base + 64) ?fr (free + 64)"
        using prems(2,4-6) un by (intro scan_inv_zero_bucket) auto
      show ?thesis
      proof (cases "mx \<le> free + 64")
        case True
        then have "found_at bm lo mn mx ?fr (min (free + 64) mx)"
          using inv prems(2,3) size by (intro scan_inv_found) auto
        moreover have "scan_buckets bm mn mx idx sb fr free = Inr (?fr, free + 64, Some mx)"
          using True w 3 \<open>idx < m_size bm div 64\<close> by (subst scan_buckets.simps) simp
        ultimately show ?thesis
          using True by (simp add: scan_post_def min_absorb2)
      next
        case False
        then have "scan_buckets bm mn mx idx sb fr free = scan_buckets bm mn mx (idx + 1) 0 ?fr (free + 64)"
          using w 3 \<open>idx < m_size bm div 64\<close> by (subst scan_buckets.simps) simp
        moreover have "scan_inv bm lo mn ((idx + 1) * 64 + 0) ?fr (free + 64)"
          using inv by (simp add: algebra_simps)
        ultimately show ?thesis
          using IH(2) [OF _ 3 refl refl] False 3 prems \<open>idx < m_size bm div 64\<close> by simp
      qed
    next
      case 4
      have "bucket_bits bm ?base sb (drop_bit sb w)"
        using bucket_bits_drop [OF w(2), of sb] prems(4) by simp
      then have post: "scan_post bm lo mn mx (?base + 64) (scan_bucket ?base mn mx (drop_bit sb w) sb fr free)"
        using prems(2-5) size by (intro scan_bucket_inv) auto
      obtain fr' free' r where sc: "scan_bucket ?base mn mx (drop_bit sb w) sb fr free = (fr', free', r)"
        by (rule prod_cases3)
      show ?thesis
      proof (cases r)
        case None
        then have "scan_buckets bm mn mx idx sb fr free = scan_buckets bm mn mx (idx + 1) 0 fr' free'"
          using w 4 sc True by (subst scan_buckets.simps) simp
        moreover have "scan_inv bm lo mn ((idx + 1) * 64 + 0) fr' free'"
          using post sc None by (simp add: scan_post_def algebra_simps)
        ultimately show ?thesis
          using IH(3) [OF 4 sc [symmetric] refl None] prems True by simp
      next
        case (Some n)
        then have "scan_buckets bm mn mx idx sb fr free = Inr (fr', free', Some n)"
          using w 4 sc True by (subst scan_buckets.simps) simp
        then show ?thesis
          using post sc Some by (simp add: scan_post_def)
      qed
    qed
  qed
qed

lemma trailing_position: "i < n mod 64 \<Longrightarrow> n div 64 * 64 + i < n" for n :: nat
  using div_mult_mod_eq [of n 64] by linarith

lemma scan_trailing_inv:
  assumes "wf_bitmap bm" and "0 < mn" and "mn \<le> mx" and "i \<le> m_size bm mod 64"
    and "scan_inv bm lo mn (m_size bm div 64 * 64 + i) fr free" and "free < mn"
  shows "\<exists>fr' r. scan_trailing bm mn mx i fr free = Inr (fr', r) \<and>
           (case r of Some n \<Rightarrow> found_at bm lo mn mx fr' n | None \<Rightarrow> \<forall>s \<ge> lo. \<not> unset_run bm s mn)"
  using assms
proof (induction bm mn mx i fr free rule: scan_trailing.induct)
  case (1 bm mn mx i fr free)
  note prems = "1.prems"
  let ?p = "m_size bm div 64 * 64 + i"
  show ?case
  proof (cases "i < m_size bm mod 64")
    case False
    with prems(4) have "?p = m_size bm" using div_mult_mod_eq [of "m_size bm" 64] by simp
    then have "\<forall>s \<ge> lo. \<not> unset_run bm s mn"
      using scan_inv_none [of bm lo mn fr free] prems(5,6) by simp
    with False show ?thesis by (subst scan_trailing.simps) simp
  next
    case True
    then have p: "?p < m_size bm" by (rule trailing_position)
    with prems(1) have get: "bitmap_get bm ?p = Inr (bit_at bm ?p)" by (simp add: bitmap_get_eq)
    show ?thesis
    proof (cases "bit_at bm ?p")
      case set: True
      have "scan_inv bm lo mn (?p + 1) fr 0"
        using prems(5,2,6) set by (intro scan_inv_reset [where fr = fr]) (auto simp: le_less_Suc_eq)
      moreover have "scan_trailing bm mn mx i fr free = scan_trailing bm mn mx (i + 1) fr 0"
        using True get set by (subst scan_trailing.simps) simp
      ultimately show ?thesis
        using "1.IH"(2) [OF True get] set prems True by simp
    next
      case unset: False
      let ?fr = "if free = 0 then ?p else fr"
      have "unset_between bm ?p (?p + 1)" using unset by (auto simp: unset_between_def le_less_Suc_eq)
      then have inv: "scan_inv bm lo mn (?p + 1) ?fr (free + 1)"
        using prems(5,2) by (intro scan_inv_extend)
      show ?thesis
      proof (cases "mn \<le> free + 1")
        case mn: True
        have "found_at bm lo mn mx ?fr (min (free + 1) mx)"
          using inv prems(2,3) mn p by (intro scan_inv_found) auto
        moreover have "scan_trailing bm mn mx i fr free = Inr (?fr, Some (min (free + 1) mx))"
          using True get unset mn by (subst scan_trailing.simps) simp
        ultimately show ?thesis by simp
      next
        case mn: False
        have "scan_trailing bm mn mx i fr free = scan_trailing bm mn mx (i + 1) ?fr (free + 1)"
          using True get unset mn by (subst scan_trailing.simps) simp
        with inv show ?thesis
          using "1.IH"(1) [OF True get _ refl refl] unset mn prems True by simp
      qed
    qed
  qed
qed

lemma find_next_range_eq:
  assumes "wf_bitmap bm" and "0 < mn" and "mn \<le> mx" and "lo \<le> m_size bm"
  shows "\<exists>fr r. find_next_range_of_unset_bits bm lo mn mx = Inr (fr, r) \<and>
           (case r of Some n \<Rightarrow> found_at bm lo mn mx fr n | None \<Rightarrow> \<forall>s \<ge> lo. \<not> unset_run bm s mn)"
proof -
  have "scan_inv bm lo mn (lo div 64 * 64 + lo mod 64) lo 0"
    using assms(2) by (intro scan_inv_start) auto
  then obtain fr free r where sb: "scan_buckets bm mn mx (lo div 64) (lo mod 64) lo 0 = Inr (fr, free, r)"
    and post: "scan_post bm lo mn mx (m_size bm div 64 * 64) (fr, free, r)"
    using scan_buckets_inv [of bm mn mx "lo mod 64" lo "lo div 64" lo 0] assms
    by (auto simp: div_le_mono)
  show ?thesis
  proof (cases r)
    case (Some n)
    with sb post assms(3) show ?thesis
      by (auto simp: find_next_range_of_unset_bits_def scan_post_def)
  next
    case None
    then have inv: "scan_inv bm lo mn (m_size bm div 64 * 64) fr free" using post by (simp add: scan_post_def)
    show ?thesis
    proof (cases "free < mn")
      case True
      with inv assms(1-3) obtain fr' r' where "scan_trailing bm mn mx 0 fr free = Inr (fr', r')"
        and "case r' of Some n \<Rightarrow> found_at bm lo mn mx fr' n | None \<Rightarrow> \<forall>s \<ge> lo. \<not> unset_run bm s mn"
        using scan_trailing_inv [of bm mn mx 0 lo fr free] by auto
      with sb None True assms(3) show ?thesis
        by (auto simp: find_next_range_of_unset_bits_def)
    next
      case False
      then have "found_at bm lo mn mx fr (min free mx)"
        using inv assms(2,3) by (intro scan_inv_found) auto
      with sb None False assms(3) show ?thesis
        by (auto simp: find_next_range_of_unset_bits_def)
    qed
  qed
qed

section \<open>The searches\<close>

lemma unset_run_shorter: "unset_run bm s n \<Longrightarrow> k \<le> n \<Longrightarrow> unset_run bm s k"
  by (auto simp: unset_run_def intro: unset_between_mono)

lemma found_at_end: "found_at bm lo mn mx fr len \<Longrightarrow> fr + len \<le> m_size bm"
  by (simp add: found_at_def unset_run_def)

lemma find_best_loop_returns:
  assumes "wf_bitmap bm" and "64 \<le> n" and "n \<le> best_size" and "start \<le> m_size bm"
    and "found \<Longrightarrow> unset_run bm best n" and "\<not> found \<Longrightarrow> start = 0"
  shows "\<exists>r. find_best_loop bm n start best best_size found = Some (Inr r) \<and>
           (case r of Some s \<Rightarrow> unset_run bm s n | None \<Rightarrow> \<forall>s. \<not> unset_run bm s n)"
  using assms
proof (induction "m_size bm div 64 - start div 64" arbitrary: start best best_size found rule: less_induct)
  case less
  obtain fr r where f: "find_next_range_of_unset_bits bm start n best_size = Inr (fr, r)"
    and spec: "case r of Some len \<Rightarrow> found_at bm start n best_size fr len
                       | None \<Rightarrow> \<forall>s \<ge> start. \<not> unset_run bm s n"
    using find_next_range_eq [of bm n best_size start] less.prems by auto
  show ?case
  proof (cases r)
    case None
    then show ?thesis
      using f spec less.prems(5,6) by (subst find_best_loop.simps) auto
  next
    case (Some len)
    with spec have at: "found_at bm start n best_size fr len" by simp
    then have len: "n \<le> len" "len \<le> best_size" "unset_run bm fr n" "start div 64 * 64 \<le> fr" "fr + len \<le> m_size bm"
      by (auto simp: found_at_def unset_run_def intro: unset_between_mono)
    have "start div 64 * 64 + 64 \<le> fr + len" using len less.prems(2) by simp
    then have "start div 64 < (fr + len) div 64" by (simp add: less_eq_div_iff_mult_less_eq Suc_le_eq [symmetric])
    moreover have "(fr + len) div 64 \<le> m_size bm div 64" using len(5) by (rule div_le_mono)
    ultimately have dec: "m_size bm div 64 - (fr + len) div 64 < m_size bm div 64 - start div 64"
      by (meson diff_less_mono2 less_le_trans)
    show ?thesis
      using less.hyps [OF dec less.prems(1,2), of len True fr] less.prems len f Some
        less.hyps [OF dec less.prems(1,2), of best_size found best]
      by (subst find_best_loop.simps) (auto split: if_splits)
  qed
qed

lemma longest_step:
  assumes at: "found_at bm start (n + 1) mx fr len" and "64 dvd m_size bm"
    and before: "\<And>s. s < start \<Longrightarrow> \<not> unset_run bm s (n + 1)" and "len < mx" and "s < fr + len"
  shows "\<not> unset_run bm s (len + 1)"
proof
  assume run: "unset_run bm s (len + 1)"
  then have "unset_run bm s (n + 1)" using at by (auto simp: found_at_def intro: unset_run_shorter)
  then have "fr \<le> s"
    using before [of s] at unfolding found_at_def by (meson not_le_imp_less)
  moreover have "m_size bm div 64 * 64 = m_size bm" using assms(2) by simp
  ultimately show False
    using at run assms(4,5) by (auto simp: found_at_def unset_run_def unset_between_def)
qed

lemma find_longest_loop_returns:
  assumes "wf_bitmap bm" and "64 dvd m_size bm" and "n \<le> mx" and "start \<le> m_size bm"
    and "0 < n \<Longrightarrow> unset_run bm rs n" and "\<And>s. n < mx \<Longrightarrow> s < start \<Longrightarrow> \<not> unset_run bm s (n + 1)"
  shows "\<exists>len r. find_longest_loop bm mx start rs n = Some (Inr (len, r)) \<and> len \<le> mx \<and>
           (len < mx \<longrightarrow> (\<forall>s. \<not> unset_run bm s (len + 1))) \<and>
           (case r of Some s \<Rightarrow> 0 < len \<and> unset_run bm s len | None \<Rightarrow> len = 0)"
  using assms
proof (induction "mx - n" arbitrary: n start rs rule: less_induct)
  case less
  show ?case
  proof (cases "n < mx")
    case False
    then show ?thesis
      using less.prems by (subst find_longest_loop.simps) (auto simp: find_next_range_of_unset_bits_def)
  next
    case True
    obtain fr r where f: "find_next_range_of_unset_bits bm start (n + 1) mx = Inr (fr, r)"
      and spec: "case r of Some len \<Rightarrow> found_at bm start (n + 1) mx fr len
                         | None \<Rightarrow> \<forall>s \<ge> start. \<not> unset_run bm s (n + 1)"
      using find_next_range_eq [of bm "n + 1" mx start] less.prems True by auto
    show ?thesis
    proof (cases r)
      case None
      then have "\<not> unset_run bm s (n + 1)" for s
        using spec less.prems(6) True by (cases "s < start") auto
      then show ?thesis
        using f None less.prems by (subst find_longest_loop.simps) auto
    next
      case (Some len)
      with spec have at: "found_at bm start (n + 1) mx fr len" by simp
      then have len: "n < len" "len \<le> mx" "unset_run bm fr len" "fr + len \<le> m_size bm"
        by (auto simp: found_at_def unset_run_def)
      have "\<exists>l r. find_longest_loop bm mx (fr + len) fr len = Some (Inr (l, r)) \<and> l \<le> mx \<and>
           (l < mx \<longrightarrow> (\<forall>s. \<not> unset_run bm s (l + 1))) \<and>
           (case r of Some s \<Rightarrow> 0 < l \<and> unset_run bm s l | None \<Rightarrow> l = 0)"
        using True len less.prems(1,2) longest_step [OF at less.prems(2)] less.prems(6)
        by (intro less.hyps) auto
      with f Some show ?thesis by (subst find_longest_loop.simps) simp
    qed
  qed
qed

section \<open>Properties\<close>

text \<open>
  C20: \<open>find_first_fit\<close> returns the lowest position at which the asked number of unset bits starts,
  and reports that there is none only if there is none.
\<close>
theorem find_first_fit_correct:
  assumes "wf_bitmap bm" and "0 < n"
  shows "\<exists>r. find_first_fit bm n = Inr r \<and>
           (case r of Some s \<Rightarrow> unset_run bm s n \<and> (\<forall>s' < s. \<not> unset_run bm s' n)
                    | None \<Rightarrow> \<forall>s. \<not> unset_run bm s n)"
proof -
  obtain fr r where f: "find_next_range_of_unset_bits bm 0 n n = Inr (fr, r)"
    and spec: "case r of Some len \<Rightarrow> found_at bm 0 n n fr len | None \<Rightarrow> \<forall>s \<ge> 0. \<not> unset_run bm s n"
    using find_next_range_eq [of bm n n 0] assms by auto
  then show ?thesis
    by (cases r) (auto simp: find_first_fit_def found_at_def)
qed

theorem find_first_fit_correct_witness:
  "\<exists>r. find_first_fit example_bitmap 5 = Inr r \<and>
     (case r of Some s \<Rightarrow> unset_run example_bitmap s 5 \<and> (\<forall>s' < s. \<not> unset_run example_bitmap s' 5)
              | None \<Rightarrow> \<forall>s. \<not> unset_run example_bitmap s 5)"
  using find_first_fit_correct [OF example_bitmap_wf, of 5] by simp

text \<open>
  C30: Asked for at least 64 bits, \<open>find_best_fit\<close> returns; what it returns is the start of a run of
  that many unset bits, and it finds one whenever there is one. The kernel heap only asks for
  more than 128.
\<close>
theorem find_best_fit_correct:
  assumes "wf_bitmap bm" and "64 \<le> n" and "n \<le> max_size"
  shows "\<exists>r. find_best_fit bm n = Some (Inr r) \<and>
           (case r of Some s \<Rightarrow> unset_run bm s n | None \<Rightarrow> \<forall>s. \<not> unset_run bm s n)"
  unfolding find_best_fit_def using assms by (intro find_best_loop_returns) auto

theorem find_best_fit_correct_witness:
  "\<exists>r. find_best_fit example_bitmap 64 = Some (Inr r) \<and>
     (case r of Some s \<Rightarrow> unset_run example_bitmap s 64 | None \<Rightarrow> \<forall>s. \<not> unset_run example_bitmap s 64)"
  using find_best_fit_correct [OF example_bitmap_wf, of 64] by (simp add: max_size_def)

text \<open>
  Asked for fewer bits, \<open>find_best_fit\<close> may never return. In a map of ten unset bits, asked for
  three, it finds the same range at position 0 in every round, since the scan of the bits after
  the last full bucket starts over from the first of them whatever the position to start from.
\<close>
theorem find_best_fit_never_returns:
  "find_best_fit \<lparr>m_addr = 4096, m_data = [0, 0], m_size = 10\<rparr> 3 = None"
proof -
  let ?bm = "\<lparr>m_addr = 4096, m_data = [0, 0], m_size = 10\<rparr> :: bitmap"
  have step: "find_next_range_of_unset_bits ?bm s 3 mx = Inr (0, Some 3)" if "s \<le> 3" "3 \<le> mx" for s mx
    using that
    by (simp add: find_next_range_of_unset_bits_def scan_buckets.simps [of ?bm] scan_trailing.simps [of ?bm]
        bitmap_get_def read_byte_def min_absorb1)
  have loop: "find_best_loop ?bm 3 3 0 3 True = None"
  proof (rule ccontr)
    assume "find_best_loop ?bm 3 3 0 3 True \<noteq> None"
    then obtain r where r: "find_best_loop ?bm 3 3 0 3 True = Some r" by blast
    have "\<not> (?bm = ?bm \<and> (3::nat) = 3 \<and> (3::nat) = 3 \<and> (0::nat) = 0 \<and> (3::nat) = 3 \<and> True = True)"
    proof (rule find_best_loop.raw_induct
        [where P = "\<lambda>bm n st bs bz f r. \<not> (bm = ?bm \<and> n = 3 \<and> st = 3 \<and> bs = 0 \<and> bz = 3 \<and> f = True)", OF _ r])
      fix f bm n st bs bz fd r
      assume IH: "\<And>bm n st bs bz fd r. f bm n st bs bz fd = Some r \<Longrightarrow>
          \<not> (bm = ?bm \<and> n = 3 \<and> st = 3 \<and> bs = 0 \<and> bz = 3 \<and> fd = True)"
        and eq: "(case find_next_range_of_unset_bits bm st n bz of
            Inl e \<Rightarrow> Some (Inl e)
          | Inr (start', Some len) \<Rightarrow>
              if bz > len \<or> \<not> fd then f bm n (start' + len) start' len True
              else f bm n (start' + len) bs bz fd
          | Inr (start', None) \<Rightarrow> Some (Inr (if fd then Some bs else None))) = Some r"
      show "\<not> (bm = ?bm \<and> n = 3 \<and> st = 3 \<and> bs = 0 \<and> bz = 3 \<and> fd = True)"
      proof
        assume "bm = ?bm \<and> n = 3 \<and> st = 3 \<and> bs = 0 \<and> bz = 3 \<and> fd = True"
        with eq step [of 3 3] IH [of ?bm 3 3 0 3 True r] show False by simp
      qed
    qed
    then show False by simp
  qed
  have "find_best_fit ?bm 3 = find_best_loop ?bm 3 3 0 3 True"
    using step [of 0 max_size] unfolding find_best_fit_def
    by (subst find_best_loop.simps) (simp add: max_size_def)
  with loop show ?thesis by simp
qed

text \<open>
  If the number of bits is a multiple of 64, \<open>find_longest_range_of_unset_bits\<close> returns the
  start and the length of a run of unset bits that is as long as asked for or longer than any
  other.
\<close>
theorem find_longest_range_correct:
  assumes "wf_bitmap bm" and "64 dvd m_size bm"
  shows "\<exists>len r. find_longest_range_of_unset_bits bm mx = Some (Inr (len, r)) \<and> len \<le> mx \<and>
           (len < mx \<longrightarrow> (\<forall>s. \<not> unset_run bm s (len + 1))) \<and>
           (case r of Some s \<Rightarrow> 0 < len \<and> unset_run bm s len | None \<Rightarrow> len = 0)"
  unfolding find_longest_range_of_unset_bits_def
  using assms by (intro find_longest_loop_returns) auto

theorem find_longest_range_correct_witness:
  "let bm = \<lparr>m_addr = 4096, m_data = replicate 8 0, m_size = 64\<rparr>
   in \<exists>len r. find_longest_range_of_unset_bits bm 10 = Some (Inr (len, r)) \<and> len \<le> 10 \<and>
        (len < 10 \<longrightarrow> (\<forall>s. \<not> unset_run bm s (len + 1))) \<and>
        (case r of Some s \<Rightarrow> 0 < len \<and> unset_run bm s len | None \<Rightarrow> len = 0)"
  unfolding Let_def
  by (rule find_longest_range_correct) (simp_all add: wf_bitmap_def size_in_bytes_def ceil_div_def)

text \<open>
  Otherwise a run that goes on into the bits after the last full bucket is cut off there: in a
  map of 70 unset bits the longest range found has 64.
\<close>
theorem find_longest_range_cut_off:
  "find_longest_range_of_unset_bits \<lparr>m_addr = 4096, m_data = replicate 9 0, m_size = 70\<rparr> 100 =
     Some (Inr (64, Some 0))"
proof -
  let ?bm = "\<lparr>m_addr = 4096, m_data = replicate 9 0, m_size = 70\<rparr> :: bitmap"
  have bit: "bitmap_get ?bm i = Inr False" if "i < 70" for i
    using that less_mult_imp_div_less [of i 9 8] by (simp add: bitmap_get_def read_byte_def)
  have word: "read_word ?bm 0 = Inr 0"
    by (simp add: read_word_def read_size_t_eq_0 less_mult_imp_div_less nth_replicate)
  have "find_next_range_of_unset_bits ?bm 0 1 100 = Inr (0, Some 64)"
    using word
    by (simp add: find_next_range_of_unset_bits_def scan_buckets.simps [of ?bm])
  moreover have "find_next_range_of_unset_bits ?bm 64 65 100 = Inr (64, None)"
    using bit
    by (simp add: find_next_range_of_unset_bits_def scan_buckets.simps [of ?bm]
        scan_trailing.simps [of ?bm] min_absorb1)
  ultimately show ?thesis
    unfolding find_longest_range_of_unset_bits_def
    by (simp add: find_longest_loop.simps)
qed

end
