(* ===== verification/Chunk_Map.thy ===== *)
theory Chunk_Map
  imports Bitmap_Search
begin

text \<open>
  The interface between a bitmap and an allocator that keeps one bit per chunk of memory: a
  search for a run of unset bits and the flipping of a range. \<open>chunk_map\<close> states what an
  allocator may rely on, and what it gets out of it: any part of a run that was found can be
  taken, a range that is taken can be given back, and the number of bits that are set is the
  number of chunks in use. The bitmap of AK implements it as long as its buffer has a byte to
  spare and it has at most \<open>max_size\<close> bits.
\<close>

text \<open>A search that never returns is an outcome of its own.\<close>
definition returned :: "'a result option \<Rightarrow> 'a result" where
  "returned r = (case r of None \<Rightarrow> Inl NeverReturns | Some x \<Rightarrow> x)"

definition run_of :: "(nat \<Rightarrow> bool) \<Rightarrow> nat \<Rightarrow> nat \<Rightarrow> nat \<Rightarrow> bool" where
  "run_of b cap s n \<longleftrightarrow> s + n \<le> cap \<and> (\<forall>i. s \<le> i \<and> i < s + n \<longrightarrow> \<not> b i)"

definition fit_result :: "(nat \<Rightarrow> bool) \<Rightarrow> nat \<Rightarrow> nat \<Rightarrow> nat option \<Rightarrow> bool" where
  "fit_result b cap n r \<longleftrightarrow>
     (case r of Some s \<Rightarrow> run_of b cap s n | None \<Rightarrow> \<forall>s. \<not> run_of b cap s n)"

definition range_updated :: "(nat \<Rightarrow> bool) \<Rightarrow> nat \<Rightarrow> nat \<Rightarrow> nat \<Rightarrow> bool \<Rightarrow> (nat \<Rightarrow> bool) \<Rightarrow> bool" where
  "range_updated b cap s n v b' \<longleftrightarrow>
     (\<forall>i < cap. b' i = (if s \<le> i \<and> i < s + n then v else b i))"

locale chunk_map =
  fixes wf :: "'m \<Rightarrow> bool" and bits :: "'m \<Rightarrow> nat \<Rightarrow> bool" and cap :: "'m \<Rightarrow> nat"
    and flip :: "'m \<Rightarrow> nat \<Rightarrow> nat \<Rightarrow> bool \<Rightarrow> 'm result"
    and first_fit :: "'m \<Rightarrow> nat \<Rightarrow> nat option result"
    and best_fit :: "'m \<Rightarrow> nat \<Rightarrow> nat option result"
  assumes flip_law: "\<lbrakk>wf m; s < cap m; s + n \<le> cap m; \<And>i. s \<le> i \<Longrightarrow> i < s + n \<Longrightarrow> bits m i \<noteq> v\<rbrakk> \<Longrightarrow>
      \<exists>m'. flip m s n v = Inr m' \<and> wf m' \<and> cap m' = cap m \<and> range_updated (bits m) (cap m) s n v (bits m')"
    and first_fit_law: "\<lbrakk>wf m; 0 < n\<rbrakk> \<Longrightarrow> \<exists>r. first_fit m n = Inr r \<and> fit_result (bits m) (cap m) n r"
    and best_fit_law: "\<lbrakk>wf m; 64 \<le> n\<rbrakk> \<Longrightarrow>
      \<exists>r. best_fit m n = Inr r \<and> fit_result (bits m) (cap m) n r"
begin

definition used :: "'m \<Rightarrow> nat" where
  "used m = card {i. i < cap m \<and> bits m i}"

lemma used_le_cap: "used m \<le> cap m"
  unfolding used_def using card_mono [of "{..<cap m}" "{i. i < cap m \<and> bits m i}"] by auto

lemma used_taken:
  assumes "cap m' = cap m" and "range_updated (bits m) (cap m) s n True (bits m')"
    and "run_of (bits m) (cap m) s n"
  shows "used m' = used m + n"
proof -
  have "{i. i < cap m \<and> bits m' i} = {i. i < cap m \<and> bits m i} \<union> {s..<s + n}"
    using assms(2,3) by (auto simp: range_updated_def run_of_def)
  moreover have "{i. i < cap m \<and> bits m i} \<inter> {s..<s + n} = {}"
    using assms(3) by (auto simp: run_of_def)
  ultimately show ?thesis
    using assms(1) by (simp add: used_def card_Un_disjoint)
qed

lemma used_given_back:
  assumes "cap m' = cap m" and "range_updated (bits m) (cap m) s n False (bits m')"
    and "s + n \<le> cap m" and "\<And>i. s \<le> i \<Longrightarrow> i < s + n \<Longrightarrow> bits m i"
  shows "used m = used m' + n"
proof -
  have "{i. i < cap m \<and> bits m i} = {i. i < cap m \<and> bits m' i} \<union> {s..<s + n}"
    using assms(2-4) by (auto simp: range_updated_def split: if_splits)
  moreover have "{i. i < cap m \<and> bits m' i} \<inter> {s..<s + n} = {}"
    using assms(2) by (auto simp: range_updated_def)
  ultimately show ?thesis
    using assms(1) by (simp add: used_def card_Un_disjoint)
qed

text \<open>Taking any part of a run of unset bits, and giving a range of set bits back.\<close>

lemma take_part:
  assumes "wf m" and run: "run_of (bits m) (cap m) f k" and "f \<le> s" and "s + n \<le> f + k" and "0 < n"
  shows "\<exists>m'. flip m s n True = Inr m' \<and> wf m' \<and> cap m' = cap m \<and>
           range_updated (bits m) (cap m) s n True (bits m') \<and> used m' = used m + n"
proof -
  have part: "run_of (bits m) (cap m) s n" using assms by (auto simp: run_of_def)
  then obtain m' where "flip m s n True = Inr m'" "wf m'" "cap m' = cap m"
      "range_updated (bits m) (cap m) s n True (bits m')"
    using flip_law [of m s n True] assms(1,5) by (auto simp: run_of_def)
  then show ?thesis using used_taken [OF _ _ part] by blast
qed

lemma give_back:
  assumes "wf m" and "s + n \<le> cap m" and "0 < n" and "\<And>i. s \<le> i \<Longrightarrow> i < s + n \<Longrightarrow> bits m i"
  shows "\<exists>m'. flip m s n False = Inr m' \<and> wf m' \<and> cap m' = cap m \<and>
           range_updated (bits m) (cap m) s n False (bits m') \<and> used m = used m' + n"
proof -
  obtain m' where "flip m s n False = Inr m'" "wf m'" "cap m' = cap m"
      "range_updated (bits m) (cap m) s n False (bits m')"
    using flip_law [of m s n False] assms by auto
  then show ?thesis using used_given_back [of m' m s n] assms(2,4) by blast
qed

end

section \<open>The bitmap as a chunk map\<close>

definition wf_chunk_bitmap :: "bitmap \<Rightarrow> bool" where
  "wf_chunk_bitmap bm \<longleftrightarrow>
     wf_bitmap bm \<and> m_size bm div 8 < length (m_data bm) \<and> m_size bm \<le> max_size"

lemma unset_run_run_of: "unset_run bm s n \<longleftrightarrow> run_of (bit_at bm) (m_size bm) s n"
  by (simp add: unset_run_def unset_between_def run_of_def)

lemma chunk_bitmap_flip:
  assumes "wf_chunk_bitmap bm" and "s < m_size bm" and "s + n \<le> m_size bm"
    and "\<And>i. s \<le> i \<Longrightarrow> i < s + n \<Longrightarrow> bit_at bm i \<noteq> v"
  shows "\<exists>bm'. set_range_and_verify_that_all_bits_flip bm s n v = Inr bm' \<and> wf_chunk_bitmap bm' \<and>
           m_size bm' = m_size bm \<and> range_updated (bit_at bm) (m_size bm) s n v (bit_at bm')"
proof -
  have wf: "wf_bitmap bm" and "range_in_buffer bm s n"
    using assms(1) div_le_mono [OF assms(3), of 8]
    by (auto simp: wf_chunk_bitmap_def range_in_buffer_def)
  then obtain bm' where r: "set_range_template v True bm s n = Inr bm'"
    and b: "bits_set_in bm s n v bm'"
    using set_range_template_eq [OF wf assms(2,3), of True v] assms(4) by auto
  have "set_range_and_verify_that_all_bits_flip bm s n v = Inr bm'"
    using r by (cases v) (simp_all add: set_range_and_verify_that_all_bits_flip_def)
  moreover have "wf_chunk_bitmap bm'"
    using b assms(1) same_shape_wf [of bm bm'] by (auto simp: bits_set_in_def wf_chunk_bitmap_def same_shape_def)
  moreover have "range_updated (bit_at bm) (m_size bm) s n v (bit_at bm')"
    using b bits_in_buffer [OF wf] by (auto simp: bits_set_in_def range_updated_def)
  ultimately show ?thesis using b by (auto simp: bits_set_in_def same_shape_def)
qed

lemma chunk_bitmap_first_fit:
  assumes "wf_bitmap bm" and "0 < n"
  shows "\<exists>r. find_first_fit bm n = Inr r \<and> fit_result (bit_at bm) (m_size bm) n r"
proof -
  obtain fr r where "find_next_range_of_unset_bits bm 0 n n = Inr (fr, r)"
    and "case r of Some len \<Rightarrow> found_at bm 0 n n fr len | None \<Rightarrow> \<forall>s \<ge> 0. \<not> unset_run bm s n"
    using find_next_range_eq [of bm n n 0] assms by auto
  then show ?thesis
    by (cases r) (auto simp: find_first_fit_def found_at_def fit_result_def unset_run_run_of)
qed

lemma chunk_bitmap_best_fit:
  assumes "wf_bitmap bm" and "64 \<le> n" and "m_size bm \<le> max_size"
  shows "\<exists>r. returned (find_best_fit bm n) = Inr r \<and> fit_result (bit_at bm) (m_size bm) n r"
proof (cases "n \<le> max_size")
  case True
  then show ?thesis
    using find_best_loop_returns [of bm n max_size 0 False 0] assms
    by (auto simp: find_best_fit_def returned_def fit_result_def unset_run_run_of split: option.splits)
next
  case False
  then have "find_best_fit bm n = Some (Inr None)"
    unfolding find_best_fit_def
    by (subst find_best_loop.simps) (simp add: find_next_range_of_unset_bits_def)
  then show ?thesis
    using False assms(3) by (simp add: returned_def fit_result_def run_of_def)
qed

interpretation chunks: chunk_map wf_chunk_bitmap bit_at m_size set_range_and_verify_that_all_bits_flip
    find_first_fit "\<lambda>bm n. returned (find_best_fit bm n)"
proof
  fix m s n v
  show "\<lbrakk>wf_chunk_bitmap m; s < m_size m; s + n \<le> m_size m; \<And>i. s \<le> i \<Longrightarrow> i < s + n \<Longrightarrow> bit_at m i \<noteq> v\<rbrakk> \<Longrightarrow>
      \<exists>m'. set_range_and_verify_that_all_bits_flip m s n v = Inr m' \<and> wf_chunk_bitmap m' \<and>
        m_size m' = m_size m \<and> range_updated (bit_at m) (m_size m) s n v (bit_at m')"
    by (rule chunk_bitmap_flip)
next
  fix m :: bitmap and n :: nat
  assume "wf_chunk_bitmap m"
  then have wf: "wf_bitmap m" and size: "m_size m \<le> max_size" by (simp_all add: wf_chunk_bitmap_def)
  show "0 < n \<Longrightarrow> \<exists>r. find_first_fit m n = Inr r \<and> fit_result (bit_at m) (m_size m) n r"
    by (rule chunk_bitmap_first_fit [OF wf])
  show "64 \<le> n \<Longrightarrow> \<exists>r. returned (find_best_fit m n) = Inr r \<and> fit_result (bit_at m) (m_size m) n r"
    using size by (intro chunk_bitmap_best_fit [OF wf])
qed

end
