(* ===== verification/Memory.thy ===== *)
theory Memory
  imports Bits
begin

text \<open>
  Memory as the allocators see it: a byte at every address, 64 bit loads and stores in the byte
  order of the supported processors (least significant byte first), and \<open>memset\<close>.
\<close>

type_synonym memory = "nat \<Rightarrow> u8"

definition load64 :: "memory \<Rightarrow> nat \<Rightarrow> nat" where
  "load64 mem a = unat (read_size_t (map mem [a..<a + 8]) 0)"

definition store64 :: "memory \<Rightarrow> nat \<Rightarrow> nat \<Rightarrow> memory" where
  "store64 mem a v = (\<lambda>x. if a \<le> x \<and> x < a + 8 then word_of_nat (v div 256 ^ (x - a)) else mem x)"

definition memset :: "memory \<Rightarrow> nat \<Rightarrow> u8 \<Rightarrow> nat \<Rightarrow> memory" where
  "memset mem a b n = (\<lambda>x. if a \<le> x \<and> x < a + n then b else mem x)"

text \<open>What \<open>kmalloc\<close> and \<open>kfree\<close> overwrite memory with.\<close>
definition KMALLOC_SCRUB_BYTE :: u8 where
  "KMALLOC_SCRUB_BYTE = 0xbb"

definition KFREE_SCRUB_BYTE :: u8 where
  "KFREE_SCRUB_BYTE = 0xaa"

lemma bit_of_nat_word_iff: "bit (word_of_nat n :: 'a::len word) k \<longleftrightarrow> k < LENGTH('a) \<and> bit n k"
proof -
  have "(word_of_nat n :: 'a word) = word_of_int (int n)" by simp
  then show ?thesis
    by (simp only: bit_word_of_int_iff bit_of_nat_iff_bit)
qed

lemma load64_cong: "(\<And>x. a \<le> x \<Longrightarrow> x < a + 8 \<Longrightarrow> mem x = mem' x) \<Longrightarrow> load64 mem a = load64 mem' a"
proof -
  assume "\<And>x. a \<le> x \<Longrightarrow> x < a + 8 \<Longrightarrow> mem x = mem' x"
  then have "map mem [a..<a + 8] = map mem' [a..<a + 8]" by simp
  then show ?thesis unfolding load64_def by (simp only:)
qed

lemma load64_store64:
  assumes "v < size_limit"
  shows "load64 (store64 mem a v) a = v"
proof -
  let ?d = "map (store64 mem a v) [a..<a + 8]"
  have "read_size_t ?d 0 = (word_of_nat v :: u64)"
  proof (rule bit_eqI)
    fix k assume "possible_bit TYPE(64 word) k"
    then have k: "k < 64" by simp
    have "?d ! (k div 8) = word_of_nat (v div 256 ^ (k div 8))"
      using k by (simp add: store64_def less_mult_imp_div_less)
    moreover have "(256 :: nat) ^ (k div 8) = 2 ^ (8 * (k div 8))"
      by (simp add: power_mult)
    moreover have "k mod 8 + 8 * (k div 8) = k" by simp
    ultimately show "bit (read_size_t ?d 0) k = bit (word_of_nat v :: u64) k"
      using k by (simp add: bit_read_size_t bit_of_nat_word_iff flip: drop_bit_eq_div)
        (simp add: bit_drop_bit_eq add.commute)
  qed
  then show ?thesis using assms by (simp add: load64_def unat_of_nat)
qed

lemma load64_store64_other: "a + 8 \<le> b \<or> b + 8 \<le> a \<Longrightarrow> load64 (store64 mem b v) a = load64 mem a"
  by (rule load64_cong) (auto simp: store64_def)

lemma load64_memset: "a + 8 \<le> b \<or> b + n \<le> a \<Longrightarrow> load64 (memset mem b v n) a = load64 mem a"
  by (rule load64_cong) (auto simp: memset_def)

end
