(* ===== verification/Allocator.thy ===== *)
theory Allocator
  imports Memory
begin

text \<open>
  What a memory allocator promises its clients, whatever its data structures: the blocks it has
  handed out, \<open>L\<close>, are a map from the address of each block to its length. \<open>L\<close> is not part of
  any allocator's state; it is what the clients know, and the invariant of an allocator relates
  the two. From the three laws follows that in every state clients can reach, by allocating,
  freeing blocks they hold and failing to get blocks, no operation fails an assertion and no
  two blocks overlap.
\<close>

type_synonym blocks = "nat \<rightharpoonup> nat"

definition apart :: "nat \<Rightarrow> nat \<Rightarrow> nat \<Rightarrow> nat \<Rightarrow> bool" where
  "apart p m q n \<longleftrightarrow> p + m \<le> q \<or> q + n \<le> p"

definition all_apart :: "blocks \<Rightarrow> bool" where
  "all_apart L \<longleftrightarrow> (\<forall>p q m n. L p = Some m \<and> L q = Some n \<and> p \<noteq> q \<longrightarrow> apart p m q n)"

lemma apart_sym: "apart p m q n \<longleftrightarrow> apart q n p m"
  by (auto simp: apart_def)

lemma all_apart_empty [simp]: "all_apart Map.empty"
  by (simp add: all_apart_def)

lemma all_apart_remove: "all_apart L \<Longrightarrow> all_apart (L(p := None))"
  by (auto simp: all_apart_def split: if_splits)

lemma all_apart_insert:
  assumes "all_apart L" and "\<And>q n. L q = Some n \<Longrightarrow> q \<noteq> p \<Longrightarrow> apart p m q n"
  shows "all_apart (L(p \<mapsto> m))"
  using assms by (auto simp: all_apart_def apart_sym)

lemma ex_map_upd:
  assumes "p \<notin> dom L"
  shows "(\<exists>q n. (L(p \<mapsto> m)) q = Some n \<and> P q n) \<longleftrightarrow> P p m \<or> (\<exists>q n. L q = Some n \<and> P q n)"
proof
  assume "P p m \<or> (\<exists>q n. L q = Some n \<and> P q n)"
  then show "\<exists>q n. (L(p \<mapsto> m)) q = Some n \<and> P q n"
    using assms by (metis domIff fun_upd_other fun_upd_same option.distinct(1))
qed (auto split: if_splits)

lemma ex_map_remove:
  "(\<exists>q n. (L(p := None)) q = Some n \<and> P q n) \<longleftrightarrow> (\<exists>q n. q \<noteq> p \<and> L q = Some n \<and> P q n)"
  by (auto split: if_splits)

text \<open>
  What clients do, as a list of operations: ask for a block, or give back the \<open>i\<close>-th of the
  blocks they hold (nothing happens if there is none).
\<close>
datatype 'r client_op = Acquire 'r | Release nat

fun run_ops ::
    "('s \<Rightarrow> 'r \<Rightarrow> ('s \<times> nat option) result) \<Rightarrow> ('s \<Rightarrow> nat \<Rightarrow> 's result) \<Rightarrow> ('r \<Rightarrow> nat) \<Rightarrow>
     'r client_op list \<Rightarrow> 's \<Rightarrow> (nat \<times> nat) list \<Rightarrow> ('s \<times> (nat \<times> nat) list) result" where
  "run_ops alloc free need [] s bs = Inr (s, bs)"
| "run_ops alloc free need (Acquire r # ops) s bs =
     bindR (alloc s r) (\<lambda>(s', p).
       run_ops alloc free need ops s' (case p of None \<Rightarrow> bs | Some p \<Rightarrow> (p, need r) # bs))"
| "run_ops alloc free need (Release i # ops) s bs =
     (if i < length bs
      then bindR (free s (fst (bs ! i))) (\<lambda>s'.
             run_ops alloc free need ops s' (take i bs @ drop (Suc i) bs))
      else run_ops alloc free need ops s bs)"

definition requests :: "'r client_op list \<Rightarrow> 'r set" where
  "requests ops = {r. Acquire r \<in> set ops}"

lemma requests_simps [simp]:
  "requests [] = {}" "requests (Acquire r # ops) = insert r (requests ops)" "requests (Release i # ops) = requests ops"
  by (auto simp: requests_def)

text \<open>No two blocks of a list overlap.\<close>
definition pairwise_apart :: "(nat \<times> nat) list \<Rightarrow> bool" where
  "pairwise_apart bs \<longleftrightarrow>
     (\<forall>i j. i < j \<and> j < length bs \<longrightarrow> apart (fst (bs ! i)) (snd (bs ! i)) (fst (bs ! j)) (snd (bs ! j)))"

text \<open>The blocks held lie inside of the blocks the allocator has set aside.\<close>
definition holds :: "(nat \<times> nat) list \<Rightarrow> blocks \<Rightarrow> bool" where
  "holds bs L \<longleftrightarrow> distinct (map fst bs) \<and> fst ` set bs = dom L \<and>
     (\<forall>p m. (p, m) \<in> set bs \<longrightarrow> (\<exists>n. L p = Some n \<and> m \<le> n))"

lemma holdsD: "holds bs L \<Longrightarrow> (p, m) \<in> set bs \<Longrightarrow> \<exists>n. L p = Some n \<and> m \<le> n"
  by (simp add: holds_def)

lemma holds_nil [simp]: "holds [] Map.empty"
  by (simp add: holds_def)

lemma holds_acquire: "holds bs L \<Longrightarrow> p \<notin> dom L \<Longrightarrow> m \<le> n \<Longrightarrow> holds ((p, m) # bs) (L(p \<mapsto> n))"
  unfolding holds_def by (auto simp: domIff) (metis option.distinct(1))

lemma holds_release:
  assumes "holds bs L" and "i < length bs"
  shows "holds (take i bs @ drop (Suc i) bs) (L(fst (bs ! i) := None))" and "fst (bs ! i) \<in> dom L"
proof -
  let ?p = "fst (bs ! i)"
  have split: "bs = take i bs @ bs ! i # drop (Suc i) bs"
    using assms(2) by (rule id_take_nth_drop)
  have dist: "distinct (map fst (take i bs @ bs ! i # drop (Suc i) bs))"
    using assms(1) split by (simp add: holds_def)
  have set: "set bs = insert (bs ! i) (set (take i bs @ drop (Suc i) bs))"
    by (subst split) auto
  have new: "?p \<notin> fst ` set (take i bs @ drop (Suc i) bs)" using dist by auto
  show "?p \<in> dom L" using assms set by (auto simp: holds_def)
  have "distinct (map fst (take i bs @ drop (Suc i) bs))" using dist by auto
  moreover have "fst ` set (take i bs @ drop (Suc i) bs) = dom (L(?p := None))"
  proof -
    have "dom L = insert ?p (fst ` set (take i bs @ drop (Suc i) bs))"
      using assms(1) set by (simp add: holds_def)
    then show ?thesis using new by simp
  qed
  moreover have "\<exists>n. (L(?p := None)) q = Some n \<and> m \<le> n"
    if "(q, m) \<in> set (take i bs @ drop (Suc i) bs)" for q m
  proof -
    have "q \<noteq> ?p" using new that by (metis fst_conv image_eqI)
    then show ?thesis using assms(1) set that by (auto simp: holds_def)
  qed
  ultimately show "holds (take i bs @ drop (Suc i) bs) (L(?p := None))"
    unfolding holds_def by blast
qed

lemma holds_apart:
  assumes "holds bs L" and "all_apart L"
  shows "pairwise_apart bs"
  unfolding pairwise_apart_def
proof (intro allI impI)
  fix i j assume ij: "i < j \<and> j < length bs"
  obtain p m where p: "bs ! i = (p, m)" by fastforce
  obtain q n where q: "bs ! j = (q, n)" by fastforce
  have "map fst bs ! i \<noteq> map fst bs ! j"
    using assms(1) ij by (auto simp: holds_def nth_eq_iff_index_eq simp del: nth_map)
  then have "p \<noteq> q" using ij p q by simp
  moreover have "(p, m) \<in> set bs" "(q, n) \<in> set bs" using ij p q by (metis nth_mem order_less_trans)+
  moreover from this obtain m' n' where "L p = Some m'" "m \<le> m'" "L q = Some n'" "n \<le> n'"
    using assms(1) unfolding holds_def by meson
  ultimately have "apart p m' q n'" "m \<le> m'" "n \<le> n'"
    using assms(2) by (auto simp: all_apart_def)
  then show "apart (fst (bs ! i)) (snd (bs ! i)) (fst (bs ! j)) (snd (bs ! j))"
    using p q by (auto simp: apart_def)
qed

locale allocator =
  fixes inv :: "'s \<Rightarrow> blocks \<Rightarrow> bool"
    and ok :: "'r \<Rightarrow> bool"
    and need :: "'r \<Rightarrow> nat"
    and meets :: "'r \<Rightarrow> nat \<Rightarrow> nat \<Rightarrow> bool"
    and alloc :: "'s \<Rightarrow> 'r \<Rightarrow> ('s \<times> nat option) result"
    and free :: "'s \<Rightarrow> nat \<Rightarrow> 's result"
  assumes meets_need: "meets r p n \<Longrightarrow> need r \<le> n"
    and alloc_law: "\<lbrakk>inv s L; ok r\<rbrakk> \<Longrightarrow>
      (\<exists>s'. alloc s r = Inr (s', None) \<and> inv s' L) \<or>
      (\<exists>s' p n. alloc s r = Inr (s', Some p) \<and> p \<notin> dom L \<and> meets r p n \<and> inv s' (L(p \<mapsto> n)))"
    and free_law: "\<lbrakk>inv s L; p \<in> dom L\<rbrakk> \<Longrightarrow> \<exists>s'. free s p = Inr s' \<and> inv s' (L(p := None))"
    and apart_law: "inv s L \<Longrightarrow> all_apart L"
begin

text \<open>
  Whatever clients do, no operation fails an assertion, the invariant is kept and the blocks
  they hold never overlap.
\<close>
lemma run_ops_returns:
  assumes "inv s L" and "holds bs L" and "\<And>r. r \<in> requests ops \<Longrightarrow> ok r"
  shows "\<exists>s' bs' L'. run_ops alloc free need ops s bs = Inr (s', bs') \<and> inv s' L' \<and> holds bs' L'"
  using assms
proof (induction ops arbitrary: s bs L)
  case (Cons op ops)
  show ?case
  proof (cases op)
    case (Acquire r)
    then have "ok r" using Cons.prems(3) by simp
    from alloc_law [OF Cons.prems(1) this] show ?thesis
    proof (elim disjE exE conjE)
      fix s' assume "alloc s r = Inr (s', None)" "inv s' L"
      then show ?thesis using Cons.IH [OF _ Cons.prems(2)] Cons.prems(3) Acquire by simp
    next
      fix s' p n
      assume p: "alloc s r = Inr (s', Some p)" "p \<notin> dom L" "meets r p n" "inv s' (L(p \<mapsto> n))"
      from Cons.IH [OF p(4) holds_acquire [OF Cons.prems(2) p(2) meets_need [OF p(3)]]] Cons.prems(3) Acquire p(1)
      show ?thesis by simp
    qed
  next
    case (Release i)
    show ?thesis
    proof (cases "i < length bs")
      case True
      note rel = holds_release [OF Cons.prems(2) True]
      obtain s' where s': "free s (fst (bs ! i)) = Inr s'" "inv s' (L(fst (bs ! i) := None))"
        using free_law [OF Cons.prems(1) rel(2)] by blast
      from Cons.IH [OF s'(2) rel(1)] Cons.prems(3) Release True s'(1) show ?thesis by simp
    next
      case False
      then show ?thesis using Cons.IH [OF Cons.prems(1,2)] Cons.prems(3) Release by simp
    qed
  qed
qed auto

lemma run_ops_apart:
  assumes "inv s L" and "holds bs L" and "\<And>r. r \<in> requests ops \<Longrightarrow> ok r"
  shows "\<exists>s' bs' L'. run_ops alloc free need ops s bs = Inr (s', bs') \<and> inv s' L' \<and> holds bs' L' \<and>
           pairwise_apart bs'"
  using run_ops_returns [OF assms] apart_law holds_apart by blast

end

text \<open>
  An allocator that lives in the memory it hands out promises more: what is written inside of
  the blocks does not disturb it, its operations do not change what is in the blocks, and the
  blocks do not wrap around the end of the address space.
\<close>
locale memory_allocator = allocator inv ok need meets alloc free
  for inv :: "'g \<times> memory \<Rightarrow> blocks \<Rightarrow> bool" and ok :: "'r \<Rightarrow> bool" and need meets alloc free +
  assumes written_law: "\<lbrakk>inv (g, mem) L; \<And>x. mem' x \<noteq> mem x \<Longrightarrow> \<exists>p n. L p = Some n \<and> p \<le> x \<and> x < p + n\<rbrakk> \<Longrightarrow>
      inv (g, mem') L"
    and bounded_law: "\<lbrakk>inv s L; L p = Some n\<rbrakk> \<Longrightarrow> 0 < p \<and> p + n \<le> size_limit"
    and alloc_frame: "\<lbrakk>inv (g, mem) L; ok r; alloc (g, mem) r = Inr ((g', mem'), res); L q = Some n; q \<le> x; x < q + n\<rbrakk> \<Longrightarrow>
      mem' x = mem x"
    and free_frame: "\<lbrakk>inv (g, mem) L; p \<in> dom L; free (g, mem) p = Inr (g', mem'); L q = Some n; q \<noteq> p; q \<le> x; x < q + n\<rbrakk> \<Longrightarrow>
      mem' x = mem x"
begin

text \<open>The same for writes to one block.\<close>
lemma written_block:
  assumes "inv (g, mem) L" and "L p = Some n" and "\<And>x. mem' x \<noteq> mem x \<Longrightarrow> p \<le> x \<and> x < p + n"
  shows "inv (g, mem') L"
  using assms by (intro written_law [OF assms(1)]) blast

end

end
