(* ===== verification/Heap.thy ===== *)
theory Heap
  imports Chunk_Map Allocator Memory
begin

text \<open>
  \<open>Kernel/Heap/Heap.h\<close>: an allocator over one area of memory. The area is cut into chunks of
  \<open>CHUNK_SIZE\<close> bytes, a bitmap behind them says which are in use, and the number of chunks of
  an allocation is kept in a header in front of the pointer the caller gets. The template is
  modelled at its one instance, the subheaps of \<open>kmalloc.cpp\<close>. A pointer is an address,
  \<open>None\<close> stands for \<open>nullptr\<close>.
\<close>

definition CHUNK_SIZE :: nat where
  "CHUNK_SIZE = 64"

text \<open>\<open>sizeof(AllocationHeader)\<close>: the number of chunks and a dummy word for the alignment.\<close>
definition AllocationHeaderSize :: nat where
  "AllocationHeaderSize = 16"

record heap =
  m_total_chunks :: nat
  m_allocated_chunks :: nat
  m_chunks :: nat
  m_bitmap :: bitmap

definition calculate_chunks :: "nat \<Rightarrow> nat" where
  "calculate_chunks memory_size = memory_size div (CHUNK_SIZE + 1)"

text \<open>\<open>bytes\<close> is what the memory behind the chunks holds when the heap is set up.\<close>
definition heap_create :: "nat \<Rightarrow> nat \<Rightarrow> u8 list \<Rightarrow> heap result" where
  "heap_create memory memory_size bytes =
     (let total = calculate_chunks memory_size
      in if \<not> size_add (size_mul total CHUNK_SIZE) (size_add total 7 div 8) \<le> memory_size
         then Inl VerifyFailed
         else Inr \<lparr>m_total_chunks = total, m_allocated_chunks = 0, m_chunks = memory,
                m_bitmap = \<lparr>m_addr = size_add memory (size_mul total CHUNK_SIZE), m_data = bytes,
                            m_size = total\<rparr>\<rparr>)"

definition calculate_memory_for_bytes :: "nat \<Rightarrow> nat" where
  "calculate_memory_for_bytes bytes =
     (let needed_chunks = size_sub (size_add (size_add AllocationHeaderSize bytes) CHUNK_SIZE) 1 div CHUNK_SIZE
      in size_add (size_mul needed_chunks CHUNK_SIZE) (size_add needed_chunks 7 div 8))"

definition free_chunks :: "heap \<Rightarrow> nat" where
  "free_chunks h = size_sub (m_total_chunks h) (m_allocated_chunks h)"

definition allocation_header :: "nat \<Rightarrow> nat" where
  "allocation_header ptr = size_sub ptr AllocationHeaderSize"

definition heap_find :: "heap \<Rightarrow> nat \<Rightarrow> nat \<Rightarrow> nat option result" where
  "heap_find h chunks_needed chunk_alignment =
     (if chunks_needed < 128 then find_first_fit (m_bitmap h) (size_add chunks_needed chunk_alignment)
      else returned (find_best_fit (m_bitmap h) (size_add chunks_needed chunk_alignment)))"

definition heap_place ::
    "heap \<Rightarrow> memory \<Rightarrow> nat \<Rightarrow> nat \<Rightarrow> nat \<Rightarrow> bool \<Rightarrow> nat \<Rightarrow> ((heap \<times> memory) \<times> nat option) result" where
  "heap_place h mem alignment chunks_needed chunk_alignment will_initialize first_chunk =
     (let a0 = size_add (m_chunks h) (size_mul first_chunk CHUNK_SIZE);
          a = size_sub (size_add a0 alignment) (size_add a0 AllocationHeaderSize mod alignment);
          aligned_first_chunk = size_sub a (m_chunks h) div CHUNK_SIZE
      in if \<not> first_chunk \<le> aligned_first_chunk then Inl VerifyFailed
         else if \<not> size_add aligned_first_chunk chunks_needed \<le>
                   size_add (size_add first_chunk chunks_needed) chunk_alignment then Inl VerifyFailed
         else
           let ptr = size_add a AllocationHeaderSize; mem1 = store64 mem a chunks_needed
           in bindR (set_range_and_verify_that_all_bits_flip (m_bitmap h) aligned_first_chunk chunks_needed True)
                (\<lambda>bm.
                  let h' = h\<lparr>m_bitmap := bm,
                             m_allocated_chunks := size_add (m_allocated_chunks h) chunks_needed\<rparr>;
                      mem2 = (if \<not> will_initialize
                              then memset mem1 ptr KMALLOC_SCRUB_BYTE
                                     (size_sub (size_mul chunks_needed CHUNK_SIZE) AllocationHeaderSize)
                              else mem1)
                  in if \<not> ptr mod alignment = 0 then Inl VerifyFailed
                     else Inr ((h', mem2), Some ptr)))"

definition heap_allocate ::
    "heap \<Rightarrow> memory \<Rightarrow> nat \<Rightarrow> nat \<Rightarrow> bool \<Rightarrow> ((heap \<times> memory) \<times> nat option) result" where
  "heap_allocate h mem bytes asked_alignment will_initialize =
     (let alignment = (if asked_alignment < CHUNK_SIZE then CHUNK_SIZE else asked_alignment);
          real_size = size_add bytes AllocationHeaderSize;
          chunks_needed = size_sub (size_add real_size CHUNK_SIZE) 1 div CHUNK_SIZE;
          chunk_alignment = size_sub (size_add alignment CHUNK_SIZE) 1 div CHUNK_SIZE
      in if chunks_needed > free_chunks h then Inr ((h, mem), None)
         else bindR (heap_find h chunks_needed chunk_alignment) (\<lambda>first_chunk.
                case first_chunk of
                  None \<Rightarrow> Inr ((h, mem), None)
                | Some c \<Rightarrow> heap_place h mem alignment chunks_needed chunk_alignment will_initialize c))"

definition heap_end :: "heap \<Rightarrow> nat" where
  "heap_end h = size_add (m_chunks h) (size_mul (m_total_chunks h) CHUNK_SIZE)"

definition heap_deallocate :: "heap \<Rightarrow> memory \<Rightarrow> nat \<Rightarrow> (heap \<times> memory) result" where
  "heap_deallocate h mem ptr =
     (if ptr = 0 then Inr (h, mem)
      else
        let a = allocation_header ptr; n = load64 mem a; start = size_sub a (m_chunks h) div CHUNK_SIZE
        in if \<not> (m_chunks h \<le> a \<and> ptr < heap_end h) then Inl VerifyFailed
           else bindR (bitmap_get (m_bitmap h) start) (\<lambda>allocated.
             if \<not> allocated then Inl VerifyFailed
             else if \<not> size_add a (size_mul n CHUNK_SIZE) \<le> heap_end h then Inl VerifyFailed
             else bindR (set_range_and_verify_that_all_bits_flip (m_bitmap h) start n False) (\<lambda>bm.
               if \<not> n \<le> m_allocated_chunks h then Inl VerifyFailed
               else Inr (h\<lparr>m_bitmap := bm, m_allocated_chunks := m_allocated_chunks h - n\<rparr>,
                         memset mem a KFREE_SCRUB_BYTE (size_mul n CHUNK_SIZE)))))"

definition heap_contains :: "heap \<Rightarrow> nat \<Rightarrow> bool" where
  "heap_contains h ptr \<longleftrightarrow> \<not> allocation_header ptr < m_chunks h \<and> \<not> heap_end h \<le> ptr"

definition total_bytes :: "heap \<Rightarrow> nat" where
  "total_bytes h = size_mul (m_total_chunks h) CHUNK_SIZE"

definition free_bytes :: "heap \<Rightarrow> nat" where
  "free_bytes h = size_mul (free_chunks h) CHUNK_SIZE"

definition allocated_bytes :: "heap \<Rightarrow> nat" where
  "allocated_bytes h = size_mul (m_allocated_chunks h) CHUNK_SIZE"

section \<open>Invariant\<close>

text \<open>
  \<open>chunk_of h p\<close> is the chunk that holds the header of the block at \<open>p\<close>. A block of \<open>n\<close> bytes
  has \<open>n + 16\<close> bytes with its header, a whole number of chunks.
\<close>

abbreviation chunk_of :: "heap \<Rightarrow> nat \<Rightarrow> nat" where
  "chunk_of h p \<equiv> (p - 16 - m_chunks h) div 64"

definition heap_block :: "heap \<Rightarrow> memory \<Rightarrow> nat \<Rightarrow> nat \<Rightarrow> bool" where
  "heap_block h mem p n \<longleftrightarrow>
     m_chunks h + 16 \<le> p \<and> 64 dvd p \<and> 64 dvd n + 16 \<and>
     p + n \<le> m_chunks h + 64 * m_total_chunks h \<and> load64 mem (p - 16) = (n + 16) div 64"

definition in_block :: "heap \<Rightarrow> nat \<Rightarrow> nat \<Rightarrow> nat \<Rightarrow> bool" where
  "in_block h p n i \<longleftrightarrow> chunk_of h p \<le> i \<and> i < chunk_of h p + (n + 16) div 64"

definition heap_inv :: "heap \<times> memory \<Rightarrow> blocks \<Rightarrow> bool" where
  "heap_inv = (\<lambda>(h, mem) L.
     wf_chunk_bitmap (m_bitmap h) \<and> m_size (m_bitmap h) = m_total_chunks h \<and>
     m_chunks h + 64 * m_total_chunks h < size_limit \<and>
     m_allocated_chunks h = chunks.used (m_bitmap h) \<and>
     (\<forall>p n. L p = Some n \<longrightarrow> heap_block h mem p n) \<and>
     (\<forall>p q m n. L p = Some m \<and> L q = Some n \<and> p \<noteq> q \<longrightarrow> apart p (m + 16) q (n + 16)) \<and>
     (\<forall>i < m_total_chunks h. bit_at (m_bitmap h) i \<longleftrightarrow> (\<exists>p n. L p = Some n \<and> in_block h p n i)))"

text \<open>The memory of the block at \<open>p\<close> and of its header.\<close>
definition changes_only :: "memory \<Rightarrow> memory \<Rightarrow> nat \<Rightarrow> nat \<Rightarrow> bool" where
  "changes_only mem mem' p n \<longleftrightarrow> (\<forall>x. mem' x \<noteq> mem x \<longrightarrow> p - 16 \<le> x \<and> x < p + n)"

definition same_area :: "heap \<Rightarrow> heap \<Rightarrow> bool" where
  "same_area h h' \<longleftrightarrow> m_chunks h' = m_chunks h \<and> m_total_chunks h' = m_total_chunks h"

text \<open>The requests the kernel makes: alignments that are powers of two, sizes that do not wrap.\<close>
definition heap_request :: "nat \<times> nat \<times> bool \<Rightarrow> bool" where
  "heap_request = (\<lambda>(bytes, alignment, will_initialize).
     bytes + 80 \<le> size_limit \<and> (\<exists>k < 64. alignment = 2 ^ k))"

lemma heap_requestI: "bytes + 80 \<le> size_limit \<Longrightarrow> e < 64 \<Longrightarrow> heap_request (bytes, 2 ^ e, wi)"
  unfolding heap_request_def by blast

section \<open>Chunks and addresses\<close>

lemma disjoint_intervals:
  fixes x y :: nat
  assumes "\<And>i. x \<le> i \<Longrightarrow> i < x + k \<Longrightarrow> y \<le> i \<Longrightarrow> i < y + l \<Longrightarrow> False" and "0 < k" and "0 < l"
  shows "x + k \<le> y \<or> y + l \<le> x"
proof (rule ccontr)
  assume "\<not> (x + k \<le> y \<or> y + l \<le> x)"
  then show False using assms(1) [of "max x y"] assms(2,3) by auto
qed

lemma dvd_64_le:
  fixes p q :: nat
  assumes "64 dvd p" and "64 dvd q" and "p \<le> q" and "c \<le> p"
  shows "(q - c) div 64 = (p - c) div 64 + (q - p) div 64" and "64 dvd q - p"
proof -
  show "64 dvd q - p" using assms by simp
  then obtain u where u: "q - p = 64 * u" ..
  then have "q - c = p - c + 64 * u" using assms by simp
  then show "(q - c) div 64 = (p - c) div 64 + (q - p) div 64" using u by simp
qed

lemma chunks_to_bytes:
  fixes p q :: nat
  assumes "64 dvd p" and "64 dvd q" and "c \<le> p" and "c \<le> q" and "(p - c) div 64 + k \<le> (q - c) div 64"
  shows "p + 64 * k \<le> q"
proof (cases "p \<le> q")
  case True
  then have "k \<le> (q - p) div 64" and "64 dvd q - p" using dvd_64_le [of p q c] assms by simp_all
  then show ?thesis using True by auto
next
  case False
  then have "(p - c) div 64 = (q - c) div 64 + (p - q) div 64" "64 dvd p - q" "p \<noteq> q"
    using dvd_64_le [of q p c] assms by simp_all
  then show ?thesis using assms(5) False by auto
qed

lemma bytes_to_chunks:
  fixes p q :: nat
  assumes "p + 64 * k \<le> q" and "c \<le> p"
  shows "(p - c) div 64 + k \<le> (q - c) div 64"
proof -
  have "p - c + 64 * k \<le> q - c" using assms by simp
  from div_le_mono [OF this, of 64] show ?thesis by simp
qed

text \<open>The address of the header moved up so that the data behind it is aligned.\<close>
lemma aligned_place:
  fixes a0 al :: nat
  assumes "0 < al"
  defines "a \<equiv> a0 + al - (a0 + 16) mod al"
  shows "a0 < a" and "a \<le> a0 + al" and "al dvd a + 16"
proof -
  have lt: "(a0 + 16) mod al < al" using assms by simp
  then show "a0 < a" and "a \<le> a0 + al" by (simp_all add: a_def)
  have "a + 16 = (a0 + 16) div al * al + al"
    using lt div_mult_mod_eq [of "a0 + 16" al] unfolding a_def by linarith
  then show "al dvd a + 16" by simp
qed

lemma heap_block_chunks:
  assumes "heap_block h mem p n"
  shows "n + 16 = 64 * ((n + 16) div 64)" and "0 < (n + 16) div 64"
    and "chunk_of h p + (n + 16) div 64 \<le> m_total_chunks h"
proof -
  show n: "n + 16 = 64 * ((n + 16) div 64)" using assms by (simp add: heap_block_def)
  then show "0 < (n + 16) div 64" by (cases "(n + 16) div 64") auto
  have "p + n \<le> m_chunks h + 64 * m_total_chunks h" and "m_chunks h + 16 \<le> p"
    using assms by (simp_all add: heap_block_def)
  then have "p - 16 - m_chunks h + 64 * ((n + 16) div 64) \<le> 64 * m_total_chunks h" using n by linarith
  from div_le_mono [OF this, of 64] show "chunk_of h p + (n + 16) div 64 \<le> m_total_chunks h" by simp
qed

lemma blocks_apart_chunks:
  assumes "heap_block h mem p m" and "heap_block h mem' q n" and "apart p (m + 16) q (n + 16)" and "in_block h p m i"
  shows "\<not> in_block h q n i"
proof -
  have "chunk_of h p + (m + 16) div 64 \<le> chunk_of h q \<or> chunk_of h q + (n + 16) div 64 \<le> chunk_of h p"
    using assms(3) bytes_to_chunks [of p "(m + 16) div 64" q "m_chunks h + 16"]
      bytes_to_chunks [of q "(n + 16) div 64" p "m_chunks h + 16"]
      heap_block_chunks(1) [OF assms(1)] heap_block_chunks(1) [OF assms(2)] assms(1,2)
    by (auto simp: apart_def heap_block_def add.commute)
  then show ?thesis using assms(4) by (auto simp: in_block_def)
qed

lemma blocks_apart_bytes:
  assumes "heap_block h mem p m" and "heap_block h mem' q n"
    and "\<And>i. in_block h p m i \<Longrightarrow> in_block h q n i \<Longrightarrow> False"
  shows "apart p (m + 16) q (n + 16)"
proof -
  let ?k = "(m + 16) div 64" and ?l = "(n + 16) div 64"
  have "chunk_of h p + ?k \<le> chunk_of h q \<or> chunk_of h q + ?l \<le> chunk_of h p"
    using assms(3) heap_block_chunks(2) [OF assms(1)] heap_block_chunks(2) [OF assms(2)]
    by (intro disjoint_intervals) (auto simp: in_block_def)
  then have "p + 64 * ?k \<le> q \<or> q + 64 * ?l \<le> p"
    using chunks_to_bytes [of p q "m_chunks h + 16" ?k] chunks_to_bytes [of q p "m_chunks h + 16" ?l] assms(1,2)
    by (auto simp: heap_block_def add.commute)
  then show ?thesis
    using heap_block_chunks(1) [OF assms(1)] heap_block_chunks(1) [OF assms(2)] by (simp add: apart_def)
qed

section \<open>Allocating\<close>

lemma heap_invD:
  assumes "heap_inv (h, mem) L"
  shows "wf_chunk_bitmap (m_bitmap h)" and "m_size (m_bitmap h) = m_total_chunks h"
    and "m_chunks h + 64 * m_total_chunks h < size_limit"
    and "m_allocated_chunks h = chunks.used (m_bitmap h)"
    and "L p = Some n \<Longrightarrow> heap_block h mem p n"
    and "L p = Some n \<Longrightarrow> L q = Some k \<Longrightarrow> p \<noteq> q \<Longrightarrow> apart p (n + 16) q (k + 16)"
    and "i < m_total_chunks h \<Longrightarrow> bit_at (m_bitmap h) i \<longleftrightarrow> (\<exists>p n. L p = Some n \<and> in_block h p n i)"
  using assms by (auto simp: heap_inv_def)

text \<open>
  Changing the memory of one block or the chunks in no block leaves the headers of the others as
  they are.
\<close>
lemma heap_block_other:
  assumes "heap_block h mem q n" and "apart p (m + 16) q (n + 16)" and "16 \<le> p"
    and "\<And>x. mem' x \<noteq> mem x \<Longrightarrow> p - 16 \<le> x \<and> x < p + m"
    and "m_chunks h' = m_chunks h" and "m_total_chunks h' = m_total_chunks h"
  shows "heap_block h' mem' q n"
proof -
  have "load64 mem' (q - 16) = load64 mem (q - 16)"
    using assms heap_block_chunks(1,2) [OF assms(1)]
    by (intro load64_cong) (force simp: apart_def heap_block_def)
  then show ?thesis using assms(1,5,6) by (simp add: heap_block_def)
qed

lemma in_block_cong: "m_chunks h' = m_chunks h \<Longrightarrow> in_block h' = in_block h"
  by (simp add: in_block_def fun_eq_iff)

lemma heap_inv_insert:
  assumes inv: "heap_inv (h, mem) L" and new: "p \<notin> dom L" "heap_block h' mem' p m"
    and free: "\<And>i. in_block h p m i \<Longrightarrow> \<not> bit_at (m_bitmap h) i"
    and bm: "wf_chunk_bitmap (m_bitmap h')" "m_size (m_bitmap h') = m_size (m_bitmap h)"
      "m_allocated_chunks h' = chunks.used (m_bitmap h')"
      "\<And>i. i < m_total_chunks h \<Longrightarrow> bit_at (m_bitmap h') i \<longleftrightarrow> in_block h p m i \<or> bit_at (m_bitmap h) i"
    and mem: "\<And>x. mem' x \<noteq> mem x \<Longrightarrow> p - 16 \<le> x \<and> x < p + m"
    and same: "m_chunks h' = m_chunks h" "m_total_chunks h' = m_total_chunks h"
  shows "heap_inv (h', mem') (L(p \<mapsto> m))"
proof -
  note d = heap_invD [OF inv]
  have "16 \<le> p" using new(2) by (simp add: heap_block_def)
  have ap: "apart p (m + 16) q (n + 16)" if "L q = Some n" for q n
  proof (rule blocks_apart_bytes [where h = h'])
    show "heap_block h' mem' p m" by (rule new)
    show "heap_block h' mem q n" using d(5) [OF that] same by (simp add: heap_block_def)
    fix i assume "in_block h' p m i" "in_block h' q n i"
    then have "in_block h p m i" "in_block h q n i" using in_block_cong [OF same(1)] by simp_all
    moreover from this(2) have "i < m_total_chunks h"
      using heap_block_chunks(3) [OF d(5) [OF that]] by (auto simp: in_block_def)
    ultimately show False using free [of i] d(7) [of i] that by blast
  qed
  have blocks: "heap_block h' mem' q n" if "(L(p \<mapsto> m)) q = Some n" for q n
  proof (cases "q = p")
    case True
    then show ?thesis using that new(2) by simp
  next
    case False
    then have "L q = Some n" using that by simp
    then show ?thesis using heap_block_other [OF d(5) ap \<open>16 \<le> p\<close> mem same] by simp
  qed
  moreover have "apart q (a + 16) r (b + 16)"
    if "(L(p \<mapsto> m)) q = Some a" "(L(p \<mapsto> m)) r = Some b" "q \<noteq> r" for q r a b
    using that ap [of q a] ap [of r b] d(6) [of q a r b] apart_sym [of p "m + 16" q "a + 16"]
    by (auto split: if_splits)
  moreover have "bit_at (m_bitmap h') i \<longleftrightarrow> (\<exists>q n. (L(p \<mapsto> m)) q = Some n \<and> in_block h' q n i)"
    if "i < m_total_chunks h" for i
    using bm(4) [OF that] d(7) [OF that] in_block_cong [OF same(1)] ex_map_upd [OF new(1)] by simp
  ultimately show ?thesis
    using bm d(2,3) same by (auto simp: heap_inv_def)
qed

text \<open>Where an allocation goes when a run of \<open>k + m\<close> chunks was found at \<open>f\<close>.\<close>
definition header_address :: "nat \<Rightarrow> nat \<Rightarrow> nat \<Rightarrow> nat" where
  "header_address base al f = base + f * 64 + al - (base + f * 64 + 16) mod al"

lemma header_address_bounds:
  fixes base :: nat
  assumes "0 < m" and "al = 64 * m" and "f + (k + m) \<le> tot"
  defines "a \<equiv> header_address base al f"
  shows "al dvd a + 16" and "base \<le> a" and "a \<le> base + f * 64 + al"
    and "f \<le> (a - base) div 64" and "(a - base) div 64 \<le> f + m"
    and "base + f * 64 + al + 64 * k \<le> base + 64 * tot"
proof -
  have place: "base + f * 64 < a" "a \<le> base + f * 64 + al" "al dvd a + 16"
    using aligned_place [of al "base + f * 64"] assms(1,2) by (simp_all add: a_def header_address_def)
  then show "al dvd a + 16" and "base \<le> a" and "a \<le> base + f * 64 + al" by simp_all
  show "f \<le> (a - base) div 64" "(a - base) div 64 \<le> f + m"
    using div_le_mono [of "f * 64" "a - base" 64] div_le_mono [of "a - base" "(f + m) * 64" 64] place assms(2)
    by simp_all
  show "base + f * 64 + al + 64 * k \<le> base + 64 * tot"
    using mult_le_mono2 [OF assms(3), of 64] assms(2) by (simp add: algebra_simps)
qed

lemma heap_place_eq:
  fixes mem :: memory
  assumes lim: "m_chunks h + 64 * m_total_chunks h < size_limit"
    and m: "0 < m" "al = 64 * m" and k: "0 < k" and fit: "f + (k + m) \<le> m_total_chunks h"
  defines "a \<equiv> header_address (m_chunks h) al f"
  defines "mem' \<equiv> store64 mem a k"
  shows "heap_place h mem al k m wi f =
           bindR (set_range_and_verify_that_all_bits_flip (m_bitmap h) ((a - m_chunks h) div 64) k True)
             (\<lambda>bm. Inr ((h\<lparr>m_bitmap := bm, m_allocated_chunks := size_add (m_allocated_chunks h) k\<rparr>,
                          if wi then mem' else memset mem' (a + 16) KMALLOC_SCRUB_BYTE (64 * k - 16)),
                         Some (a + 16)))"
proof -
  let ?b = "m_chunks h" and ?a0 = "m_chunks h + f * 64" and ?s = "(a - m_chunks h) div 64"
  note b = header_address_bounds [OF m fit, of ?b, folded a_def]
  have l: "?a0 + al + 64 * k < size_limit" "64 \<le> 64 * k" "64 \<le> al"
    using b(6) lim k m by linarith+
  have "(?a0 + 16) mod al < al" using m by simp
  then have r: "(?a0 + 16) mod al \<le> ?a0 + al" by linarith
  have t: "f + k + m < size_limit" "?s + k < size_limit" using b(5) fit lim by linarith+
  have "size_add ?b (size_mul f CHUNK_SIZE) = ?a0" "size_add ?a0 al = ?a0 + al"
    "size_add ?a0 AllocationHeaderSize = ?a0 + 16"
    using l by (simp_all add: CHUNK_SIZE_def AllocationHeaderSize_def size_simps)
  moreover have "size_sub (?a0 + al) ((?a0 + 16) mod al) = a"
    using size_sub_exact [OF r] l(1) by (simp add: a_def header_address_def)
  moreover have "size_sub a ?b = a - ?b" "size_add a AllocationHeaderSize = a + 16"
    using l b by (simp_all add: AllocationHeaderSize_def size_simps)
  moreover have "size_add ?s k = ?s + k" "size_add (size_add f k) m = f + k + m"
    "size_sub (size_mul k CHUNK_SIZE) AllocationHeaderSize = 64 * k - 16"
    using t l by (simp_all add: CHUNK_SIZE_def AllocationHeaderSize_def size_simps)
  moreover have "(a + 16) mod al = 0" using b(1) by (rule dvd_imp_mod_0)
  ultimately show ?thesis
    using b(4,5) by (simp add: heap_place_def CHUNK_SIZE_def Let_def mem'_def)
qed

lemma heap_place_correct:
  assumes inv: "heap_inv (h, mem) L" and m: "0 < m" "al = 64 * m" and k: "0 < k"
    and run: "run_of (bit_at (m_bitmap h)) (m_total_chunks h) f (k + m)"
  shows "\<exists>h' mem' p. heap_place h mem al k m wi f = Inr ((h', mem'), Some p) \<and> same_area h h' \<and> al dvd p \<and>
           p \<notin> dom L \<and> changes_only mem mem' p (64 * k - 16) \<and> heap_inv (h', mem') (L(p \<mapsto> 64 * k - 16))"
proof -
  note d = heap_invD [OF inv]
  have fit: "f + (k + m) \<le> m_total_chunks h" using run by (simp add: run_of_def)
  define a where "a = header_address (m_chunks h) al f"
  define s where "s = (a - m_chunks h) div 64"
  note b = header_address_bounds [OF m fit, of "m_chunks h", folded a_def, folded s_def]
  obtain bm where bm: "set_range_and_verify_that_all_bits_flip (m_bitmap h) s k True = Inr bm"
    "wf_chunk_bitmap bm" "m_size bm = m_total_chunks h"
    "range_updated (bit_at (m_bitmap h)) (m_total_chunks h) s k True (bit_at bm)"
    "chunks.used bm = chunks.used (m_bitmap h) + k"
    using chunks.take_part [of "m_bitmap h" f "k + m" s k] d(1,2) run b(4,5) k by auto
  define h' where "h' = h\<lparr>m_bitmap := bm, m_allocated_chunks := size_add (m_allocated_chunks h) k\<rparr>"
  define mem' where "mem' = (if wi then store64 mem a k
    else memset (store64 mem a k) (a + 16) KMALLOC_SCRUB_BYTE (64 * k - 16))"
  have place: "heap_place h mem al k m wi f = Inr ((h', mem'), Some (a + 16))"
    using heap_place_eq [OF d(3) m k fit] bm(1) by (simp add: a_def s_def h'_def mem'_def)
  have unset: "\<not> bit_at (m_bitmap h) i" if "s \<le> i" "i < s + k" for i
    using run that b(4,5) by (simp add: run_of_def)
  have alloc: "m_allocated_chunks h' = chunks.used bm"
    using bm(3,5) chunks.used_le_cap [of bm] d(3,4) by (simp add: h'_def size_simps)
  have blk: "in_block h (a + 16) (64 * k - 16) i \<longleftrightarrow> s \<le> i \<and> i < s + k" for i
    using k by (simp add: in_block_def s_def)
  have "k < size_limit" using d(3) fit by simp
  then have hdr: "heap_block h' mem' (a + 16) (64 * k - 16)"
    using b dvd_trans [of 64 al "a + 16"] m(2) k
    by (simp add: heap_block_def h'_def mem'_def load64_store64 load64_memset)
  have fresh: "a + 16 \<notin> dom L"
  proof
    assume "a + 16 \<in> dom L"
    then obtain n where n: "L (a + 16) = Some n" by blast
    from heap_block_chunks(2,3) [OF d(5) [OF n]]
    have "in_block h (a + 16) n s" "s < m_total_chunks h" by (simp_all add: in_block_def s_def)
    then show False using unset [of s] d(7) [of s] n k by auto
  qed
  have changes: "changes_only mem mem' (a + 16) (64 * k - 16)"
    using k by (auto simp: changes_only_def mem'_def store64_def memset_def split: if_splits)
  have "heap_inv (h', mem') (L(a + 16 \<mapsto> 64 * k - 16))"
  proof (rule heap_inv_insert [OF inv fresh hdr])
    show "\<not> bit_at (m_bitmap h) i" if "in_block h (a + 16) (64 * k - 16) i" for i
      using that blk unset by blast
    show "bit_at (m_bitmap h') i \<longleftrightarrow> in_block h (a + 16) (64 * k - 16) i \<or> bit_at (m_bitmap h) i"
      if "i < m_total_chunks h" for i
      using bm(4) that by (auto simp: range_updated_def h'_def blk)
    show "a + 16 - 16 \<le> x \<and> x < a + 16 + (64 * k - 16)" if "mem' x \<noteq> mem x" for x
      using that changes by (auto simp: changes_only_def)
  qed (use bm d(2) alloc in \<open>simp_all add: h'_def\<close>)
  moreover have "same_area h h'" by (simp add: same_area_def h'_def)
  ultimately show ?thesis using place fresh b(1) changes by blast
qed

lemma chunks_needed_bounds:
  assumes "bytes + 80 \<le> size_limit"
  defines "k \<equiv> size_sub (size_add (size_add bytes AllocationHeaderSize) CHUNK_SIZE) 1 div CHUNK_SIZE"
  shows "k = (bytes + 79) div 64" and "0 < k" and "bytes + 16 \<le> 64 * k" and "64 * k \<le> bytes + 79"
proof -
  have "size_add (size_add bytes AllocationHeaderSize) CHUNK_SIZE = (bytes + 80) mod size_limit"
    using assms(1) by (simp add: size_add_def AllocationHeaderSize_def CHUNK_SIZE_def mod_simps add.commute)
  moreover have "size_sub ((bytes + 80) mod size_limit) 1 = bytes + 79"
  proof (cases "bytes + 80 = size_limit")
    case True
    then show ?thesis by (simp add: size_sub_def)
  next
    case False
    then show ?thesis using assms(1) by (simp add: size_simps)
  qed
  ultimately show k: "k = (bytes + 79) div 64" by (simp add: k_def CHUNK_SIZE_def)
  have "64 * k + (bytes + 79) mod 64 = bytes + 79" by (simp add: k)
  moreover have "(bytes + 79) mod 64 < 64" by simp
  ultimately show "bytes + 16 \<le> 64 * k" and "64 * k \<le> bytes + 79" and "0 < k" by linarith+
qed

lemma chunk_alignment_eq:
  assumes "alignment = 2 ^ e" and "e < 64"
  defines "al \<equiv> if alignment < CHUNK_SIZE then CHUNK_SIZE else alignment"
  shows "al = 64 * (size_sub (size_add al CHUNK_SIZE) 1 div CHUNK_SIZE)"
    and "0 < size_sub (size_add al CHUNK_SIZE) 1 div CHUNK_SIZE" and "alignment dvd al" and "al \<le> 2 ^ 63"
proof -
  show div: "alignment dvd al"
  proof (cases "alignment < CHUNK_SIZE")
    case True
    then have "(2::nat) ^ e < 2 ^ 6" using assms by (simp add: CHUNK_SIZE_def)
    then have "e < 6" by (rule power_less_imp_less_exp [rotated]) simp
    then have "(2::nat) ^ e dvd 2 ^ 6" by (intro le_imp_power_dvd) simp
    then show ?thesis using True assms by (simp add: CHUNK_SIZE_def)
  qed (simp add: al_def)
  have "64 dvd al"
  proof (cases "alignment < CHUNK_SIZE")
    case False
    then have "(2::nat) ^ 6 \<le> 2 ^ e" using assms by (simp add: CHUNK_SIZE_def)
    then have "6 \<le> e" by (rule power_le_imp_le_exp [rotated]) simp
    then have "(2::nat) ^ 6 dvd 2 ^ e" by (rule le_imp_power_dvd)
    then show ?thesis using False assms by simp
  qed (simp add: al_def CHUNK_SIZE_def)
  moreover have "(2::nat) ^ e \<le> 2 ^ 63" using assms(2) by (intro power_increasing) simp_all
  then show le: "al \<le> 2 ^ 63" using assms by (auto simp: CHUNK_SIZE_def)
  moreover have "64 \<le> al" by (simp add: al_def CHUNK_SIZE_def)
  ultimately have "size_sub (size_add al CHUNK_SIZE) 1 div CHUNK_SIZE = al div 64"
    by (auto simp: CHUNK_SIZE_def size_simps elim!: dvdE)
  then show "al = 64 * (size_sub (size_add al CHUNK_SIZE) 1 div CHUNK_SIZE)"
    and "0 < size_sub (size_add al CHUNK_SIZE) 1 div CHUNK_SIZE"
    using \<open>64 dvd al\<close> \<open>64 \<le> al\<close> by simp_all
qed

lemma chunk_sum_bound:
  "64 * m \<le> 2 ^ 63 \<Longrightarrow> 64 * k \<le> b + 79 \<Longrightarrow> b + 80 \<le> size_limit \<Longrightarrow> k + m < size_limit" for k m b :: nat
  by simp

lemma heap_find_eq:
  assumes "heap_inv (h, mem) L" and "0 < m" and "k + m < size_limit"
  shows "\<exists>r. heap_find h k m = Inr r \<and>
           fit_result (bit_at (m_bitmap h)) (m_total_chunks h) (k + m) r"
proof -
  note d = heap_invD [OF assms(1)]
  have "size_add k m = k + m" using assms(3) by (simp add: size_simps)
  then show ?thesis
    using chunks.first_fit_law [OF d(1), of "k + m"] chunks.best_fit_law [OF d(1), of "k + m"] assms(2) d(2)
    by (cases "k < 128") (simp_all add: heap_find_def)
qed

text \<open>
  An allocation never fails an assertion, keeps the invariant, hands out a block that is aligned
  and as long as asked for, and returns nothing only if there are too few chunks or there is no
  run of chunks that is long enough.
\<close>
lemma heap_allocate_returns:
  assumes inv: "heap_inv (h, mem) L" and "bytes + 80 \<le> size_limit" and "alignment = 2 ^ e" and "e < 64"
  shows "(heap_allocate h mem bytes alignment wi = Inr ((h, mem), None) \<and>
            (free_chunks h < (bytes + 79) div 64 \<or>
             (\<forall>s. \<not> run_of (bit_at (m_bitmap h)) (m_total_chunks h) s
                     ((bytes + 79) div 64 + max 64 alignment div 64)))) \<or>
         (\<exists>h' mem' p n. heap_allocate h mem bytes alignment wi = Inr ((h', mem'), Some p) \<and> same_area h h' \<and>
            (bytes + 79) div 64 \<le> free_chunks h \<and>
            (\<exists>s. run_of (bit_at (m_bitmap h)) (m_total_chunks h) s ((bytes + 79) div 64 + max 64 alignment div 64)) \<and>
            alignment dvd p \<and> p \<notin> dom L \<and> bytes \<le> n \<and> changes_only mem mem' p n \<and> heap_inv (h', mem') (L(p \<mapsto> n)))"
proof -
  let ?al = "if alignment < CHUNK_SIZE then CHUNK_SIZE else alignment"
  let ?k = "size_sub (size_add (size_add bytes AllocationHeaderSize) CHUNK_SIZE) 1 div CHUNK_SIZE"
  let ?m = "size_sub (size_add ?al CHUNK_SIZE) 1 div CHUNK_SIZE"
  note k = chunks_needed_bounds [OF assms(2)] and m = chunk_alignment_eq [OF assms(3,4)]
  have "64 * ?m \<le> 2 ^ 63" using m(1,4) by (simp only:)
  then have "?k + ?m < size_limit" using chunk_sum_bound k(4) assms(2) by blast
  then obtain r where r: "heap_find h ?k ?m = Inr r"
    and fit: "fit_result (bit_at (m_bitmap h)) (m_total_chunks h) (?k + ?m) r"
    using heap_find_eq [OF inv m(2)] by blast
  have max: "max 64 alignment div 64 = ?m" using m(1) by (auto simp: CHUNK_SIZE_def max_def)
  show ?thesis
  proof (cases "free_chunks h < ?k \<or> r = None")
    case True
    then show ?thesis
      using r fit k(1) max by (auto simp: heap_allocate_def Let_def fit_result_def)
  next
    case False
    then obtain f where f: "r = Some f" by blast
    then have run: "run_of (bit_at (m_bitmap h)) (m_total_chunks h) f (?k + ?m)"
      using fit by (simp add: fit_result_def)
    from heap_place_correct [OF inv m(2,1) k(2) this, of wi]
    obtain h' mem' p where p: "heap_place h mem ?al ?k ?m wi f = Inr ((h', mem'), Some p)" "?al dvd p"
      "p \<notin> dom L" "heap_inv (h', mem') (L(p \<mapsto> 64 * ?k - 16))" "same_area h h'" "changes_only mem mem' p (64 * ?k - 16)" by blast
    have "heap_allocate h mem bytes alignment wi = Inr ((h', mem'), Some p)"
      using False r f p(1) by (simp add: heap_allocate_def Let_def)
    moreover have "alignment dvd p" using dvd_trans [OF m(3) p(2)] .
    moreover have "bytes \<le> 64 * ?k - 16" using k(3) by simp
    moreover have "(bytes + 79) div 64 \<le> free_chunks h" using False k(1) by simp
    moreover have "\<exists>s. run_of (bit_at (m_bitmap h)) (m_total_chunks h) s ((bytes + 79) div 64 + max 64 alignment div 64)"
      using run k(1) max by metis
    ultimately show ?thesis using p by blast
  qed
qed

section \<open>Freeing\<close>

lemma heap_inv_remove:
  assumes inv: "heap_inv (h, mem) L" and old: "L p = Some m"
    and bm: "wf_chunk_bitmap (m_bitmap h')" "m_size (m_bitmap h') = m_size (m_bitmap h)"
      "m_allocated_chunks h' = chunks.used (m_bitmap h')"
      "\<And>i. i < m_total_chunks h \<Longrightarrow> bit_at (m_bitmap h') i \<longleftrightarrow> \<not> in_block h p m i \<and> bit_at (m_bitmap h) i"
    and mem: "\<And>x. mem' x \<noteq> mem x \<Longrightarrow> p - 16 \<le> x \<and> x < p + m"
    and same: "m_chunks h' = m_chunks h" "m_total_chunks h' = m_total_chunks h"
  shows "heap_inv (h', mem') (L(p := None))"
proof -
  note d = heap_invD [OF inv]
  have "16 \<le> p" using d(5) [OF old] by (simp add: heap_block_def)
  have "heap_block h' mem' q n" if "(L(p := None)) q = Some n" for q n
  proof -
    have q: "L q = Some n" "p \<noteq> q" using that by (auto split: if_splits)
    show ?thesis
      using heap_block_other [OF d(5) [OF q(1)] d(6) [OF old q] \<open>16 \<le> p\<close> mem same] by blast
  qed
  moreover have "bit_at (m_bitmap h') i \<longleftrightarrow> (\<exists>q n. (L(p := None)) q = Some n \<and> in_block h' q n i)"
    if "i < m_total_chunks h" for i
  proof -
    have "\<not> in_block h q n i" if "L q = Some n" "q \<noteq> p" "in_block h p m i" for q n
      using blocks_apart_chunks [OF d(5) [OF old] d(5) [OF that(1)] d(6) [OF old that(1)] that(3)] that(2) by simp
    then have "(\<exists>q n. q \<noteq> p \<and> L q = Some n \<and> in_block h q n i) \<longleftrightarrow>
        \<not> in_block h p m i \<and> (\<exists>q n. L q = Some n \<and> in_block h q n i)"
      using old by (metis option.inject)
    then show ?thesis
      using bm(4) [OF that] d(7) [OF that] in_block_cong [OF same(1)] ex_map_remove [of L p] by simp
  qed
  ultimately show ?thesis
    using bm d(2,3,6) same by (auto simp: heap_inv_def split: if_splits)
qed

lemma heap_deallocate_eq:
  assumes inv: "heap_inv (h, mem) L" and old: "L p = Some n"
  defines "k \<equiv> (n + 16) div 64"
  shows "\<exists>bm. set_range_and_verify_that_all_bits_flip (m_bitmap h) (chunk_of h p) k False = Inr bm \<and>
           wf_chunk_bitmap bm \<and> m_size bm = m_total_chunks h \<and>
           range_updated (bit_at (m_bitmap h)) (m_total_chunks h) (chunk_of h p) k False (bit_at bm) \<and>
           m_allocated_chunks h = chunks.used bm + k \<and>
           heap_deallocate h mem p =
             Inr (h\<lparr>m_bitmap := bm, m_allocated_chunks := m_allocated_chunks h - k\<rparr>,
                  memset mem (p - 16) KFREE_SCRUB_BYTE (64 * k))"
proof -
  note d = heap_invD [OF inv]
  note blk = d(5) [OF old] and c = heap_block_chunks [OF d(5) [OF old], folded k_def]
  let ?s = "chunk_of h p" and ?e = "m_chunks h + 64 * m_total_chunks h"
  have b: "m_chunks h + 16 \<le> p" "p + n \<le> ?e" "load64 mem (p - 16) = k"
    using blk by (simp_all add: heap_block_def k_def)
  have set: "bit_at (m_bitmap h) i" if "?s \<le> i" "i < ?s + k" for i
    using d(7) [of i] that c(3) old by (auto simp: in_block_def k_def)
  obtain bm where bm: "set_range_and_verify_that_all_bits_flip (m_bitmap h) ?s k False = Inr bm"
    "wf_chunk_bitmap bm" "m_size bm = m_total_chunks h"
    "range_updated (bit_at (m_bitmap h)) (m_total_chunks h) ?s k False (bit_at bm)"
    "chunks.used (m_bitmap h) = chunks.used bm + k"
    using chunks.give_back [OF d(1), of ?s k] d(2) c(2,3) set by auto
  have exact: "allocation_header p = p - 16" "heap_end h = ?e" "size_sub (p - 16) (m_chunks h) = p - 16 - m_chunks h"
    "size_mul k CHUNK_SIZE = 64 * k" "size_add (p - 16) (64 * k) = p + n"
    using b d(3) c(1) by (auto simp: allocation_header_def heap_end_def AllocationHeaderSize_def CHUNK_SIZE_def size_simps)
  have get: "bitmap_get (m_bitmap h) ?s = Inr True"
    using d(1,2) c(2,3) set [of ?s] by (simp add: bitmap_get_eq wf_chunk_bitmap_def)
  have "0 < n" using c(1,2) by linarith
  then have "p \<noteq> 0" "p < ?e" "m_chunks h \<le> p - 16" using b by linarith+
  then have "heap_deallocate h mem p =
      Inr (h\<lparr>m_bitmap := bm, m_allocated_chunks := m_allocated_chunks h - k\<rparr>,
           memset mem (p - 16) KFREE_SCRUB_BYTE (64 * k))"
    using b(2,3) exact get bm(1,5) d(4) by (simp add: heap_deallocate_def Let_def CHUNK_SIZE_def)
  then show ?thesis using bm d(4) by auto
qed

lemma heap_deallocate_returns:
  assumes inv: "heap_inv (h, mem) L" and old: "L p = Some n"
  shows "\<exists>h' mem'. heap_deallocate h mem p = Inr (h', mem') \<and> same_area h h' \<and> changes_only mem mem' p n \<and>
           heap_inv (h', mem') (L(p := None))"
proof -
  let ?k = "(n + 16) div 64"
  note d = heap_invD [OF inv] and c = heap_block_chunks [OF heap_invD(5) [OF inv old]]
  obtain bm where bm: "wf_chunk_bitmap bm" "m_size bm = m_total_chunks h"
    "range_updated (bit_at (m_bitmap h)) (m_total_chunks h) (chunk_of h p) ?k False (bit_at bm)"
    "m_allocated_chunks h = chunks.used bm + ?k"
    and eq: "heap_deallocate h mem p =
      Inr (h\<lparr>m_bitmap := bm, m_allocated_chunks := m_allocated_chunks h - ?k\<rparr>,
           memset mem (p - 16) KFREE_SCRUB_BYTE (64 * ?k))"
    using heap_deallocate_eq [OF inv old] by blast
  have p: "16 \<le> p" using d(5) [OF old] by (simp add: heap_block_def)
  have changes: "changes_only mem (memset mem (p - 16) KFREE_SCRUB_BYTE (64 * ?k)) p n"
    using c(1) p by (auto simp: changes_only_def memset_def split: if_splits)
  have "heap_inv (h\<lparr>m_bitmap := bm, m_allocated_chunks := m_allocated_chunks h - ?k\<rparr>,
      memset mem (p - 16) KFREE_SCRUB_BYTE (64 * ?k)) (L(p := None))"
  proof (rule heap_inv_remove [OF inv old])
    show "p - 16 \<le> x \<and> x < p + n" if "memset mem (p - 16) KFREE_SCRUB_BYTE (64 * ?k) x \<noteq> mem x" for x
      using that changes by (simp add: changes_only_def)
  qed (use bm d(2) in \<open>auto simp: range_updated_def in_block_def\<close>)
  with eq changes show ?thesis by (simp add: same_area_def)
qed

section \<open>The heap as an allocator\<close>

lemma heap_inv_apart: "heap_inv s L \<Longrightarrow> all_apart L"
proof -
  assume "heap_inv s L"
  then have "apart p (m + 16) q (n + 16)" if "L p = Some m" "L q = Some n" "p \<noteq> q" for p q m n
    using that heap_invD(6) [of "fst s" "snd s"] by simp
  then show ?thesis by (fastforce simp: all_apart_def apart_def)
qed

abbreviation heap_alloc_op :: "heap \<times> memory \<Rightarrow> nat \<times> nat \<times> bool \<Rightarrow> ((heap \<times> memory) \<times> nat option) result" where
  "heap_alloc_op s r \<equiv> heap_allocate (fst s) (snd s) (fst r) (fst (snd r)) (snd (snd r))"

abbreviation heap_free_op :: "heap \<times> memory \<Rightarrow> nat \<Rightarrow> (heap \<times> memory) result" where
  "heap_free_op s p \<equiv> heap_deallocate (fst s) (snd s) p"

definition heap_inv_at :: "nat \<Rightarrow> nat \<Rightarrow> heap \<times> memory \<Rightarrow> blocks \<Rightarrow> bool" where
  "heap_inv_at base chunks s L \<longleftrightarrow>
     heap_inv s L \<and> m_chunks (fst s) = base \<and> m_total_chunks (fst s) = chunks"

lemma changes_only_frame:
  assumes "changes_only mem mem' p n" and "apart p (n + 16) q (m + 16)" and "q \<le> x" and "x < q + m"
  shows "mem' x = mem x"
proof (rule ccontr)
  assume "mem' x \<noteq> mem x"
  then have "p - 16 \<le> x" "x < p + n" using assms(1) by (auto simp: changes_only_def)
  then show False using assms(2-4) by (auto simp: apart_def)
qed

text \<open>Writes inside of blocks that are handed out do not reach a header.\<close>
lemma heap_inv_written:
  assumes inv: "heap_inv (h, mem) L"
    and inside: "\<And>x. mem' x \<noteq> mem x \<Longrightarrow> \<exists>p n. L p = Some n \<and> p \<le> x \<and> x < p + n"
  shows "heap_inv (h, mem') L"
proof -
  note d = heap_invD [OF inv]
  have "heap_block h mem' q k" if q: "L q = Some k" for q k
  proof -
    have "mem' x = mem x" if x: "q - 16 \<le> x" "x < q - 16 + 8" for x
    proof (rule ccontr)
      assume "mem' x \<noteq> mem x"
      then obtain p n where p: "L p = Some n" "p \<le> x" "x < p + n" using inside by blast
      have "16 \<le> q" using d(5) [OF q] by (simp add: heap_block_def)
      then show False
        using p x d(6) [OF q p(1)] heap_block_chunks(1,2) [OF d(5) [OF q]]
        by (cases "p = q") (auto simp: apart_def)
    qed
    then have "load64 mem' (q - 16) = load64 mem (q - 16)" by (rule load64_cong)
    then show ?thesis using d(5) [OF q] by (simp add: heap_block_def)
  qed
  then show ?thesis using inv by (simp add: heap_inv_def)
qed

definition heap_meets :: "nat \<times> nat \<times> bool \<Rightarrow> nat \<Rightarrow> nat \<Rightarrow> bool" where
  "heap_meets r p n \<longleftrightarrow> fst r \<le> n \<and> fst (snd r) dvd p"

interpretation heap_allocator:
  memory_allocator "heap_inv_at base chunks" heap_request fst heap_meets heap_alloc_op heap_free_op
  for base chunks
proof
  fix r p n
  show "heap_meets r p n \<Longrightarrow> fst r \<le> n" by (simp add: heap_meets_def)
next
  fix s L and r :: "nat \<times> nat \<times> bool"
  assume at: "heap_inv_at base chunks s L"
  obtain h mem where s: "s = (h, mem)" by fastforce
  have inv: "heap_inv (h, mem) L" and area: "m_chunks h = base" "m_total_chunks h = chunks"
    using at by (simp_all add: heap_inv_at_def s)
  show "all_apart L" using inv by (rule heap_inv_apart)
  { assume "heap_request r"
    then obtain bytes al wi e where r: "r = (bytes, al, wi)" "bytes + 80 \<le> size_limit" "al = 2 ^ e" "e < 64"
      by (cases r) (auto simp: heap_request_def)
    from heap_allocate_returns [OF inv r(2-4), of wi]
    show "(\<exists>s'. heap_alloc_op s r = Inr (s', None) \<and> heap_inv_at base chunks s' L) \<or>
        (\<exists>s' p n. heap_alloc_op s r = Inr (s', Some p) \<and> p \<notin> dom L \<and> heap_meets r p n \<and>
           heap_inv_at base chunks s' (L(p \<mapsto> n)))"
      using at area by (fastforce simp: s r(1) heap_inv_at_def heap_meets_def same_area_def) }
  { fix p assume "p \<in> dom L"
    then show "\<exists>s'. heap_free_op s p = Inr s' \<and> heap_inv_at base chunks s' (L(p := None))"
      using heap_deallocate_returns [OF inv] area by (fastforce simp: s heap_inv_at_def same_area_def) }
next
  fix h mem mem' L
  assume "heap_inv_at base chunks (h, mem) L"
    and "\<And>x. mem' x \<noteq> mem x \<Longrightarrow> \<exists>p n. L p = Some n \<and> p \<le> x \<and> x < p + n"
  then show "heap_inv_at base chunks (h, mem') L"
    using heap_inv_written [of h mem L mem'] by (simp add: heap_inv_at_def)
next
  fix s L p n
  assume at: "heap_inv_at base chunks s L" and p: "L p = Some n"
  then show "0 < p \<and> p + n \<le> size_limit"
    using heap_invD(3) [of "fst s" "snd s" L] heap_invD(5) [of "fst s" "snd s" L p n]
    by (auto simp: heap_inv_at_def heap_block_def)
next
  fix h mem L r h' mem' res q n x
  assume at: "heap_inv_at base chunks (h, mem) L" and "heap_request r"
    and al: "heap_alloc_op (h, mem) r = Inr ((h', mem'), res)" and q: "L q = Some n" "q \<le> x" "x < q + n"
  then obtain bytes al wi e where r: "r = (bytes, al, wi)" "bytes + 80 \<le> size_limit" "al = 2 ^ e" "e < 64"
    by (cases r) (auto simp: heap_request_def)
  have inv: "heap_inv (h, mem) L" using at by (simp add: heap_inv_at_def)
  show "mem' x = mem x"
  proof (cases res)
    case None
    then show ?thesis using heap_allocate_returns [OF inv r(2-4), of wi] al r(1) by auto
  next
    case (Some p)
    then obtain m where "changes_only mem mem' p m" "heap_inv (h', mem') (L(p \<mapsto> m))" "p \<notin> dom L"
      using heap_allocate_returns [OF inv r(2-4), of wi] al r(1) by auto
    moreover have "q \<noteq> p" using \<open>p \<notin> dom L\<close> q(1) by auto
    ultimately show ?thesis
      using changes_only_frame heap_invD(6) [of h' mem' "L(p \<mapsto> m)" p m q n] q by auto
  qed
next
  fix h mem L p h' mem' q n x
  assume at: "heap_inv_at base chunks (h, mem) L" and "p \<in> dom L"
    and free: "heap_free_op (h, mem) p = Inr (h', mem')" and q: "L q = Some n" "q \<noteq> p" "q \<le> x" "x < q + n"
  then obtain m where m: "L p = Some m" by blast
  have inv: "heap_inv (h, mem) L" using at by (simp add: heap_inv_at_def)
  have "changes_only mem mem' p m" using heap_deallocate_returns [OF inv m] free by auto
  then show "mem' x = mem x" using changes_only_frame heap_invD(6) [OF inv m q(1)] q by auto
qed

section \<open>A new heap\<close>

lemma calculate_chunks_bounds:
  assumes "65 \<le> memory_size"
  defines "t \<equiv> calculate_chunks memory_size"
  shows "0 < t" and "t * 65 \<le> memory_size" and "t div 8 < memory_size - t * 64" and "ceil_div t 8 \<le> memory_size - t * 64"
proof -
  have t: "t = memory_size div 65" by (simp add: t_def calculate_chunks_def CHUNK_SIZE_def)
  show "0 < t" using div_le_mono [OF assms(1), of 65] by (simp add: t)
  show le: "t * 65 \<le> memory_size" by (simp add: t)
  moreover have "t div 8 < t" using \<open>0 < t\<close> by simp
  moreover have "ceil_div t 8 \<le> t" using \<open>t div 8 < t\<close> by (simp add: ceil_div_def)
  ultimately show "t div 8 < memory_size - t * 64" "ceil_div t 8 \<le> memory_size - t * 64" by linarith+
qed

text \<open>
  What the kernel passes to a new heap: an area that does not wrap, of at least one chunk and at
  most \<open>max_size\<close> chunks, filled with zeroes behind the chunks.
\<close>
definition fresh_area :: "nat \<Rightarrow> nat \<Rightarrow> u8 list \<Rightarrow> bool" where
  "fresh_area base memory_size bytes \<longleftrightarrow>
     65 \<le> memory_size \<and> base + memory_size < size_limit \<and> calculate_chunks memory_size \<le> max_size \<and>
     bytes = replicate (memory_size - calculate_chunks memory_size * CHUNK_SIZE) 0"

lemma heap_create_returns:
  assumes "fresh_area base memory_size bytes"
  shows "\<exists>h. heap_create base memory_size bytes = Inr h \<and> m_chunks h = base \<and>
           m_total_chunks h = calculate_chunks memory_size \<and> heap_inv (h, mem) Map.empty"
proof -
  let ?t = "calculate_chunks memory_size"
  have a: "65 \<le> memory_size" "base + memory_size < size_limit" "?t \<le> max_size"
    "bytes = replicate (memory_size - ?t * 64) 0"
    using assms by (simp_all add: fresh_area_def CHUNK_SIZE_def)
  note t = calculate_chunks_bounds [OF a(1)]
  have l: "?t * 64 + (?t + 7) div 8 \<le> memory_size" "?t + 7 < size_limit" "?t * 64 + (?t + 7) div 8 < size_limit"
    "base + ?t * 64 < size_limit"
    using t(1,2) a(2) by linarith+
  let ?h = "\<lparr>m_total_chunks = ?t, m_allocated_chunks = 0, m_chunks = base,
      m_bitmap = \<lparr>m_addr = size_add base (size_mul ?t CHUNK_SIZE), m_data = bytes, m_size = ?t\<rparr>\<rparr> :: heap"
  have "heap_create base memory_size bytes = Inr ?h"
    using l by (simp add: heap_create_def CHUNK_SIZE_def size_simps Let_def)
  moreover have clear: "\<not> bit_at (m_bitmap ?h) i" if "i < ?t" for i
  proof -
    have "i div 8 < memory_size - ?t * 64" using that t(3) div_le_mono [of i ?t 8] by linarith
    then show ?thesis by (simp add: bit_at_def a(4))
  qed
  moreover have "chunks.used (m_bitmap ?h) = 0"
    using clear by (auto simp: chunks.used_def)
  moreover have "wf_chunk_bitmap (m_bitmap ?h)"
    using t l a(3,4) by (simp add: wf_chunk_bitmap_def wf_bitmap_def size_in_bytes_def)
  ultimately show ?thesis
    using l(4) by (auto simp: heap_inv_def mult.commute)
qed

section \<open>Properties\<close>

text \<open>
  C1: Whatever sequence of allocations and frees the kernel does on a new heap, no assertion
  fails, no bit is touched outside the bitmap, every search returns, and the blocks handed out
  and not yet freed are inside the area of the heap and do not overlap.
\<close>
theorem heap_blocks_disjoint:
  assumes "fresh_area base memory_size bytes" and "\<forall>r \<in> requests ops. heap_request r"
  shows "\<exists>h. heap_create base memory_size bytes = Inr h \<and>
           (\<exists>s bs. run_ops heap_alloc_op heap_free_op fst ops (h, mem) [] = Inr (s, bs) \<and> pairwise_apart bs \<and>
              (\<forall>(p, n) \<in> set bs. base + 16 \<le> p \<and> p + n \<le> base + calculate_chunks memory_size * CHUNK_SIZE))"
proof -
  obtain h where h: "heap_create base memory_size bytes = Inr h" "m_chunks h = base"
    "m_total_chunks h = calculate_chunks memory_size" "heap_inv (h, mem) Map.empty"
    using heap_create_returns [OF assms(1)] by blast
  then have at: "heap_inv_at base (calculate_chunks memory_size) (h, mem) Map.empty" by (simp add: heap_inv_at_def)
  from heap_allocator.run_ops_apart [OF this holds_nil] assms(2)
  obtain s bs L where r: "run_ops heap_alloc_op heap_free_op fst ops (h, mem) [] = Inr (s, bs)"
    "heap_inv_at base (calculate_chunks memory_size) s L" "holds bs L" "pairwise_apart bs"
    by blast
  have "base + 16 \<le> p \<and> p + n \<le> base + calculate_chunks memory_size * CHUNK_SIZE" if "(p, n) \<in> set bs" for p n
  proof -
    obtain n' where "L p = Some n'" "n \<le> n'" using holdsD [OF r(3) \<open>(p, n) \<in> set bs\<close>] by blast
    then show ?thesis
      using r(2) heap_invD(5) [of "fst s" "snd s" L p n']
      by (auto simp: heap_inv_at_def heap_block_def CHUNK_SIZE_def)
  qed
  then show ?thesis using h(1) r(1,4) by blast
qed

lemma example_area_fresh: "fresh_area 4096 1000 (replicate (1000 - 15 * 64) 0)"
  by (simp add: fresh_area_def calculate_chunks_def CHUNK_SIZE_def max_size_def)

theorem heap_blocks_disjoint_witness:
  "\<exists>h. heap_create 4096 1000 (replicate (1000 - 15 * 64) 0) = Inr h \<and>
     (\<exists>s bs. run_ops heap_alloc_op heap_free_op fst
        [Acquire (100, 16, True), Acquire (20, 128, False), Release 0, Acquire (40, 16, False)] (h, \<lambda>_. 0) [] = Inr (s, bs) \<and>
        pairwise_apart bs \<and>
        (\<forall>(p, n) \<in> set bs. 4096 + 16 \<le> p \<and> p + n \<le> 4096 + calculate_chunks 1000 * CHUNK_SIZE))"
proof (rule heap_blocks_disjoint [OF example_area_fresh], intro ballI)
  fix r :: "nat \<times> nat \<times> bool"
  assume "r \<in> requests [Acquire (100, 16, True), Acquire (20, 128, False), Release 0, Acquire (40, 16, False)]"
  then have "r = (100, 2 ^ 4, True) \<or> r = (20, 2 ^ 7, False) \<or> r = (40, 2 ^ 4, False)" by auto
  then show "heap_request r"
    by (elim disjE) (hypsubst, rule heap_requestI, simp, simp)+
qed

text \<open>
  C11: In a heap that keeps its invariant an allocation whose size does not wrap and whose
  alignment is a power of two returns a new block that has the alignment and at least the size
  asked for, unless it returns \<open>nullptr\<close> and changes nothing. It returns \<open>nullptr\<close> exactly if fewer chunks are
  free than the block needs, or no run of free chunks is as long as the block and its alignment together; the run the
  block itself needs would be shorter.
\<close>
theorem heap_allocate_correct:
  assumes "heap_inv (h, mem) L" and "heap_request (bytes, alignment, wi)"
  shows "if free_chunks h < (bytes + 79) div 64 \<or>
            (\<forall>s. \<not> run_of (bit_at (m_bitmap h)) (m_total_chunks h) s ((bytes + 79) div 64 + max 64 alignment div 64))
         then heap_allocate h mem bytes alignment wi = Inr ((h, mem), None)
         else \<exists>h' mem' p n. heap_allocate h mem bytes alignment wi = Inr ((h', mem'), Some p) \<and>
           alignment dvd p \<and> p \<notin> dom L \<and> bytes \<le> n \<and> heap_inv (h', mem') (L(p \<mapsto> n))"
proof -
  obtain e where e: "bytes + 80 \<le> size_limit" "alignment = 2 ^ e" "e < 64"
    using assms(2) by (auto simp: heap_request_def)
  show ?thesis using heap_allocate_returns [OF assms(1) e, of wi] by (auto simp: not_less)
qed

lemma example_heap:
  obtains h where "heap_inv (h, \<lambda>_. 0) Map.empty" and "m_total_chunks h = 15" and "m_chunks h = 4096"
  using heap_create_returns [OF example_area_fresh] by (auto simp: calculate_chunks_def CHUNK_SIZE_def)

theorem heap_allocate_correct_witness:
  "\<exists>h mem L. heap_inv (h, mem) L \<and> heap_request (1000, 16, True) \<and> heap_allocate h mem 1000 16 True = Inr ((h, mem), None)"
proof -
  obtain h where h: "heap_inv (h, \<lambda>_. 0) Map.empty" "m_total_chunks h = 15" using example_heap by blast
  have "heap_request (1000, 2 ^ 4, True)" by (rule heap_requestI) simp_all
  moreover have "\<not> run_of (bit_at (m_bitmap h)) (m_total_chunks h) s ((1000 + 79) div 64 + max 64 16 div 64)" for s
    using h(2) by (simp add: run_of_def)
  ultimately show ?thesis using heap_allocate_correct [OF h(1), of 1000 16 True] h(1) by auto
qed

text \<open>
  C31: Freeing a block right after it was allocated gives back the heap there was before: the same
  chunks are in use, and their number is the same.
\<close>
theorem heap_free_after_allocate:
  assumes "heap_inv (h, mem) L" and "heap_request (bytes, alignment, wi)"
    and "heap_allocate h mem bytes alignment wi = Inr ((h', mem'), Some p)"
  shows "\<exists>h'' mem''. heap_deallocate h' mem' p = Inr (h'', mem'') \<and>
           m_allocated_chunks h'' = m_allocated_chunks h \<and>
           (\<forall>i < m_total_chunks h. bitmap_get (m_bitmap h'') i = bitmap_get (m_bitmap h) i)"
proof -
  obtain e where e: "bytes + 80 \<le> size_limit" "alignment = 2 ^ e" "e < 64"
    using assms(2) by (auto simp: heap_request_def)
  obtain n where n: "same_area h h'" "p \<notin> dom L" "heap_inv (h', mem') (L(p \<mapsto> n))"
    using heap_allocate_returns [OF assms(1) e, of wi] assms(3) by auto
  obtain h'' mem'' where f: "heap_deallocate h' mem' p = Inr (h'', mem'')" "same_area h' h''"
    "heap_inv (h'', mem'') ((L(p \<mapsto> n))(p := None))"
    using heap_deallocate_returns [OF n(3), of p n] by auto
  have "(L(p \<mapsto> n))(p := None) = L" using n(2) by auto
  with f(3) have inv: "heap_inv (h'', mem'') L" by simp
  note d = heap_invD [OF assms(1)] and d' = heap_invD [OF inv]
  have area: "m_total_chunks h'' = m_total_chunks h" "in_block h'' = in_block h"
    using n(1) f(2) in_block_cong [of h'' h] by (simp_all add: same_area_def)
  have bits: "bit_at (m_bitmap h'') i = bit_at (m_bitmap h) i" if "i < m_total_chunks h" for i
    using d(7) [of i] d'(7) [of i] area that by simp
  then have "{i. i < m_total_chunks h \<and> bit_at (m_bitmap h'') i} = {i. i < m_total_chunks h \<and> bit_at (m_bitmap h) i}"
    by auto
  then have "m_allocated_chunks h'' = m_allocated_chunks h"
    using d(2,4) d'(2,4) area by (simp add: chunks.used_def)
  moreover have "\<forall>i < m_total_chunks h. bitmap_get (m_bitmap h'') i = bitmap_get (m_bitmap h) i"
    using bits d(1,2) d'(1,2) area by (simp add: bitmap_get_eq wf_chunk_bitmap_def)
  ultimately show ?thesis using f(1) by blast
qed

lemma example_allocation:
  "\<exists>h mem h' mem' p. heap_inv (h, mem) Map.empty \<and> heap_allocate h mem 100 16 True = Inr ((h', mem'), Some p)"
proof -
  obtain h where h: "heap_inv (h, \<lambda>_. 0) Map.empty" "m_total_chunks h = 15" using example_heap by blast
  note d = heap_invD [OF h(1)]
  have clear: "\<not> bit_at (m_bitmap h) i" if "i < 15" for i using d(7) [of i] that h(2) by simp
  then have "run_of (bit_at (m_bitmap h)) (m_total_chunks h) 0 ((100 + 79) div 64 + max 64 16 div 64)"
    using h(2) by (simp add: run_of_def)
  moreover have "m_allocated_chunks h = 0" using d(2,4) clear h(2) by (auto simp: chunks.used_def)
  then have "\<not> free_chunks h < (100 + 79) div 64"
    using h(2) by (simp add: free_chunks_def size_simps)
  ultimately show ?thesis
    using heap_allocate_returns [OF h(1), of 100 16 4 True] h(1) by fastforce
qed

theorem heap_free_after_allocate_witness:
  "\<exists>h mem h' mem' p h'' mem''. heap_allocate h mem 100 16 True = Inr ((h', mem'), Some p) \<and>
     heap_deallocate h' mem' p = Inr (h'', mem'') \<and> m_allocated_chunks h'' = m_allocated_chunks h \<and>
     (\<forall>i < m_total_chunks h. bitmap_get (m_bitmap h'') i = bitmap_get (m_bitmap h) i)"
proof -
  obtain h mem h' mem' p where a: "heap_inv (h, mem) Map.empty"
    "heap_allocate h mem 100 16 True = Inr ((h', mem'), Some p)"
    using example_allocation by blast
  have "heap_request (100, 2 ^ 4, True)" by (rule heap_requestI) simp_all
  then have "heap_request (100, 16, True)" by simp
  from heap_free_after_allocate [OF a(1) this a(2)] a(2) show ?thesis by blast
qed

text \<open>
  C34: Whatever the holders of blocks write into them, up to the size they asked for, every block
  can still be freed: the headers between the blocks are out of their reach.
\<close>
theorem heap_free_after_writes:
  assumes "heap_inv (h, mem) L" and "L p = Some n"
    and "\<forall>x. mem' x \<noteq> mem x \<longrightarrow> (\<exists>q m. L q = Some m \<and> q \<le> x \<and> x < q + m)"
  shows "\<exists>h' mem''. heap_deallocate h mem' p = Inr (h', mem'') \<and> heap_inv (h', mem'') (L(p := None))"
proof -
  have "heap_inv (h, mem') L" using heap_inv_written [OF assms(1)] assms(3) by blast
  from heap_deallocate_returns [OF this assms(2)] show ?thesis by blast
qed

theorem heap_free_after_writes_witness:
  "\<exists>h mem L p n h' mem''. heap_inv (h, mem) L \<and> L p = Some n \<and>
     heap_deallocate h (mem(p := 1)) p = Inr (h', mem'') \<and> heap_inv (h', mem'') (L(p := None))"
proof -
  obtain h0 mem0 h mem p where a: "heap_inv (h0, mem0) Map.empty"
    "heap_allocate h0 mem0 100 16 True = Inr ((h, mem), Some p)"
    using example_allocation by blast
  obtain n where n: "100 \<le> n" "heap_inv (h, mem) [p \<mapsto> n]"
    using heap_allocate_returns [OF a(1), of 100 16 4 True] a(2) by auto
  have "\<forall>x. (mem(p := 1)) x \<noteq> mem x \<longrightarrow> (\<exists>q m. [p \<mapsto> n] q = Some m \<and> q \<le> x \<and> x < q + m)"
    using n(1) by auto
  then show ?thesis using heap_free_after_writes [OF n(2), of p n "mem(p := 1)"] n by fastforce
qed

text \<open>
  The size is not checked for overflow: asked for \<open>SIZE_MAX\<close> bytes the heap does the same as for
  48, and hands out a block of one chunk.
\<close>
theorem heap_allocate_size_wraps:
  "heap_allocate h mem (size_limit - 1) alignment wi = heap_allocate h mem 48 alignment wi"
  by (simp add: heap_allocate_def AllocationHeaderSize_def CHUNK_SIZE_def size_add_def size_sub_def)

end
