(* ===== verification/Slab.thy ===== *)
theory Slab
  imports Allocator
begin

text \<open>
  The slab heaps of \<open>Kernel/Heap/kmalloc.cpp\<close>. A slab block is 64 KiB of memory, aligned to its
  size, cut into slabs of one size behind a header; the free slabs of a block form a linked list
  that runs through the slabs themselves. A slab heap keeps a list of the blocks that have a
  free slab and a list of those that have none, and gets new blocks from the allocator that is
  \<open>kmalloc_aligned\<close>, a parameter here.
\<close>

section \<open>KmallocSlabBlock\<close>

definition block_size :: nat where
  "block_size = 64 * 1024"

text \<open>
  \<open>sizeof(KmallocSlabBlock)\<close>: the list node (three pointers), the free list and three counters,
  padded so that \<open>m_data\<close> is aligned to 16.
\<close>
definition sizeof_slab_block :: nat where
  "sizeof_slab_block = 64"

record slab_block =
  sb_this :: nat
  m_freelist :: nat
  m_slab_size :: nat
  m_slab_count :: nat
  m_allocated_slabs :: nat

definition slab_data :: "slab_block \<Rightarrow> nat" where
  "slab_data b = sb_this b + sizeof_slab_block"

definition slab_block_init :: "nat \<Rightarrow> nat \<Rightarrow> memory \<Rightarrow> slab_block \<times> memory" where
  "slab_block_init this slab_size mem =
     (let count = (block_size - sizeof_slab_block) div slab_size;
          b = \<lparr>sb_this = this, m_freelist = 0, m_slab_size = slab_size, m_slab_count = count,
               m_allocated_slabs = 0\<rparr>
      in fold (\<lambda>i (b, mem).
           let freelist_entry = slab_data b + i * slab_size
           in (b\<lparr>m_freelist := freelist_entry\<rparr>, store64 mem freelist_entry (m_freelist b)))
         [0..<count] (b, mem))"

definition slab_block_allocate :: "slab_block \<Rightarrow> memory \<Rightarrow> (slab_block \<times> nat) result" where
  "slab_block_allocate b mem =
     (if m_freelist b = 0 then Inl VerifyFailed
      else Inr (b\<lparr>m_allocated_slabs := m_allocated_slabs b + 1, m_freelist := load64 mem (m_freelist b)\<rparr>,
                m_freelist b))"

definition slab_block_deallocate :: "slab_block \<Rightarrow> memory \<Rightarrow> nat \<Rightarrow> (slab_block \<times> memory) result" where
  "slab_block_deallocate b mem ptr =
     (if \<not> (slab_data b \<le> ptr \<and> ptr < sb_this b + block_size) then Inl VerifyFailed
      else Inr (b\<lparr>m_allocated_slabs := size_sub (m_allocated_slabs b) 1, m_freelist := ptr\<rparr>,
                store64 mem ptr (m_freelist b)))"

definition slab_block_is_full :: "slab_block \<Rightarrow> bool" where
  "slab_block_is_full b \<longleftrightarrow> m_freelist b = 0"

definition slab_block_allocated_bytes :: "slab_block \<Rightarrow> nat" where
  "slab_block_allocated_bytes b = size_mul (m_allocated_slabs b) (m_slab_size b)"

definition slab_block_free_bytes :: "slab_block \<Rightarrow> nat" where
  "slab_block_free_bytes b =
     size_mul (size_sub (m_slab_count b) (m_allocated_slabs b)) (m_slab_size b)"

section \<open>KmallocSlabheap\<close>

text \<open>
  The blocks of the two intrusive lists are named by their addresses; \<open>slab_blocks\<close> maps an
  address to the block there. Appending a block to a list takes it out of the list it is in.
\<close>

record slabheap =
  sh_slab_size :: nat
  m_usable_blocks :: "nat list"
  m_full_blocks :: "nat list"
  slab_blocks :: "nat \<Rightarrow> slab_block"

definition new_slabheap :: "nat \<Rightarrow> slabheap" where
  "new_slabheap slab_size =
     \<lparr>sh_slab_size = slab_size, m_usable_blocks = [], m_full_blocks = [],
      slab_blocks = (\<lambda>_. \<lparr>sb_this = 0, m_freelist = 0, m_slab_size = 0, m_slab_count = 0, m_allocated_slabs = 0\<rparr>)\<rparr>"

type_synonym 'g slab_state = "slabheap \<times> 'g \<times> memory"

definition append_usable :: "slabheap \<Rightarrow> nat \<Rightarrow> slabheap" where
  "append_usable sh b = sh\<lparr>m_usable_blocks := remove1 b (m_usable_blocks sh) @ [b],
                           m_full_blocks := remove1 b (m_full_blocks sh)\<rparr>"

definition append_full :: "slabheap \<Rightarrow> nat \<Rightarrow> slabheap" where
  "append_full sh b = sh\<lparr>m_usable_blocks := remove1 b (m_usable_blocks sh),
                         m_full_blocks := remove1 b (m_full_blocks sh) @ [b]\<rparr>"

definition slabheap_take ::
    "slabheap \<Rightarrow> 'g \<Rightarrow> memory \<Rightarrow> bool \<Rightarrow> ('g slab_state \<times> nat option) result" where
  "slabheap_take sh g mem will_initialize =
     (let addr = hd (m_usable_blocks sh)
      in bindR (slab_block_allocate (slab_blocks sh addr) mem) (\<lambda>(b, ptr).
           let sh1 = sh\<lparr>slab_blocks := (slab_blocks sh)(addr := b)\<rparr>;
               sh2 = (if slab_block_is_full b then append_full sh1 addr else sh1);
               mem' = (if \<not> will_initialize then memset mem ptr KMALLOC_SCRUB_BYTE (sh_slab_size sh) else mem)
           in Inr ((sh2, g, mem'), Some ptr)))"

type_synonym 'g outer_alloc = "'g \<times> memory \<Rightarrow> nat \<Rightarrow> nat \<Rightarrow> (('g \<times> memory) \<times> nat option) result"
type_synonym 'g outer_free = "'g \<times> memory \<Rightarrow> nat \<Rightarrow> nat \<Rightarrow> ('g \<times> memory) result"

definition slabheap_allocate ::
    "'g outer_alloc \<Rightarrow> 'g slab_state \<Rightarrow> bool \<Rightarrow> ('g slab_state \<times> nat option) result" where
  "slabheap_allocate kmalloc_aligned st will_initialize =
     (case st of (sh, g, mem) \<Rightarrow>
        if m_usable_blocks sh = [] then
          bindR (kmalloc_aligned (g, mem) block_size block_size) (\<lambda>((g', mem'), slot).
            case slot of
              None \<Rightarrow> Inr ((sh, g', mem'), None)
            | Some slot \<Rightarrow>
                let (b, mem'') = slab_block_init slot (sh_slab_size sh) mem'
                in slabheap_take (append_usable (sh\<lparr>slab_blocks := (slab_blocks sh)(slot := b)\<rparr>) slot) g' mem''
                     will_initialize)
        else slabheap_take sh g mem will_initialize)"

definition slabheap_deallocate :: "'g slab_state \<Rightarrow> nat \<Rightarrow> 'g slab_state result" where
  "slabheap_deallocate st ptr =
     (case st of (sh, g, mem) \<Rightarrow>
        let mem' = memset mem ptr KFREE_SCRUB_BYTE (sh_slab_size sh);
            addr = ptr div block_size * block_size;
            block_was_full = slab_block_is_full (slab_blocks sh addr)
        in bindR (slab_block_deallocate (slab_blocks sh addr) mem' ptr) (\<lambda>(b, mem'').
             let sh1 = sh\<lparr>slab_blocks := (slab_blocks sh)(addr := b)\<rparr>
             in Inr (if block_was_full then append_usable sh1 addr else sh1, g, mem'')))"

fun purge_blocks ::
    "'g outer_free \<Rightarrow> nat list \<Rightarrow> 'g slab_state \<Rightarrow> bool \<Rightarrow> ('g slab_state \<times> bool) result" where
  "purge_blocks kfree_sized [] st did_purge = Inr (st, did_purge)"
| "purge_blocks kfree_sized (addr # rest) (sh, gm) did_purge =
     (if slab_block_allocated_bytes (slab_blocks sh addr) \<noteq> 0
      then purge_blocks kfree_sized rest (sh, gm) did_purge
      else bindR (kfree_sized gm addr block_size) (\<lambda>gm'.
             purge_blocks kfree_sized rest
               (sh\<lparr>m_usable_blocks := remove1 addr (m_usable_blocks sh)\<rparr>, gm') True))"

definition slabheap_try_purge :: "'g outer_free \<Rightarrow> 'g slab_state \<Rightarrow> ('g slab_state \<times> bool) result" where
  "slabheap_try_purge kfree_sized st = purge_blocks kfree_sized (m_usable_blocks (fst st)) st False"

definition slabheap_allocated_bytes :: "slabheap \<Rightarrow> nat" where
  "slabheap_allocated_bytes sh =
     fold (\<lambda>b total. size_add total (slab_block_allocated_bytes (slab_blocks sh b))) (m_usable_blocks sh)
       (size_mul (length (m_full_blocks sh)) block_size)"

definition slabheap_free_bytes :: "slabheap \<Rightarrow> nat" where
  "slabheap_free_bytes sh =
     fold (\<lambda>b total. size_add total (slab_block_free_bytes (slab_blocks sh b))) (m_usable_blocks sh) 0"

section \<open>Slabs and free lists\<close>

abbreviation slab_count :: "nat \<Rightarrow> nat" where
  "slab_count sz \<equiv> (block_size - sizeof_slab_block) div sz"

abbreviation slab_at :: "nat \<Rightarrow> nat \<Rightarrow> nat \<Rightarrow> nat" where
  "slab_at sz b i \<equiv> b + sizeof_slab_block + i * sz"

definition slabs :: "nat \<Rightarrow> nat \<Rightarrow> nat set" where
  "slabs sz b = slab_at sz b ` {..<slab_count sz}"

fun chain :: "memory \<Rightarrow> nat \<Rightarrow> nat list \<Rightarrow> bool" where
  "chain mem p [] \<longleftrightarrow> p = 0"
| "chain mem p (x # xs) \<longleftrightarrow> p = x \<and> x \<noteq> 0 \<and> chain mem (load64 mem x) xs"

lemma chain_cong:
  assumes "chain mem p xs" and "\<And>x. x \<in> set xs \<Longrightarrow> load64 mem' x = load64 mem x"
  shows "chain mem' p xs"
  using assms by (induction xs arbitrary: p) auto

lemma chain_0: "chain mem p xs \<Longrightarrow> p = 0 \<longleftrightarrow> xs = []"
  by (cases xs) auto

lemma slab_in_block:
  assumes "0 < sz" and "p \<in> slabs sz b"
  shows "b + sizeof_slab_block \<le> p" and "p + sz \<le> b + block_size"
proof -
  obtain i where i: "p = slab_at sz b i" "i < slab_count sz" using assms(2) by (auto simp: slabs_def)
  then have "Suc i * sz \<le> slab_count sz * sz" by (intro mult_le_mono1) simp
  also have "\<dots> \<le> block_size - sizeof_slab_block" by simp
  finally show "p + sz \<le> b + block_size" using i by (simp add: block_size_def sizeof_slab_block_def)
  show "b + sizeof_slab_block \<le> p" using i by simp
qed

lemma slab_block_of:
  assumes "0 < sz" and "p \<in> slabs sz b" and "block_size dvd b"
  shows "p div block_size * block_size = b"
proof -
  obtain k where k: "b = block_size * k" using assms(3) ..
  have "p div block_size = k"
    using slab_in_block [OF assms(1,2)] assms(1) by (intro div_nat_eqI) (simp_all add: k mult.commute)
  then show ?thesis by (simp add: k mult.commute)
qed

lemma slabs_apart:
  assumes "0 < sz" and "p \<in> slabs sz b" and "q \<in> slabs sz c" and "p \<noteq> q"
    and "b \<noteq> c \<Longrightarrow> b + block_size \<le> c \<or> c + block_size \<le> b"
  shows "apart p sz q sz"
proof (cases "b = c")
  case True
  obtain i j where i: "p = slab_at sz b i" and j: "q = slab_at sz b j"
    using assms(2,3) True by (auto simp: slabs_def)
  then have "Suc i \<le> j \<or> Suc j \<le> i" using assms(4) by auto
  then have "Suc i * sz \<le> j * sz \<or> Suc j * sz \<le> i * sz" by (meson mult_le_mono1)
  then show ?thesis using i j by (auto simp: apart_def)
next
  case False
  then show ?thesis
    using assms(5) slab_in_block [OF assms(1,2)] slab_in_block [OF assms(1,3)] by (auto simp: apart_def)
qed

lemma aligned_blocks_apart:
  assumes "block_size dvd b" and "block_size dvd c" and "b \<noteq> c"
  shows "b + block_size \<le> c \<or> c + block_size \<le> b"
proof -
  obtain i j where "b = block_size * i" "c = block_size * j" using assms(1,2) by (auto elim!: dvdE)
  moreover from this assms(3) have "Suc i \<le> j \<or> Suc j \<le> i" by auto
  then have "block_size * Suc i \<le> block_size * j \<or> block_size * Suc j \<le> block_size * i"
    by (meson mult_le_mono2)
  ultimately show ?thesis by auto
qed

text \<open>A block whose free slabs are \<open>fs\<close>, in the order of its free list.\<close>
definition slab_block_ok :: "memory \<Rightarrow> nat \<Rightarrow> nat \<Rightarrow> slab_block \<Rightarrow> nat list \<Rightarrow> bool" where
  "slab_block_ok mem sz b blk fs \<longleftrightarrow>
     sb_this blk = b \<and> m_slab_size blk = sz \<and> m_slab_count blk = slab_count sz \<and>
     chain mem (m_freelist blk) fs \<and> distinct fs \<and> set fs \<subseteq> slabs sz b \<and>
     m_allocated_slabs blk + length fs = slab_count sz"

lemma slab_block_ok_cong:
  assumes "slab_block_ok mem sz b blk fs" and "8 \<le> sz"
    and "\<And>x p. mem' x \<noteq> mem x \<Longrightarrow> p \<in> set fs \<Longrightarrow> \<not> (p \<le> x \<and> x < p + sz)"
  shows "slab_block_ok mem' sz b blk fs"
proof -
  have "load64 mem' p = load64 mem p" if "p \<in> set fs" for p
    using assms(2,3) that by (intro load64_cong) fastforce
  then show ?thesis using assms(1) chain_cong by (auto simp: slab_block_ok_def)
qed

lemma slab_block_init_ok:
  assumes "8 \<le> sz" and "0 < this" and "this + block_size \<le> size_limit"
    and init: "slab_block_init this sz mem = (blk, mem')"
  shows "slab_block_ok mem' sz this blk (rev (map (slab_at sz this) [0..<slab_count sz]))"
    and "mem' x \<noteq> mem x \<Longrightarrow> this \<le> x \<and> x < this + block_size"
proof -
  let ?b = "\<lparr>sb_this = this, m_freelist = 0, m_slab_size = sz, m_slab_count = slab_count sz, m_allocated_slabs = 0\<rparr>"
  let ?step = "\<lambda>i (b, mem). let freelist_entry = slab_data b + i * sz
      in (b\<lparr>m_freelist := freelist_entry\<rparr>, store64 mem freelist_entry (m_freelist b))"
  have loop: "\<exists>fl m. fold ?step [0..<n] (?b, mem) = (?b\<lparr>m_freelist := fl\<rparr>, m) \<and> fl < size_limit \<and>
      chain m fl (rev (map (slab_at sz this) [0..<n])) \<and>
      (\<forall>x. m x \<noteq> mem x \<longrightarrow> this \<le> x \<and> x < this + block_size)" if "n \<le> slab_count sz" for n
    using that
  proof (induction n)
    case (Suc n)
    then obtain fl m where IH: "fold ?step [0..<n] (?b, mem) = (?b\<lparr>m_freelist := fl\<rparr>, m)" "fl < size_limit"
      "chain m fl (rev (map (slab_at sz this) [0..<n]))" "\<forall>x. m x \<noteq> mem x \<longrightarrow> this \<le> x \<and> x < this + block_size"
      by auto
    let ?p = "slab_at sz this n"
    have p: "?p \<in> slabs sz this" using Suc.prems by (auto simp: slabs_def)
    note inb = slab_in_block [OF _ p]
    have "chain (store64 m ?p fl) fl (rev (map (slab_at sz this) [0..<n]))"
    proof (rule chain_cong [OF IH(3)])
      fix q assume "q \<in> set (rev (map (slab_at sz this) [0..<n]))"
      then have "q \<in> slab_at sz this ` {..<n}" by auto
      then obtain i where "q = slab_at sz this i" "i < n" by blast
      moreover from this(2) have "Suc i * sz \<le> n * sz" by (intro mult_le_mono1) simp
      ultimately show "load64 (store64 m ?p fl) q = load64 m q"
        using assms(1) by (intro load64_store64_other) simp
    qed
    moreover have "load64 (store64 m ?p fl) ?p = fl" using IH(2) by (rule load64_store64)
    moreover have "this \<le> x \<and> x < this + block_size" if "store64 m ?p fl x \<noteq> mem x" for x
      using that IH(4) inb assms(1) by (auto simp: store64_def split: if_splits)
    ultimately show ?case
      using IH inb assms(1-3) by (auto simp: slab_data_def Let_def)
  qed simp
  have count: "(block_size - sizeof_slab_block) div sz = slab_count sz" ..
  obtain fl m where l: "fold ?step [0..<slab_count sz] (?b, mem) = (?b\<lparr>m_freelist := fl\<rparr>, m)"
    "chain m fl (rev (map (slab_at sz this) [0..<slab_count sz]))"
    "\<forall>x. m x \<noteq> mem x \<longrightarrow> this \<le> x \<and> x < this + block_size"
    using loop [of "slab_count sz"] by auto
  have eq: "blk = ?b\<lparr>m_freelist := fl\<rparr>" "mem' = m"
    using init l(1) by (simp_all add: slab_block_init_def Let_def)
  show "mem' x \<noteq> mem x \<Longrightarrow> this \<le> x \<and> x < this + block_size" using l(3) eq by simp
  have "distinct (map (slab_at sz this) [0..<slab_count sz])"
    using assms(1) by (simp add: distinct_map inj_on_def)
  then show "slab_block_ok mem' sz this blk (rev (map (slab_at sz this) [0..<slab_count sz]))"
    using l(2) eq by (auto simp: slab_block_ok_def slabs_def)
qed

lemma slab_block_allocate_ok:
  assumes "slab_block_ok mem sz b blk (p # fs)"
  shows "\<exists>blk'. slab_block_allocate blk mem = Inr (blk', p) \<and> slab_block_ok mem sz b blk' fs \<and>
           (slab_block_is_full blk' \<longleftrightarrow> fs = [])"
proof -
  have "chain mem (load64 mem p) fs" "m_freelist blk = p" "p \<noteq> 0" using assms by (auto simp: slab_block_ok_def)
  then show ?thesis
    using assms chain_0 [of mem "load64 mem p" fs]
    by (auto simp: slab_block_allocate_def slab_block_ok_def slab_block_is_full_def)
qed

lemma slab_block_deallocate_ok:
  assumes ok: "slab_block_ok mem sz b blk fs" and "8 \<le> sz" and p: "p \<in> slabs sz b" "p \<notin> set fs"
    and lim: "b + block_size \<le> size_limit"
  shows "\<exists>blk'. slab_block_deallocate blk mem p = Inr (blk', store64 mem p (m_freelist blk)) \<and>
           slab_block_ok (store64 mem p (m_freelist blk)) sz b blk' (p # fs)"
proof -
  let ?m = "store64 mem p (m_freelist blk)"
  have sz: "0 < sz" using assms(2) by simp
  note inb = slab_in_block [OF sz p(1)]
  have fl: "m_freelist blk < size_limit"
  proof (cases fs)
    case (Cons q qs)
    then have "m_freelist blk = q" "q \<in> slabs sz b" using ok by (auto simp: slab_block_ok_def)
    then show ?thesis using slab_in_block [OF sz, of q b] lim assms(2) by simp
  qed (use ok in \<open>auto simp: slab_block_ok_def\<close>)
  have "load64 ?m q = load64 mem q" if "q \<in> set fs" for q
  proof -
    have "q \<in> slabs sz b" "p \<noteq> q" using ok that p(2) by (auto simp: slab_block_ok_def)
    then have "apart p sz q sz" using slabs_apart [OF sz p(1)] by blast
    then show ?thesis using assms(2) by (intro load64_store64_other) (auto simp: apart_def)
  qed
  then have "chain ?m (m_freelist blk) fs" using ok chain_cong by (auto simp: slab_block_ok_def)
  moreover have "length fs < slab_count sz"
  proof -
    have "set (p # fs) \<subseteq> slabs sz b" "distinct (p # fs)" using ok p by (auto simp: slab_block_ok_def)
    then have "length (p # fs) \<le> card (slabs sz b)" using card_mono [of "slabs sz b" "set (p # fs)"]
      by (simp add: slabs_def distinct_card [symmetric])
    also have "\<dots> \<le> slab_count sz" using card_image_le [of "{..<slab_count sz}" "slab_at sz b"] by (simp add: slabs_def)
    finally show ?thesis by simp
  qed
  moreover have "slab_count sz < size_limit"
    by (rule le_less_trans [OF div_le_dividend]) (simp add: block_size_def)
  ultimately show ?thesis
    using ok p inb sz load64_store64 [OF fl, of mem p]
    by (auto simp: slab_block_deallocate_def slab_block_ok_def slab_data_def size_simps sizeof_slab_block_def)
qed

section \<open>The slab heap as an allocator\<close>

text \<open>
  What a slab heap needs of \<open>kmalloc_aligned\<close> and \<open>kfree_sized\<close>: they are an allocator that serves
  requests for whole, aligned blocks.
\<close>

locale slab_provider = memory_allocator inv ok need meets alloc free
  for inv :: "'g \<times> memory \<Rightarrow> blocks \<Rightarrow> bool" and ok :: "'r \<Rightarrow> bool" and need meets alloc free +
  fixes block_request :: "nat \<Rightarrow> nat \<Rightarrow> 'r"
  assumes block_request_ok: "ok (block_request block_size block_size)"
    and block_request_meets: "meets (block_request block_size block_size) p n \<Longrightarrow> block_size \<le> n \<and> block_size dvd p"
begin

abbreviation get_block :: "'g outer_alloc" where
  "get_block s bytes alignment \<equiv> alloc s (block_request bytes alignment)"

abbreviation put_block :: "'g outer_free" where
  "put_block s p bytes \<equiv> free s p"

text \<open>
  \<open>slab_owner sz fs bs L\<close>: the slabs handed out are those of the blocks \<open>bs\<close> that are on no free
  list. The invariant of the slab heap leaves open which other blocks the provider has handed
  out.
\<close>

definition slab_owner :: "nat \<Rightarrow> (nat \<Rightarrow> nat list) \<Rightarrow> nat list \<Rightarrow> blocks" where
  "slab_owner sz fs bs = (\<lambda>p. if \<exists>b \<in> set bs. p \<in> slabs sz b \<and> p \<notin> set (fs b) then Some sz else None)"

lemma slab_owner_dom: "p \<in> dom (slab_owner sz fs bs) \<longleftrightarrow> (\<exists>b \<in> set bs. p \<in> slabs sz b \<and> p \<notin> set (fs b))"
  by (simp add: slab_owner_def domIff)

definition block_held :: "slabheap \<Rightarrow> memory \<Rightarrow> blocks \<Rightarrow> (nat \<Rightarrow> nat list) \<Rightarrow> nat \<Rightarrow> bool" where
  "block_held sh mem LO fs b \<longleftrightarrow>
     block_size dvd b \<and> (\<exists>n \<ge> block_size. LO b = Some n) \<and>
     slab_block_ok mem (sh_slab_size sh) b (slab_blocks sh b) (fs b)"

definition slab_wf :: "slabheap \<Rightarrow> 'g \<Rightarrow> memory \<Rightarrow> blocks \<Rightarrow> (nat \<Rightarrow> nat list) \<Rightarrow> bool" where
  "slab_wf sh g mem LO fs \<longleftrightarrow>
     inv (g, mem) LO \<and> 16 \<le> sh_slab_size sh \<and> 16 dvd sh_slab_size sh \<and> sh_slab_size sh \<le> 512 \<and>
     distinct (m_usable_blocks sh @ m_full_blocks sh) \<and>
     (\<forall>b \<in> set (m_usable_blocks sh). block_held sh mem LO fs b \<and> fs b \<noteq> []) \<and>
     (\<forall>b \<in> set (m_full_blocks sh). block_held sh mem LO fs b \<and> fs b = [])"

definition slab_inv :: "nat \<Rightarrow> 'g slab_state \<Rightarrow> blocks \<Rightarrow> bool" where
  "slab_inv sz st L \<longleftrightarrow> (\<exists>LO fs. slab_wf (fst st) (fst (snd st)) (snd (snd st)) LO fs \<and> sh_slab_size (fst st) = sz \<and>
     L = slab_owner sz fs (m_usable_blocks (fst st) @ m_full_blocks (fst st)))"

lemma slab_wfD:
  assumes "slab_wf sh g mem LO fs" and "b \<in> set (m_usable_blocks sh @ m_full_blocks sh)"
  shows "block_held sh mem LO fs b" and "0 < b" and "b + block_size \<le> size_limit"
proof -
  show h: "block_held sh mem LO fs b" using assms by (auto simp: slab_wf_def)
  then obtain n where "block_size \<le> n" "LO b = Some n" by (auto simp: block_held_def)
  moreover have "inv (g, mem) LO" using assms by (simp add: slab_wf_def)
  ultimately show "0 < b" "b + block_size \<le> size_limit" using bounded_law by fastforce+
qed

lemma slab_owner_apart:
  assumes "slab_inv sz st L"
  shows "all_apart L"
proof -
  obtain LO fs where wf: "slab_wf (fst st) (fst (snd st)) (snd (snd st)) LO fs"
    and L: "L = slab_owner sz fs (m_usable_blocks (fst st) @ m_full_blocks (fst st))" and sz: "sh_slab_size (fst st) = sz"
    using assms by (auto simp: slab_inv_def)
  have pos: "0 < sz" using wf sz by (simp add: slab_wf_def)
  have "apart p m q n" if pq: "L p = Some m" "L q = Some n" "p \<noteq> q" for p q m n
  proof -
    let ?bs = "m_usable_blocks (fst st) @ m_full_blocks (fst st)"
    obtain b c where b: "b \<in> set ?bs" "p \<in> slabs sz b" and c: "c \<in> set ?bs" "q \<in> slabs sz c"
      and mn: "m = sz" "n = sz"
      using pq(1,2) unfolding L slab_owner_def by (metis option.distinct(1) option.inject)
    have "block_size dvd b" "block_size dvd c"
      using slab_wfD(1) [OF wf b(1)] slab_wfD(1) [OF wf c(1)] by (auto simp: block_held_def)
    then show ?thesis using slabs_apart [OF pos b(2) c(2) pq(3) aligned_blocks_apart] mn by blast
  qed
  then show ?thesis by (auto simp: all_apart_def)
qed


lemma block_held_frame:
  assumes held: "block_held sh mem LO fs c" and sz: "sh_slab_size sh = sz" "16 \<le> sz"
    and p: "p \<in> slabs sz b" "block_size dvd b" "p \<notin> set (fs c)"
    and only: "\<And>x. mem' x \<noteq> mem x \<Longrightarrow> p \<le> x \<and> x < p + sz"
  shows "block_held sh mem' LO fs c"
proof -
  have ok: "slab_block_ok mem sz c (slab_blocks sh c) (fs c)" and c: "block_size dvd c"
    using held sz by (auto simp: block_held_def)
  have "slab_block_ok mem' sz c (slab_blocks sh c) (fs c)"
  proof (rule slab_block_ok_cong [OF ok])
    fix x q assume "mem' x \<noteq> mem x" "q \<in> set (fs c)"
    then have "p \<le> x" "x < p + sz" "q \<in> slabs sz c" "p \<noteq> q"
      using only p(3) ok by (auto simp: slab_block_ok_def)
    then show "\<not> (q \<le> x \<and> x < q + sz)"
      using slabs_apart [OF _ p(1), of q c] aligned_blocks_apart [OF p(2) c] sz by (auto simp: apart_def)
  qed (use sz in simp)
  then show ?thesis using held sz by (simp add: block_held_def)
qed

text \<open>Memory of a slab may be overwritten without disturbing the provider.\<close>
lemma slab_written:
  assumes "inv (g, mem) LO" and "block_held sh mem0 LO fs b" and "p \<in> slabs sz b" and "0 < sz"
    and "\<And>x. mem' x \<noteq> mem x \<Longrightarrow> p \<le> x \<and> x < p + sz"
  shows "inv (g, mem') LO"
proof -
  obtain n where "block_size \<le> n" "LO b = Some n" using assms(2) by (auto simp: block_held_def)
  then show ?thesis
    using slab_in_block [OF assms(4,3)] assms(5) by (intro written_block [OF assms(1)]) fastforce+
qed

lemma slab_owner_take:
  assumes "b \<in> set bs" and "p \<in> slabs sz b" and "fs b = p # rest" and "distinct (fs b)"
    and "\<And>c. c \<in> set bs \<Longrightarrow> block_size dvd c" and "0 < sz" and "set bs' = set bs"
  shows "slab_owner sz (fs(b := rest)) bs' = (slab_owner sz fs bs)(p \<mapsto> sz)" and "p \<notin> dom (slab_owner sz fs bs)"
proof -
  have "b = c" if "c \<in> set bs" "p \<in> slabs sz c" for c
    using slab_block_of [OF assms(6)] assms(1,2,5) that by metis
  then show "p \<notin> dom (slab_owner sz fs bs)" using assms(3) by (auto simp: slab_owner_def domIff)
  show "slab_owner sz (fs(b := rest)) bs' = (slab_owner sz fs bs)(p \<mapsto> sz)"
    using assms(1-4,7) by (auto simp: slab_owner_def fun_eq_iff)
qed

lemma slab_owner_give:
  assumes "b \<in> set bs" and "p \<in> slabs sz b" and "p \<notin> set (fs b)"
    and "\<And>c. c \<in> set bs \<Longrightarrow> block_size dvd c" and "0 < sz" and "set bs' = set bs"
  shows "slab_owner sz (fs(b := p # fs b)) bs' = (slab_owner sz fs bs)(p := None)"
proof -
  have only: "c = b" if "c \<in> set bs" "p \<in> slabs sz c" for c
    using slab_block_of [OF assms(5)] assms(1,2,4) that by metis
  show ?thesis
  proof
    fix q
    show "slab_owner sz (fs(b := p # fs b)) bs' q = ((slab_owner sz fs bs)(p := None)) q"
    proof (cases "q = p")
      case True
      then have "\<not> (\<exists>c \<in> set bs'. q \<in> slabs sz c \<and> q \<notin> set ((fs(b := p # fs b)) c))"
        using only assms(6) by auto
      then show ?thesis using True by (simp add: slab_owner_def)
    next
      case False
      then have "(\<exists>c \<in> set bs'. q \<in> slabs sz c \<and> q \<notin> set ((fs(b := p # fs b)) c)) \<longleftrightarrow>
          (\<exists>c \<in> set bs. q \<in> slabs sz c \<and> q \<notin> set (fs c))"
        using assms(6) by (auto split: if_splits)
      then show ?thesis using False by (simp only: slab_owner_def fun_upd_apply if_False)
    qed
  qed
qed

lemma slab_aligned:
  assumes "block_size dvd b" and "16 dvd sz" and "p \<in> slabs sz b"
  shows "16 dvd p"
proof -
  obtain i where "p = slab_at sz b i" using assms(3) by (auto simp: slabs_def)
  moreover have "16 dvd b" using assms(1) by (rule dvd_trans [rotated]) (simp add: block_size_def)
  ultimately show ?thesis using assms(2) by (simp add: sizeof_slab_block_def)
qed

lemma slabheap_take_ok:
  assumes wf: "slab_wf sh g mem LO fs" and us: "m_usable_blocks sh = b # us" and sz: "sh_slab_size sh = sz"
  defines "L \<equiv> slab_owner sz fs (m_usable_blocks sh @ m_full_blocks sh)"
  shows "\<exists>st' p. slabheap_take sh g mem wi = Inr (st', Some p) \<and> 16 dvd p \<and> p \<notin> dom L \<and> slab_inv sz st' (L(p \<mapsto> sz))"
proof -
  let ?bs = "m_usable_blocks sh @ m_full_blocks sh"
  have b: "b \<in> set ?bs" using us by simp
  note held = slab_wfD(1) [OF wf]
  have al: "block_size dvd c" if "c \<in> set ?bs" for c using held [OF that] by (simp add: block_held_def)
  have pos: "16 \<le> sz" "16 dvd sz" using wf sz by (auto simp: slab_wf_def)
  obtain p rest where fs: "fs b = p # rest" using wf us by (cases "fs b") (auto simp: slab_wf_def)
  have ok: "slab_block_ok mem sz b (slab_blocks sh b) (p # rest)" using held [OF b] fs sz by (simp add: block_held_def)
  then have p: "p \<in> slabs sz b" "distinct (p # rest)" by (auto simp: slab_block_ok_def)
  from slab_block_allocate_ok [OF ok] obtain blk where
    a: "slab_block_allocate (slab_blocks sh b) mem = Inr (blk, p)" "slab_block_ok mem sz b blk rest"
      "slab_block_is_full blk \<longleftrightarrow> rest = []" by blast
  define sh1 where "sh1 = sh\<lparr>slab_blocks := (slab_blocks sh)(b := blk)\<rparr>"
  define sh2 where "sh2 = (if rest = [] then append_full sh1 b else sh1)"
  define mem' where "mem' = (if wi then mem else memset mem p KMALLOC_SCRUB_BYTE sz)"
  have take: "slabheap_take sh g mem wi = Inr ((sh2, g, mem'), Some p)"
    using a us sz by (simp add: slabheap_take_def sh1_def sh2_def mem'_def Let_def)
  have only: "p \<le> x \<and> x < p + sz" if "mem' x \<noteq> mem x" for x
    using that by (auto simp: mem'_def memset_def split: if_splits)
  have shape: "sh_slab_size sh2 = sz" "slab_blocks sh2 = (slab_blocks sh)(b := blk)"
    "m_usable_blocks sh2 = (if rest = [] then us else b # us)"
    "m_full_blocks sh2 = (if rest = [] then m_full_blocks sh @ [b] else m_full_blocks sh)"
    using us sz wf by (auto simp: sh2_def sh1_def append_full_def slab_wf_def remove1_idem)
  have fs_p: "p \<notin> set ((fs(b := rest)) c)" if "c \<in> set ?bs" for c
  proof
    assume p': "p \<in> set ((fs(b := rest)) c)"
    then have "c \<noteq> b" using p(2) by auto
    then have "p \<in> slabs sz c" using p' held [OF that] sz by (auto simp: block_held_def slab_block_ok_def)
    then show False
      using slab_block_of [of sz p b] slab_block_of [of sz p c] p(1) al [OF that] al [OF b] pos \<open>c \<noteq> b\<close> by simp
  qed
  have held': "block_held sh2 mem' LO (fs(b := rest)) c" if c: "c \<in> set ?bs" for c
  proof -
    have "block_held sh2 mem LO (fs(b := rest)) c"
      using held [OF c] a(2) shape sz by (auto simp: block_held_def)
    from block_held_frame [OF this shape(1) pos(1) p(1) al [OF b] fs_p [OF c], of mem'] only
    show ?thesis by blast
  qed
  have set: "set (m_usable_blocks sh2 @ m_full_blocks sh2) = set ?bs" using us shape by auto
  have inv': "inv (g, mem') LO"
    using wf slab_written [OF _ held [OF b] p(1) _ only] pos by (auto simp: slab_wf_def)
  have "slab_wf sh2 g mem' LO (fs(b := rest))"
    using inv' wf shape held' us sz fs by (auto simp: slab_wf_def)
  moreover have dist: "distinct (fs b)" and "0 < sz" using p(2) pos fs by simp_all
  have own: "slab_owner sz (fs(b := rest)) (m_usable_blocks sh2 @ m_full_blocks sh2) = L(p \<mapsto> sz)" "p \<notin> dom L"
    unfolding L_def using slab_owner_take [of b ?bs p sz fs rest] b p(1) fs dist al \<open>0 < sz\<close> set by blast+
  ultimately have "slab_inv sz (sh2, g, mem') (L(p \<mapsto> sz))"
    unfolding slab_inv_def using shape(1) own(1) by (intro exI [of _ LO] exI [of _ "fs(b := rest)"]) simp
  then show ?thesis using take slab_aligned [OF al [OF b] pos(2) p(1)] own(2) by blast
qed


text \<open>A full block has no free list that a change of memory could disturb.\<close>
lemma block_held_full: "block_held sh mem LO fs c \<Longrightarrow> fs c = [] \<Longrightarrow> block_held sh mem' LO fs c"
  by (simp add: block_held_def slab_block_ok_def)

lemma slab_count_pos: "0 < sz \<Longrightarrow> sz \<le> 512 \<Longrightarrow> 0 < slab_count sz"
  by (simp add: div_greater_zero_iff block_size_def sizeof_slab_block_def)

lemma new_block_ok:
  assumes wf: "slab_wf sh g mem LO fs" and empty: "m_usable_blocks sh = []" and sz: "sh_slab_size sh = sz"
    and new: "slot \<notin> dom LO" "block_size \<le> n" "block_size dvd slot" "inv (g', mem') (LO(slot \<mapsto> n))"
    and init: "slab_block_init slot sz mem' = (blk, mem'')"
  shows "\<exists>fs'. slab_wf (append_usable (sh\<lparr>slab_blocks := (slab_blocks sh)(slot := blk)\<rparr>) slot) g' mem'' (LO(slot \<mapsto> n)) fs' \<and>
           slab_owner sz fs' (slot # m_full_blocks sh) = slab_owner sz fs (m_full_blocks sh)"
proof -
  let ?free = "rev (map (slab_at sz slot) [0..<slab_count sz])" and ?LO = "LO(slot \<mapsto> n)"
  let ?sh = "append_usable (sh\<lparr>slab_blocks := (slab_blocks sh)(slot := blk)\<rparr>) slot"
  have b: "0 < slot" "slot + n \<le> size_limit" using bounded_law [OF new(4), of slot n] by simp_all
  have pos: "16 \<le> sz" "16 dvd sz" "sz \<le> 512" using wf sz by (auto simp: slab_wf_def)
  have "8 \<le> sz" "slot + block_size \<le> size_limit" using pos b new(2) by simp_all
  note ok = slab_block_init_ok [OF \<open>8 \<le> sz\<close> b(1) this(2) init]
  have slot: "slot \<notin> set (m_full_blocks sh)"
    using slab_wfD(1) [OF wf, of slot] new(1) by (auto simp: block_held_def)
  have inv': "inv (g', mem'') ?LO"
    using ok(2) new(2) by (intro written_block [OF new(4), of slot n]) fastforce+
  have held: "block_held ?sh mem'' ?LO (fs(slot := ?free)) c \<and> (fs(slot := ?free)) c = []"
    if "c \<in> set (m_full_blocks sh)" for c
  proof -
    have "block_held sh mem LO fs c" "fs c = []" using wf that by (auto simp: slab_wf_def)
    then show ?thesis
      using block_held_full [of sh mem LO fs c mem''] that slot
      by (auto simp: block_held_def append_usable_def)
  qed
  have "block_held ?sh mem'' ?LO (fs(slot := ?free)) slot"
    using ok(1) new(2,3) sz by (simp add: block_held_def append_usable_def)
  moreover have "?free \<noteq> []" using slab_count_pos [of sz] pos by simp
  ultimately have "slab_wf ?sh g' mem'' ?LO (fs(slot := ?free))"
    using inv' held wf pos sz slot empty by (auto simp: slab_wf_def append_usable_def remove1_idem)
  moreover have "slab_owner sz (fs(slot := ?free)) (slot # m_full_blocks sh) = slab_owner sz fs (m_full_blocks sh)"
    using slot by (auto simp: slab_owner_def fun_eq_iff slabs_def split: if_splits)
  ultimately show ?thesis by blast
qed

lemma slabheap_allocate_ok:
  assumes inv: "slab_inv sz st L"
  shows "(\<exists>st'. slabheap_allocate get_block st wi = Inr (st', None) \<and> slab_inv sz st' L) \<or>
         (\<exists>st' p. slabheap_allocate get_block st wi = Inr (st', Some p) \<and> 16 dvd p \<and> p \<notin> dom L \<and>
            slab_inv sz st' (L(p \<mapsto> sz)))"
proof -
  obtain sh g mem where st: "st = (sh, g, mem)" using prod_cases3 by blast
  obtain LO fs where wf: "slab_wf sh g mem LO fs" and sz: "sh_slab_size sh = sz"
    and L: "L = slab_owner sz fs (m_usable_blocks sh @ m_full_blocks sh)"
    using inv by (auto simp: slab_inv_def st)
  show ?thesis
  proof (cases "m_usable_blocks sh")
    case (Cons b us)
    from slabheap_take_ok [OF wf Cons sz, of wi] show ?thesis using Cons by (simp add: slabheap_allocate_def st L)
  next
    case Nil
    have o: "inv (g, mem) LO" using wf by (simp add: slab_wf_def)
    from alloc_law [OF o block_request_ok] show ?thesis
    proof (elim disjE exE conjE)
      fix s' assume a: "get_block (g, mem) block_size block_size = Inr (s', None)" "inv s' LO"
      obtain g' mem' where s': "s' = (g', mem')" by fastforce
      have "slab_wf sh g' mem' LO fs"
        using wf a(2) Nil block_held_full [of sh mem LO fs _ mem'] by (auto simp: slab_wf_def s')
      then have "slab_inv sz (sh, g', mem') L" using sz L by (auto simp: slab_inv_def)
      then show ?thesis using a(1) Nil by (simp add: slabheap_allocate_def st s')
    next
      fix s' slot n
      assume a: "get_block (g, mem) block_size block_size = Inr (s', Some slot)" "slot \<notin> dom LO"
        "meets (block_request block_size block_size) slot n" "inv s' (LO(slot \<mapsto> n))"
      obtain g' mem' where s': "s' = (g', mem')" by fastforce
      obtain blk mem'' where i: "slab_block_init slot sz mem' = (blk, mem'')" by fastforce
      let ?sh = "append_usable (sh\<lparr>slab_blocks := (slab_blocks sh)(slot := blk)\<rparr>) slot"
      have m: "block_size \<le> n" "block_size dvd slot" using block_request_meets [OF a(3)] by simp_all
      obtain fs' where wf': "slab_wf ?sh g' mem'' (LO(slot \<mapsto> n)) fs'"
        and own: "slab_owner sz fs' (slot # m_full_blocks sh) = slab_owner sz fs (m_full_blocks sh)"
        using new_block_ok [OF wf Nil sz a(2) m a(4) [unfolded s'] i] by blast
      have "slot \<notin> set (m_full_blocks sh)" using slab_wfD(1) [OF wf, of slot] a(2) by (auto simp: block_held_def)
      then have sh: "m_usable_blocks ?sh = slot # []" "m_full_blocks ?sh = m_full_blocks sh" "sh_slab_size ?sh = sz"
        using Nil sz by (simp_all add: append_usable_def remove1_idem)
      have "slab_owner sz fs' (m_usable_blocks ?sh @ m_full_blocks ?sh) = L"
        using own L sh Nil by simp
      with slabheap_take_ok [OF wf' sh(1,3), of wi] show ?thesis
        using a(1) Nil sz i by (simp add: slabheap_allocate_def st s')
    qed
  qed
qed


lemma slabheap_deallocate_ok:
  assumes inv: "slab_inv sz st L" and "p \<in> dom L"
  shows "\<exists>st'. slabheap_deallocate st p = Inr st' \<and> slab_inv sz st' (L(p := None))"
proof -
  obtain sh g mem where st: "st = (sh, g, mem)" using prod_cases3 by blast
  let ?bs = "m_usable_blocks sh @ m_full_blocks sh"
  obtain LO fs where wf: "slab_wf sh g mem LO fs" and sz: "sh_slab_size sh = sz" and L: "L = slab_owner sz fs ?bs"
    using inv by (auto simp: slab_inv_def st)
  have "\<exists>b \<in> set ?bs. p \<in> slabs sz b \<and> p \<notin> set (fs b)"
    using assms(2) by (simp only: L slab_owner_dom)
  then obtain b where b: "b \<in> set ?bs" and p: "p \<in> slabs sz b" "p \<notin> set (fs b)" by blast
  note held = slab_wfD(1) [OF wf]
  have al: "block_size dvd c" if "c \<in> set ?bs" for c using held [OF that] by (simp add: block_held_def)
  have pos: "16 \<le> sz" "0 < sz" using wf sz by (auto simp: slab_wf_def)
  have addr: "p div block_size * block_size = b" using slab_block_of [OF pos(2) p(1) al [OF b]] .
  have other: "p \<notin> set (fs c)" if "c \<in> set ?bs" for c
  proof
    assume "p \<in> set (fs c)"
    then have "p \<in> slabs sz c" using held [OF that] sz by (auto simp: block_held_def slab_block_ok_def)
    then have "c = b" using slab_block_of [OF pos(2) _ al [OF that]] addr by simp
    then show False using \<open>p \<in> set (fs c)\<close> p(2) by simp
  qed
  define mem1 where "mem1 = memset mem p KFREE_SCRUB_BYTE sz"
  have "block_held sh mem1 LO fs b"
    using block_held_frame [OF held [OF b] sz pos(1) p(1) al [OF b] p(2), of mem1]
    by (auto simp: mem1_def memset_def split: if_splits)
  then have ok1: "slab_block_ok mem1 sz b (slab_blocks sh b) (fs b)" using sz by (simp add: block_held_def)
  define mem2 where "mem2 = store64 mem1 p (m_freelist (slab_blocks sh b))"
  from slab_block_deallocate_ok [OF ok1 _ p slab_wfD(3) [OF wf b]] pos obtain blk
    where d: "slab_block_deallocate (slab_blocks sh b) mem1 p = Inr (blk, mem2)"
      and ok2: "slab_block_ok mem2 sz b blk (p # fs b)" by (auto simp: mem2_def)
  have only: "p \<le> x \<and> x < p + sz" if "mem2 x \<noteq> mem x" for x
    using that pos by (auto simp: mem2_def mem1_def memset_def store64_def split: if_splits)
  have full: "slab_block_is_full (slab_blocks sh b) \<longleftrightarrow> fs b = []"
    using chain_0 ok1 by (auto simp: slab_block_is_full_def slab_block_ok_def)
  define sh1 where "sh1 = sh\<lparr>slab_blocks := (slab_blocks sh)(b := blk)\<rparr>"
  define sh2 where "sh2 = (if fs b = [] then append_usable sh1 b else sh1)"
  have eq: "slabheap_deallocate st p = Inr (sh2, g, mem2)"
    using d sz addr full by (simp add: slabheap_deallocate_def st sh1_def sh2_def mem1_def Let_def)
  have where_b: "fs b = [] \<longleftrightarrow> b \<in> set (m_full_blocks sh)" using b wf by (auto simp: slab_wf_def)
  then have shape: "sh_slab_size sh2 = sz" "slab_blocks sh2 = (slab_blocks sh)(b := blk)"
    "m_usable_blocks sh2 = (if fs b = [] then m_usable_blocks sh @ [b] else m_usable_blocks sh)"
    "m_full_blocks sh2 = (if fs b = [] then remove1 b (m_full_blocks sh) else m_full_blocks sh)"
    using sz wf by (auto simp: sh2_def sh1_def append_usable_def slab_wf_def remove1_idem)
  have dist: "distinct (m_full_blocks sh)" using wf by (simp add: slab_wf_def)
  then have set: "set (m_usable_blocks sh2 @ m_full_blocks sh2) = set ?bs" using shape where_b b by auto
  have held': "block_held sh2 mem2 LO (fs(b := p # fs b)) c" if c: "c \<in> set ?bs" for c
  proof (cases "c = b")
    case True
    then show ?thesis using held [OF b] ok2 shape by (auto simp: block_held_def)
  next
    case False
    from block_held_frame [OF held [OF c] sz pos(1) p(1) al [OF b] other [OF c], of mem2] only
    have "block_held sh mem2 LO fs c" by blast
    then show ?thesis using False shape sz by (auto simp: block_held_def)
  qed
  have inv': "inv (g, mem2) LO"
    using wf slab_written [OF _ held [OF b] p(1) pos(2) only] by (auto simp: slab_wf_def)
  have "slab_wf sh2 g mem2 LO (fs(b := p # fs b))"
    using inv' wf shape held' sz where_b b dist by (auto simp: slab_wf_def)
  moreover have "slab_owner sz (fs(b := p # fs b)) (m_usable_blocks sh2 @ m_full_blocks sh2) = L(p := None)"
    unfolding L using slab_owner_give [of b ?bs p sz fs] b p al pos(2) set by blast
  ultimately have "slab_inv sz (sh2, g, mem2) (L(p := None))"
    unfolding slab_inv_def using shape(1) by (intro exI [of _ LO] exI [of _ "fs(b := p # fs b)"]) simp
  then show ?thesis using eq by blast
qed


lemma unused_block_free:
  assumes ok: "slab_block_ok mem sz b blk fs" and unused: "slab_block_allocated_bytes blk = 0" and sz: "0 < sz" "sz \<le> 512"
  shows "set fs = slabs sz b"
proof -
  have cnt: "m_allocated_slabs blk + length fs = slab_count sz" "m_slab_size blk = sz" "set fs \<subseteq> slabs sz b" "distinct fs"
    using ok by (simp_all add: slab_block_ok_def)
  have "slab_count sz \<le> block_size" using div_le_dividend order_trans diff_le_self by metis
  then have "m_allocated_slabs blk \<le> block_size" using cnt(1) by linarith
  then have "m_allocated_slabs blk * sz \<le> block_size * 512" using sz(2) by (rule mult_le_mono)
  then have "m_allocated_slabs blk * sz < size_limit" by (simp add: block_size_def)
  then have "m_allocated_slabs blk = 0"
    using unused cnt(2) sz(1) by (simp add: slab_block_allocated_bytes_def size_mul_def)
  then have "card (set fs) = slab_count sz" using cnt(1,4) by (simp add: distinct_card)
  moreover have "card (slabs sz b) \<le> slab_count sz"
    using card_image_le [of "{..<slab_count sz}" "slab_at sz b"] by (simp add: slabs_def)
  ultimately show ?thesis
    using cnt(3) card_seteq [of "slabs sz b" "set fs"] by (simp add: slabs_def)
qed

lemma purge_one_ok:
  assumes wf: "slab_wf sh g mem LO fs" and b: "b \<in> set (m_usable_blocks sh)" and sz: "sh_slab_size sh = sz"
    and unused: "slab_block_allocated_bytes (slab_blocks sh b) = 0"
  defines "sh' \<equiv> sh\<lparr>m_usable_blocks := remove1 b (m_usable_blocks sh)\<rparr>"
  shows "\<exists>g' mem'. put_block (g, mem) b block_size = Inr (g', mem') \<and> slab_wf sh' g' mem' (LO(b := None)) fs \<and>
           slab_owner sz fs (m_usable_blocks sh' @ m_full_blocks sh') =
           slab_owner sz fs (m_usable_blocks sh @ m_full_blocks sh)"
proof -
  note held = slab_wfD(1) [OF wf]
  have o: "inv (g, mem) LO" and size: "0 < sz" "sz \<le> 512" "8 \<le> sz" and dist: "distinct (m_usable_blocks sh @ m_full_blocks sh)"
    using wf sz by (auto simp: slab_wf_def)
  have hb: "block_held sh mem LO fs b" using held b by simp
  then have dom: "b \<in> dom LO" by (auto simp: block_held_def)
  obtain s' where s': "free (g, mem) b = Inr s'" "inv s' (LO(b := None))" using free_law [OF o dom] by blast
  obtain g' mem' where gm: "s' = (g', mem')" by fastforce
  have held': "block_held sh' mem' (LO(b := None)) fs c"
    if c: "c \<in> set (m_usable_blocks sh @ m_full_blocks sh)" "c \<noteq> b" for c
  proof -
    have hc: "block_held sh mem LO fs c" using held c(1) by blast
    then obtain n where n: "LO c = Some n" "block_size \<le> n" by (auto simp: block_held_def)
    have ok: "slab_block_ok mem sz c (slab_blocks sh c) (fs c)" using hc sz by (simp add: block_held_def)
    have "slab_block_ok mem' sz c (slab_blocks sh c) (fs c)"
    proof (rule slab_block_ok_cong [OF ok size(3)])
      fix x q assume x: "mem' x \<noteq> mem x" and "q \<in> set (fs c)"
      then have "q \<in> slabs sz c" using ok by (auto simp: slab_block_ok_def)
      then have "c \<le> q" "q + sz \<le> c + n" using slab_in_block [OF size(1)] n(2) by fastforce+
      then show "\<not> (q \<le> x \<and> x < q + sz)"
        using free_frame [OF o dom s'(1) [unfolded gm] n(1) c(2), of x] x by auto
    qed
    then show ?thesis using hc c(2) sz n by (simp add: block_held_def sh'_def)
  qed
  have "slab_wf sh' g' mem' (LO(b := None)) fs"
    using wf s'(2) held' dist b by (auto simp: slab_wf_def sh'_def gm distinct_remove1)
  moreover have "set (fs b) = slabs sz b"
    using unused_block_free [OF _ unused size(1,2)] hb sz by (auto simp: block_held_def)
  then have "slab_owner sz fs (m_usable_blocks sh' @ m_full_blocks sh') =
      slab_owner sz fs (m_usable_blocks sh @ m_full_blocks sh)"
    using dist b by (auto simp: slab_owner_def fun_eq_iff sh'_def set_remove1_eq split: if_splits)
  ultimately show ?thesis using s'(1) gm by blast
qed

lemma purge_blocks_ok:
  assumes "slab_wf sh g mem LO fs" and "sh_slab_size sh = sz" and "set bs \<subseteq> set (m_usable_blocks sh)" and "distinct bs"
  defines "L \<equiv> slab_owner sz fs (m_usable_blocks sh @ m_full_blocks sh)"
  shows "\<exists>st' did'. purge_blocks put_block bs (sh, g, mem) did = Inr (st', did') \<and> slab_inv sz st' L"
  using assms(1-4) unfolding L_def
proof (induction bs arbitrary: sh g mem LO did)
  case Nil
  then show ?case by (auto simp: slab_inv_def)
next
  case (Cons b bs)
  show ?case
  proof (cases "slab_block_allocated_bytes (slab_blocks sh b) = 0")
    case False
    then show ?thesis using Cons.IH [OF Cons.prems(1,2)] Cons.prems(3,4) by simp
  next
    case True
    let ?sh = "sh\<lparr>m_usable_blocks := remove1 b (m_usable_blocks sh)\<rparr>"
    have b: "b \<in> set (m_usable_blocks sh)" using Cons.prems(3) by simp
    obtain g' mem' where p: "free (g, mem) b = Inr (g', mem')" "slab_wf ?sh g' mem' (LO(b := None)) fs"
      "slab_owner sz fs (m_usable_blocks ?sh @ m_full_blocks ?sh) = slab_owner sz fs (m_usable_blocks sh @ m_full_blocks sh)"
      using purge_one_ok [OF Cons.prems(1) b Cons.prems(2) True] by blast
    have sub: "set bs \<subseteq> set (m_usable_blocks ?sh)"
    proof
      fix c assume "c \<in> set bs"
      then have "c \<in> set (m_usable_blocks sh)" "c \<noteq> b" using Cons.prems(3,4) by auto
      then show "c \<in> set (m_usable_blocks ?sh)" by (simp add: in_set_remove1)
    qed
    have "\<exists>st' did'. purge_blocks put_block bs (?sh, g', mem') True = Inr (st', did') \<and>
        slab_inv sz st' (slab_owner sz fs (m_usable_blocks ?sh @ m_full_blocks ?sh))"
      using Cons.prems(2,4) sub by (intro Cons.IH [OF p(2)]) simp_all
    then show ?thesis using p True by simp
  qed
qed

lemma slabheap_try_purge_ok:
  assumes "slab_inv sz st L"
  shows "\<exists>st' did. slabheap_try_purge put_block st = Inr (st', did) \<and> slab_inv sz st' L"
proof -
  obtain sh g mem where st: "st = (sh, g, mem)" using prod_cases3 by blast
  obtain LO fs where wf: "slab_wf sh g mem LO fs" and "sh_slab_size sh = sz"
    and "L = slab_owner sz fs (m_usable_blocks sh @ m_full_blocks sh)"
    using assms by (auto simp: slab_inv_def st)
  moreover have "distinct (m_usable_blocks sh)" using wf by (simp add: slab_wf_def)
  ultimately show ?thesis using purge_blocks_ok [OF wf] by (simp add: slabheap_try_purge_def st)
qed

lemma slab_inv_empty:
  assumes "inv (g, mem) LO" and "16 dvd sz" and "16 \<le> sz" and "sz \<le> 512"
  shows "slab_inv sz (\<lparr>sh_slab_size = sz, m_usable_blocks = [], m_full_blocks = [], slab_blocks = bs\<rparr>, g, mem) Map.empty"
  using assms by (auto simp: slab_inv_def slab_wf_def slab_owner_def fun_eq_iff)

end

abbreviation slab_alloc_op ::
    "'g outer_alloc \<Rightarrow> 'g slab_state \<Rightarrow> nat \<times> bool \<Rightarrow> ('g slab_state \<times> nat option) result" where
  "slab_alloc_op kmalloc_aligned st r \<equiv> slabheap_allocate kmalloc_aligned st (snd r)"

sublocale slab_provider \<subseteq> slabs: allocator "slab_inv sz" "\<lambda>r :: nat \<times> bool. fst r \<le> sz" fst
    "\<lambda>r p n. fst r \<le> n \<and> 16 dvd p" "slab_alloc_op get_block" slabheap_deallocate
  for sz
proof
  show "\<And>s L. slab_inv sz s L \<Longrightarrow> all_apart L" by (rule slab_owner_apart)
  show "\<And>s L p. slab_inv sz s L \<Longrightarrow> p \<in> dom L \<Longrightarrow> \<exists>s'. slabheap_deallocate s p = Inr s' \<and> slab_inv sz s' (L(p := None))"
    by (rule slabheap_deallocate_ok)
  fix s L and r :: "nat \<times> bool"
  assume "slab_inv sz s L" "fst r \<le> sz"
  then show "(\<exists>s'. slab_alloc_op get_block s r = Inr (s', None) \<and> slab_inv sz s' L) \<or>
      (\<exists>s' p n. slab_alloc_op get_block s r = Inr (s', Some p) \<and> p \<notin> dom L \<and> (fst r \<le> n \<and> 16 dvd p) \<and>
         slab_inv sz s' (L(p \<mapsto> n)))"
    using slabheap_allocate_ok [of sz s L "snd r"] by blast
qed simp

end
