(* ===== verification/Kmalloc.thy ===== *)
theory Kmalloc
  imports Heap Slab
begin

text \<open>
  The slab heaps of \<open>kmalloc\<close> on top of a subheap, and how \<open>kmalloc\<close> and \<open>kfree_sized\<close> choose the
  slab heap for a request. The heap of \<open>Heap\<close> provides the blocks the slab heaps of \<open>Slab\<close> need.
\<close>

section \<open>Choice of the slab heap\<close>

text \<open>\<open>KmallocGlobalData::slabheaps\<close>: the sizes of the slab heaps, in the order they are tried.\<close>
definition slabheap_sizes :: "nat list" where
  "slabheap_sizes = [16, 32, 64, 128, 256, 512]"

text \<open>The first loop of \<open>KmallocGlobalData::allocate\<close>; \<open>None\<close> means that the subheaps are asked.\<close>
definition slabheap_for_allocate :: "nat \<Rightarrow> nat \<Rightarrow> nat option" where
  "slabheap_for_allocate bytes alignment =
     find (\<lambda>slab_size. bytes \<le> slab_size \<and> alignment \<le> slab_size) slabheap_sizes"

text \<open>The first loop of \<open>KmallocGlobalData::deallocate\<close>.\<close>
definition slabheap_for_deallocate :: "nat \<Rightarrow> nat option" where
  "slabheap_for_deallocate bytes = find (\<lambda>slab_size. bytes \<le> slab_size) slabheap_sizes"

definition kmalloc_good_size :: "nat \<Rightarrow> nat result" where
  "kmalloc_good_size bytes =
     (if \<not> bytes > 0 then Inl VerifyFailed
      else case slabheap_for_deallocate bytes of
             Some slab_size \<Rightarrow> Inr slab_size
           | None \<Rightarrow> Inr (size_sub (round_up_to_power_of_two (size_add bytes AllocationHeaderSize) CHUNK_SIZE)
                                  AllocationHeaderSize))"

lemma and_not_63: "unat (w AND NOT 63 :: u64) = unat w div 64 * 64"
proof -
  have "(63 :: u64) = mask 6" by (simp add: mask_eq_exp_minus_1)
  then have "w AND NOT 63 = push_bit 6 (drop_bit 6 w)"
    by (auto simp: bit_eq_iff bit_simps)
  also have "\<dots> = word_of_nat (unat w div 64 * 64)"
    by (simp add: push_bit_eq_mult drop_bit_eq_div word_arith_nat_div mult.commute)
  finally have "unat (w AND NOT 63) = unat w div 64 * 64 mod 2 ^ 64"
    by (simp only: unat_of_nat len_num1 len_num0 len_bit0) simp
  moreover have "unat w div 64 * 64 < 2 ^ 64"
    using unsigned_less [of w] by (intro le_less_trans [OF div_times_less_eq_dividend]) simp
  ultimately show ?thesis by simp
qed

lemma round_up_64:
  assumes "0 < v" and "v + 64 \<le> size_limit"
  shows "round_up_to_power_of_two v 64 = (v + 63) div 64 * 64"
proof -
  let ?w = "word_of_nat v - 1 :: u64"
  have "?w = word_of_nat (v - 1)" using assms(1) by (cases v) simp_all
  moreover have "unat (word_of_nat (v - 1) :: u64) = v - 1" using assms by (simp only: unat_of_nat) simp
  ultimately have w: "unat ?w = v - 1" by (simp only:)
  have e: "(v - 1) div 64 * 64 + 64 = (v + 63) div 64 * 64"
    using assms(1) by (cases v) (simp_all add: div_add_self1)
  have "(v - 1) div 64 * 64 \<le> v - 1" by simp
  then have "(v - 1) div 64 * 64 + 64 < 2 ^ 64" using assms by simp
  then have "unat ((?w AND NOT 63) + 64) = (v - 1) div 64 * 64 + 64"
    using and_not_63 [of ?w] w by (simp add: unat_add_lem [THEN iffD1])
  then show ?thesis using e by (simp add: round_up_to_power_of_two_def)
qed

section \<open>Slab heaps over a heap\<close>

lemma heap_block_request: "heap_request (block_size, block_size, False)"
  using heap_requestI [of block_size 16 False] by (simp add: block_size_def)

interpretation kmalloc_slabs: slab_provider "heap_inv_at base chunks" heap_request fst heap_meets
    heap_alloc_op heap_free_op "\<lambda>bytes alignment. (bytes, alignment, False)"
  for base chunks
  by unfold_locales (simp_all add: heap_block_request heap_meets_def)

text \<open>\<open>kmalloc_aligned\<close> for a block, as far as one subheap serves it.\<close>
definition heap_kmalloc_aligned :: "heap outer_alloc" where
  "heap_kmalloc_aligned s bytes alignment = heap_allocate (fst s) (snd s) bytes alignment False"

section \<open>Properties\<close>

text \<open>
  C3: Whatever sequence of allocations and frees is done on a new slab heap whose blocks come from a
  new heap, no assertion fails and no free list is corrupted: the slabs held are aligned to 16
  bytes and do not overlap.
\<close>
theorem slabs_disjoint:
  assumes "fresh_area base memory_size bytes" and "sz \<in> set slabheap_sizes"
    and "\<forall>r \<in> requests ops. fst r \<le> sz"
  shows "\<exists>h. heap_create base memory_size bytes = Inr h \<and>
           (\<exists>st bs. run_ops (slab_alloc_op heap_kmalloc_aligned) slabheap_deallocate fst ops
                     (new_slabheap sz, h, mem) [] = Inr (st, bs) \<and>
              pairwise_apart bs \<and> (\<forall>(p, n) \<in> set bs. n \<le> sz))"
proof -
  obtain h where h: "heap_create base memory_size bytes = Inr h" "m_chunks h = base"
    "m_total_chunks h = calculate_chunks memory_size" "heap_inv (h, mem) Map.empty"
    using heap_create_returns [OF assms(1)] by blast
  let ?t = "calculate_chunks memory_size"
  have "heap_inv_at base ?t (h, mem) Map.empty" using h by (simp add: heap_inv_at_def)
  moreover have "16 dvd sz" "16 \<le> sz" "sz \<le> 512" using assms(2) by (auto simp: slabheap_sizes_def)
  ultimately have inv: "kmalloc_slabs.slab_inv base ?t sz (new_slabheap sz, h, mem) Map.empty"
    unfolding new_slabheap_def by (rule kmalloc_slabs.slab_inv_empty)
  have req: "\<And>r. r \<in> requests ops \<Longrightarrow> fst r \<le> sz" using assms(3) by blast
  have eq: "heap_kmalloc_aligned = (\<lambda>s bytes alignment. heap_alloc_op s (bytes, alignment, False))"
    by (simp add: fun_eq_iff heap_kmalloc_aligned_def)
  from kmalloc_slabs.slabs.run_ops_apart [OF inv holds_nil, of ops] req
  obtain st bs L where r: "run_ops (slab_alloc_op heap_kmalloc_aligned) slabheap_deallocate fst ops
      (new_slabheap sz, h, mem) [] = Inr (st, bs)" "kmalloc_slabs.slab_inv base ?t sz st L" "holds bs L" "pairwise_apart bs"
    unfolding eq by blast
  have "n \<le> sz" if "(p, n) \<in> set bs" for p n
  proof -
    obtain m where "L p = Some m" "n \<le> m" using holdsD [OF r(3) \<open>(p, n) \<in> set bs\<close>] by blast
    then show ?thesis using r(2) by (auto simp: kmalloc_slabs.slab_inv_def kmalloc_slabs.slab_owner_def split: if_splits)
  qed
  then show ?thesis using h(1) r(1,4) by blast
qed

theorem slabs_disjoint_witness:
  "\<exists>h. heap_create 4096 1000000 (replicate (1000000 - 15384 * 64) 0) = Inr h \<and>
     (\<exists>st bs. run_ops (slab_alloc_op heap_kmalloc_aligned) slabheap_deallocate fst
               [Acquire (20, False), Acquire (32, True), Release 1, Acquire (8, False)]
               (new_slabheap 32, h, \<lambda>_. 0) [] = Inr (st, bs) \<and>
        pairwise_apart bs \<and> (\<forall>(p, n) \<in> set bs. n \<le> 32))"
proof (rule slabs_disjoint)
  show "fresh_area 4096 1000000 (replicate (1000000 - 15384 * 64) 0)"
    by (simp add: fresh_area_def calculate_chunks_def CHUNK_SIZE_def max_size_def)
qed (simp_all add: slabheap_sizes_def)

text \<open>
  \<open>kmalloc_good_size\<close> is at least the size asked for, and no request of up to that size needs
  more memory: it is served by the same slab heap, or by a block of the same number of chunks.
\<close>
theorem kmalloc_good_size_correct:
  assumes "0 < bytes" and "bytes + 80 \<le> size_limit"
  shows "\<exists>good. kmalloc_good_size bytes = Inr good \<and> bytes \<le> good \<and>
           slabheap_for_deallocate good = slabheap_for_deallocate bytes \<and>
           (slabheap_for_deallocate bytes = None \<longrightarrow> good + 16 = (bytes + 79) div 64 * 64)"
proof (cases "slabheap_for_deallocate bytes")
  case None
  then have big: "512 < bytes" by (auto simp: slabheap_for_deallocate_def slabheap_sizes_def split: if_splits)
  let ?r = "(bytes + 79) div 64 * 64"
  have "round_up_to_power_of_two (bytes + 16) 64 = ?r"
    using assms round_up_64 [of "bytes + 16"] by simp
  moreover have r: "?r \<le> bytes + 79" by simp
  moreover have lt: "bytes + 79 < ?r + 64" using div_mult_mod_eq [of "bytes + 79" 64] mod_less_divisor [of 64 "bytes + 79"] by linarith
  ultimately have "kmalloc_good_size bytes = Inr (?r - 16)"
    using assms None by (simp add: kmalloc_good_size_def AllocationHeaderSize_def CHUNK_SIZE_def size_simps)
  moreover have "bytes \<le> ?r - 16" using lt big by linarith
  moreover have "slabheap_for_deallocate (?r - 16) = None"
    using big calculation(2) by (auto simp: slabheap_for_deallocate_def slabheap_sizes_def)
  ultimately show ?thesis using None lt big by auto
next
  case (Some s)
  then have "bytes \<le> s" "slabheap_for_deallocate s = Some s"
    by (auto simp: slabheap_for_deallocate_def slabheap_sizes_def split: if_splits)
  then show ?thesis using Some assms(1) by (simp add: kmalloc_good_size_def)
qed

theorem kmalloc_good_size_correct_witness:
  "\<exists>good. kmalloc_good_size 1000 = Inr good \<and> 1000 \<le> good \<and>
     slabheap_for_deallocate good = slabheap_for_deallocate 1000 \<and>
     (slabheap_for_deallocate 1000 = None \<longrightarrow> good + 16 = (1000 + 79) div 64 * 64)"
  by (rule kmalloc_good_size_correct) simp_all

text \<open>
  A request aligned to 128 bytes is given to the slab heap of that size, none of whose slabs is
  aligned to more than 64: the slabs start behind the header of the block.
\<close>
theorem slab_not_aligned_to_its_size:
  assumes "block_size dvd b" and "p \<in> slabs 128 b"
  shows "slabheap_for_allocate 128 128 = Some 128 \<and> p mod 128 = 64"
proof -
  obtain i where "p = slab_at 128 b i" using assms(2) by (auto simp: slabs_def)
  moreover obtain k where "b = block_size * k" using assms(1) ..
  ultimately have "p = 64 + 128 * (512 * k + i)" by (simp add: block_size_def sizeof_slab_block_def)
  then have "p mod 128 = 64" by (simp only: mod_mult_self2) simp
  then show ?thesis by (simp add: slabheap_for_allocate_def slabheap_sizes_def)
qed

theorem slab_not_aligned_to_its_size_witness:
  "slabheap_for_allocate 128 128 = Some 128 \<and> (65536 + 64 :: nat) mod 128 = 64"
  by (rule slab_not_aligned_to_its_size [of 65536])
     (simp_all add: block_size_def sizeof_slab_block_def slabs_def image_iff)

text \<open>
  Freeing chooses the slab heap by the size alone: memory that came from a subheap because of
  its alignment is given back to a slab heap.
\<close>
theorem kfree_sized_wrong_heap:
  "slabheap_for_allocate 16 1024 = None \<and> slabheap_for_deallocate 16 = Some 16"
  by (simp add: slabheap_for_allocate_def slabheap_for_deallocate_def slabheap_sizes_def)

end
