(* ===== verification/Bitmap_Find.thy ===== *)
theory Bitmap_Find
  imports Bitmap_Ranges
begin

text \<open>
  The searches for one bit: \<open>find_first\<close>, byte by byte from the start, and
  \<open>find_one_anywhere\<close>, which goes over the buffer in words from a hint and then again from
  the start.
\<close>

definition no_hit :: "bool \<Rightarrow> bitmap \<Rightarrow> nat \<Rightarrow> nat \<Rightarrow> bool" where
  "no_hit value bm a b \<longleftrightarrow> (\<forall>i. a * 8 \<le> i \<and> i < b * 8 \<longrightarrow> bit_at bm i \<noteq> value)"

lemma no_hit_empty [simp]: "b \<le> a \<Longrightarrow> no_hit value bm a b"
  by (auto simp: no_hit_def)

lemma no_hit_append: "no_hit value bm a b \<Longrightarrow> no_hit value bm b c \<Longrightarrow> no_hit value bm a c"
  unfolding no_hit_def by (meson not_le_imp_less)

abbreviation filler :: "bool \<Rightarrow> u8" where
  "filler value \<equiv> (if value then 0 else 0xff)"

abbreviation filler_word :: "bool \<Rightarrow> u64" where
  "filler_word value \<equiv> (if value then 0 else - 1)"

lemma all_ones_u8: "(0xff :: u8) = - 1"
  by simp

lemma not_word_eq_0: "NOT w = 0 \<longleftrightarrow> w = - 1" for w :: "'a::len word"
proof
  assume "NOT w = 0"
  then have "NOT (NOT w) = NOT 0" by simp
  then show "w = - 1" by simp
qed simp

lemma filler_no_hit: "m_data bm ! i = filler value \<Longrightarrow> no_hit value bm i (Suc i)"
proof -
  assume eq: "m_data bm ! i = filler value"
  have "bit_at bm k \<noteq> value" if "i * 8 \<le> k" "k < Suc i * 8" for k
  proof -
    have "k div 8 = i" using that by (intro div_nat_eqI) auto
    then show ?thesis using eq by (cases "value") (simp_all add: bit_at_def all_ones_u8 del: word_eq_numeral_iff_iszero)
  qed
  then show ?thesis by (simp add: no_hit_def)
qed

lemma skip_bytes_eq:
  assumes "n \<le> length (m_data bm)" and "i \<le> n"
  shows "\<exists>j. skip_bytes bm i n (filler value) = Inr j \<and> i \<le> j \<and> j \<le> n \<and> no_hit value bm i j \<and>
           (j < n \<longrightarrow> m_data bm ! j \<noteq> filler value)"
  using assms(2)
proof (induction "n - i" arbitrary: i)
  case 0
  then show ?case by (subst skip_bytes.simps) simp
next
  case (Suc d)
  then have lt: "i < n" and d: "d = n - Suc i" by simp_all
  show ?case
  proof (cases "m_data bm ! i = filler value")
    case True
    obtain j where j: "skip_bytes bm (Suc i) n (filler value) = Inr j" "Suc i \<le> j" "j \<le> n"
      "no_hit value bm (Suc i) j" "j < n \<longrightarrow> m_data bm ! j \<noteq> filler value"
      using Suc.hyps(1) [of "Suc i"] d lt by (meson Suc_leI)
    have "skip_bytes bm i n (filler value) = Inr j"
      using lt assms(1) True j(1) by (subst skip_bytes.simps) (simp add: read_byte_def)
    then show ?thesis
      using j no_hit_append [OF filler_no_hit [OF True] j(4)] by auto
  next
    case False
    then show ?thesis
      using lt assms(1) by (subst skip_bytes.simps) (auto simp: read_byte_def)
  qed
qed

definition first_hit :: "bool \<Rightarrow> bitmap \<Rightarrow> nat \<Rightarrow> nat \<Rightarrow> bool" where
  "first_hit value bm i p \<longleftrightarrow>
     i * 8 \<le> p \<and> bit_at bm p = value \<and> (\<forall>q. i * 8 \<le> q \<and> q < p \<longrightarrow> bit_at bm q \<noteq> value)"

lemma hit_in_byte_eq:
  assumes "i < length (m_data bm)" and "m_data bm ! i \<noteq> filler value"
  shows "\<exists>p. hit_in_byte value bm i = Inr (Some p) \<and> p < i * 8 + 8 \<and> first_hit value bm i p"
proof -
  let ?b = "if value then m_data bm ! i else NOT (m_data bm ! i)"
  let ?c = "count_trailing_zeroes ?b"
  have nz: "?b \<noteq> 0"
    using assms(2) by (auto simp: not_word_eq_0)
  have c: "?c < 8" using ctz_less_length [OF nz] by simp
  have eq: "bit_at bm (i * 8 + k) = value \<longleftrightarrow> bit ?b k" if "k < 8" for k
    using that by (auto simp: bit_at_def bit_not_iff)
  have "first_hit value bm i (i * 8 + ?c)"
    unfolding first_hit_def
  proof (intro conjI allI impI)
    show "bit_at bm (i * 8 + ?c) = value" using eq [OF c] bit_at_ctz [OF nz] by blast
  next
    fix q assume "i * 8 \<le> q \<and> q < i * 8 + ?c"
    then have "q = i * 8 + (q - i * 8)" and "q - i * 8 < ?c" by auto
    then show "bit_at bm q \<noteq> value" using eq [of "q - i * 8"] not_bit_below_ctz [of "q - i * 8" ?b] c
      by (metis order_less_trans)
  qed simp
  then show ?thesis
    using assms(1) nz c by (auto simp: hit_in_byte_def read_byte_def bit_scan_forward_def Let_def)
qed

lemma first_hit_prefix: "no_hit value bm 0 i \<Longrightarrow> first_hit value bm i p \<Longrightarrow> first_hit value bm 0 p"
  unfolding first_hit_def no_hit_def by (simp add: not_le_imp_less) (meson not_le_imp_less)

section \<open>Words\<close>

lemma word_bits:
  "bit (read_size_t (m_data bm) off) k \<longleftrightarrow> k < 64 \<and> bit_at bm (off * 8 + k)"
  by (simp add: bit_read_size_t bit_at_def)

lemma filler_word_no_hit:
  assumes "read_size_t (m_data bm) off = filler_word value"
  shows "no_hit value bm off (off + 8)"
  unfolding no_hit_def
proof (intro allI impI)
  fix i assume i: "off * 8 \<le> i \<and> i < (off + 8) * 8"
  then have "bit (read_size_t (m_data bm) off) (i - off * 8) = bit_at bm i"
    using word_bits [of bm off "i - off * 8"] by auto
  then show "bit_at bm i \<noteq> value"
    using assms i by (cases "value") (auto simp: )
qed

lemma skip_words_eq:
  assumes "m_addr bm + length (m_data bm) \<ge> m_addr bm + 8 * e"
  shows "k \<le> e \<Longrightarrow> \<exists>j. skip_words value bm (m_addr bm + 8 * k) (m_addr bm + 8 * e) = Inr (m_addr bm + 8 * j) \<and>
           k \<le> j \<and> j \<le> e \<and> no_hit value bm (8 * k) (8 * j) \<and>
           (j < e \<longrightarrow> read_size_t (m_data bm) (8 * j) \<noteq> filler_word value)"
proof (induction "e - k" arbitrary: k)
  case 0
  then show ?case by (subst skip_words.simps) auto
next
  case (Suc d)
  then have lt: "k < e" and d: "d = e - Suc k" by simp_all
  have rd: "read_word bm (8 * k) = Inr (read_size_t (m_data bm) (8 * k))"
    using lt assms by (simp add: read_word_def)
  show ?case
  proof (cases "read_size_t (m_data bm) (8 * k) = filler_word value")
    case True
    obtain j where j: "skip_words value bm (m_addr bm + 8 * Suc k) (m_addr bm + 8 * e) = Inr (m_addr bm + 8 * j)"
      "Suc k \<le> j" "j \<le> e" "no_hit value bm (8 * Suc k) (8 * j)"
      "j < e \<longrightarrow> read_size_t (m_data bm) (8 * j) \<noteq> filler_word value"
      using Suc.hyps(1) [of "Suc k"] d lt by (meson Suc_leI)
    have "skip_words value bm (m_addr bm + 8 * k) (m_addr bm + 8 * e) = Inr (m_addr bm + 8 * j)"
      using lt rd True j(1) by (subst skip_words.simps) (simp add: algebra_simps)
    moreover have "no_hit value bm (8 * k) (8 * j)"
      using no_hit_append [OF filler_word_no_hit [OF True]] j(4) by (simp add: algebra_simps)
    ultimately show ?thesis using j by auto
  next
    case False
    then show ?thesis
      using lt rd by (subst skip_words.simps) auto
  qed
qed

lemma hit_in_word:
  assumes "read_size_t (m_data bm) off \<noteq> filler_word value"
  defines "w \<equiv> (if value then read_size_t (m_data bm) off else NOT (read_size_t (m_data bm) off))"
  shows "w \<noteq> 0" and "first_hit value bm off (off * 8 + bit_scan_forward w - 1)"
    and "off * 8 + bit_scan_forward w - 1 < off * 8 + 64"
proof -
  let ?c = "count_trailing_zeroes w"
  show nz: "w \<noteq> 0"
    using assms by (auto simp: w_def not_word_eq_0)
  have c: "?c < 64" using ctz_less_length [OF nz] by simp
  have eq: "bit_at bm (off * 8 + k) = value \<longleftrightarrow> bit w k" if "k < 64" for k
    using that by (auto simp: w_def word_bits bit_not_iff)
  have p: "off * 8 + bit_scan_forward w - 1 = off * 8 + ?c"
    using nz by (simp add: bit_scan_forward_def)
  show "off * 8 + bit_scan_forward w - 1 < off * 8 + 64"
    using c p by simp
  show "first_hit value bm off (off * 8 + bit_scan_forward w - 1)"
    unfolding first_hit_def p
  proof (intro conjI allI impI)
    show "bit_at bm (off * 8 + ?c) = value" using eq [OF c] bit_at_ctz [OF nz] by blast
  next
    fix q assume "off * 8 \<le> q \<and> q < off * 8 + ?c"
    then have "q = off * 8 + (q - off * 8)" and "q - off * 8 < ?c" by auto
    then show "bit_at bm q \<noteq> value" using eq [of "q - off * 8"] not_bit_below_ctz [of "q - off * 8" w] c
      by (metis order_less_trans)
  qed simp
qed

section \<open>The searches\<close>

lemma bytes_in_buffer: "wf_bitmap bm \<Longrightarrow> size_in_bytes bm \<le> length (m_data bm)"
  by (simp add: wf_bitmap_def)

text \<open>
  What a search for one bit may return: a position in the buffer whose bit has the value, or
  nothing if no bit in the buffer has it.
\<close>
definition any_hit :: "bool \<Rightarrow> bitmap \<Rightarrow> nat option \<Rightarrow> bool" where
  "any_hit value bm r \<longleftrightarrow>
     (case r of Some p \<Rightarrow> p < size_in_bytes bm * 8 \<and> bit_at bm p = value
              | None \<Rightarrow> no_hit value bm 0 (size_in_bytes bm))"

lemma align_down_aligned: "8 dvd a \<Longrightarrow> align_down (a + x) = a + 8 * (x div 8)"
  by (auto simp: align_down_def elim!: dvdE)

text \<open>
  One round of \<open>find_one_anywhere\<close> on an aligned buffer, from word \<open>k\<close> to word \<open>e\<close>: it
  returns a hit, or it goes on to the decision at the end of the round with nothing found from
  word \<open>k\<close> on.
\<close>
lemma find_one_anywhere_round:
  assumes wf: "wf_bitmap bm" and al: "8 dvd m_addr bm"
    and fit: "m_addr bm + size_in_bytes bm < size_limit"
    and ep: "align_down end_ptr = m_addr bm + 8 * e" and e: "8 * e \<le> size_in_bytes bm"
    and k: "hint div 8 div 8 \<le> e"
  shows "(\<exists>p. find_one_anywhere_loop value bm hint end_ptr = Inr (Some p) \<and> any_hit value bm (Some p)) \<or>
         (no_hit value bm (8 * (hint div 8 div 8)) (size_in_bytes bm) \<and>
          find_one_anywhere_loop value bm hint end_ptr =
            (if hint \<le> 8 then Inr None
             else find_one_anywhere_loop value bm 0 (align_down (m_addr bm + hint div 8))))"
proof -
  let ?k = "hint div 8 div 8" and ?n = "size_in_bytes bm"
  note len = bytes_in_buffer [OF wf]
  obtain j where j: "skip_words value bm (m_addr bm + 8 * ?k) (m_addr bm + 8 * e) = Inr (m_addr bm + 8 * j)"
    "?k \<le> j" "j \<le> e" "no_hit value bm (8 * ?k) (8 * j)"
    "j < e \<longrightarrow> read_size_t (m_data bm) (8 * j) \<noteq> filler_word value"
    using skip_words_eq [of bm e ?k "value"] e len k by auto
  note unfold = find_one_anywhere_loop.simps [of "value" bm hint end_ptr]
    align_down_aligned [OF al] ep j(1) Let_def
  show ?thesis
  proof (cases "j = e")
    case True
    have sub: "size_sub (m_addr bm + 8 * e) (m_addr bm) = 8 * e"
      using fit e by (simp add: size_simps)
    obtain i where i: "skip_bytes bm (8 * e) ?n (filler value) = Inr i" "8 * e \<le> i" "i \<le> ?n"
      "no_hit value bm (8 * e) i" "i < ?n \<longrightarrow> m_data bm ! i \<noteq> filler value"
      using skip_bytes_eq [OF len e] by blast
    show ?thesis
    proof (cases "i = ?n")
      case full: True
      have "no_hit value bm (8 * ?k) ?n"
        using no_hit_append [OF j(4)] i(4) True full by simp
      then show ?thesis
        using True full i(1) e sub by (simp add: unfold)
    next
      case False
      then have "i < length (m_data bm)" and ne: "m_data bm ! i \<noteq> filler value" and "i < ?n"
        using i(3,5) len by auto
      then obtain p where p: "hit_in_byte value bm i = Inr (Some p)" "p < i * 8 + 8" "first_hit value bm i p"
        using hit_in_byte_eq by blast
      have "find_one_anywhere_loop value bm hint end_ptr = Inr (Some p)"
        using True False i(1) e sub p(1) by (simp add: unfold)
      moreover have "any_hit value bm (Some p)"
        using p(2,3) \<open>i < ?n\<close> by (auto simp: any_hit_def first_hit_def)
      ultimately show ?thesis by blast
    qed
  next
    case False
    then have ne: "read_size_t (m_data bm) (8 * j) \<noteq> filler_word value" and lt: "j < e" using j by auto
    have rd: "read_word bm (8 * j) = Inr (read_size_t (m_data bm) (8 * j))"
      using lt e len by (simp add: read_word_def)
    note hit = hit_in_word [OF ne]
    have "\<exists>p. find_one_anywhere_loop value bm hint end_ptr = Inr (Some p) \<and>
            first_hit value bm (8 * j) p \<and> p < 8 * j * 8 + 64"
      using False hit rd by (simp add: unfold)
    then show ?thesis
      using lt e by (force simp: any_hit_def first_hit_def)
  qed
qed

text \<open>
  \<open>find_first\<close> returns the lowest position in the buffer whose bit has the value asked for, and
  nothing only if no bit in the buffer has it. The position may be one of the padding bits of
  the last byte.
\<close>
theorem find_first_correct:
  assumes "wf_bitmap bm"
  shows "\<exists>r. find_first value bm = Inr r \<and> any_hit value bm r \<and>
           (\<forall>p. r = Some p \<longrightarrow> (\<forall>q < p. bit_at bm q \<noteq> value))"
proof -
  note len = bytes_in_buffer [OF assms]
  obtain i where i: "skip_bytes bm 0 (size_in_bytes bm) (filler value) = Inr i" "i \<le> size_in_bytes bm"
    "no_hit value bm 0 i" "i < size_in_bytes bm \<longrightarrow> m_data bm ! i \<noteq> filler value"
    using skip_bytes_eq [OF len, of 0 "value"] by auto
  show ?thesis
  proof (cases "i = size_in_bytes bm")
    case True
    then show ?thesis using i by (simp add: find_first_def any_hit_def)
  next
    case False
    then obtain p where p: "hit_in_byte value bm i = Inr (Some p)" "p < i * 8 + 8" "first_hit value bm i p"
      using hit_in_byte_eq [of i bm "value"] i len by auto
    then show ?thesis
      using False i first_hit_prefix [OF i(3) p(3)]
      by (auto simp: find_first_def any_hit_def first_hit_def)
  qed
qed

theorem find_first_correct_witness:
  "\<exists>r. find_first True example_bitmap = Inr r \<and> any_hit True example_bitmap r \<and>
     (\<forall>p. r = Some p \<longrightarrow> (\<forall>q < p. bit_at example_bitmap q \<noteq> True))"
  by (rule find_first_correct [OF example_bitmap_wf])

text \<open>
  On a buffer aligned to 8 bytes \<open>find_one_anywhere\<close> returns, without an assertion failing and
  without reading outside the buffer, a position whose bit has the value asked for, and nothing
  only if no bit in the buffer has it, whatever the hint.
\<close>
theorem find_one_anywhere_correct:
  assumes "wf_bitmap bm" and "8 dvd m_addr bm" and "m_addr bm + size_in_bytes bm < size_limit"
    and "hint < m_size bm"
  shows "\<exists>r. find_one_anywhere value bm hint = Inr r \<and> any_hit value bm r"
proof -
  let ?n = "size_in_bytes bm" and ?k = "hint div 8 div 8"
  have ep: "align_down (m_addr bm + ?n) = m_addr bm + 8 * (?n div 8)"
    and ep': "align_down (align_down (m_addr bm + hint div 8)) = m_addr bm + 8 * ?k"
    using assms(2) by (simp_all add: align_down_aligned)
  have k: "?k \<le> ?n div 8"
    using less_imp_div_less_ceil_div [of 8 hint "m_size bm"] assms(4)
    by (intro div_le_mono) (simp add: size_in_bytes_def)
  note round = find_one_anywhere_round [OF assms(1-3)]
  have le: "m \<le> ?n div 8 \<Longrightarrow> 8 * m \<le> ?n" for m by simp
  have small: "\<exists>r. find_one_anywhere_loop value bm h e = Inr r \<and> any_hit value bm r"
    if "h \<le> 8" "align_down e = m_addr bm + 8 * m" "m \<le> ?n div 8" for h e m
    using round [of e m h "value"] le [OF that(3)] that(1,2) by (fastforce simp: any_hit_def)
  show ?thesis
  proof (cases "hint \<le> 8")
    case True
    then show ?thesis
      using small [OF True ep] assms(4) by (simp add: find_one_anywhere_def)
  next
    case False
    then show ?thesis
      using round [OF ep le [OF order_refl] k, of "value"] small [OF _ ep' k, of 0] assms(4) by (auto simp: find_one_anywhere_def)
  qed
qed

theorem find_one_anywhere_correct_witness:
  "\<exists>r. find_one_anywhere False example_bitmap 20 = Inr r \<and> any_hit False example_bitmap r"
  by (rule find_one_anywhere_correct [OF example_bitmap_wf])
     (simp_all add: example_bitmap_def size_in_bytes_def ceil_div_def)

end
