(* ===== verification/Linked_List.thy ===== *)
theory Linked_List
  imports Prelude
begin

text \<open>
  Doubly linked lists whose links are kept in the elements: what it means that the links of the
  elements spell out a list, and what the usual pointer updates do to that list. Elements are of
  type \<open>'a\<close>, links of type \<open>'p\<close>; \<open>enc\<close> is the link to an element, \<open>null\<close> the link to nothing.
\<close>

record 'p links =
  next_link :: 'p
  prev_link :: 'p

definition first_link :: "('a \<Rightarrow> 'p) \<Rightarrow> 'p \<Rightarrow> 'a list \<Rightarrow> 'p" where
  "first_link enc null xs = (case xs of [] \<Rightarrow> null | x # _ \<Rightarrow> enc x)"

definition last_link :: "('a \<Rightarrow> 'p) \<Rightarrow> 'p \<Rightarrow> 'a list \<Rightarrow> 'p" where
  "last_link enc null xs = (if xs = [] then null else enc (last xs))"

definition linked :: "('a \<Rightarrow> 'p) \<Rightarrow> 'p \<Rightarrow> ('a \<Rightarrow> 'p links) \<Rightarrow> 'p \<Rightarrow> 'a list \<Rightarrow> bool" where
  "linked enc null e h xs \<longleftrightarrow> distinct xs \<and> h = first_link enc null xs \<and>
     (\<forall>as p bs. xs = as @ p # bs \<longrightarrow>
        prev_link (e p) = last_link enc null as \<and> next_link (e p) = first_link enc null bs)"

lemma first_link_simps [simp]:
  "first_link enc null [] = null" "first_link enc null (x # xs) = enc x"
  "first_link enc null (x # xs @ ys) = enc x"
  by (simp_all add: first_link_def)

lemma first_link_append: "xs \<noteq> [] \<Longrightarrow> first_link enc null (xs @ ys) = first_link enc null xs"
  by (cases xs) simp_all

lemma last_link_simps [simp]:
  "last_link enc null [] = null" "last_link enc null (xs @ [x]) = enc x"
  by (simp_all add: last_link_def)

lemma last_link_append: "ys \<noteq> [] \<Longrightarrow> last_link enc null (xs @ ys) = last_link enc null ys"
  by (simp add: last_link_def)

lemma last_link_Cons: "last_link enc null (x # xs) = (if xs = [] then enc x else last_link enc null xs)"
  by (simp add: last_link_def)

lemma linked_empty [simp]: "linked enc null e h [] \<longleftrightarrow> h = null"
  by (simp add: linked_def)

lemma linked_distinct: "linked enc null e h xs \<Longrightarrow> distinct xs"
  by (simp add: linked_def)

lemma linkedD:
  assumes "linked enc null e h (as @ p # bs)"
  shows "prev_link (e p) = last_link enc null as" and "next_link (e p) = first_link enc null bs"
  using assms by (auto simp: linked_def)

lemma linked_cong:
  assumes "linked enc null e h xs" and "\<And>x. x \<in> set xs \<Longrightarrow> e' x = e x"
  shows "linked enc null e' h xs"
  using assms by (auto simp: linked_def)

text \<open>Position of an element in a list with one element taken out.\<close>
lemma append_eq_split:
  assumes "as @ bs = as' @ q # bs'"
  obtains us where "as = as' @ q # us" and "bs' = us @ bs"
  | us where "as' = as @ us" and "bs = us @ q # bs'"
  using assms by (auto simp: append_eq_append_conv2 append_eq_Cons_conv Cons_eq_append_conv)

lemma linked_remove:
  assumes l: "linked enc null e h (as @ p # bs)"
    and links: "\<And>x. x \<in> set as \<union> set bs \<Longrightarrow>
      e' x = \<lparr>next_link = (if as \<noteq> [] \<and> x = last as then first_link enc null bs else next_link (e x)),
              prev_link = (if bs \<noteq> [] \<and> x = hd bs then last_link enc null as else prev_link (e x))\<rparr>"
    and h': "h' = first_link enc null (as @ bs)"
  shows "linked enc null e' h' (as @ bs)"
  unfolding linked_def
proof (intro conjI allI impI)
  have d: "distinct (as @ p # bs)" using l by (rule linked_distinct)
  then show "distinct (as @ bs)" by simp
  show "h' = first_link enc null (as @ bs)" by (rule h')
  fix as' q bs' assume eq: "as @ bs = as' @ q # bs'"
  have "prev_link (e' q) = last_link enc null as' \<and> next_link (e' q) = first_link enc null bs'"
    using eq
  proof (cases rule: append_eq_split)
    case (1 us)
    then have "as @ p # bs = as' @ q # us @ p # bs" by simp
    then have "prev_link (e q) = last_link enc null as'" "next_link (e q) = first_link enc null (us @ p # bs)"
      using linkedD [of enc null e h as' q "us @ p # bs"] l by simp_all
    moreover have "q \<notin> set bs" "us \<noteq> [] \<longrightarrow> q \<noteq> last as" using d 1 by auto
    ultimately show ?thesis
      using links [of q] 1 by (cases us) (auto simp: first_link_append dest: hd_in_set)
  next
    case (2 us)
    then have "as @ p # bs = (as @ p # us) @ q # bs'" by simp
    then have "prev_link (e q) = last_link enc null (as @ p # us)" "next_link (e q) = first_link enc null bs'"
      using linkedD [of enc null e h "as @ p # us" q bs'] l by simp_all
    moreover have "q \<notin> set as" "us \<noteq> [] \<longrightarrow> q \<noteq> hd bs" using d 2 by (auto simp: hd_append)
    ultimately show ?thesis
      using links [of q] 2 by (cases "us = []") (auto simp: last_link_append last_link_Cons dest: last_in_set)
  qed
  then show "prev_link (e' q) = last_link enc null as'" "next_link (e' q) = first_link enc null bs'" by simp_all
qed

lemma linked_insert:
  assumes l: "linked enc null e h (as @ bs)" and new: "p \<notin> set (as @ bs)"
    and p: "e' p = \<lparr>next_link = first_link enc null bs, prev_link = last_link enc null as\<rparr>"
    and links: "\<And>x. x \<in> set as \<union> set bs \<Longrightarrow>
      e' x = \<lparr>next_link = (if as \<noteq> [] \<and> x = last as then enc p else next_link (e x)),
              prev_link = (if bs \<noteq> [] \<and> x = hd bs then enc p else prev_link (e x))\<rparr>"
    and h': "h' = first_link enc null (as @ p # bs)"
  shows "linked enc null e' h' (as @ p # bs)"
  unfolding linked_def
proof (intro conjI allI impI)
  have d: "distinct (as @ bs)" using l by (rule linked_distinct)
  then show "distinct (as @ p # bs)" using new by simp
  show "h' = first_link enc null (as @ p # bs)" by (rule h')
  fix as' q bs' assume eq: "as @ p # bs = as' @ q # bs'"
  have "prev_link (e' q) = last_link enc null as' \<and> next_link (e' q) = first_link enc null bs'"
    using eq
  proof (cases rule: append_eq_split)
    case (1 us)
    then have "as @ bs = as' @ q # us @ bs" by simp
    then have "prev_link (e q) = last_link enc null as'" "next_link (e q) = first_link enc null (us @ bs)"
      using linkedD [of enc null e h as' q "us @ bs"] l by simp_all
    moreover have "q \<notin> set bs" "us \<noteq> [] \<longrightarrow> q \<noteq> last as" using d 1 by auto
    ultimately show ?thesis
      using links [of q] 1 by (cases us) (auto simp: first_link_append dest: hd_in_set)
  next
    case (2 us)
    show ?thesis
    proof (cases us)
      case Nil
      then show ?thesis using 2 p by auto
    next
      case (Cons v vs)
      then have bs: "v = p" "bs = vs @ q # bs'" using 2 by auto
      then have "as @ bs = (as @ vs) @ q # bs'" by simp
      then have "prev_link (e q) = last_link enc null (as @ vs)" "next_link (e q) = first_link enc null bs'"
        using linkedD [of enc null e h "as @ vs" q bs'] l by simp_all
      moreover have "q \<notin> set as" "vs \<noteq> [] \<longrightarrow> q \<noteq> hd bs" using d bs by (auto simp: hd_append)
      ultimately show ?thesis
        using links [of q] 2 Cons bs by (cases "vs = []") (auto simp: last_link_append last_link_Cons dest: last_in_set)
    qed
  qed
  then show "prev_link (e' q) = last_link enc null as'" "next_link (e' q) = first_link enc null bs'" by simp_all
qed

end
