(* ===== verification/Buddy.thy ===== *)
theory Buddy
  imports Prelude
begin

text \<open>
  The buddy scheme without its data structures: for every order the list of free blocks of that
  order, given by the number of their first page. Blocks of order \<open>k\<close> have \<open>2 ^ k\<close> pages and are
  aligned to their size. The invariant says that the free blocks do not overlap and that two
  buddies are never both free, and from it follows that a block that is all free lies inside of
  one free block.
\<close>

definition blk :: "nat \<Rightarrow> nat \<Rightarrow> nat set" where
  "blk k p = {p..<p + 2 ^ k}"

definition in_zone :: "nat \<Rightarrow> nat \<Rightarrow> nat \<Rightarrow> bool" where
  "in_zone K k p \<longleftrightarrow> k \<le> K \<and> 2 ^ k dvd p \<and> p + 2 ^ k \<le> 2 ^ K"

definition buddy_inv :: "nat \<Rightarrow> (nat \<Rightarrow> nat list) \<Rightarrow> bool" where
  "buddy_inv K fl \<longleftrightarrow>
     (\<forall>k. distinct (fl k)) \<and>
     (\<forall>k. \<forall>p \<in> set (fl k). in_zone K k p) \<and>
     (\<forall>k l p q. p \<in> set (fl k) \<and> q \<in> set (fl l) \<and> (k, p) \<noteq> (l, q) \<longrightarrow> blk k p \<inter> blk l q = {}) \<and>
     (\<forall>k p. p \<in> set (fl k) \<and> 2 ^ (k + 1) dvd p \<longrightarrow> p + 2 ^ k \<notin> set (fl k))"

definition free_pages :: "(nat \<Rightarrow> nat list) \<Rightarrow> nat set" where
  "free_pages fl = (\<Union>k. \<Union>p \<in> set (fl k). blk k p)"

lemma blk_nonempty [simp]: "blk k p \<noteq> {}" and blk_head: "p \<in> blk k p"
  by (auto simp: blk_def)

lemma card_blk [simp]: "card (blk k p) = 2 ^ k" and finite_blk [simp]: "finite (blk k p)"
  by (simp_all add: blk_def)

lemma blk_halves: "blk (Suc k) p = blk k p \<union> blk k (p + 2 ^ k)" and blk_halves_disjoint: "blk k p \<inter> blk k (p + 2 ^ k) = {}"
  by (auto simp: blk_def)

lemma free_pages_iff: "x \<in> free_pages fl \<longleftrightarrow> (\<exists>k. \<exists>p \<in> set (fl k). x \<in> blk k p)"
  by (simp add: free_pages_def)

lemma free_pagesI: "p \<in> set (fl k) \<Longrightarrow> blk k p \<subseteq> free_pages fl"
  unfolding free_pages_def by blast

lemma buddy_invD:
  assumes "buddy_inv K fl"
  shows "distinct (fl k)" and "p \<in> set (fl k) \<Longrightarrow> in_zone K k p"
    and "p \<in> set (fl k) \<Longrightarrow> q \<in> set (fl l) \<Longrightarrow> (k, p) \<noteq> (l, q) \<Longrightarrow> blk k p \<inter> blk l q = {}"
    and "p \<in> set (fl k) \<Longrightarrow> 2 ^ (k + 1) dvd p \<Longrightarrow> p + 2 ^ k \<notin> set (fl k)"
  using assms unfolding buddy_inv_def by blast+

lemma free_heads_differ:
  assumes "buddy_inv K fl" and "p \<in> set (fl k)" and "q \<in> set (fl l)" and "k \<noteq> l"
  shows "p \<noteq> q"
  using buddy_invD(3) [OF assms(1-3)] assms(4) by (auto simp: blk_def)

lemma free_pages_bound: "buddy_inv K fl \<Longrightarrow> free_pages fl \<subseteq> {..<2 ^ K}"
  using buddy_invD(2) by (fastforce simp: free_pages_def blk_def in_zone_def)

lemma free_pages_finite: "buddy_inv K fl \<Longrightarrow> finite (free_pages fl)"
  using free_pages_bound finite_subset by blast

text \<open>Two aligned blocks are nested or disjoint.\<close>
lemma aligned_nested:
  assumes "2 ^ k dvd p" and "2 ^ l dvd q" and "k \<le> l" and "blk k p \<inter> blk l q \<noteq> {}"
  shows "blk k p \<subseteq> blk l q"
proof -
  obtain x where x: "x \<in> blk k p" "x \<in> blk l q" using assms(4) by blast
  obtain u where u: "p = 2 ^ k * u" using assms(1) ..
  have "2 ^ k dvd (2 :: nat) ^ l" using assms(3) by (rule le_imp_power_dvd)
  then obtain m where m: "(2 :: nat) ^ l = 2 ^ k * m" ..
  obtain v where v: "q = 2 ^ k * (m * v)" using assms(2) m by (auto simp: dvd_def mult.assoc)
  have "q < p + 2 ^ k" "p < q + 2 ^ l" using x by (auto simp: blk_def)
  then have "2 ^ k * (m * v) < 2 ^ k * (u + 1)" "2 ^ k * u < 2 ^ k * (m * v + m)"
    using u v m by (simp_all add: algebra_simps)
  then have "m * v \<le> u" "u + 1 \<le> m * v + m"
    by (simp_all only: mult_less_cancel1) simp_all
  then have "2 ^ k * (m * v) \<le> 2 ^ k * u" "2 ^ k * (u + 1) \<le> 2 ^ k * (m * v + m)"
    by (simp_all only: mult_le_cancel1) simp_all
  then have "q \<le> p" "p + 2 ^ k \<le> q + 2 ^ l" using u v m by (simp_all add: algebra_simps)
  then show ?thesis by (auto simp: blk_def)
qed

lemma buddy_inv_remove:
  assumes inv: "buddy_inv K fl" and p: "p \<in> set (fl k)"
  shows "buddy_inv K (fl(k := remove1 p (fl k)))" and "free_pages (fl(k := remove1 p (fl k))) = free_pages fl - blk k p"
proof -
  let ?fl = "fl(k := remove1 p (fl k))"
  note d = buddy_invD [OF inv]
  have set: "q \<in> set (?fl l) \<longleftrightarrow> q \<in> set (fl l) \<and> (l, q) \<noteq> (k, p)" for l q
    using d(1) [of k] by (auto simp: set_remove1_eq)
  show "buddy_inv K ?fl"
    unfolding buddy_inv_def set using d by (auto simp: distinct_remove1)
  show "free_pages ?fl = free_pages fl - blk k p"
  proof (intro equalityI subsetI)
    fix x assume "x \<in> free_pages ?fl"
    then obtain l q where "q \<in> set (fl l)" "(l, q) \<noteq> (k, p)" "x \<in> blk l q"
      unfolding free_pages_iff Bex_def set by blast
    then show "x \<in> free_pages fl - blk k p" using d(3) [of q l p k] p free_pages_iff by blast
  next
    fix x assume x: "x \<in> free_pages fl - blk k p"
    then obtain l q where "q \<in> set (fl l)" "x \<in> blk l q" by (auto simp: free_pages_iff)
    then show "x \<in> free_pages ?fl" unfolding free_pages_iff Bex_def set using x by blast
  qed
qed

lemma buddy_inv_insert:
  assumes inv: "buddy_inv K fl" and p: "in_zone K k p" "blk k p \<inter> free_pages fl = {}"
    and left: "2 ^ (k + 1) dvd p \<Longrightarrow> p + 2 ^ k \<notin> set (fl k)"
    and right: "\<And>q. q \<in> set (fl k) \<Longrightarrow> 2 ^ (k + 1) dvd q \<Longrightarrow> p \<noteq> q + 2 ^ k"
  shows "buddy_inv K (fl(k := p # fl k))" and "free_pages (fl(k := p # fl k)) = free_pages fl \<union> blk k p"
proof -
  let ?fl = "fl(k := p # fl k)"
  note d = buddy_invD [OF inv]
  have set: "q \<in> set (?fl l) \<longleftrightarrow> q \<in> set (fl l) \<or> (l, q) = (k, p)" for l q by auto
  have apart: "blk k p \<inter> blk l q = {}" if "q \<in> set (fl l)" for l q
    using p(2) that free_pages_iff by blast
  have "p \<notin> set (fl k)" using apart [of p k] by auto
  then have "distinct (?fl l)" for l using d(1) [of l] d(1) [of k] by auto
  moreover have "in_zone K l q" if "q \<in> set (?fl l)" for l q using that d(2) p(1) unfolding set by blast
  moreover have "blk l q \<inter> blk m r = {}" if "q \<in> set (?fl l)" "r \<in> set (?fl m)" "(l, q) \<noteq> (m, r)" for l m q r
    using that d(3) [of q l r m] apart [of q l] apart [of r m] unfolding set by blast
  moreover have "q + 2 ^ l \<notin> set (?fl l)" if "q \<in> set (?fl l)" "2 ^ (l + 1) dvd q" for l q
    using that d(4) [of q l] left right unfolding set by auto
  ultimately show "buddy_inv K ?fl" unfolding buddy_inv_def by blast
  show "free_pages ?fl = free_pages fl \<union> blk k p"
    by (rule set_eqI) (unfold Un_iff free_pages_iff Bex_def set, blast)
qed

text \<open>A block that is all free lies in one free block.\<close>
lemma free_block_covered:
  assumes inv: "buddy_inv K fl" and "2 ^ k dvd p" and "blk k p \<subseteq> free_pages fl"
  shows "\<exists>l \<ge> k. \<exists>q \<in> set (fl l). blk k p \<subseteq> blk l q"
  using assms(2,3)
proof (induction k arbitrary: p)
  case 0
  then have "p \<in> free_pages fl" by (simp add: blk_def)
  then show ?case unfolding free_pages_iff by (auto simp: blk_def)
next
  case (Suc k)
  have al: "2 ^ k dvd p" "2 ^ k dvd p + 2 ^ k" using Suc.prems(1) by (auto elim: dvd_trans [rotated])
  obtain l q where l: "k \<le> l" "q \<in> set (fl l)" "blk k p \<subseteq> blk l q"
    using Suc.IH [OF al(1)] Suc.prems(2) by (auto simp: blk_halves)
  obtain m r where m: "k \<le> m" "r \<in> set (fl m)" "blk k (p + 2 ^ k) \<subseteq> blk m r"
    using Suc.IH [OF al(2)] Suc.prems(2) by (auto simp: blk_halves)
  have "in_zone K l q" "in_zone K m r" using buddy_invD(2) [OF inv] l(2) m(2) by blast+
  then have dvd: "2 ^ l dvd q" "2 ^ m dvd r" by (simp_all add: in_zone_def)
  consider "Suc k \<le> l" | "Suc k \<le> m" | "l = k" "m = k" using l(1) m(1) by linarith
  then show ?case
  proof cases
    case 1
    moreover have "blk (Suc k) p \<inter> blk l q \<noteq> {}" using l(3) blk_head [of p k] unfolding blk_halves by blast
    ultimately show ?thesis using aligned_nested [OF Suc.prems(1) dvd(1)] l(2) by blast
  next
    case 2
    moreover have "blk (Suc k) p \<inter> blk m r \<noteq> {}" using m(3) blk_head [of "p + 2 ^ k" k] unfolding blk_halves by blast
    ultimately show ?thesis using aligned_nested [OF Suc.prems(1) dvd(2)] m(2) by blast
  next
    case 3
    have "q = p" "r = p + 2 ^ k" using l(3) m(3) 3 by (auto simp: blk_def)
    then show ?thesis using buddy_invD(4) [OF inv, of p k] l(2) m(2) 3 Suc.prems(1) by simp
  qed
qed

end
