(* ===== verification/Physical_Zone.thy ===== *)
theory Physical_Zone
  imports Bitmap_Ranges Linked_List Buddy
begin

text \<open>
  \<open>Kernel/Memory/PhysicalZone\<close>: the buddy allocator for physical pages. A zone has a bucket for
  every order, with the head of a list of free blocks and a bit for every pair of buddies. The
  links of the lists are kept in the physical page entries, an array that all zones share; its
  entries are numbered by physical page. Blocks are named by the index of their first chunk,
  two chunks to a page, and \<open>- 1\<close> is the end of a list. \<open>ChunkIndex\<close> is a 16 bit integer in the
  code; a zone has at most 8192 chunks, so no index overflows.
\<close>

definition ZONE_CHUNK_SIZE :: nat where
  "ZONE_CHUNK_SIZE = PAGE_SIZE div 2"

definition max_order :: nat where
  "max_order = 12"

record page_entries =
  entry_count :: nat
  entry :: "nat \<Rightarrow> int links"

record bucket =
  b_order :: nat
  freelist :: int
  b_bitmap :: bitmap

record zone =
  m_base_address :: nat
  m_page_count :: nat
  m_used_chunks :: nat
  m_buckets :: "bucket list"

section \<open>Buckets and entries\<close>

definition buddy_bit_index :: "bucket \<Rightarrow> int \<Rightarrow> nat" where
  "buddy_bit_index b index = nat (drop_bit (1 + b_order b) (drop_bit 1 index) mod int size_limit)"

definition get_buddy_bit :: "bucket \<Rightarrow> int \<Rightarrow> bool result" where
  "get_buddy_bit b index = bitmap_get (b_bitmap b) (buddy_bit_index b index)"

definition set_buddy_bit :: "bucket \<Rightarrow> int \<Rightarrow> bool \<Rightarrow> bucket result" where
  "set_buddy_bit b index value =
     bindR (bitmap_set (b_bitmap b) (buddy_bit_index b index) value) (\<lambda>bm. Inr (b\<lparr>b_bitmap := bm\<rparr>))"

definition get_freelist_entry :: "page_entries \<Rightarrow> zone \<Rightarrow> int \<Rightarrow> nat result" where
  "get_freelist_entry pe z index =
     (let n = nat ((int (m_base_address z) + index * int ZONE_CHUNK_SIZE) mod int size_limit) div PAGE_SIZE
      in if \<not> n < entry_count pe then Inl VerifyFailed else Inr n)"

definition set_entry :: "page_entries \<Rightarrow> nat \<Rightarrow> int links \<Rightarrow> page_entries" where
  "set_entry pe n l = pe\<lparr>entry := (entry pe)(n := l)\<rparr>"

definition set_prev :: "page_entries \<Rightarrow> zone \<Rightarrow> int \<Rightarrow> int \<Rightarrow> page_entries result" where
  "set_prev pe z index p =
     bindR (get_freelist_entry pe z index) (\<lambda>n. Inr (set_entry pe n ((entry pe n)\<lparr>prev_link := p\<rparr>)))"

definition set_next :: "page_entries \<Rightarrow> zone \<Rightarrow> int \<Rightarrow> int \<Rightarrow> page_entries result" where
  "set_next pe z index p =
     bindR (get_freelist_entry pe z index) (\<lambda>n. Inr (set_entry pe n ((entry pe n)\<lparr>next_link := p\<rparr>)))"

definition set_bucket :: "zone \<Rightarrow> nat \<Rightarrow> bucket \<Rightarrow> zone" where
  "set_bucket z order b = z\<lparr>m_buckets := (m_buckets z)[order := b]\<rparr>"

definition remove_from_freelist :: "page_entries \<Rightarrow> zone \<Rightarrow> bucket \<Rightarrow> int \<Rightarrow> (page_entries \<times> bucket) result" where
  "remove_from_freelist pe z b index =
     bindR (get_freelist_entry pe z index) (\<lambda>n.
       let p = prev_link (entry pe n); x = next_link (entry pe n)
       in if \<not> p \<ge> - 1 then Inl VerifyFailed
          else if \<not> x \<ge> - 1 then Inl VerifyFailed
          else bindR (if p \<noteq> - 1 then set_next pe z p x else Inr pe) (\<lambda>pe1.
               bindR (if x \<noteq> - 1 then set_prev pe1 z x p else Inr pe1) (\<lambda>pe2.
               Inr (set_entry pe2 n \<lparr>next_link = - 1, prev_link = - 1\<rparr>,
                    if freelist b = index then b\<lparr>freelist := x\<rparr> else b))))"

section \<open>Construction\<close>

definition init_bucket :: "kmalloc \<Rightarrow> nat \<Rightarrow> nat \<Rightarrow> bucket result" where
  "init_bucket kmalloc chunk_count order =
     (let block_size = 2 * 2 ^ order;
          bitmap_size_for_order = ceil_div (chunk_count div block_size) 2;
          b = \<lparr>b_order = order, freelist = - 1, b_bitmap = \<lparr>m_addr = 0, m_data = [], m_size = 0\<rparr>\<rparr>
      in if bitmap_size_for_order \<noteq> 0
         then bindR (bitmap_grow kmalloc (b_bitmap b) bitmap_size_for_order False) (\<lambda>bm. Inr (b\<lparr>b_bitmap := bm\<rparr>))
         else Inr b)"

text \<open>The loop over the orders counts down; \<open>orders\<close> is the number of orders that are left.\<close>
fun init_buckets :: "kmalloc \<Rightarrow> nat \<Rightarrow> nat \<Rightarrow> bucket list result" where
  "init_buckets kmalloc chunk_count 0 = Inr []"
| "init_buckets kmalloc chunk_count (Suc order) =
     bindR (init_bucket kmalloc chunk_count order) (\<lambda>b.
     bindR (init_buckets kmalloc chunk_count order) (\<lambda>bs. Inr (bs @ [b])))"

text \<open>The loop that puts the initial bundles on the free list; \<open>n\<close> is the number of bundles that are left.\<close>
fun init_bundles :: "page_entries \<Rightarrow> zone \<Rightarrow> bucket \<Rightarrow> nat \<Rightarrow> nat \<Rightarrow> nat \<Rightarrow> nat \<Rightarrow> (page_entries \<times> bucket) result" where
  "init_bundles pe z b block_size offset i 0 = Inr (pe, b)"
| "init_bundles pe z b block_size offset i (Suc n) =
     (let index = int (offset + i)
      in bindR (set_buddy_bit b index True) (\<lambda>b1.
         bindR (get_freelist_entry pe z index) (\<lambda>e.
         init_bundles (set_entry pe e \<lparr>next_link = freelist b1, prev_link = - 1\<rparr>) z (b1\<lparr>freelist := index\<rparr>)
           block_size (offset + block_size) (i + 1) n)))"

definition zone_create :: "kmalloc \<Rightarrow> page_entries \<Rightarrow> nat \<Rightarrow> nat \<Rightarrow> (page_entries \<times> zone) result" where
  "zone_create kmalloc pe base_address page_count =
     (let chunk_count = size_mul page_count 2
      in bindR (init_buckets kmalloc chunk_count (max_order + 1)) (\<lambda>bs.
         let z = \<lparr>m_base_address = base_address, m_page_count = page_count, m_used_chunks = 0, m_buckets = bs\<rparr>;
             first_order = count_trailing_zeroes (of_nat page_count :: u64);
             block_size = 2 * 2 ^ first_order
         in if first_order > max_order then Inl OutOfBounds
            else bindR (init_bundles pe z (bs ! first_order) block_size 0 0 (chunk_count div block_size)) (\<lambda>(pe1, b).
                 Inr (pe1, set_bucket z first_order b))))"

section \<open>Allocating\<close>

function allocate_block_impl ::
    "page_entries \<Rightarrow> zone \<Rightarrow> nat \<Rightarrow> ((page_entries \<times> zone) \<times> int option) result" where
  "allocate_block_impl pe z order =
     (if order > max_order then Inr ((pe, z), None)
      else
        let block_size = 2 * 2 ^ order; b = m_buckets z ! order
        in if freelist b = - 1 then
             bindR (allocate_block_impl pe z (order + 1)) (\<lambda>((pe1, z1), buddies).
               case buddies of
                 None \<Rightarrow> Inr ((pe1, z1), None)
               | Some index \<Rightarrow>
                   bindR (get_freelist_entry pe1 z1 index) (\<lambda>n.
                   let pe2 = set_entry pe1 n \<lparr>next_link = - 1, prev_link = - 1\<rparr>;
                       b1 = (m_buckets z1 ! order)\<lparr>freelist := index\<rparr>
                   in bindR (get_buddy_bit b1 index) (\<lambda>buddy_bit.
                      if \<not> buddy_bit = False then Inl VerifyFailed
                      else bindR (set_buddy_bit b1 index True) (\<lambda>b2.
                        Inr ((pe2, set_bucket z1 order b2), Some (index + block_size))))))
           else
             let index = freelist b
             in bindR (get_freelist_entry pe z index) (\<lambda>n.
                let x = next_link (entry pe n); b1 = b\<lparr>freelist := x\<rparr>
                in bindR (if x \<noteq> - 1 then set_prev pe z x (- 1) else Inr pe) (\<lambda>pe1.
                   bindR (get_buddy_bit b1 index) (\<lambda>buddy_bit.
                   if \<not> buddy_bit = True then Inl VerifyFailed
                   else bindR (set_buddy_bit b1 index False) (\<lambda>b2.
                     Inr ((pe1, set_bucket z order b2), Some index))))))"
  by pat_completeness auto
termination
  by (relation "measure (\<lambda>(pe, z, order). max_order + 1 - order)") auto

declare allocate_block_impl.simps [simp del]

definition allocate_block ::
    "page_entries \<Rightarrow> zone \<Rightarrow> nat \<Rightarrow> ((page_entries \<times> zone) \<times> nat option) result" where
  "allocate_block pe z order =
     (let block_size = 2 * 2 ^ order
      in bindR (allocate_block_impl pe z order) (\<lambda>((pe1, z1), result).
           case result of
             None \<Rightarrow> Inr ((pe1, z1), None)
           | Some index \<Rightarrow>
               let z2 = z1\<lparr>m_used_chunks := size_add (m_used_chunks z1) block_size\<rparr>
               in if odd index then Inl VerifyFailed
                  else Inr ((pe1, z2),
                     Some (nat ((int (m_base_address z2) + index * int ZONE_CHUNK_SIZE) mod int size_limit)))))"

section \<open>Freeing\<close>

function deallocate_block_impl ::
    "page_entries \<Rightarrow> zone \<Rightarrow> int \<Rightarrow> nat \<Rightarrow> (page_entries \<times> zone) result" where
  "deallocate_block_impl pe z index order =
     (if order > max_order then Inl OutOfBounds
      else
        let block_size = 2 * 2 ^ order; b = m_buckets z ! order
        in bindR (get_buddy_bit b index) (\<lambda>buddy_bit.
             if buddy_bit then
               let buddy_base_index = int (push_bit (1 + order) (push_bit 1 (buddy_bit_index b index)))
               in bindR (if index = buddy_base_index
                         then remove_from_freelist pe z b (buddy_base_index + block_size)
                         else remove_from_freelist pe z b buddy_base_index) (\<lambda>(pe1, b1).
                  bindR (set_buddy_bit b1 index False) (\<lambda>b2.
                  deallocate_block_impl pe1 (set_bucket z order b2) buddy_base_index (order + 1)))
             else
               bindR (if freelist b \<noteq> - 1 then set_prev pe z (freelist b) index else Inr pe) (\<lambda>pe1.
               bindR (get_freelist_entry pe1 z index) (\<lambda>n.
               let pe2 = set_entry pe1 n \<lparr>next_link = freelist b, prev_link = - 1\<rparr>;
                   b1 = b\<lparr>freelist := index\<rparr>
               in bindR (set_buddy_bit b1 index True) (\<lambda>b2. Inr (pe2, set_bucket z order b2))))))"
  by pat_completeness auto
termination
  by (relation "measure (\<lambda>(pe, z, index, order). max_order + 1 - order)") auto

declare deallocate_block_impl.simps [simp del]

definition deallocate_block :: "page_entries \<Rightarrow> zone \<Rightarrow> nat \<Rightarrow> nat \<Rightarrow> (page_entries \<times> zone) result" where
  "deallocate_block pe z address order =
     (let block_size = 2 * 2 ^ order;
          index = int (size_sub address (m_base_address z) div ZONE_CHUNK_SIZE)
      in bindR (deallocate_block_impl pe z index order) (\<lambda>(pe1, z1).
           Inr (pe1, z1\<lparr>m_used_chunks := size_sub (m_used_chunks z1) block_size\<rparr>)))"

definition available :: "zone \<Rightarrow> nat" where
  "available z = size_sub (m_page_count z) (m_used_chunks z div 2)"

definition zone_is_empty :: "zone \<Rightarrow> bool" where
  "zone_is_empty z \<longleftrightarrow> available z = 0"

definition zone_contains :: "zone \<Rightarrow> nat \<Rightarrow> bool" where
  "zone_contains z paddr \<longleftrightarrow>
     m_base_address z \<le> paddr \<and> paddr < size_add (m_base_address z) (size_mul (m_page_count z) PAGE_SIZE)"

end
