(* ===== verification/Zone_Invariant.thy ===== *)
theory Zone_Invariant
  imports Physical_Zone
begin

text \<open>
  The invariant of a physical zone: its free lists spell out the lists of a buddy scheme, and the
  bit of a pair of buddies is set if one of the two is in its list. Every operation on buckets
  and lists is shown to do the corresponding step on the abstract scheme.
\<close>

abbreviation chunk :: "nat \<Rightarrow> int" where
  "chunk p \<equiv> int (2 * p)"

text \<open>The number of the physical page a zone starts with, and the links of the pages of a zone.\<close>
abbreviation first_page :: "zone \<Rightarrow> nat" where
  "first_page z \<equiv> m_base_address z div PAGE_SIZE"

abbreviation zone_links :: "page_entries \<Rightarrow> zone \<Rightarrow> nat \<Rightarrow> int links" where
  "zone_links pe z \<equiv> \<lambda>p. entry pe (first_page z + p)"

definition pair_free :: "nat list \<Rightarrow> nat \<Rightarrow> nat \<Rightarrow> bool" where
  "pair_free xs k j \<longleftrightarrow> j * 2 ^ (k + 1) \<in> set xs \<or> j * 2 ^ (k + 1) + 2 ^ k \<in> set xs"

definition bits_ok :: "nat \<Rightarrow> nat list \<Rightarrow> nat \<Rightarrow> bitmap \<Rightarrow> bool" where
  "bits_ok K xs k bm \<longleftrightarrow> wf_bitmap bm \<and> m_size bm = ceil_div (2 ^ (K - k)) 2 \<and>
     (\<forall>j < m_size bm. bit_at bm j \<longleftrightarrow> pair_free xs k j)"

definition zone_shape :: "page_entries \<Rightarrow> zone \<Rightarrow> nat \<Rightarrow> bool" where
  "zone_shape pe z K \<longleftrightarrow> K \<le> max_order \<and> m_page_count z = 2 ^ K \<and> PAGE_SIZE dvd m_base_address z \<and>
     m_base_address z + PAGE_SIZE * 2 ^ K < size_limit \<and> first_page z + 2 ^ K \<le> entry_count pe \<and>
     length (m_buckets z) = max_order + 1 \<and> (\<forall>k \<le> max_order. b_order (m_buckets z ! k) = k)"

definition zone_wf :: "page_entries \<Rightarrow> zone \<Rightarrow> nat \<Rightarrow> (nat \<Rightarrow> nat list) \<Rightarrow> bool" where
  "zone_wf pe z K fl \<longleftrightarrow> zone_shape pe z K \<and> buddy_inv K fl \<and>
     (\<forall>k \<le> max_order. linked chunk (- 1) (zone_links pe z) (freelist (m_buckets z ! k)) (fl k)) \<and>
     (\<forall>k \<le> K. bits_ok K (fl k) k (b_bitmap (m_buckets z ! k)))"

lemma zone_wfD:
  assumes "zone_wf pe z K fl"
  shows "zone_shape pe z K" and "buddy_inv K fl" and "K \<le> max_order"
    and "k \<le> max_order \<Longrightarrow> linked chunk (- 1) (zone_links pe z) (freelist (m_buckets z ! k)) (fl k)"
    and "k \<le> K \<Longrightarrow> bits_ok K (fl k) k (b_bitmap (m_buckets z ! k))"
    and "k \<le> max_order \<Longrightarrow> b_order (m_buckets z ! k) = k" and "length (m_buckets z) = max_order + 1"
  using assms by (simp_all add: zone_wf_def zone_shape_def)

section \<open>Indices\<close>

lemma get_freelist_entry_eq:
  assumes "zone_shape pe z K" and "p < 2 ^ K"
  shows "get_freelist_entry pe z (chunk p) = Inr (first_page z + p)"
proof -
  obtain u where u: "m_base_address z = 4096 * u" using assms by (auto simp: zone_shape_def PAGE_SIZE_def)
  have lim: "m_base_address z + 4096 * p < size_limit"
    using assms by (simp add: zone_shape_def PAGE_SIZE_def)
  have "int (m_base_address z) + chunk p * int ZONE_CHUNK_SIZE = int (m_base_address z + 4096 * p)"
    by (simp add: ZONE_CHUNK_SIZE_def PAGE_SIZE_def)
  then have "nat ((int (m_base_address z) + chunk p * int ZONE_CHUNK_SIZE) mod int size_limit) = m_base_address z + 4096 * p"
    using lim by (simp only: nat_int flip: of_nat_mod) simp
  then show ?thesis
    using assms by (simp add: get_freelist_entry_def PAGE_SIZE_def u zone_shape_def)
qed

lemma buddy_bit_index_eq:
  assumes "b_order b = k" and "p < size_limit"
  shows "buddy_bit_index b (chunk p) = p div 2 ^ (k + 1)"
proof -
  have "drop_bit 1 (chunk p) = int p" by (simp add: drop_bit_eq_div)
  moreover have "drop_bit (1 + k) (int p) = int (p div 2 ^ (k + 1))" by (simp add: drop_bit_eq_div zdiv_int)
  moreover have "p div 2 ^ (k + 1) < size_limit" using assms(2) div_le_dividend le_less_trans by blast
  ultimately show ?thesis using assms(1) by (simp add: buddy_bit_index_def)
qed

lemma aligned_in_pair:
  fixes p :: nat
  assumes "2 ^ k dvd p"
  shows "p = p div 2 ^ (k + 1) * 2 ^ (k + 1) \<or> p = p div 2 ^ (k + 1) * 2 ^ (k + 1) + 2 ^ k"
    and "2 ^ (k + 1) dvd p \<longleftrightarrow> p = p div 2 ^ (k + 1) * 2 ^ (k + 1)"
proof -
  obtain u where u: "p = 2 ^ k * u" using assms ..
  have d: "p div 2 ^ (k + 1) * 2 ^ (k + 1) = 2 ^ k * (2 * (u div 2))" by (simp add: u mult.assoc mult.left_commute)
  have "u = 2 * (u div 2) \<or> u = 2 * (u div 2) + 1" by linarith
  then have "2 ^ k * u = 2 ^ k * (2 * (u div 2)) \<or> 2 ^ k * u = 2 ^ k * (2 * (u div 2)) + 2 ^ k"
    by (metis distrib_left mult.right_neutral)
  then show "p = p div 2 ^ (k + 1) * 2 ^ (k + 1) \<or> p = p div 2 ^ (k + 1) * 2 ^ (k + 1) + 2 ^ k"
    unfolding d by (simp only: u)
  show "2 ^ (k + 1) dvd p \<longleftrightarrow> p = p div 2 ^ (k + 1) * 2 ^ (k + 1)"
  proof
    assume "2 ^ (k + 1) dvd p"
    then show "p = p div 2 ^ (k + 1) * 2 ^ (k + 1)" by (simp only: dvd_div_mult_self)
  next
    assume "p = p div 2 ^ (k + 1) * 2 ^ (k + 1)"
    then show "2 ^ (k + 1) dvd p" by (metis dvd_triv_right)
  qed
qed

definition buddy :: "nat \<Rightarrow> nat \<Rightarrow> nat" where
  "buddy k p = (if 2 ^ (k + 1) dvd p then p + 2 ^ k else p - 2 ^ k)"

lemma pair_free_iff:
  assumes "2 ^ k dvd p"
  shows "pair_free xs k (p div 2 ^ (k + 1)) \<longleftrightarrow> p \<in> set xs \<or> buddy k p \<in> set xs"
proof -
  define j where "j = p div 2 ^ (k + 1)"
  note pair = aligned_in_pair [OF assms, folded j_def]
  show ?thesis
  proof (cases "2 ^ (k + 1) dvd p")
    case True
    then have "j * 2 ^ (k + 1) = p" "buddy k p = p + 2 ^ k" using pair(2) by (simp_all add: buddy_def)
    then show ?thesis by (simp only: pair_free_def flip: j_def)
  next
    case False
    then have "j * 2 ^ (k + 1) + 2 ^ k = p" using pair by metis
    moreover from this have "j * 2 ^ (k + 1) = buddy k p" using False by (simp add: buddy_def)
    ultimately show ?thesis unfolding pair_free_def j_def [symmetric] by metis
  qed
qed

lemma pair_in_bitmap:
  assumes "in_zone K k p"
  shows "p div 2 ^ (k + 1) < ceil_div (2 ^ (K - k)) 2"
proof -
  have k: "k \<le> K" "2 ^ k dvd p" "p + 2 ^ k \<le> 2 ^ K" using assms by (simp_all add: in_zone_def)
  show ?thesis
  proof (cases "k = K")
    case True
    then show ?thesis using k(3) by (simp add: ceil_div_def)
  next
    case False
    have pow: "0 < (2 :: nat) ^ k" by simp
    from False obtain d where d: "K = k + 1 + d" using k(1) by (metis Suc_eq_plus1 le_neq_implies_less less_imp_Suc_add add.assoc add.commute)
    have "(2 :: nat) ^ K = 2 ^ d * 2 ^ (k + 1)" by (simp add: d power_add)
    then have "p < 2 ^ d * 2 ^ (k + 1)" using k(3) pow by linarith
    then have "p div 2 ^ (k + 1) < 2 ^ d" by (rule less_mult_imp_div_less)
    then show ?thesis using d by (simp add: ceil_div_def)
  qed
qed

lemma page_bound: "in_zone K k p \<Longrightarrow> p < 2 ^ K"
proof -
  assume "in_zone K k p"
  moreover have "0 < (2 :: nat) ^ k" by simp
  ultimately show ?thesis unfolding in_zone_def by linarith
qed

section \<open>Buddy bits\<close>

lemma ceil_div_pow_less: "ceil_div (2 ^ (K - k)) 2 < size_limit" if "K \<le> max_order"
proof -
  have "(2 :: nat) ^ (K - k) \<le> 2 ^ 12" using that by (intro power_increasing) (simp_all add: max_order_def)
  then show ?thesis using ceil_div_le [of 2 "2 ^ (K - k)"] by simp
qed

lemma page_size_t: "in_zone K k p \<Longrightarrow> K \<le> max_order \<Longrightarrow> p < size_limit"
  using page_bound [of K k p] power_increasing [of K 64 "2 :: nat"] by (simp add: max_order_def)

lemma get_buddy_bit_eq:
  assumes "bits_ok K xs k (b_bitmap b)" and "b_order b = k" and "in_zone K k p" and "K \<le> max_order"
  shows "get_buddy_bit b (chunk p) = Inr (p \<in> set xs \<or> buddy k p \<in> set xs)"
proof -
  let ?j = "p div 2 ^ (k + 1)"
  have bm: "wf_bitmap (b_bitmap b)" "?j < m_size (b_bitmap b)" "bit_at (b_bitmap b) ?j \<longleftrightarrow> pair_free xs k ?j"
    using assms(1) pair_in_bitmap [OF assms(3)] by (simp_all add: bits_ok_def)
  have "p < 2 ^ K" by (rule page_bound [OF assms(3)])
  also have "(2 :: nat) ^ K \<le> 2 ^ 12" using assms(4) by (intro power_increasing) (simp_all add: max_order_def)
  finally have "p < size_limit" by simp
  then have "buddy_bit_index b (chunk p) = ?j" using assms(2) by (intro buddy_bit_index_eq)
  moreover have "2 ^ k dvd p" using assms(3) by (simp add: in_zone_def)
  ultimately show ?thesis
    using bm pair_free_iff [of k p xs] by (simp add: get_buddy_bit_def bitmap_get_eq)
qed

text \<open>Changing the list of an order only at \<open>p\<close> and its buddy, and setting the bit of the pair.\<close>
lemma set_buddy_bit_ok:
  assumes ok: "bits_ok K xs k (b_bitmap b)" and "b_order b = k" and p: "in_zone K k p" and K: "K \<le> max_order"
    and same: "\<And>q. q \<noteq> p \<Longrightarrow> q \<noteq> buddy k p \<Longrightarrow> q \<in> set xs' \<longleftrightarrow> q \<in> set xs"
    and v: "v \<longleftrightarrow> p \<in> set xs' \<or> buddy k p \<in> set xs'"
  shows "\<exists>bm'. set_buddy_bit b (chunk p) v = Inr (b\<lparr>b_bitmap := bm'\<rparr>) \<and> bits_ok K xs' k bm'"
proof -
  define j where "j = p div 2 ^ (k + 1)"
  have al: "2 ^ k dvd p" using p by (simp add: in_zone_def)
  have bm: "wf_bitmap (b_bitmap b)" "j < m_size (b_bitmap b)" "m_size (b_bitmap b) = ceil_div (2 ^ (K - k)) 2"
    using ok pair_in_bitmap [OF p] by (simp_all add: bits_ok_def j_def)
  obtain bm' where s: "bitmap_set (b_bitmap b) j v = Inr bm'" "same_shape (b_bitmap b) bm'"
    "\<And>i. bit_at bm' i = (if i = j then v else bit_at (b_bitmap b) i)"
    using bitmap_set_eq [OF bm(1,2), of v] by blast
  have "p < 2 ^ K" by (rule page_bound [OF p])
  also have "(2 :: nat) ^ K \<le> 2 ^ 12" using K by (intro power_increasing) (simp_all add: max_order_def)
  finally have "p < size_limit" by simp
  then have idx: "buddy_bit_index b (chunk p) = j" using assms(2) unfolding j_def by (intro buddy_bit_index_eq)
  have bits: "bit_at bm' i \<longleftrightarrow> pair_free xs' k i" if "i < m_size (b_bitmap b)" for i
  proof (cases "i = j")
    case True
    then show ?thesis using s(3) v pair_free_iff [OF al, of xs'] by (simp add: j_def)
  next
    case False
    have q: "q \<noteq> p \<and> q \<noteq> buddy k p" if "q = i * 2 ^ (k + 1) \<or> q = i * 2 ^ (k + 1) + 2 ^ k" for q
    proof -
      have "q div 2 ^ (k + 1) = i" using that by (auto intro: div_nat_eqI)
      moreover have "buddy k p div 2 ^ (k + 1) = j"
      proof (cases "2 ^ (k + 1) dvd p")
        case True
        then show ?thesis using aligned_in_pair(2) [OF al, folded j_def]
          by (intro div_nat_eqI) (simp_all add: buddy_def)
      next
        case False
        then have "buddy k p = j * 2 ^ (k + 1)" using aligned_in_pair [OF al, folded j_def] by (simp add: buddy_def)
        then show ?thesis by simp
      qed
      ultimately show ?thesis using False by (auto simp: j_def)
    qed
    then have "pair_free xs' k i \<longleftrightarrow> pair_free xs k i" using same by (simp add: pair_free_def)
    then show ?thesis using s(3) False ok that by (simp add: bits_ok_def)
  qed
  have "wf_bitmap bm'" "m_size bm' = m_size (b_bitmap b)"
    using same_shape_wf [OF s(2) bm(1)] s(2) by (simp_all add: same_shape_def)
  then show ?thesis using s(1) idx bits bm(3) by (intro exI [of _ bm']) (simp add: set_buddy_bit_def bits_ok_def)
qed

section \<open>Free lists\<close>

lemma entry_set_entry [simp]: "entry (set_entry pe n l) m = (if m = n then l else entry pe m)"
  by (simp add: set_entry_def)

lemma entry_count_set_entry [simp]: "entry_count (set_entry pe n l) = entry_count pe"
  by (simp add: set_entry_def)

lemma zone_shape_entries: "zone_shape pe z K \<Longrightarrow> entry_count pe' = entry_count pe \<Longrightarrow> zone_shape pe' z K"
  by (simp add: zone_shape_def)

lemma set_prev_eq:
  assumes "zone_shape pe z K" and "p < 2 ^ K"
  shows "set_prev pe z (chunk p) l = Inr (set_entry pe (first_page z + p) ((zone_links pe z p)\<lparr>prev_link := l\<rparr>))"
  using get_freelist_entry_eq [OF assms] by (simp add: set_prev_def)

lemma set_next_eq:
  assumes "zone_shape pe z K" and "p < 2 ^ K"
  shows "set_next pe z (chunk p) l = Inr (set_entry pe (first_page z + p) ((zone_links pe z p)\<lparr>next_link := l\<rparr>))"
  using get_freelist_entry_eq [OF assms] by (simp add: set_next_def)

lemma links_eqI: "next_link l = n \<Longrightarrow> prev_link l = p \<Longrightarrow> l = \<lparr>next_link = n, prev_link = p\<rparr>"
  by simp

lemma chunk_not_end [simp]: "chunk p \<noteq> - 1" "- 1 \<noteq> chunk p"
  by simp_all

text \<open>Pages whose entries an operation may change.\<close>
definition changes_entries :: "zone \<Rightarrow> page_entries \<Rightarrow> page_entries \<Rightarrow> nat set \<Rightarrow> bool" where
  "changes_entries z pe pe' P \<longleftrightarrow> entry_count pe' = entry_count pe \<and>
     (\<forall>n. entry pe' n \<noteq> entry pe n \<longrightarrow> (\<exists>p \<in> P. n = first_page z + p))"

lemma changes_entries_refl [simp]: "changes_entries z pe pe P"
  by (simp add: changes_entries_def)

lemma changes_entries_set: "p \<in> P \<Longrightarrow> changes_entries z pe pe1 P \<Longrightarrow> changes_entries z pe (set_entry pe1 (first_page z + p) l) P"
  by (auto simp: changes_entries_def split: if_splits)

lemma changes_entries_trans:
  "changes_entries z pe pe1 P \<Longrightarrow> changes_entries z pe1 pe2 Q \<Longrightarrow> P \<subseteq> R \<Longrightarrow> Q \<subseteq> R \<Longrightarrow> changes_entries z pe pe2 R"
  unfolding changes_entries_def by (metis subsetD)

lemma changes_entries_links:
  "changes_entries z pe pe' P \<Longrightarrow> q \<notin> P \<Longrightarrow> zone_links pe' z q = zone_links pe z q"
  by (auto simp: changes_entries_def)

text \<open>Taking the first block of a list, as \<open>allocate_block_impl\<close> does.\<close>
lemma pop_ok:
  assumes sh: "zone_shape pe z K" and l: "linked chunk (- 1) (zone_links pe z) h (p # ps)" and ps: "set ps \<subseteq> {..<2 ^ K}"
  defines "x \<equiv> next_link (zone_links pe z p)"
  shows "\<exists>pe'. (if x \<noteq> - 1 then set_prev pe z x (- 1) else Inr pe) = Inr pe' \<and>
           changes_entries z pe pe' (set ps) \<and> linked chunk (- 1) (zone_links pe' z) x ps"
proof -
  have x: "x = first_link chunk (- 1) ps"
    using linkedD(2) [of chunk "- 1" "zone_links pe z" h "[]" p ps] l by (simp add: x_def)
  show ?thesis
  proof (cases ps)
    case Nil
    then show ?thesis using x by simp
  next
    case (Cons q qs)
    let ?pe = "set_entry pe (first_page z + q) ((zone_links pe z q)\<lparr>prev_link := - 1\<rparr>)"
    have "q < 2 ^ K" using ps Cons by simp
    then have "set_prev pe z x (- 1) = Inr ?pe" using set_prev_eq [OF sh] x Cons by simp
    moreover have "linked chunk (- 1) (zone_links ?pe z) x ([] @ ps)"
    proof (rule linked_remove)
      show "linked chunk (- 1) (zone_links pe z) h ([] @ p # ps)" using l by simp
    qed (use Cons x in \<open>auto intro!: links_eqI\<close>)
    moreover have "changes_entries z pe ?pe (set ps)" using Cons by (intro changes_entries_set) simp_all
    ultimately show ?thesis using x Cons by simp
  qed
qed

text \<open>Adding a block in front of a list, as \<open>deallocate_block_impl\<close> does.\<close>
lemma push_ok:
  assumes sh: "zone_shape pe z K" and l: "linked chunk (- 1) (zone_links pe z) h ps"
    and ps: "set ps \<subseteq> {..<2 ^ K}" and p: "p < 2 ^ K" "p \<notin> set ps"
  shows "\<exists>pe1 pe'. (if h \<noteq> - 1 then set_prev pe z h (chunk p) else Inr pe) = Inr pe1 \<and>
           get_freelist_entry pe1 z (chunk p) = Inr (first_page z + p) \<and>
           pe' = set_entry pe1 (first_page z + p) \<lparr>next_link = h, prev_link = - 1\<rparr> \<and>
           changes_entries z pe pe' (insert p (set ps)) \<and> linked chunk (- 1) (zone_links pe' z) (chunk p) (p # ps)"
proof -
  have h: "h = first_link chunk (- 1) ps" using l by (simp add: linked_def)
  obtain pe1 where pe1: "(if h \<noteq> - 1 then set_prev pe z h (chunk p) else Inr pe) = Inr pe1"
    "entry_count pe1 = entry_count pe" "changes_entries z pe pe1 (insert p (set ps))"
    "\<And>x. zone_links pe1 z x = (if ps \<noteq> [] \<and> x = hd ps then (zone_links pe z x)\<lparr>prev_link := chunk p\<rparr> else zone_links pe z x)"
  proof (cases ps)
    case Nil
    then show ?thesis using that [of pe] h by simp
  next
    case (Cons q qs)
    then have "q < 2 ^ K" using ps by simp
    have "changes_entries z pe (set_entry pe (first_page z + q) ((zone_links pe z q)\<lparr>prev_link := chunk p\<rparr>)) (insert p (set ps))"
      using Cons by (intro changes_entries_set) simp_all
    then show ?thesis
      using \<open>q < 2 ^ K\<close> that [of "set_entry pe (first_page z + q) ((zone_links pe z q)\<lparr>prev_link := chunk p\<rparr>)"]
        set_prev_eq [OF sh, of q "chunk p"] h Cons
      by (auto simp: fun_eq_iff)
  qed
  let ?pe = "set_entry pe1 (first_page z + p) \<lparr>next_link = h, prev_link = - 1\<rparr>"
  have "linked chunk (- 1) (zone_links ?pe z) (chunk p) ([] @ p # ps)"
  proof (rule linked_insert)
    show "linked chunk (- 1) (zone_links pe z) h ([] @ ps)" using l by simp
  qed (use p h pe1(4) in \<open>auto intro!: links_eqI\<close>)
  moreover have "get_freelist_entry pe1 z (chunk p) = Inr (first_page z + p)"
    using get_freelist_entry_eq [OF zone_shape_entries [OF sh pe1(2)] p(1)] .
  moreover have "changes_entries z pe ?pe (insert p (set ps))" using pe1(3) by (intro changes_entries_set) simp_all
  ultimately show ?thesis using pe1(1) by auto
qed

text \<open>Taking a block out of a list, as \<open>remove_from_freelist\<close> does.\<close>
lemma remove_from_freelist_ok:
  assumes sh: "zone_shape pe z K" and l: "linked chunk (- 1) (zone_links pe z) (freelist b) ps"
    and ps: "set ps \<subseteq> {..<2 ^ K}" and p: "p \<in> set ps"
  shows "\<exists>pe' h'. remove_from_freelist pe z b (chunk p) = Inr (pe', b\<lparr>freelist := h'\<rparr>) \<and>
           changes_entries z pe pe' (set ps) \<and> linked chunk (- 1) (zone_links pe' z) h' (remove1 p ps)"
proof -
  obtain as bs where split: "ps = as @ p # bs" using p by (meson split_list)
  have d: "distinct (as @ p # bs)" using linked_distinct [OF l] split by simp
  then have rem: "remove1 p ps = as @ bs" using split by (simp add: remove1_append)
  have lk: "prev_link (zone_links pe z p) = last_link chunk (- 1) as" "next_link (zone_links pe z p) = first_link chunk (- 1) bs"
    using linkedD [of chunk "- 1" "zone_links pe z" "freelist b" as p bs] l split by simp_all
  define P where "P = last_link chunk (- 1) as"
  define X where "X = first_link chunk (- 1) bs"
  have P: "P \<ge> - 1" "P \<noteq> - 1 \<longleftrightarrow> as \<noteq> []" by (simp_all add: P_def last_link_def)
  have X: "X \<ge> - 1" "X \<noteq> - 1 \<longleftrightarrow> bs \<noteq> []" by (cases bs; simp add: X_def)+
  have bound: "q < 2 ^ K" if "q \<in> set ps" for q using ps that by auto
  obtain pe1 where pe1: "(if P \<noteq> - 1 then set_next pe z P X else Inr pe) = Inr pe1" "changes_entries z pe pe1 (set ps)"
    "\<And>x. zone_links pe1 z x = (if as \<noteq> [] \<and> x = last as then (zone_links pe z x)\<lparr>next_link := X\<rparr> else zone_links pe z x)"
  proof (cases "as = []")
    case True
    then show ?thesis using that [of pe] P by simp
  next
    case False
    then have "P = chunk (last as)" "last as \<in> set ps" using split by (simp_all add: P_def last_link_def)
    then show ?thesis
      using that [of "set_entry pe (first_page z + last as) ((zone_links pe z (last as))\<lparr>next_link := X\<rparr>)"]
        set_next_eq [OF sh bound, of "last as" X] P False changes_entries_set [OF _ changes_entries_refl, of "last as" "set ps"]
      by simp
  qed
  have sh1: "zone_shape pe1 z K" using zone_shape_entries [OF sh] pe1(2) by (simp add: changes_entries_def)
  obtain pe2 where pe2: "(if X \<noteq> - 1 then set_prev pe1 z X P else Inr pe1) = Inr pe2" "changes_entries z pe pe2 (set ps)"
    "\<And>x. zone_links pe2 z x = (if bs \<noteq> [] \<and> x = hd bs then (zone_links pe1 z x)\<lparr>prev_link := P\<rparr> else zone_links pe1 z x)"
  proof (cases bs)
    case Nil
    then show ?thesis using that [of pe1] X pe1(2) by simp
  next
    case (Cons q qs)
    then have "X = chunk q" "q \<in> set ps" using split by (simp_all add: X_def)
    then show ?thesis
      using that [of "set_entry pe1 (first_page z + q) ((zone_links pe1 z q)\<lparr>prev_link := P\<rparr>)"]
        set_prev_eq [OF sh1 bound, of q P] X Cons changes_entries_set [OF _ pe1(2), of q]
      by simp
  qed
  define pe3 where "pe3 = set_entry pe2 (first_page z + p) \<lparr>next_link = - 1, prev_link = - 1\<rparr>"
  define h' where "h' = (if freelist b = chunk p then X else freelist b)"
  have h: "freelist b = first_link chunk (- 1) (as @ p # bs)" using l split by (simp add: linked_def)
  have "linked chunk (- 1) (zone_links pe3 z) h' (as @ bs)"
  proof (rule linked_remove)
    show "linked chunk (- 1) (zone_links pe z) (freelist b) (as @ p # bs)" using l split by simp
    show "h' = first_link chunk (- 1) (as @ bs)"
      using h d by (cases as) (auto simp: h'_def X_def)
    fix x assume "x \<in> set as \<union> set bs"
    then have "x \<noteq> p" using d by auto
    then show "zone_links pe3 z x =
        \<lparr>next_link = (if as \<noteq> [] \<and> x = last as then first_link chunk (- 1) bs else next_link (zone_links pe z x)),
         prev_link = (if bs \<noteq> [] \<and> x = hd bs then last_link chunk (- 1) as else prev_link (zone_links pe z x))\<rparr>"
      by (intro links_eqI) (simp_all add: pe3_def P_def X_def pe1(3) pe2(3))
  qed
  moreover have "remove_from_freelist pe z b (chunk p) = Inr (pe3, b\<lparr>freelist := h'\<rparr>)"
    unfolding remove_from_freelist_def get_freelist_entry_eq [OF sh bound [OF p]] bindR.simps Let_def
      lk [folded P_def X_def]
    using P(1) X(1) by (simp only: pe1(1) pe2(1) bindR.simps) (simp add: pe3_def h'_def)
  moreover have "changes_entries z pe pe3 (set ps)" unfolding pe3_def using p pe2(2) by (rule changes_entries_set)
  ultimately show ?thesis using rem by auto
qed

section \<open>Buckets\<close>

text \<open>What is left to show when an operation has changed one bucket and the entries of its list.\<close>
lemma zone_wf_update:
  assumes wf: "zone_wf pe z K fl" and k: "k \<le> max_order" and ord: "b_order b' = k"
    and inv: "buddy_inv K (fl(k := ys))"
    and lk: "linked chunk (- 1) (zone_links pe' z) (freelist b') ys"
    and bits: "k \<le> K \<Longrightarrow> bits_ok K ys k (b_bitmap b')"
    and ch: "changes_entries z pe pe' P" and P: "\<And>l. l \<noteq> k \<Longrightarrow> set (fl l) \<inter> P = {}"
  shows "zone_wf pe' (set_bucket z k b') K (fl(k := ys))"
proof -
  note d = zone_wfD [OF wf]
  have len: "k < length (m_buckets z)" using d(7) k by simp
  have "zone_shape pe' (set_bucket z k b') K"
    using d(1) ch ord len by (auto simp: zone_shape_def set_bucket_def changes_entries_def nth_list_update)
  moreover have "linked chunk (- 1) (zone_links pe' (set_bucket z k b'))
      (freelist (m_buckets (set_bucket z k b') ! l)) ((fl(k := ys)) l)" if "l \<le> max_order" for l
  proof (cases "l = k")
    case True
    then show ?thesis using lk len by (simp add: set_bucket_def)
  next
    case False
    have "linked chunk (- 1) (zone_links pe' z) (freelist (m_buckets z ! l)) (fl l)"
      using d(4) [OF that] P [OF False] changes_entries_links [OF ch] by (elim linked_cong) blast
    then show ?thesis using False by (simp add: set_bucket_def)
  qed
  moreover have "bits_ok K ((fl(k := ys)) l) l (b_bitmap (m_buckets (set_bucket z k b') ! l))" if "l \<le> K" for l
    using d(5) [OF that] bits len that by (auto simp: set_bucket_def nth_list_update)
  ultimately show ?thesis using inv by (simp add: zone_wf_def)
qed

lemma linked_single: "linked enc null e h [p] \<longleftrightarrow> h = enc p \<and> next_link (e p) = null \<and> prev_link (e p) = null"
  by (auto simp: linked_def Cons_eq_append_conv)

lemma buddy_not_free:
  assumes "buddy_inv K fl" and "p \<in> set (fl k)"
  shows "buddy k p \<notin> set (fl k)"
proof (cases "2 ^ (k + 1) dvd p")
  case True
  then show ?thesis using buddy_invD(4) [OF assms] by (simp add: buddy_def)
next
  case False
  have al: "2 ^ k dvd p" using buddy_invD(2) [OF assms] by (simp add: in_zone_def)
  define j where "j = p div 2 ^ (k + 1)"
  have p: "p = j * 2 ^ (k + 1) + 2 ^ k" using aligned_in_pair [OF al, folded j_def] False by blast
  have b: "buddy k p = j * 2 ^ (k + 1)" using False by (subst p) (simp add: buddy_def p [symmetric])
  show ?thesis
  proof
    assume "buddy k p \<in> set (fl k)"
    then have "buddy k p + 2 ^ k \<notin> set (fl k)"
      by (rule buddy_invD(4) [OF assms(1)]) (simp only: b dvd_triv_right)
    then show False using assms(2) b p by simp
  qed
qed

lemma free_heads_bound:
  assumes "zone_wf pe z K fl"
  shows "set (fl k) \<subseteq> {..<2 ^ K}" and "set (fl k) \<subseteq> free_pages fl"
  by (use page_bound [OF buddy_invD(2) [OF zone_wfD(2) [OF assms]]] in blast)
    (use free_pagesI blk_head in blast)

lemma other_heads:
  assumes "zone_wf pe z K fl" and "l \<noteq> k"
  shows "set (fl l) \<inter> set (fl k) = {}"
  using free_heads_differ [OF zone_wfD(2) [OF assms(1)]] assms(2) by blast

definition same_zone :: "zone \<Rightarrow> zone \<Rightarrow> bool" where
  "same_zone z z' \<longleftrightarrow> m_base_address z' = m_base_address z \<and> m_page_count z' = m_page_count z \<and>
     m_used_chunks z' = m_used_chunks z"

lemma same_zone_simps [simp]: "same_zone z z" "same_zone z (set_bucket z k b)"
  by (simp_all add: same_zone_def set_bucket_def)

lemma same_zone_trans: "same_zone a b \<Longrightarrow> same_zone b c \<Longrightarrow> same_zone a c"
  by (simp add: same_zone_def)

lemma changes_entries_zone: "same_zone z z' \<Longrightarrow> changes_entries z' = changes_entries z"
  by (simp add: changes_entries_def same_zone_def fun_eq_iff)

section \<open>Allocating\<close>

text \<open>What \<open>allocate_block_impl\<close> does when it finds a block, at page \<open>p\<close>.\<close>
definition took_block ::
    "page_entries \<Rightarrow> zone \<Rightarrow> nat \<Rightarrow> (nat \<Rightarrow> nat list) \<Rightarrow> nat \<Rightarrow> page_entries \<Rightarrow> zone \<Rightarrow> nat \<Rightarrow> (nat \<Rightarrow> nat list) \<Rightarrow> bool" where
  "took_block pe z K fl k pe' z' p fl' \<longleftrightarrow>
     in_zone K k p \<and> blk k p \<subseteq> free_pages fl \<and> zone_wf pe' z' K fl' \<and>
     free_pages fl' = free_pages fl - blk k p \<and> (\<forall>l < k. fl' l = fl l) \<and> same_zone z z' \<and>
     changes_entries z pe pe' (free_pages fl)"

lemma take_first_ok:
  assumes wf: "zone_wf pe z K fl" and k: "k \<le> max_order" and fl: "fl k = p # ps"
  shows "\<exists>pe' z'. allocate_block_impl pe z k = Inr ((pe', z'), Some (chunk p)) \<and>
           took_block pe z K fl k pe' z' p (fl(k := ps))"
proof -
  note d = zone_wfD [OF wf] and heads = free_heads_bound [OF wf, of k]
  let ?b = "m_buckets z ! k" and ?x = "next_link (zone_links pe z p)"
  have l: "linked chunk (- 1) (zone_links pe z) (freelist ?b) (p # ps)" using d(4) [OF k] fl by simp
  then have h: "freelist ?b = chunk p" by (simp add: linked_def)
  have p: "in_zone K k p" using buddy_invD(2) [OF d(2), of p k] fl by simp
  then have kK: "k \<le> K" by (simp add: in_zone_def)
  obtain pe' where pe': "(if ?x \<noteq> - 1 then set_prev pe z ?x (- 1) else Inr pe) = Inr pe'"
    "changes_entries z pe pe' (set ps)" "linked chunk (- 1) (zone_links pe' z) ?x ps"
    using pop_ok [OF d(1) l] heads(1) fl by auto
  let ?b1 = "?b\<lparr>freelist := ?x\<rparr>"
  have bits: "bits_ok K (fl k) k (b_bitmap ?b1)" and ord: "b_order ?b1 = k" using d(5) [OF kK] d(6) [OF k] by simp_all
  have get: "get_buddy_bit ?b1 (chunk p) = Inr True" using get_buddy_bit_eq [OF bits ord p d(3)] fl by simp
  have nb: "buddy k p \<notin> set (fl k)" using buddy_not_free [OF d(2), of p k] fl by simp
  have dist: "distinct (p # ps)" using buddy_invD(1) [OF d(2), of k] fl by simp
  obtain bm where bm: "set_buddy_bit ?b1 (chunk p) False = Inr (?b1\<lparr>b_bitmap := bm\<rparr>)" "bits_ok K ps k bm"
    using set_buddy_bit_ok [OF bits ord p d(3), of ps False] fl nb dist by auto
  let ?z = "set_bucket z k (?b1\<lparr>b_bitmap := bm\<rparr>)"
  have eq: "allocate_block_impl pe z k = Inr ((pe', ?z), Some (chunk p))"
    unfolding allocate_block_impl.simps [of pe z k] Let_def h get_freelist_entry_eq [OF d(1) page_bound [OF p]]
      bindR.simps pe'(1) get bm(1)
    using k by simp
  have inv: "buddy_inv K (fl(k := ps))" "free_pages (fl(k := ps)) = free_pages fl - blk k p"
    using buddy_inv_remove [OF d(2), of p k] fl by simp_all
  have "zone_wf pe' ?z K (fl(k := ps))"
  proof (rule zone_wf_update [OF wf k _ inv(1) _ _ pe'(2)])
    show "set (fl l) \<inter> set ps = {}" if "l \<noteq> k" for l using other_heads [OF wf that] fl by auto
  qed (use ord pe'(3) bm(2) in simp_all)
  moreover have "changes_entries z pe pe' (free_pages fl)"
    using changes_entries_trans [OF pe'(2) changes_entries_refl, of "free_pages fl" "{}"] heads(2) fl by simp
  moreover have "blk k p \<subseteq> free_pages fl" using fl by (intro free_pagesI) simp
  ultimately have "took_block pe z K fl k pe' ?z p (fl(k := ps))"
    using p inv(2) by (simp add: took_block_def)
  then show ?thesis using eq by blast
qed

text \<open>Splitting a block of the next order: the lower half is pushed on the empty list, the upper half is handed out.\<close>
lemma split_block_ok:
  assumes wf: "zone_wf pe z K fl" and k: "k \<le> max_order" and fl: "fl k = []"
    and rec: "allocate_block_impl pe z (k + 1) = Inr ((pe1, z1), Some (chunk p))"
    and took: "took_block pe z K fl (k + 1) pe1 z1 p fl1"
  shows "\<exists>pe' z'. allocate_block_impl pe z k = Inr ((pe', z'), Some (chunk (p + 2 ^ k))) \<and>
           took_block pe z K fl k pe' z' (p + 2 ^ k) (fl1(k := [p]))"
proof -
  have t: "in_zone K (k + 1) p" "blk (k + 1) p \<subseteq> free_pages fl" "zone_wf pe1 z1 K fl1"
    "free_pages fl1 = free_pages fl - blk (k + 1) p" "\<And>l. l < k + 1 \<Longrightarrow> fl1 l = fl l" "same_zone z z1"
    "changes_entries z pe pe1 (free_pages fl)"
    using took by (simp_all add: took_block_def)
  note d = zone_wfD [OF t(3)]
  have halves: "in_zone K k p" "in_zone K k (p + 2 ^ k)"
    using t(1) dvd_trans [of "2 ^ k" "2 ^ (k + 1)" p] by (auto simp: in_zone_def)
  then have kK: "k \<le> K" by (simp add: in_zone_def)
  have fl1: "fl1 k = []" using t(5) [of k] fl by simp
  have b: "freelist (m_buckets z ! k) = - 1" using zone_wfD(4) [OF wf k] fl by (simp add: linked_def)
  let ?b = "(m_buckets z1 ! k)\<lparr>freelist := chunk p\<rparr>"
  have bits: "bits_ok K [] k (b_bitmap ?b)" and ord: "b_order ?b = k" using d(5) [OF kK] d(6) [OF k] fl1 by simp_all
  have get: "get_buddy_bit ?b (chunk p) = Inr False" using get_buddy_bit_eq [OF bits ord halves(1) d(3)] by simp
  obtain bm where bm: "set_buddy_bit ?b (chunk p) True = Inr (?b\<lparr>b_bitmap := bm\<rparr>)" "bits_ok K [p] k bm"
    using set_buddy_bit_ok [OF bits ord halves(1) d(3), of "[p]" True] by auto
  let ?z = "set_bucket z1 k (?b\<lparr>b_bitmap := bm\<rparr>)"
  let ?pe = "set_entry pe1 (first_page z1 + p) \<lparr>next_link = - 1, prev_link = - 1\<rparr>"
  have "chunk p + 2 * 2 ^ k = chunk (p + 2 ^ k)" by simp
  then have eq: "allocate_block_impl pe z k = Inr ((?pe, ?z), Some (chunk (p + 2 ^ k)))"
    unfolding allocate_block_impl.simps [of pe z k] Let_def rec bindR.simps prod.case option.case
      get_freelist_entry_eq [OF d(1) page_bound [OF halves(1)]] get bm(1)
    using k b by simp
  have inv: "buddy_inv K (fl1(k := [p]))" "free_pages (fl1(k := [p])) = free_pages fl1 \<union> blk k p"
    using buddy_inv_insert [OF d(2) halves(1)] t(4) fl1 by (auto simp: blk_halves)
  have ch: "changes_entries z1 pe1 ?pe {p}" by (rule changes_entries_set) simp_all
  have "zone_wf ?pe ?z K (fl1(k := [p]))"
  proof (rule zone_wf_update [OF t(3) k _ inv(1) _ _ ch])
    have "p \<notin> free_pages fl1" using t(4) blk_head by simp
    then show "set (fl1 l) \<inter> {p} = {}" for l using free_heads_bound(2) [OF t(3)] by blast
  qed (use ord bm(2) in \<open>simp_all add: linked_single entry_set_entry\<close>)
  moreover have "changes_entries z pe ?pe (free_pages fl)"
    using changes_entries_trans [OF t(7) ch [unfolded changes_entries_zone [OF t(6)]]] t(2) blk_head by blast
  moreover have "same_zone z ?z" using same_zone_trans [OF t(6)] by simp
  moreover have "free_pages (fl1(k := [p])) = free_pages fl - blk k (p + 2 ^ k)" "blk k (p + 2 ^ k) \<subseteq> free_pages fl"
    using inv(2) t(2,4) blk_halves [of k p] blk_halves_disjoint [of k p] by auto
  ultimately have "took_block pe z K fl k ?pe ?z (p + 2 ^ k) (fl1(k := [p]))"
    using halves(2) t(5) by (simp add: took_block_def)
  then show ?thesis using eq by blast
qed

lemma allocate_block_impl_ok:
  assumes wf: "zone_wf pe z K fl"
  shows "(allocate_block_impl pe z k = Inr ((pe, z), None) \<and> (\<forall>l \<ge> k. fl l = [])) \<or>
         (\<exists>pe' z' p fl'. allocate_block_impl pe z k = Inr ((pe', z'), Some (chunk p)) \<and>
            took_block pe z K fl k pe' z' p fl')"
proof (induction "max_order + 1 - k" arbitrary: k)
  case 0
  then have "fl l = []" if "l \<ge> k" for l using zone_wfD(2,3) [OF wf] buddy_invD(2) [of K fl _ l] that
    by (cases "fl l") (auto simp: in_zone_def)
  then show ?case using 0 by (simp add: allocate_block_impl.simps)
next
  case (Suc n)
  then have k: "k \<le> max_order" by simp
  show ?case
  proof (cases "fl k")
    case Nil
    from Suc have "(allocate_block_impl pe z (k + 1) = Inr ((pe, z), None) \<and> (\<forall>l \<ge> k + 1. fl l = [])) \<or>
         (\<exists>pe' z' p fl'. allocate_block_impl pe z (k + 1) = Inr ((pe', z'), Some (chunk p)) \<and>
            took_block pe z K fl (k + 1) pe' z' p fl')" by simp
    then show ?thesis
    proof (elim disjE exE conjE)
      assume n: "allocate_block_impl pe z (k + 1) = Inr ((pe, z), None)" "\<forall>l \<ge> k + 1. fl l = []"
      have "freelist (m_buckets z ! k) = - 1" using zone_wfD(4) [OF wf k] Nil by (simp add: linked_def)
      then have "allocate_block_impl pe z k = Inr ((pe, z), None)"
        using n(1) k by (simp add: allocate_block_impl.simps [of pe z k])
      moreover have "fl l = []" if "l \<ge> k" for l using n(2) Nil that by (cases "l = k") simp_all
      ultimately show ?thesis by blast
    next
      fix pe' z' p fl'
      assume "allocate_block_impl pe z (k + 1) = Inr ((pe', z'), Some (chunk p))" "took_block pe z K fl (k + 1) pe' z' p fl'"
      from split_block_ok [OF wf k Nil this] show ?thesis by blast
    qed
  next
    case (Cons p ps)
    then show ?thesis using take_first_ok [OF wf k] by blast
  qed
qed

section \<open>Freeing\<close>

definition gave_block ::
    "page_entries \<Rightarrow> zone \<Rightarrow> nat \<Rightarrow> (nat \<Rightarrow> nat list) \<Rightarrow> nat \<Rightarrow> nat \<Rightarrow> page_entries \<Rightarrow> zone \<Rightarrow> (nat \<Rightarrow> nat list) \<Rightarrow> bool" where
  "gave_block pe z K fl k p pe' z' fl' \<longleftrightarrow>
     zone_wf pe' z' K fl' \<and> free_pages fl' = free_pages fl \<union> blk k p \<and> same_zone z z' \<and>
     changes_entries z pe pe' (free_pages fl \<union> blk k p)"

lemma push_block_ok:
  assumes wf: "zone_wf pe z K fl" and p: "in_zone K k p" "blk k p \<inter> free_pages fl = {}" and nb: "buddy k p \<notin> set (fl k)"
  shows "\<exists>pe' z'. deallocate_block_impl pe z (chunk p) k = Inr (pe', z') \<and>
           gave_block pe z K fl k p pe' z' (fl(k := p # fl k))"
proof -
  note d = zone_wfD [OF wf] and heads = free_heads_bound [OF wf]
  have kK: "k \<le> K" and al: "2 ^ k dvd p" using p(1) by (simp_all add: in_zone_def)
  then have k: "k \<le> max_order" using d(3) by simp
  let ?b = "m_buckets z ! k"
  have np: "p \<notin> set (fl l)" for l using p(2) heads(2) [of l] blk_head by blast
  have bits: "bits_ok K (fl k) k (b_bitmap ?b)" and ord: "b_order ?b = k" using d(5) [OF kK] d(6) [OF k] by simp_all
  have get: "get_buddy_bit ?b (chunk p) = Inr False" using get_buddy_bit_eq [OF bits ord p(1) d(3)] np nb by simp
  obtain pe1 pe' where pe': "(if freelist ?b \<noteq> - 1 then set_prev pe z (freelist ?b) (chunk p) else Inr pe) = Inr pe1"
    "get_freelist_entry pe1 z (chunk p) = Inr (first_page z + p)"
    "pe' = set_entry pe1 (first_page z + p) \<lparr>next_link = freelist ?b, prev_link = - 1\<rparr>"
    "changes_entries z pe pe' (insert p (set (fl k)))" "linked chunk (- 1) (zone_links pe' z) (chunk p) (p # fl k)"
    using push_ok [OF d(1) d(4) [OF k] heads(1) page_bound [OF p(1)] np] by blast
  let ?b1 = "?b\<lparr>freelist := chunk p\<rparr>"
  obtain bm where bm: "set_buddy_bit ?b1 (chunk p) True = Inr (?b1\<lparr>b_bitmap := bm\<rparr>)" "bits_ok K (p # fl k) k bm"
    using set_buddy_bit_ok [OF _ _ p(1) d(3), of "fl k" ?b1 "p # fl k" True] bits ord by auto
  let ?z = "set_bucket z k (?b1\<lparr>b_bitmap := bm\<rparr>)"
  have eq: "deallocate_block_impl pe z (chunk p) k = Inr (pe', ?z)"
    unfolding deallocate_block_impl.simps [of pe z "chunk p" k] Let_def get bindR.simps pe'(1,2) bm(1) pe'(3) [symmetric]
    using k by simp
  have left: "2 ^ (k + 1) dvd p \<Longrightarrow> p + 2 ^ k \<notin> set (fl k)" using nb by (simp add: buddy_def)
  have right: "p \<noteq> q + 2 ^ k" if "q \<in> set (fl k)" "2 ^ (k + 1) dvd q" for q
  proof
    assume pq: "p = q + 2 ^ k"
    have "\<not> 2 ^ (k + 1) dvd p" using that(2) pq by (simp add: dvd_add_right_iff nat_dvd_not_less)
    then show False using nb that(1) pq by (simp add: buddy_def)
  qed
  note inv = buddy_inv_insert [OF d(2) p left right]
  have "zone_wf pe' ?z K (fl(k := p # fl k))"
  proof (rule zone_wf_update [OF wf k _ inv(1) _ _ pe'(4)])
    show "set (fl l) \<inter> insert p (set (fl k)) = {}" if "l \<noteq> k" for l using other_heads [OF wf that] np by auto
  qed (use ord bm(2) pe'(5) in simp_all)
  moreover have "changes_entries z pe pe' (free_pages fl \<union> blk k p)"
    using changes_entries_trans [OF pe'(4) changes_entries_refl, of _ "{}"] heads(2) [of k] blk_head [of p k] by blast
  ultimately have "gave_block pe z K fl k p pe' ?z (fl(k := p # fl k))" using inv(2) by (simp add: gave_block_def)
  then show ?thesis using eq by blast
qed

text \<open>The two halves of a pair: \<open>p\<close>, its buddy, and the page the pair starts at.\<close>
lemma pair_blocks:
  assumes p: "in_zone K k p" and q: "in_zone K k (buddy k p)" and j: "j = p div 2 ^ (k + 1) * 2 ^ (k + 1)"
  shows "in_zone K (k + 1) j" and "blk (k + 1) j = blk k p \<union> blk k (buddy k p)" and "blk k p \<inter> blk k (buddy k p) = {}"
    and "buddy k p = (if p = j then j + 2 ^ k else j)"
proof -
  have al: "2 ^ k dvd p" and dvd: "2 ^ (k + 1) dvd j" using p j by (simp_all add: in_zone_def)
  have c: "p = j \<and> buddy k p = j + 2 ^ k \<or> p = j + 2 ^ k \<and> buddy k p = j"
  proof (cases "2 ^ (k + 1) dvd p")
    case True
    then have "p = j" using aligned_in_pair(2) [OF al, folded j] by blast
    then show ?thesis using True unfolding buddy_def by simp
  next
    case False
    then have "p = j + 2 ^ k" using aligned_in_pair [OF al, folded j] by blast
    then show ?thesis using False unfolding buddy_def by simp
  qed
  have halves: "blk (k + 1) j = blk k j \<union> blk k (j + 2 ^ k)" "blk k j \<inter> blk k (j + 2 ^ k) = {}"
    using blk_halves [of k j] blk_halves_disjoint [of k j] by simp_all
  have "(j + 2 ^ k) + 2 ^ k \<le> 2 ^ K" using c p q unfolding in_zone_def by (elim disjE conjE) simp_all
  then have top: "j + 2 ^ (k + 1) \<le> 2 ^ K" by simp
  then have "(2 :: nat) ^ (k + 1) \<le> 2 ^ K" by linarith
  then have "k + 1 \<le> K" by (subst (asm) power_increasing_iff) simp_all
  with top dvd show "in_zone K (k + 1) j" unfolding in_zone_def by blast
  from c show "blk (k + 1) j = blk k p \<union> blk k (buddy k p)"
    unfolding halves by (elim disjE conjE) (simp_all only: Un_commute)
  from c show "blk k p \<inter> blk k (buddy k p) = {}"
    using halves(2) by (elim disjE conjE) (simp_all only: Int_commute)
  from c show "buddy k p = (if p = j then j + 2 ^ k else j)" by (elim disjE conjE) simp_all
qed

text \<open>Merging with a free buddy: it leaves its list, and the pair is freed at the next order.\<close>
lemma merge_block_ok:
  assumes wf: "zone_wf pe z K fl" and p: "in_zone K k p" "blk k p \<inter> free_pages fl = {}" and b: "buddy k p \<in> set (fl k)"
  shows "\<exists>pe1 z1. deallocate_block_impl pe z (chunk p) k =
             deallocate_block_impl pe1 z1 (chunk (p div 2 ^ (k + 1) * 2 ^ (k + 1))) (k + 1) \<and>
           zone_wf pe1 z1 K (fl(k := remove1 (buddy k p) (fl k))) \<and> same_zone z z1 \<and>
           changes_entries z pe pe1 (free_pages fl)"
proof -
  note d = zone_wfD [OF wf] and heads = free_heads_bound [OF wf]
  have kK: "k \<le> K" and al: "2 ^ k dvd p" using p(1) by (simp_all add: in_zone_def)
  then have k: "k \<le> max_order" using d(3) by simp
  define j where "j = p div 2 ^ (k + 1) * 2 ^ (k + 1)"
  note pair = pair_blocks [OF p(1) buddy_invD(2) [OF d(2) b] j_def]
  let ?b = "m_buckets z ! k" and ?q = "buddy k p"
  have np: "p \<notin> set (fl k)" using p(2) heads(2) [of k] blk_head by blast
  have bits: "bits_ok K (fl k) k (b_bitmap ?b)" and ord: "b_order ?b = k" using d(5) [OF kK] d(6) [OF k] by simp_all
  have get: "get_buddy_bit ?b (chunk p) = Inr True" using get_buddy_bit_eq [OF bits ord p(1) d(3)] b by simp
  have base: "int (push_bit (1 + k) (push_bit 1 (buddy_bit_index ?b (chunk p)))) = chunk j"
    using buddy_bit_index_eq [OF ord page_size_t [OF p(1) d(3)]] by (simp add: j_def push_bit_eq_mult)
  have c: "chunk p = chunk j \<longleftrightarrow> p = j" "chunk j + 2 * 2 ^ k = chunk (j + 2 ^ k)" by simp_all
  obtain pe1 h' where rm: "remove_from_freelist pe z ?b (chunk ?q) = Inr (pe1, ?b\<lparr>freelist := h'\<rparr>)"
    "changes_entries z pe pe1 (set (fl k))" "linked chunk (- 1) (zone_links pe1 z) h' (remove1 ?q (fl k))"
    using remove_from_freelist_ok [OF d(1) d(4) [OF k] heads(1) b] by blast
  have rm1: "(if chunk p = chunk j then remove_from_freelist pe z ?b (chunk j + 2 * 2 ^ k) else remove_from_freelist pe z ?b (chunk j)) =
      Inr (pe1, ?b\<lparr>freelist := h'\<rparr>)"
    unfolding c using rm(1) pair(4) by (cases "p = j") simp_all
  let ?b1 = "?b\<lparr>freelist := h'\<rparr>"
  have dist: "distinct (fl k)" by (rule buddy_invD(1) [OF d(2)])
  obtain bm where bm: "set_buddy_bit ?b1 (chunk p) False = Inr (?b1\<lparr>b_bitmap := bm\<rparr>)" "bits_ok K (remove1 ?q (fl k)) k bm"
    using set_buddy_bit_ok [OF _ _ p(1) d(3), of "fl k" ?b1 "remove1 ?q (fl k)" False] bits ord np dist by auto
  let ?z = "set_bucket z k (?b1\<lparr>b_bitmap := bm\<rparr>)"
  have eq: "deallocate_block_impl pe z (chunk p) k = deallocate_block_impl pe1 ?z (chunk j) (k + 1)"
    unfolding deallocate_block_impl.simps [of pe z "chunk p" k] Let_def get bindR.simps base rm1 prod.case bm(1)
    using k by simp
  have "zone_wf pe1 ?z K (fl(k := remove1 ?q (fl k)))"
  proof (rule zone_wf_update [OF wf k _ buddy_inv_remove(1) [OF d(2) b] _ _ rm(2)])
    show "set (fl l) \<inter> set (fl k) = {}" if "l \<noteq> k" for l using other_heads [OF wf that] .
  qed (use ord bm(2) rm(3) in simp_all)
  moreover have "changes_entries z pe pe1 (free_pages fl)"
    using changes_entries_trans [OF rm(2) changes_entries_refl, of _ "{}"] heads(2) [of k] by blast
  moreover have "same_zone z ?z" by simp
  ultimately show ?thesis using eq unfolding j_def by blast
qed

lemma deallocate_block_impl_ok:
  assumes "zone_wf pe z K fl" and "in_zone K k p" and "blk k p \<inter> free_pages fl = {}"
  shows "\<exists>pe' z' fl'. deallocate_block_impl pe z (chunk p) k = Inr (pe', z') \<and> gave_block pe z K fl k p pe' z' fl'"
  using assms
proof (induction "K - k" arbitrary: k p pe z fl rule: less_induct)
  case less
  show ?case
  proof (cases "buddy k p \<in> set (fl k)")
    case False
    then show ?thesis using push_block_ok [OF less.prems] by blast
  next
    case True
    let ?q = "buddy k p"
    note inv = zone_wfD(2) [OF less.prems(1)]
    define j where "j = p div 2 ^ (k + 1) * 2 ^ (k + 1)"
    note pair = pair_blocks [OF less.prems(2) buddy_invD(2) [OF inv True] j_def]
    let ?fl = "fl(k := remove1 ?q (fl k))"
    obtain pe1 z1 where m: "deallocate_block_impl pe z (chunk p) k = deallocate_block_impl pe1 z1 (chunk j) (k + 1)"
      "zone_wf pe1 z1 K ?fl" "same_zone z z1" "changes_entries z pe pe1 (free_pages fl)"
      using merge_block_ok [OF less.prems True] unfolding j_def by blast
    have free: "free_pages ?fl = free_pages fl - blk k ?q" by (rule buddy_inv_remove(2) [OF inv True])
    have q: "blk k ?q \<subseteq> free_pages fl" using True by (rule free_pagesI)
    have "K - (k + 1) < K - k" using pair(1) unfolding in_zone_def by arith
    moreover have "blk (k + 1) j \<inter> free_pages ?fl = {}"
      using pair(2,3) less.prems(3) unfolding free by blast
    ultimately obtain pe' z' fl' where r: "deallocate_block_impl pe1 z1 (chunk j) (k + 1) = Inr (pe', z')"
      "gave_block pe1 z1 K ?fl (k + 1) j pe' z' fl'"
      using less.hyps [OF _ m(2) pair(1)] by blast
    have g: "zone_wf pe' z' K fl'" "free_pages fl' = free_pages ?fl \<union> blk (k + 1) j" "same_zone z1 z'"
      "changes_entries z pe1 pe' (free_pages ?fl \<union> blk (k + 1) j)"
      using r(2) changes_entries_zone [OF m(3)] by (simp_all add: gave_block_def)
    have all: "free_pages ?fl \<union> blk (k + 1) j = free_pages fl \<union> blk k p"
      using pair(2) q unfolding free by blast
    have "gave_block pe z K fl k p pe' z' fl'"
      using g all same_zone_trans [OF m(3) g(3)] changes_entries_trans [OF m(4) g(4), of "free_pages fl \<union> blk k p"]
      by (simp add: gave_block_def)
    then show ?thesis using m(1) r(1) by auto
  qed
qed

end
