(* ===== verification/Zone.thy ===== *)
theory Zone
  imports Zone_Invariant
begin

text \<open>
  The operations of a physical zone as its clients see them. A zone stands for the set of its
  pages that are in use; allocating adds an aligned block to the set and fails only if there is no
  such block, and freeing takes any aligned block of pages in use out of it, whether or not the
  pages were allocated as one block.
\<close>

definition page_address :: "zone \<Rightarrow> nat \<Rightarrow> nat" where
  "page_address z p = m_base_address z + PAGE_SIZE * p"

definition zone_rep :: "page_entries \<Rightarrow> zone \<Rightarrow> nat set \<Rightarrow> bool" where
  "zone_rep pe z U \<longleftrightarrow> (\<exists>K fl. zone_wf pe z K fl \<and> U = {..<2 ^ K} - free_pages fl \<and> m_used_chunks z = 2 * card U)"

text \<open>An aligned block of pages inside of a zone.\<close>
definition block_in :: "zone \<Rightarrow> nat \<Rightarrow> nat \<Rightarrow> bool" where
  "block_in z k p \<longleftrightarrow> 2 ^ k dvd p \<and> p + 2 ^ k \<le> m_page_count z"

definition same_place :: "zone \<Rightarrow> zone \<Rightarrow> bool" where
  "same_place z z' \<longleftrightarrow> m_base_address z' = m_base_address z \<and> m_page_count z' = m_page_count z"

lemma zone_wf_used_chunks [simp]: "zone_wf pe (z\<lparr>m_used_chunks := n\<rparr>) K fl \<longleftrightarrow> zone_wf pe z K fl"
  by (simp add: zone_wf_def zone_shape_def)

lemma zone_repE:
  assumes "zone_rep pe z U"
  obtains K fl where "zone_wf pe z K fl" "free_pages fl = {..<2 ^ K} - U" "U = {..<2 ^ K} - free_pages fl"
    "m_used_chunks z = 2 * card U" "m_page_count z = 2 ^ K" "K \<le> max_order" "card U \<le> 2 ^ K" "finite U"
proof -
  from assms obtain K fl where k: "zone_wf pe z K fl" "U = {..<2 ^ K} - free_pages fl" "m_used_chunks z = 2 * card U"
    by (auto simp: zone_rep_def)
  have "free_pages fl \<subseteq> {..<2 ^ K}" using free_pages_bound zone_wfD(2) [OF k(1)] by blast
  then have "free_pages fl = {..<2 ^ K} - U" using k(2) by blast
  moreover have "card U \<le> 2 ^ K" using k(2) card_mono [of "{..<2 ^ K}" U] by auto
  moreover have "m_page_count z = 2 ^ K" using zone_wfD(1) [OF k(1)] by (simp add: zone_shape_def)
  moreover have "finite U" using k(2) by simp
  ultimately show ?thesis using that k zone_wfD(3) by blast
qed

lemma block_in_zone: "m_page_count z = 2 ^ K \<Longrightarrow> block_in z k p \<longleftrightarrow> in_zone K k p"
proof
  assume pc: "m_page_count z = 2 ^ K" and b: "block_in z k p"
  then have "(2 :: nat) ^ k \<le> 2 ^ K" unfolding block_in_def by linarith
  then have "k \<le> K" by (subst (asm) power_increasing_iff) simp_all
  then show "in_zone K k p" using b pc by (simp add: block_in_def in_zone_def)
qed (simp add: block_in_def in_zone_def)

lemma pow_max_order: "K \<le> max_order \<Longrightarrow> (2 :: nat) ^ K \<le> 4096"
  using power_increasing [of K 12 "2 :: nat"] by (simp add: max_order_def)

lemma zone_top: "zone_wf pe z K fl \<Longrightarrow> p \<le> 2 ^ K \<Longrightarrow> m_base_address z + PAGE_SIZE * p < size_limit"
  using zone_wfD(1) [of pe z K fl] mult_le_mono2 [of p "2 ^ K" PAGE_SIZE] unfolding zone_shape_def by linarith

section \<open>Allocating and freeing\<close>

lemma allocate_block_ok:
  assumes "zone_rep pe z U"
  shows "(allocate_block pe z k = Inr ((pe, z), None) \<and> (\<forall>p. block_in z k p \<longrightarrow> blk k p \<inter> U \<noteq> {})) \<or>
         (\<exists>pe' z' p. allocate_block pe z k = Inr ((pe', z'), Some (page_address z p)) \<and>
            block_in z k p \<and> blk k p \<inter> U = {} \<and> zone_rep pe' z' (U \<union> blk k p) \<and> same_place z z' \<and>
            changes_entries z pe pe' ({..<m_page_count z} - U))"
proof -
  obtain K fl where k: "zone_wf pe z K fl" "free_pages fl = {..<2 ^ K} - U" "U = {..<2 ^ K} - free_pages fl"
    "m_used_chunks z = 2 * card U" "m_page_count z = 2 ^ K" "K \<le> max_order" "card U \<le> 2 ^ K" "finite U"
    by (rule zone_repE [OF assms])
  from allocate_block_impl_ok [OF k(1), of k] show ?thesis
  proof (elim disjE exE conjE)
    assume n: "allocate_block_impl pe z k = Inr ((pe, z), None)" "\<forall>l \<ge> k. fl l = []"
    have "blk k p \<inter> U \<noteq> {}" if "block_in z k p" for p
    proof
      assume "blk k p \<inter> U = {}"
      moreover have "blk k p \<subseteq> {..<2 ^ K}" and al: "2 ^ k dvd p"
        using that k(5) by (auto simp: block_in_def blk_def)
      ultimately have "blk k p \<subseteq> free_pages fl" using k(2) by blast
      from free_block_covered [OF zone_wfD(2) [OF k(1)] al this] n(2) show False by auto
    qed
    then show ?thesis using n(1) by (simp add: allocate_block_def)
  next
    fix pe' z' p fl'
    assume a: "allocate_block_impl pe z k = Inr ((pe', z'), Some (chunk p))" "took_block pe z K fl k pe' z' p fl'"
    have t: "in_zone K k p" "blk k p \<subseteq> free_pages fl" "zone_wf pe' z' K fl'" "free_pages fl' = free_pages fl - blk k p"
      "same_zone z z'" "changes_entries z pe pe' (free_pages fl)"
      using a(2) by (simp_all add: took_block_def)
    let ?U = "U \<union> blk k p"
    have dis: "blk k p \<inter> U = {}" using t(2) k(2) by blast
    have U: "?U = {..<2 ^ K} - free_pages fl'"
      using t(2,4) k(3) free_pages_bound [OF zone_wfD(2) [OF k(1)]] by blast
    have card: "card ?U = card U + 2 ^ k" using dis k(8) by (simp add: card_Un_disjoint Int_commute)
    have "card ?U \<le> card {..<(2 :: nat) ^ K}" unfolding U by (rule card_mono) auto
    then have "2 * card U + 2 * 2 ^ k < size_limit" using card pow_max_order [OF k(6)] by simp
    then have used: "size_add (m_used_chunks z') (2 * 2 ^ k) = 2 * card ?U"
      using k(4) t(5) card by (simp add: same_zone_def size_simps)
    let ?z = "z'\<lparr>m_used_chunks := size_add (m_used_chunks z') (2 * 2 ^ k)\<rparr>"
    have "zone_rep pe' ?z ?U" unfolding zone_rep_def using t(3) U used by (intro exI [of _ K] exI [of _ fl']) simp
    moreover have "same_place z ?z" using t(5) by (simp add: same_zone_def same_place_def)
    moreover have "allocate_block pe z k = Inr ((pe', ?z), Some (page_address z p))"
    proof -
      have "p \<le> 2 ^ K" using page_bound [OF t(1)] by simp
      then have lim: "page_address z p < size_limit" using zone_top [OF k(1)] by (simp add: page_address_def)
      have "int (m_base_address z) + chunk p * int ZONE_CHUNK_SIZE = int (page_address z p)"
        by (simp add: ZONE_CHUNK_SIZE_def PAGE_SIZE_def page_address_def)
      then have addr: "nat ((int (m_base_address z) + chunk p * int ZONE_CHUNK_SIZE) mod int size_limit) = page_address z p"
        using lim by (simp only: nat_int flip: of_nat_mod) simp
      show ?thesis
        unfolding allocate_block_def Let_def a(1) bindR.simps prod.case option.case
        using addr t(5) by (simp add: same_zone_def)
    qed
    ultimately show ?thesis using t(1,6) k(2,5) dis block_in_zone by auto
  qed
qed

lemma deallocate_block_ok:
  assumes "zone_rep pe z U" and p: "block_in z k p" "blk k p \<subseteq> U"
  shows "\<exists>pe' z'. deallocate_block pe z (page_address z p) k = Inr (pe', z') \<and> zone_rep pe' z' (U - blk k p) \<and>
           same_place z z' \<and> changes_entries z pe pe' ({..<m_page_count z} - (U - blk k p))"
proof -
  obtain K fl where k: "zone_wf pe z K fl" "free_pages fl = {..<2 ^ K} - U" "U = {..<2 ^ K} - free_pages fl"
    "m_used_chunks z = 2 * card U" "m_page_count z = 2 ^ K" "K \<le> max_order" "card U \<le> 2 ^ K" "finite U"
    by (rule zone_repE [OF assms(1)])
  have iz: "in_zone K k p" using p(1) block_in_zone [OF k(5)] by blast
  have "blk k p \<inter> free_pages fl = {}" using p(2) k(3) by blast
  from deallocate_block_impl_ok [OF k(1) iz this] obtain pe' z' fl' where
    r: "deallocate_block_impl pe z (chunk p) k = Inr (pe', z')" "gave_block pe z K fl k p pe' z' fl'" by blast
  have g: "zone_wf pe' z' K fl'" "free_pages fl' = free_pages fl \<union> blk k p" "same_zone z z'"
    "changes_entries z pe pe' (free_pages fl \<union> blk k p)"
    using r(2) by (simp_all add: gave_block_def)
  define n where "n = card (U - blk k p)"
  have "card U = card (U - blk k p) + card (blk k p)"
    using card_Un_disjoint [of "U - blk k p" "blk k p"] p(2) k(8) by (simp add: Un_absorb2 inf_commute)
  then have card: "card U = n + 2 ^ k" unfolding n_def by simp
  have "2 * card U < size_limit" using k(7) pow_max_order [OF k(6)] by simp
  then have "size_sub (2 * card U) (2 * 2 ^ k) = 2 * n" by (subst size_sub_exact) (simp_all add: card)
  then have used: "size_sub (m_used_chunks z') (2 * 2 ^ k) = 2 * card (U - blk k p)"
    using k(4) g(3) by (simp add: same_zone_def n_def)
  let ?z = "z'\<lparr>m_used_chunks := size_sub (m_used_chunks z') (2 * 2 ^ k)\<rparr>"
  have sub: "blk k p \<subseteq> {..<2 ^ K}" using p(2) k(3) by blast
  have "U - blk k p = {..<2 ^ K} - free_pages fl'" using g(2) k(3) by blast
  then have "zone_rep pe' ?z (U - blk k p)"
    unfolding zone_rep_def using g(1) used by (intro exI [of _ K] exI [of _ fl']) simp
  moreover have "same_place z ?z" using g(3) by (simp add: same_zone_def same_place_def)
  moreover have "deallocate_block pe z (page_address z p) k = Inr (pe', ?z)"
  proof -
    have "size_sub (page_address z p) (m_base_address z) = PAGE_SIZE * p"
      using zone_top [OF k(1), of p] page_bound [OF iz] by (simp add: page_address_def size_simps)
    then have "int (size_sub (page_address z p) (m_base_address z) div ZONE_CHUNK_SIZE) = chunk p"
      by (simp add: ZONE_CHUNK_SIZE_def PAGE_SIZE_def)
    then show ?thesis unfolding deallocate_block_def Let_def using r(1) by simp
  qed
  moreover have "free_pages fl \<union> blk k p = {..<m_page_count z} - (U - blk k p)" unfolding k(2,5) using sub by auto
  ultimately show ?thesis using g(4) by auto
qed

lemma available_eq:
  assumes "zone_rep pe z U"
  shows "available z = m_page_count z - card U"
proof -
  obtain K where k: "m_used_chunks z = 2 * card U" "m_page_count z = 2 ^ K" "K \<le> max_order" "card U \<le> 2 ^ K"
    by (rule zone_repE [OF assms])
  have "(2 :: nat) ^ K < size_limit" using pow_max_order [OF k(3)] by simp
  then show ?thesis unfolding available_def k(1) using k(2,4) by (subst size_sub_exact) simp_all
qed

lemma zone_is_empty_iff:
  assumes "zone_rep pe z U"
  shows "zone_is_empty z \<longleftrightarrow> U = {..<m_page_count z}"
proof -
  obtain K fl where k: "U = {..<2 ^ K} - free_pages fl" "m_page_count z = 2 ^ K"
    by (rule zone_repE [OF assms])
  then have sub: "U \<subseteq> {..<m_page_count z}" by simp
  have "zone_is_empty z \<longleftrightarrow> m_page_count z \<le> card U" using available_eq [OF assms] by (simp add: zone_is_empty_def)
  also have "\<dots> \<longleftrightarrow> U = {..<m_page_count z}"
  proof
    assume "m_page_count z \<le> card U"
    then show "U = {..<m_page_count z}" using card_seteq [OF _ sub] by simp
  qed (metis card_lessThan order_refl)
  finally show ?thesis .
qed

section \<open>Construction\<close>

lemma ceil_div_pos: "0 < b \<Longrightarrow> 0 < a \<Longrightarrow> 0 < ceil_div a b"
  using ceil_div_bound [of b a] by (cases "ceil_div a b") simp_all

lemma ceil_div_le_self: "0 < b \<Longrightarrow> ceil_div a b \<le> a"
  by (cases "b = 1") (auto simp: ceil_div_def Suc_le_eq intro: div_less_dividend)

lemma grow_null:
  assumes "0 < n" and "n < size_limit" and "fresh_block kmalloc (ceil_div n 8)"
  shows "\<exists>bm. bitmap_grow kmalloc \<lparr>m_addr = 0, m_data = [], m_size = 0\<rparr> n v = Inr bm \<and> wf_bitmap bm \<and> m_size bm = n \<and>
           (\<forall>i < n. bit_at bm i = v)"
proof -
  obtain addr bytes where k: "kmalloc (ceil_div n 8) = Some (addr, bytes)" "length bytes = ceil_div n 8"
    using assms(3) by (auto simp: fresh_block_def)
  let ?bm = "\<lparr>m_addr = addr, m_data = bytes, m_size = n\<rparr>"
  obtain bm where f: "bitmap_fill ?bm v = Inr bm" "same_shape ?bm bm" "\<And>i. i < 8 * ceil_div n 8 \<Longrightarrow> bit_at bm i = v"
    using bitmap_fill_eq [of ?bm v] k by (auto simp: size_in_bytes_def)
  have "i < 8 * ceil_div n 8" if "i < n" for i using that ceil_div_bound [of 8 n] by simp
  then show ?thesis
    using f k assms(1,2) by (auto simp: bitmap_grow_def same_shape_def wf_bitmap_def size_in_bytes_def)
qed

definition kmalloc_gives :: "kmalloc \<Rightarrow> nat \<Rightarrow> bool" where
  "kmalloc_gives kmalloc n \<longleftrightarrow> (\<forall>m. 0 < m \<and> m \<le> n \<longrightarrow> fresh_block kmalloc m)"

lemma init_bucket_ok:
  assumes "K \<le> max_order" and "kmalloc_gives kmalloc (2 ^ K)"
  shows "\<exists>b. init_bucket kmalloc (2 * 2 ^ K) k = Inr b \<and> b_order b = k \<and> freelist b = - 1 \<and>
           (k \<le> K \<longrightarrow> bits_ok K [] k (b_bitmap b))"
proof (cases "k \<le> K")
  case True
  let ?n = "ceil_div (2 ^ (K - k)) 2"
  have div: "2 * 2 ^ K div (2 * 2 ^ k) = (2 :: nat) ^ (K - k)" using True by (simp add: power_diff)
  have le: "(2 :: nat) ^ (K - k) \<le> 2 ^ K" by simp
  have n: "0 < ?n" "?n \<le> 2 ^ K"
    using ceil_div_pos [of 2 "2 ^ (K - k)"] order_trans [OF ceil_div_le_self [of 2 "2 ^ (K - k)"] le] by simp_all
  then have "ceil_div ?n 8 \<le> 2 ^ K" "0 < ceil_div ?n 8" using ceil_div_le_self [of 8 ?n] ceil_div_pos [of 8 ?n] by simp_all
  moreover have "?n < size_limit" using n(2) pow_max_order [OF assms(1)] by simp
  ultimately obtain bm where "bitmap_grow kmalloc \<lparr>m_addr = 0, m_data = [], m_size = 0\<rparr> ?n False = Inr bm"
    "wf_bitmap bm" "m_size bm = ?n" "\<forall>i < ?n. \<not> bit_at bm i"
    using grow_null [OF n(1), of kmalloc False] assms(2) by (auto simp: kmalloc_gives_def)
  then show ?thesis unfolding init_bucket_def Let_def div using n(1) by (simp add: bits_ok_def pair_free_def)
next
  case False
  then have "(2 :: nat) ^ K < 2 ^ k" by simp
  then have "(2 * 2 ^ K) div (2 * 2 ^ k) = (0 :: nat)" by simp
  then show ?thesis using False by (simp add: init_bucket_def ceil_div_def)
qed

lemma init_buckets_ok:
  assumes "K \<le> max_order" and "kmalloc_gives kmalloc (2 ^ K)"
  shows "\<exists>bs. init_buckets kmalloc (2 * 2 ^ K) n = Inr bs \<and> length bs = n \<and>
           (\<forall>k < n. b_order (bs ! k) = k \<and> freelist (bs ! k) = - 1 \<and> (k \<le> K \<longrightarrow> bits_ok K [] k (b_bitmap (bs ! k))))"
proof (induction n)
  case (Suc n)
  then obtain bs where bs: "init_buckets kmalloc (2 * 2 ^ K) n = Inr bs" "length bs = n"
    "\<And>k. k < n \<Longrightarrow> b_order (bs ! k) = k \<and> freelist (bs ! k) = - 1 \<and> (k \<le> K \<longrightarrow> bits_ok K [] k (b_bitmap (bs ! k)))"
    by blast
  obtain b where b: "init_bucket kmalloc (2 * 2 ^ K) n = Inr b" "b_order b = n" "freelist b = - 1"
    "n \<le> K \<Longrightarrow> bits_ok K [] n (b_bitmap b)"
    using init_bucket_ok [OF assms, of n] by blast
  have "b_order ((bs @ [b]) ! k) = k \<and> freelist ((bs @ [b]) ! k) = - 1 \<and> (k \<le> K \<longrightarrow> bits_ok K [] k (b_bitmap ((bs @ [b]) ! k)))"
    if "k < Suc n" for k
    using that bs(2,3) b(2-) by (cases "k < n") (simp_all add: nth_append less_Suc_eq)
  then show ?case using bs(1,2) b(1) by simp
qed simp

lemma ctz_eqI:
  fixes w :: "'a :: len word"
  assumes "bit w k" and "\<And>i. i < k \<Longrightarrow> \<not> bit w i"
  shows "count_trailing_zeroes w = k"
proof -
  have "w \<noteq> 0" using assms(1) by auto
  from bit_at_ctz [OF this] have "\<not> count_trailing_zeroes w < k" using assms(2) by blast
  moreover have "\<not> k < count_trailing_zeroes w" using not_bit_below_ctz assms(1) by blast
  ultimately show ?thesis by simp
qed

lemma ctz_pow2: "K < LENGTH('a :: len) \<Longrightarrow> count_trailing_zeroes (of_nat (2 ^ K) :: 'a word) = K"
  by (rule ctz_eqI) (simp_all add: bit_simps)

lemma no_free_blocks: "buddy_inv K (\<lambda>_. [])" "free_pages (\<lambda>_. []) = {}"
  by (simp_all add: buddy_inv_def free_pages_def)

lemma zone_create_ok:
  assumes K: "K \<le> max_order" "kmalloc_gives kmalloc (2 ^ K)"
    and place: "PAGE_SIZE dvd base" "base + PAGE_SIZE * 2 ^ K < size_limit" "base div PAGE_SIZE + 2 ^ K \<le> entry_count pe"
  shows "\<exists>pe' z. zone_create kmalloc pe base (2 ^ K) = Inr (pe', z) \<and> zone_rep pe' z {} \<and>
           m_base_address z = base \<and> m_page_count z = 2 ^ K \<and> changes_entries z pe pe' {..<2 ^ K}"
proof -
  obtain bs where bs: "init_buckets kmalloc (2 * 2 ^ K) (max_order + 1) = Inr bs" "length bs = max_order + 1"
    "\<And>k. k < max_order + 1 \<Longrightarrow> b_order (bs ! k) = k \<and> freelist (bs ! k) = - 1 \<and> (k \<le> K \<longrightarrow> bits_ok K [] k (b_bitmap (bs ! k)))"
    using init_buckets_ok [OF K, of "max_order + 1"] by blast
  let ?z = "\<lparr>m_base_address = base, m_page_count = 2 ^ K, m_used_chunks = 0, m_buckets = bs\<rparr>"
  have wf: "zone_wf pe ?z K (\<lambda>_. [])"
    unfolding zone_wf_def zone_shape_def using bs(2,3) K(1) place no_free_blocks(1) by (simp add: linked_def)
  have iz: "in_zone K K 0" by (simp add: in_zone_def)
  let ?b = "bs ! K"
  have b: "b_order ?b = K" "freelist ?b = - 1" "bits_ok K [] K (b_bitmap ?b)" using bs(3) [of K] K(1) by simp_all
  obtain bm where "set_buddy_bit ?b (chunk 0) True = Inr (?b\<lparr>b_bitmap := bm\<rparr>)" and bm: "bits_ok K [0] K bm"
    using set_buddy_bit_ok [OF b(3,1) iz K(1), of "[0]" True] by auto
  then have set: "set_buddy_bit ?b 0 True = Inr (?b\<lparr>b_bitmap := bm\<rparr>)" by simp
  have get: "get_freelist_entry pe ?z 0 = Inr (first_page ?z)"
    using get_freelist_entry_eq [OF zone_wfD(1) [OF wf], of 0] by simp
  let ?pe = "set_entry pe (first_page ?z) \<lparr>next_link = - 1, prev_link = - 1\<rparr>"
  let ?b1 = "?b\<lparr>b_bitmap := bm, freelist := 0\<rparr>"
  have lt: "(2 :: nat) ^ K * 2 < size_limit" using pow_max_order [OF K(1)] by simp
  have ctz: "count_trailing_zeroes (of_nat (2 ^ K) :: u64) = K" using K(1) by (intro ctz_pow2) (simp add: max_order_def)
  have one: "2 * 2 ^ K div (2 * 2 ^ K) = (1 :: nat)" by simp
  have mul: "size_mul (2 ^ K) 2 = 2 * 2 ^ K" using lt by (simp add: size_mul_def)
  have "init_bundles pe ?z ?b (2 * 2 ^ K) 0 0 1 = Inr (?pe, ?b1)" using set get b(2) by simp
  then have eq: "zone_create kmalloc pe base (2 ^ K) = Inr (?pe, set_bucket ?z K ?b1)"
    unfolding zone_create_def Let_def mul bs(1) bindR.simps ctz one using K(1) by simp
  have ch: "changes_entries ?z pe ?pe {0}"
    using changes_entries_set [of 0 "{0}" ?z pe pe "\<lparr>next_link = - 1, prev_link = - 1\<rparr>"] by simp
  have inv: "buddy_inv K ((\<lambda>_. [])(K := [0]))" "free_pages ((\<lambda>_. [])(K := [0])) = blk K 0"
    using buddy_inv_insert [OF no_free_blocks(1) iz] by (simp_all add: no_free_blocks(2))
  have "zone_wf ?pe (set_bucket ?z K ?b1) K ((\<lambda>_. [])(K := [0]))"
    by (rule zone_wf_update [OF wf K(1) _ inv(1) _ _ ch])
      (use b bm in \<open>simp_all add: linked_single entry_set_entry\<close>)
  moreover have "{} = {..<2 ^ K} - free_pages ((\<lambda>_. [])(K := [0]))" unfolding inv(2) by (auto simp: blk_def)
  ultimately have "zone_rep ?pe (set_bucket ?z K ?b1) {}"
    unfolding zone_rep_def by (intro exI [of _ K] exI [of _ "(\<lambda>_. [])(K := [0])"]) (simp add: set_bucket_def)
  moreover have "changes_entries (set_bucket ?z K ?b1) pe ?pe {..<2 ^ K}"
    using changes_entries_trans [OF ch changes_entries_refl, of "{..<2 ^ K}" "{}"]
    by (subst changes_entries_zone [of ?z]) simp_all
  ultimately show ?thesis using eq by (simp add: set_bucket_def)
qed

section \<open>Properties\<close>

text \<open>
  C12: \<open>allocate_block\<close> refines taking an aligned block out of the set of free pages: in every zone whose used
  pages are \<open>U\<close> it returns, it reports no block only if every aligned block of the order has a page in
  use, and otherwise gives out the address of an aligned block of the zone whose pages were all
  free and leaves a zone whose used pages are \<open>U\<close> and that block.
\<close>
theorem zone_allocate_refines:
  assumes "zone_rep pe z U"
  shows "case allocate_block pe z k of
           Inl e \<Rightarrow> False
         | Inr ((pe', z'), None) \<Rightarrow> pe' = pe \<and> z' = z \<and> (\<forall>p. block_in z k p \<longrightarrow> blk k p \<inter> U \<noteq> {})
         | Inr ((pe', z'), Some a) \<Rightarrow>
             \<exists>p. a = page_address z p \<and> block_in z k p \<and> blk k p \<inter> U = {} \<and>
               zone_rep pe' z' (U \<union> blk k p) \<and> same_place z z'"
  using allocate_block_ok [OF assms, of k] by (elim disjE exE conjE) auto

definition example_entries :: page_entries where
  "example_entries = \<lparr>entry_count = 1024, entry = (\<lambda>_. \<lparr>next_link = 0, prev_link = 0\<rparr>)\<rparr>"

lemma example_kmalloc_gives: "kmalloc_gives example_kmalloc n"
  by (simp add: kmalloc_gives_def fresh_block_def example_kmalloc_def)

lemma example_zone: "\<exists>pe z. zone_create example_kmalloc example_entries 8192 8 = Inr (pe, z) \<and> zone_rep pe z {} \<and> m_page_count z = 8"
  using zone_create_ok [OF _ example_kmalloc_gives, of 3 8192 example_entries]
  by (auto simp: max_order_def PAGE_SIZE_def example_entries_def)

theorem zone_allocate_refines_witness:
  "\<exists>pe z. zone_create example_kmalloc example_entries 8192 8 = Inr (pe, z) \<and> zone_rep pe z {} \<and>
     (case allocate_block pe z 1 of
        Inl e \<Rightarrow> False
      | Inr ((pe', z'), None) \<Rightarrow> pe' = pe \<and> z' = z \<and> (\<forall>p. block_in z 1 p \<longrightarrow> blk 1 p \<inter> {} \<noteq> {})
      | Inr ((pe', z'), Some a) \<Rightarrow>
          \<exists>p. a = page_address z p \<and> block_in z 1 p \<and> blk 1 p \<inter> {} = {} \<and>
            zone_rep pe' z' ({} \<union> blk 1 p) \<and> same_place z z')"
  using example_zone zone_allocate_refines [of _ _ "{}" 1] by blast

text \<open>
  C13: \<open>deallocate_block\<close> frees any aligned block of pages in use, whether or not they were allocated as
  one block of that order: it returns, and the used pages of the zone are the others.
\<close>
theorem zone_free_any_block:
  assumes "zone_rep pe z U" and "block_in z k p" and "blk k p \<subseteq> U"
  shows "\<exists>pe' z'. deallocate_block pe z (page_address z p) k = Inr (pe', z') \<and> zone_rep pe' z' (U - blk k p) \<and>
           available z' = available z + 2 ^ k"
proof -
  obtain pe' z' where d: "deallocate_block pe z (page_address z p) k = Inr (pe', z')" "zone_rep pe' z' (U - blk k p)" "same_place z z'"
    using deallocate_block_ok [OF assms] by blast
  have fin: "finite U" and le: "card U \<le> m_page_count z" by (rule zone_repE [OF assms(1)], simp)+
  have "card U = card (U - blk k p) + card (blk k p)"
    using card_Un_disjoint [of "U - blk k p" "blk k p"] assms(3) fin by (simp add: Un_absorb2 inf_commute)
  then have "available z' = available z + 2 ^ k"
    using available_eq [OF assms(1)] available_eq [OF d(2)] d(3) le by (simp add: same_place_def)
  then show ?thesis using d(1,2) by blast
qed

lemma example_zone_used: "\<exists>pe z p. zone_rep pe z (blk 1 p) \<and> block_in z 1 p"
proof -
  obtain pe z where z: "zone_rep pe z {}" "m_page_count z = 8" using example_zone by blast
  have "block_in z 1 0" using z(2) by (simp add: block_in_def)
  then obtain pe' z' p where "block_in z 1 p" "zone_rep pe' z' (blk 1 p)" "same_place z z'"
    using allocate_block_ok [OF z(1), of 1] by auto
  moreover from this have "block_in z' 1 p" by (simp add: block_in_def same_place_def)
  ultimately show ?thesis by blast
qed

theorem zone_free_any_block_witness:
  "\<exists>pe z p pe' z'. zone_rep pe z (blk 1 p) \<and> deallocate_block pe z (page_address z p) 0 = Inr (pe', z') \<and>
     zone_rep pe' z' (blk 1 p - blk 0 p) \<and> available z' = available z + 2 ^ 0"
proof -
  obtain pe z p where z: "zone_rep pe z (blk 1 p)" "block_in z 1 p" using example_zone_used by blast
  have "block_in z 0 p" "blk 0 p \<subseteq> blk 1 p" using z(2) by (auto simp: block_in_def blk_def)
  from zone_free_any_block [OF z(1) this] z(1) show ?thesis by blast
qed

lemma init_buckets_eq:
  assumes "\<And>i. i < n \<Longrightarrow> init_bucket kmalloc chunk_count i = Inr (f i)"
  shows "init_buckets kmalloc chunk_count n = Inr (map f [0..<n])"
  using assms by (induction n) simp_all

lemma three_pages_bucket:
  "init_bucket example_kmalloc 6 i = Inr \<lparr>b_order = i, freelist = - 1, b_bitmap =
     (if i = 0 then \<lparr>m_addr = 8192, m_data = [0], m_size = 2\<rparr>
      else if i = 1 then \<lparr>m_addr = 8192, m_data = [0], m_size = 1\<rparr>
      else \<lparr>m_addr = 0, m_data = [], m_size = 0\<rparr>)\<rparr>"
proof -
  consider "i = 0" | "i = 1" | "2 \<le> i" by linarith
  then show ?thesis
  proof cases
    case 3
    have "(8 :: nat) \<le> 2 * 2 ^ i" using power_increasing [OF 3, of "2 :: nat"] by simp
    then show ?thesis using 3 by (simp add: init_bucket_def ceil_div_def)
  qed (simp_all add: init_bucket_def ceil_div_def bitmap_grow_def example_kmalloc_def bitmap_fill_def
      memset_bytes_def size_in_bytes_def fill_range_def)
qed

text \<open>
  The constructor of a zone puts its initial bundles at \<open>offset + i\<close>, but \<open>offset\<close> already grows by the
  size of a bundle: with a number of pages that is no power of two, such as three, the first
  page the zone gives out lies behind its end. The regions only make zones of 4096 and 256 pages.
\<close>
theorem zone_of_three_pages:
  "case zone_create example_kmalloc example_entries 0 3 of
     Inl e \<Rightarrow> False
   | Inr (pe, z) \<Rightarrow>
       (case allocate_block pe z 0 of
          Inr (s, Some a) \<Rightarrow> a = 3 * PAGE_SIZE \<and> \<not> zone_contains z a
        | _ \<Rightarrow> False)"
proof -
  define f where "f i = \<lparr>b_order = i, freelist = - 1 :: int, b_bitmap =
     (if i = 0 then \<lparr>m_addr = 8192, m_data = [0], m_size = 2\<rparr>
      else if i = 1 then \<lparr>m_addr = 8192, m_data = [0], m_size = 1\<rparr>
      else \<lparr>m_addr = 0, m_data = [], m_size = 0\<rparr>)\<rparr>" for i
  have bs: "init_buckets example_kmalloc 6 (max_order + 1) = Inr (map f [0..<13])"
    using init_buckets_eq [of 13 example_kmalloc 6 f] three_pages_bucket by (simp add: f_def max_order_def)
  have ctz: "count_trailing_zeroes (3 :: u64) = 0" by (rule ctz_eqI) simp_all
  let ?z = "\<lparr>m_base_address = 0, m_page_count = 3, m_used_chunks = 0, m_buckets = map f [0..<13]\<rparr>"
  let ?l = "\<lambda>x. \<lparr>next_link = x, prev_link = - 1 :: int\<rparr>"
  let ?pe = "set_entry (set_entry (set_entry example_entries 0 (?l (- 1))) 1 (?l 0)) 3 (?l 3)"
  let ?b = "\<lparr>b_order = 0, freelist = 6, b_bitmap = \<lparr>m_addr = 8192, m_data = [3], m_size = 2\<rparr>\<rparr>"
  have bundles: "init_bundles example_entries ?z (f 0) 2 0 0 3 = Inr (?pe, ?b)"
    by (simp add: numeral_3_eq_3 f_def set_buddy_bit_def buddy_bit_index_def bitmap_set_def read_byte_def write_byte_def
        get_freelist_entry_def example_entries_def set_entry_def ZONE_CHUNK_SIZE_def PAGE_SIZE_def)
  let ?z1 = "set_bucket ?z 0 ?b"
  have create: "zone_create example_kmalloc example_entries 0 3 = Inr (?pe, ?z1)"
    using bundles bs by (simp add: zone_create_def size_mul_def ctz max_order_def)
  have b: "m_buckets ?z1 ! 0 = ?b" "m_base_address ?z1 = 0" "m_page_count ?z1 = 3" "m_used_chunks ?z1 = 0"
    by (simp_all add: set_bucket_def)
  let ?pe1 = "set_entry ?pe 1 (?l 0)"
  let ?b1 = "?b\<lparr>freelist := 3, b_bitmap := \<lparr>m_addr = 8192, m_data = [1], m_size = 2\<rparr>\<rparr>"
  have e: "get_freelist_entry ?pe ?z1 6 = Inr 3" "get_freelist_entry ?pe ?z1 3 = Inr 1"
    by (simp_all add: get_freelist_entry_def b(2) ZONE_CHUNK_SIZE_def PAGE_SIZE_def set_entry_def example_entries_def)
  have links: "next_link (entry ?pe 3) = 3" "set_prev ?pe ?z1 3 (- 1) = Inr ?pe1"
    unfolding set_prev_def e bindR.simps by (simp_all add: set_entry_def)
  have bits: "get_buddy_bit (?b\<lparr>freelist := 3\<rparr>) 6 = Inr True" "set_buddy_bit (?b\<lparr>freelist := 3\<rparr>) 6 False = Inr ?b1"
    by (simp_all add: get_buddy_bit_def bitmap_get_def set_buddy_bit_def buddy_bit_index_def bitmap_set_def read_byte_def write_byte_def)
  have "allocate_block_impl ?pe ?z1 0 = Inr ((?pe1, set_bucket ?z1 0 ?b1), Some 6)"
    unfolding allocate_block_impl.simps [of ?pe ?z1 0] b(1) Let_def using e(1) links bits by (simp add: max_order_def)
  then have "allocate_block ?pe ?z1 0 = Inr ((?pe1, (set_bucket ?z1 0 ?b1)\<lparr>m_used_chunks := 2\<rparr>), Some 12288)"
    by (simp add: allocate_block_def set_bucket_def size_add_def ZONE_CHUNK_SIZE_def PAGE_SIZE_def)
  moreover have "\<not> zone_contains ?z1 12288"
    unfolding zone_contains_def b by (simp add: size_add_def size_mul_def PAGE_SIZE_def)
  ultimately show ?thesis unfolding create by (simp add: PAGE_SIZE_def)
qed

end
