(* ===== verification/Page_Pool.thy ===== *)
theory Page_Pool
  imports Prelude
begin

text \<open>
  What a provider of physical pages promises: the pages it gives out were not in use, and any
  page in use can be given back, one at a time. The set \<open>U\<close> of the addresses of the pages in
  use is not part of any provider's state. A provider may set aside more pages than it gives out.
\<close>

datatype 'r page_op = Take 'r | Give nat

text \<open>Clients take pages, and give back the \<open>i\<close>-th of the pages they hold (nothing happens if there is none).\<close>
fun run_pages ::
    "('s \<Rightarrow> 'r \<Rightarrow> ('s \<times> nat list) result) \<Rightarrow> ('s \<Rightarrow> nat \<Rightarrow> 's result) \<Rightarrow>
     'r page_op list \<Rightarrow> 's \<Rightarrow> nat list \<Rightarrow> ('s \<times> nat list) result" where
  "run_pages grab give [] s held = Inr (s, held)"
| "run_pages grab give (Take r # ops) s held =
     bindR (grab s r) (\<lambda>(s', ps). run_pages grab give ops s' (ps @ held))"
| "run_pages grab give (Give i # ops) s held =
     (if i < length held
      then bindR (give s (held ! i)) (\<lambda>s'. run_pages grab give ops s' (remove1 (held ! i) held))
      else run_pages grab give ops s held)"

definition taken :: "'r page_op list \<Rightarrow> 'r set" where
  "taken ops = {r. Take r \<in> set ops}"

lemma taken_simps [simp]:
  "taken [] = {}" "taken (Take r # ops) = insert r (taken ops)" "taken (Give i # ops) = taken ops"
  by (auto simp: taken_def)

locale page_pool =
  fixes inv :: "'s \<Rightarrow> nat set \<Rightarrow> bool"
    and ok :: "'r \<Rightarrow> bool"
    and grab :: "'s \<Rightarrow> 'r \<Rightarrow> ('s \<times> nat list) result"
    and give :: "'s \<Rightarrow> nat \<Rightarrow> 's result"
  assumes take_law: "\<lbrakk>inv s U; ok r\<rbrakk> \<Longrightarrow>
      \<exists>s' ps W. grab s r = Inr (s', ps) \<and> distinct ps \<and> set ps \<subseteq> W \<and> W \<inter> U = {} \<and> inv s' (U \<union> W)"
    and give_law: "\<lbrakk>inv s U; p \<in> U\<rbrakk> \<Longrightarrow> \<exists>s'. give s p = Inr s' \<and> inv s' (U - {p})"
begin

text \<open>Whatever clients do, no operation fails and no page is held twice.\<close>
lemma run_pages_returns:
  assumes "inv s U" and "distinct held" and "set held \<subseteq> U" and "\<And>r. r \<in> taken ops \<Longrightarrow> ok r"
  shows "\<exists>s' held' U'. run_pages grab give ops s held = Inr (s', held') \<and> inv s' U' \<and> distinct held' \<and> set held' \<subseteq> U'"
  using assms
proof (induction ops arbitrary: s held U)
  case (Cons op ops)
  show ?case
  proof (cases op)
    case (Take r)
    then have "ok r" using Cons.prems(4) by simp
    from take_law [OF Cons.prems(1) this] obtain s' ps W where
      t: "grab s r = Inr (s', ps)" "distinct ps" "set ps \<subseteq> W" "W \<inter> U = {}" "inv s' (U \<union> W)" by blast
    have "distinct (ps @ held)" "set (ps @ held) \<subseteq> U \<union> W" using t Cons.prems(2,3) by auto
    from Cons.IH [OF t(5) this] Cons.prems(4) t(1) Take show ?thesis by simp
  next
    case (Give i)
    show ?thesis
    proof (cases "i < length held")
      case True
      then have "held ! i \<in> U" using Cons.prems(3) by auto
      from give_law [OF Cons.prems(1) this] obtain s' where
        g: "give s (held ! i) = Inr s'" "inv s' (U - {held ! i})" by blast
      have "distinct (remove1 (held ! i) held)" "set (remove1 (held ! i) held) \<subseteq> U - {held ! i}"
        using Cons.prems(2,3) by auto
      from Cons.IH [OF g(2) this] Cons.prems(4) g(1) Give True show ?thesis by simp
    next
      case False
      then show ?thesis using Cons.IH [OF Cons.prems(1-3)] Cons.prems(4) Give by simp
    qed
  qed
qed auto

end

end
