(* ===== verification/Physical_Region.thy ===== *)
theory Physical_Region
  imports Zone Page_Pool
begin

unbundle bit_operations_syntax

text \<open>
  \<^verbatim>\<open>Kernel/Memory/PhysicalRegion\<close>: a range of physical memory, cut into zones of 16 MiB and the
  rest into zones of 1 MiB. The zones that have a free page are on one list and those that have
  none on another. The lists are intrusive: they are lists of the indices of zones here, and
  appending a zone takes it off the list it is on. A page is given out as its address.
\<close>

record region =
  m_lower :: nat
  m_upper :: nat
  m_pages :: nat
  m_zones :: "zone list"
  m_large_zones :: nat
  m_usable_zones :: "nat list"
  m_full_zones :: "nat list"

definition large_zone_size :: nat where
  "large_zone_size = 16 * 1048576"

definition small_zone_size :: nat where
  "small_zone_size = 1 * 1048576"

definition next_power_of_two :: "u32 \<Rightarrow> u32" where
  "next_power_of_two v =
     (let v = v - 1;
          v = v OR drop_bit 1 v;
          v = v OR drop_bit 2 v;
          v = v OR drop_bit 4 v;
          v = v OR drop_bit 8 v;
          v = v OR drop_bit 16 v
      in v + 1)"

definition region_create :: "nat \<Rightarrow> nat \<Rightarrow> region" where
  "region_create lower upper =
     \<lparr>m_lower = lower, m_upper = upper, m_pages = size_sub upper lower div PAGE_SIZE, m_zones = [],
      m_large_zones = 0, m_usable_zones = [], m_full_zones = []\<rparr>"

definition region_contains :: "region \<Rightarrow> nat \<Rightarrow> bool" where
  "region_contains r paddr \<longleftrightarrow> m_lower r \<le> paddr \<and> paddr < m_upper r"

definition region_append_usable :: "region \<Rightarrow> nat \<Rightarrow> region" where
  "region_append_usable r i = r\<lparr>m_usable_zones := remove1 i (m_usable_zones r) @ [i], m_full_zones := remove1 i (m_full_zones r)\<rparr>"

definition region_append_full :: "region \<Rightarrow> nat \<Rightarrow> region" where
  "region_append_full r i = r\<lparr>m_usable_zones := remove1 i (m_usable_zones r), m_full_zones := remove1 i (m_full_zones r) @ [i]\<rparr>"

definition set_zone :: "region \<Rightarrow> nat \<Rightarrow> zone \<Rightarrow> region" where
  "set_zone r i z = r\<lparr>m_zones := (m_zones r)[i := z]\<rparr>"

section \<open>Zones\<close>

text \<open>
  The loop of \<open>make_zones\<close>, with the variables it captures: the address and the number of pages that
  are left. With zones of no pages the loop would not end.
\<close>
function make_zones ::
    "kmalloc \<Rightarrow> nat \<Rightarrow> page_entries \<Rightarrow> region \<Rightarrow> nat \<Rightarrow> nat \<Rightarrow> nat \<Rightarrow> (page_entries \<times> region \<times> nat \<times> nat \<times> nat) result" where
  "make_zones kmalloc pages_per_zone pe r base_address remaining_pages zone_count =
     (if remaining_pages \<ge> pages_per_zone then
        if pages_per_zone = 0 then Inl NeverReturns
        else bindR (zone_create kmalloc pe base_address pages_per_zone) (\<lambda>(pe1, z).
          let r1 = r\<lparr>m_zones := m_zones r @ [z]\<rparr>
          in make_zones kmalloc pages_per_zone pe1 (region_append_usable r1 (length (m_zones r)))
               (size_add base_address (size_mul pages_per_zone PAGE_SIZE)) (remaining_pages - pages_per_zone) (zone_count + 1))
      else Inr (pe, r, base_address, remaining_pages, zone_count))"
  by pat_completeness auto
termination
  by (relation "measure (\<lambda>(kmalloc, pages_per_zone, pe, r, base_address, remaining_pages, zone_count). remaining_pages)") auto

declare make_zones.simps [simp del]

definition initialize_zones :: "kmalloc \<Rightarrow> page_entries \<Rightarrow> region \<Rightarrow> (page_entries \<times> region) result" where
  "initialize_zones kmalloc pe r =
     bindR (make_zones kmalloc (large_zone_size div PAGE_SIZE) pe r (m_lower r) (m_pages r) 0)
       (\<lambda>(pe1, r1, base_address, remaining_pages, zone_count).
     bindR (make_zones kmalloc (small_zone_size div PAGE_SIZE) pe1 (r1\<lparr>m_large_zones := zone_count\<rparr>)
         base_address remaining_pages 0)
       (\<lambda>(pe2, r2, _, _, _). Inr (pe2, r2)))"

definition try_take_pages_from_beginning :: "region \<Rightarrow> nat \<Rightarrow> (region \<times> region) result" where
  "try_take_pages_from_beginning r page_count =
     (if \<not> page_count > 0 then Inl VerifyFailed
      else if \<not> page_count < m_pages r then Inl VerifyFailed
      else
        let taken_lower = m_lower r;
            taken_upper = size_add taken_lower (size_mul page_count PAGE_SIZE);
            r1 = r\<lparr>m_lower := size_add (m_lower r) (size_mul page_count PAGE_SIZE)\<rparr>;
            r2 = r1\<lparr>m_pages := size_sub (m_upper r1) (m_lower r1) div PAGE_SIZE\<rparr>
        in Inr (r2, region_create taken_lower taken_upper))"

section \<open>Taking and returning pages\<close>

text \<open>The loop over the usable zones; \<open>zs\<close> are the zones that are left.\<close>
fun take_from_zones :: "nat \<Rightarrow> nat list \<Rightarrow> page_entries \<Rightarrow> region \<Rightarrow> ((page_entries \<times> region) \<times> nat option) result" where
  "take_from_zones order [] pe r = Inr ((pe, r), None)"
| "take_from_zones order (i # zs) pe r =
     bindR (allocate_block pe (m_zones r ! i) order) (\<lambda>((pe1, z), page_base).
       let r1 = set_zone r i z
       in case page_base of
            None \<Rightarrow> take_from_zones order zs pe1 r1
          | Some a \<Rightarrow> Inr ((pe1, if zone_is_empty z then region_append_full r1 i else r1), Some a))"

definition take_contiguous_free_pages ::
    "page_entries \<Rightarrow> region \<Rightarrow> nat \<Rightarrow> ((page_entries \<times> region) \<times> nat list) result" where
  "take_contiguous_free_pages pe r count =
     (let rounded_page_count = next_power_of_two (of_nat count);
          order = count_trailing_zeroes rounded_page_count
      in bindR (take_from_zones order (m_usable_zones r) pe r) (\<lambda>((pe1, r1), page_base).
           case page_base of
             None \<Rightarrow> Inr ((pe1, r1), [])
           | Some a \<Rightarrow> Inr ((pe1, r1), map (\<lambda>i. size_add a (size_mul i PAGE_SIZE)) [0..<count])))"

definition take_free_page :: "page_entries \<Rightarrow> region \<Rightarrow> ((page_entries \<times> region) \<times> nat option) result" where
  "take_free_page pe r =
     (case m_usable_zones r of
        [] \<Rightarrow> Inr ((pe, r), None)
      | i # _ \<Rightarrow>
          bindR (allocate_block pe (m_zones r ! i) 0) (\<lambda>((pe1, z), page).
            let r1 = set_zone r i z
            in case page of
                 None \<Rightarrow> Inl VerifyFailed
               | Some a \<Rightarrow> Inr ((pe1, if zone_is_empty z then region_append_full r1 i else r1), Some a)))"

definition return_page :: "page_entries \<Rightarrow> region \<Rightarrow> nat \<Rightarrow> (page_entries \<times> region) result" where
  "return_page pe r paddr =
     (let large_zone_base = m_lower r;
          small_zone_base = size_add (m_lower r) (size_mul (m_large_zones r) large_zone_size);
          zone_index =
            (if paddr < small_zone_base then size_sub paddr large_zone_base div large_zone_size
             else size_add (m_large_zones r) (size_sub paddr small_zone_base div small_zone_size))
      in if \<not> zone_index < length (m_zones r) then Inl VerifyFailed
         else
           let z = m_zones r ! zone_index
           in if \<not> zone_contains z paddr then Inl VerifyFailed
              else bindR (deallocate_block pe z paddr 0) (\<lambda>(pe1, z1).
                let r1 = set_zone r zone_index z1
                in Inr (pe1, if zone_index \<in> set (m_full_zones r1) then region_append_usable r1 zone_index else r1)))"

end
