(* ===== verification/Region.thy ===== *)
theory Region
  imports Physical_Region
begin

unbundle bit_operations_syntax

text \<open>
  The invariant of a physical region and its operations: the zones stand side by side, the lists
  of usable and full zones split them by whether they have a free page, and a region provides
  pages the way its clients rely on.
\<close>

section \<open>Rounding up to a power of two\<close>

text \<open>Every step of the smearing doubles the distance over which a bit is copied down.\<close>
lemma smear_step:
  fixes v x :: "'a::len word"
  assumes "\<And>i. bit v i \<longleftrightarrow> (\<exists>j < n. bit x (i + j))"
  shows "bit (v OR drop_bit n v) i \<longleftrightarrow> (\<exists>j < 2 * n. bit x (i + j))"
proof -
  have "(\<exists>j < 2 * n. bit x (i + j)) \<longleftrightarrow> (\<exists>j < n. bit x (i + j)) \<or> (\<exists>j < n. bit x (i + (n + j)))"
  proof
    assume "\<exists>j < 2 * n. bit x (i + j)"
    then obtain j where j: "j < 2 * n" "bit x (i + j)" by blast
    show "(\<exists>j < n. bit x (i + j)) \<or> (\<exists>j < n. bit x (i + (n + j)))"
    proof (cases "j < n")
      case False
      then have "j - n < n" "bit x (i + (n + (j - n)))" using j by simp_all
      then show ?thesis by blast
    qed (use j in blast)
  next
    assume "(\<exists>j < n. bit x (i + j)) \<or> (\<exists>j < n. bit x (i + (n + j)))"
    then show "\<exists>j < 2 * n. bit x (i + j)"
    proof (elim disjE exE conjE)
      fix j assume "j < n" "bit x (i + j)"
      then show ?thesis by (intro exI [of _ j]) simp
    next
      fix j assume "j < n" "bit x (i + (n + j))"
      then show ?thesis by (intro exI [of _ "n + j"]) simp
    qed
  qed
  then show ?thesis using assms by (simp add: bit_simps ac_simps)
qed

lemma next_power_of_two_bits:
  fixes v :: u32
  shows "\<exists>s. next_power_of_two v = s + 1 \<and> (\<forall>i. bit s i \<longleftrightarrow> (\<exists>j. bit (v - 1) (i + j)))"
proof -
  define x where "x = v - 1"
  define v1 where "v1 = x OR drop_bit 1 x"
  define v2 where "v2 = v1 OR drop_bit 2 v1"
  define v3 where "v3 = v2 OR drop_bit 4 v2"
  define v4 where "v4 = v3 OR drop_bit 8 v3"
  define v5 where "v5 = v4 OR drop_bit 16 v4"
  have "bit x i \<longleftrightarrow> (\<exists>j < 1. bit x (i + j))" for i by simp
  from smear_step [OF this] have b1: "bit v1 i \<longleftrightarrow> (\<exists>j < 2. bit x (i + j))" for i by (simp add: v1_def)
  from smear_step [OF this] have b2: "bit v2 i \<longleftrightarrow> (\<exists>j < 4. bit x (i + j))" for i by (simp add: v2_def)
  from smear_step [OF this] have b3: "bit v3 i \<longleftrightarrow> (\<exists>j < 8. bit x (i + j))" for i by (simp add: v3_def)
  from smear_step [OF this] have b4: "bit v4 i \<longleftrightarrow> (\<exists>j < 16. bit x (i + j))" for i by (simp add: v4_def)
  from smear_step [OF this] have b5: "bit v5 i \<longleftrightarrow> (\<exists>j < 32. bit x (i + j))" for i by (simp add: v5_def)
  have "i + j < 32" if "bit x (i + j)" for i j using bit_imp_le_length [OF that] by simp
  then have "bit v5 i \<longleftrightarrow> (\<exists>j. bit x (i + j))" for i
    using b5 by (metis add_leD2 le_less_trans less_le_not_le linorder_not_le)
  moreover have "next_power_of_two v = v5 + 1"
    unfolding next_power_of_two_def Let_def x_def v1_def v2_def v3_def v4_def v5_def ..
  ultimately show ?thesis unfolding x_def by blast
qed

lemma bit_top:
  fixes x :: "'a::len word"
  assumes "2 ^ m \<le> unat x" and "unat x < 2 ^ (m + 1)"
  shows "bit x m"
proof -
  have "unat x div 2 ^ m = 1" using assms by (intro div_nat_eqI) simp_all
  then have "bit (unat x) m" by (simp add: bit_iff_odd)
  then show ?thesis by (simp add: bit_unsigned_iff)
qed

lemma bit_bound:
  fixes x :: "'a::len word"
  assumes "bit x m"
  shows "2 ^ m \<le> unat x"
proof (rule ccontr)
  assume "\<not> ?thesis"
  then have "unat x div 2 ^ m = 0" by simp
  then have "\<not> bit (unat x) m" by (simp add: bit_iff_odd)
  then show False using assms by (simp add: bit_unsigned_iff)
qed

lemma next_power_of_two_eq:
  fixes v :: u32
  assumes "0 < unat v" and "unat v \<le> 2 ^ 31"
  shows "\<exists>m \<le> 31. next_power_of_two v = 2 ^ m \<and> unat v \<le> 2 ^ m \<and> (\<forall>l < m. 2 ^ l < unat v)"
proof -
  define x where "x = v - 1"
  have ux: "unat x = unat v - 1" unfolding x_def using assms(1) by (simp add: unat_minus_one unat_gt_0)
  define m where "m = (LEAST m. unat x < 2 ^ m)"
  have m31: "unat x < 2 ^ 31" using ux assms by simp
  have m: "unat x < 2 ^ m" unfolding m_def by (rule LeastI [of _ 31]) (rule m31)
  have least: "2 ^ l \<le> unat x" if "l < m" for l using not_less_Least [OF that [unfolded m_def]] by simp
  have "m \<le> 31" unfolding m_def by (rule Least_le) (rule m31)
  obtain s where s: "next_power_of_two v = s + 1" "\<And>i. bit s i \<longleftrightarrow> (\<exists>j. bit x (i + j))"
    using next_power_of_two_bits [of v] unfolding x_def by blast
  have "(\<exists>j. bit x (i + j)) \<longleftrightarrow> i < m" for i
  proof
    assume "\<exists>j. bit x (i + j)"
    then obtain j where "2 ^ (i + j) \<le> unat x" using bit_bound by blast
    then have "(2 :: nat) ^ (i + j) < 2 ^ m" using m by (rule le_less_trans)
    then show "i < m" by (subst (asm) power_strict_increasing_iff) simp_all
  next
    assume i: "i < m"
    have "bit x (m - 1)" using bit_top [of "m - 1" x] least [of "m - 1"] m i by simp
    then show "\<exists>j. bit x (i + j)" using i by (intro exI [of _ "m - 1 - i"]) simp
  qed
  then have "s = mask m" using s(2) \<open>m \<le> 31\<close> by (intro bit_word_eqI) (simp add: bit_simps)
  then have "next_power_of_two v = 2 ^ m" using s(1) by (simp add: mask_eq_exp_minus_1)
  moreover have "unat v \<le> 2 ^ m" using m ux by simp
  moreover have "2 ^ l < unat v" if "l < m" for l using least [OF that] ux assms(1) by simp
  ultimately show ?thesis using \<open>m \<le> 31\<close> by blast
qed

section \<open>The layout of a region\<close>

definition zone_pages :: "nat \<Rightarrow> nat \<Rightarrow> nat" where
  "zone_pages L i = (if i < L then 4096 else 256)"

definition zone_offset :: "nat \<Rightarrow> nat \<Rightarrow> nat" where
  "zone_offset L i = (if i \<le> L then 4096 * i else 4096 * L + 256 * (i - L))"

lemma zone_offset_0 [simp]: "zone_offset L 0 = 0"
  by (simp add: zone_offset_def)

lemma zone_offset_Suc: "zone_offset L (Suc i) = zone_offset L i + zone_pages L i"
  by (auto simp: zone_offset_def zone_pages_def Suc_diff_le)

lemma zone_pages_pow: "zone_pages L i = 2 ^ (if i < L then 12 else 8)"
  by (simp add: zone_pages_def)

lemma zone_offset_mono: "i \<le> j \<Longrightarrow> zone_offset L i \<le> zone_offset L j"
  by (rule lift_Suc_mono_le [of "zone_offset L"]) (simp_all add: zone_offset_Suc)

lemma zones_side_by_side: "i < j \<Longrightarrow> zone_offset L i + zone_pages L i \<le> zone_offset L j"
  using zone_offset_mono [of "Suc i" j L] by (simp add: zone_offset_Suc)

definition page_at :: "region \<Rightarrow> nat \<Rightarrow> nat \<Rightarrow> nat" where
  "page_at r i p = m_lower r + PAGE_SIZE * (zone_offset (m_large_zones r) i + p)"

lemma page_at_inj:
  assumes "page_at r i p = page_at r j q" and "p < zone_pages (m_large_zones r) i" and "q < zone_pages (m_large_zones r) j"
  shows "i = j \<and> p = q"
proof -
  have eq: "zone_offset (m_large_zones r) i + p = zone_offset (m_large_zones r) j + q"
    using assms(1) by (simp add: page_at_def PAGE_SIZE_def)
  then have "i = j"
    using zones_side_by_side [of i j "m_large_zones r"] zones_side_by_side [of j i "m_large_zones r"] assms(2,3)
    by (cases i j rule: linorder_cases) simp_all
  then show ?thesis using eq by simp
qed

section \<open>The invariant\<close>

text \<open>\<open>V i\<close> is the set of the pages of zone \<open>i\<close> that are in use.\<close>
definition region_zones :: "page_entries \<Rightarrow> region \<Rightarrow> (nat \<Rightarrow> nat set) \<Rightarrow> bool" where
  "region_zones pe r V \<longleftrightarrow> PAGE_SIZE dvd m_lower r \<and> m_large_zones r \<le> length (m_zones r) \<and>
     (\<forall>i < length (m_zones r). zone_rep pe (m_zones r ! i) (V i) \<and>
        m_base_address (m_zones r ! i) = page_at r i 0 \<and> m_page_count (m_zones r ! i) = zone_pages (m_large_zones r) i)"

definition zone_full :: "region \<Rightarrow> (nat \<Rightarrow> nat set) \<Rightarrow> nat \<Rightarrow> bool" where
  "zone_full r V i \<longleftrightarrow> V i = {..<zone_pages (m_large_zones r) i}"

definition region_lists :: "region \<Rightarrow> (nat \<Rightarrow> nat set) \<Rightarrow> bool" where
  "region_lists r V \<longleftrightarrow> distinct (m_usable_zones r @ m_full_zones r) \<and>
     set (m_usable_zones r) = {i. i < length (m_zones r) \<and> \<not> zone_full r V i} \<and>
     set (m_full_zones r) = {i. i < length (m_zones r) \<and> zone_full r V i}"

definition region_pages :: "region \<Rightarrow> (nat \<Rightarrow> nat set) \<Rightarrow> nat set" where
  "region_pages r V = (\<Union>i < length (m_zones r). page_at r i ` V i)"

definition region_inv :: "page_entries \<times> region \<Rightarrow> nat set \<Rightarrow> bool" where
  "region_inv s U \<longleftrightarrow> (\<exists>V. region_zones (fst s) (snd s) V \<and> region_lists (snd s) V \<and> U = region_pages (snd s) V)"

text \<open>The region stays where it is, with as many zones.\<close>
definition same_region :: "region \<Rightarrow> region \<Rightarrow> bool" where
  "same_region r r' \<longleftrightarrow> m_lower r' = m_lower r \<and> m_upper r' = m_upper r \<and> m_pages r' = m_pages r \<and>
     m_large_zones r' = m_large_zones r \<and> length (m_zones r') = length (m_zones r)"

lemma same_region_updates [simp]:
  "same_region r (set_zone r i z)" "same_region r (region_append_full r i)" "same_region r (region_append_usable r i)" "same_region r r"
  by (simp_all add: same_region_def set_zone_def region_append_full_def region_append_usable_def)

lemma same_region_trans: "same_region a b \<Longrightarrow> same_region b c \<Longrightarrow> same_region a c"
  by (simp add: same_region_def)

lemma region_zonesD:
  assumes "region_zones pe r V" and "i < length (m_zones r)"
  shows "zone_rep pe (m_zones r ! i) (V i)" and "m_base_address (m_zones r ! i) = page_at r i 0"
    and "m_page_count (m_zones r ! i) = zone_pages (m_large_zones r) i"
    and "page_address (m_zones r ! i) p = page_at r i p"
    and "first_page (m_zones r ! i) = m_lower r div PAGE_SIZE + zone_offset (m_large_zones r) i"
  using assms by (auto simp: region_zones_def page_address_def page_at_def algebra_simps PAGE_SIZE_def)

lemma used_in_zone:
  assumes "region_zones pe r V" and "i < length (m_zones r)"
  shows "V i \<subseteq> {..<zone_pages (m_large_zones r) i}"
proof -
  obtain K fl where "V i = {..<2 ^ K} - free_pages fl" "m_page_count (m_zones r ! i) = 2 ^ K"
    by (rule zone_repE [OF region_zonesD(1) [OF assms]])
  then show ?thesis using region_zonesD(3) [OF assms] by simp
qed

lemma zone_rep_frame:
  assumes "zone_rep pe z U" and "entry_count pe' = entry_count pe"
    and same: "\<And>p. p < m_page_count z \<Longrightarrow> entry pe' (first_page z + p) = entry pe (first_page z + p)"
  shows "zone_rep pe' z U"
proof -
  obtain K fl where k: "zone_wf pe z K fl" "U = {..<2 ^ K} - free_pages fl" "m_used_chunks z = 2 * card U" "m_page_count z = 2 ^ K"
    by (rule zone_repE [OF assms(1)])
  note d = zone_wfD [OF k(1)]
  have "linked chunk (- 1) (zone_links pe' z) (freelist (m_buckets z ! l)) (fl l)" if "l \<le> max_order" for l
    using d(4) [OF that] same free_heads_bound(1) [OF k(1), of l] k(4) by (elim linked_cong) auto
  then have "zone_wf pe' z K fl" using k(1) assms(2) by (simp add: zone_wf_def zone_shape_def)
  then show ?thesis using k(2,3) by (auto simp: zone_rep_def)
qed

lemma zone_rep_other:
  assumes "zone_rep pe z U" and "changes_entries z' pe pe' {..<n}"
    and "first_page z + m_page_count z \<le> first_page z' \<or> first_page z' + n \<le> first_page z"
  shows "zone_rep pe' z U"
proof (rule zone_rep_frame [OF assms(1)])
  show "entry_count pe' = entry_count pe" using assms(2) by (simp add: changes_entries_def)
  fix p assume p: "p < m_page_count z"
  have "first_page z + p \<noteq> first_page z' + q" if "q < n" for q using that p assms(3) by linarith
  then show "entry pe' (first_page z + p) = entry pe (first_page z + p)"
    using assms(2) unfolding changes_entries_def by blast
qed

text \<open>An operation on one zone does not disturb the others.\<close>
lemma region_zones_update:
  assumes r: "region_zones pe r V" and i: "i < length (m_zones r)"
    and z: "zone_rep pe' z' W" "same_place (m_zones r ! i) z'"
    and ch: "changes_entries (m_zones r ! i) pe pe' {..<zone_pages (m_large_zones r) i}"
  shows "region_zones pe' (set_zone r i z') (V(i := W))"
proof -
  have other: "zone_rep pe' (m_zones r ! j) (V j)" if j: "j < length (m_zones r)" "j \<noteq> i" for j
    using zones_side_by_side [of i j "m_large_zones r"] zones_side_by_side [of j i "m_large_zones r"] j(2)
    by (intro zone_rep_other [OF region_zonesD(1) [OF r j(1)] ch])
      (auto simp: region_zonesD(3,5) [OF r j(1)] region_zonesD(5) [OF r i] neq_iff)
  then show ?thesis
    using r z i unfolding region_zones_def set_zone_def same_place_def
    by (auto simp: page_at_def nth_list_update)
qed

lemma region_zones_lists [simp]:
  "region_zones pe (region_append_full r i) V = region_zones pe r V" "region_zones pe (region_append_usable r i) V = region_zones pe r V"
  by (simp_all add: region_zones_def region_append_full_def region_append_usable_def page_at_def)

lemma region_pages_same: "same_region r r' \<Longrightarrow> region_pages r' V = region_pages r V"
  by (simp add: same_region_def region_pages_def page_at_def)

lemma region_pages_upd:
  assumes "i < length (m_zones r)"
  shows "region_pages r (V(i := W)) = (\<Union>j \<in> {..<length (m_zones r)} - {i}. page_at r j ` V j) \<union> page_at r i ` W"
proof -
  have "region_pages r (V(i := W)) =
      (\<Union>j \<in> {..<length (m_zones r)} - {i}. page_at r j ` (V(i := W)) j) \<union> page_at r i ` (V(i := W)) i"
    unfolding region_pages_def using assms by blast
  moreover have "(\<Union>j \<in> {..<length (m_zones r)} - {i}. page_at r j ` (V(i := W)) j) = (\<Union>j \<in> {..<length (m_zones r)} - {i}. page_at r j ` V j)"
    by (rule SUP_cong) auto
  ultimately show ?thesis by simp
qed

lemma region_pages_split:
  assumes "i < length (m_zones r)"
  shows "region_pages r V = (\<Union>j \<in> {..<length (m_zones r)} - {i}. page_at r j ` V j) \<union> page_at r i ` V i"
  using region_pages_upd [OF assms, of V "V i"] by simp

lemma region_pages_add: "i < length (m_zones r) \<Longrightarrow> region_pages r (V(i := V i \<union> B)) = region_pages r V \<union> page_at r i ` B"
  by (simp add: region_pages_upd region_pages_split [of i r V] image_Un Un_assoc)

lemma other_zone_page:
  assumes "region_zones pe r V" and "p < zone_pages (m_large_zones r) i" and "j < length (m_zones r)"
    and "page_at r i p \<in> page_at r j ` V j"
  shows "i = j \<and> p \<in> V j"
proof -
  obtain q where q: "q \<in> V j" "page_at r i p = page_at r j q" using assms(4) by blast
  then have "q < zone_pages (m_large_zones r) j" using used_in_zone [OF assms(1,3)] by blast
  then show ?thesis using page_at_inj [OF q(2) assms(2)] q(1) by simp
qed

lemma page_used_iff:
  assumes "region_zones pe r V" and "i < length (m_zones r)" and "p < zone_pages (m_large_zones r) i"
  shows "page_at r i p \<in> region_pages r V \<longleftrightarrow> p \<in> V i"
  unfolding region_pages_def using other_zone_page [OF assms(1,3)] assms(2) by blast

lemma region_pages_remove:
  assumes r: "region_zones pe r V" and i: "i < length (m_zones r)" and p: "p < zone_pages (m_large_zones r) i"
  shows "region_pages r (V(i := V i - {p})) = region_pages r V - {page_at r i p}"
proof -
  have "page_at r i p \<notin> (\<Union>j \<in> {..<length (m_zones r)} - {i}. page_at r j ` V j)"
    using other_zone_page [OF r p] by blast
  moreover have "page_at r i ` (V i - {p}) = page_at r i ` V i - {page_at r i p}"
    using inj_on_image_set_diff [of "page_at r i" UNIV "V i" "{p}"] by (simp add: inj_on_def page_at_def PAGE_SIZE_def)
  ultimately show ?thesis by (simp add: region_pages_upd [OF i] region_pages_split [OF i, of V] Un_Diff)
qed

section \<open>Taking pages\<close>

lemma region_lists_taken:
  assumes l: "region_lists r V" and i: "i \<in> set (m_usable_zones r)" and full: "e \<longleftrightarrow> W = {..<zone_pages (m_large_zones r) i}"
  shows "region_lists (if e then region_append_full (set_zone r i z) i else set_zone r i z) (V(i := W))"
proof (cases e)
  case True
  then show ?thesis
    using l i full unfolding region_lists_def zone_full_def region_append_full_def set_zone_def
    by (auto simp: set_remove1_eq remove1_append)
next
  case False
  then show ?thesis
    using l i full unfolding region_lists_def zone_full_def set_zone_def by auto
qed

lemma take_block_ok:
  assumes r: "region_zones pe r V" "region_lists r V" and i: "i \<in> set (m_usable_zones r)"
    and a: "allocate_block pe (m_zones r ! i) k = Inr ((pe', z'), Some a)"
  defines "r' \<equiv> if zone_is_empty z' then region_append_full (set_zone r i z') i else set_zone r i z'"
  shows "\<exists>p. a = page_at r i p \<and> p + 2 ^ k \<le> zone_pages (m_large_zones r) i \<and> i < length (m_zones r) \<and> blk k p \<inter> V i = {} \<and>
           region_zones pe' r' (V(i := V i \<union> blk k p)) \<and> region_lists r' (V(i := V i \<union> blk k p)) \<and> same_region r r'"
proof -
  have n: "i < length (m_zones r)" using r(2) i by (auto simp: region_lists_def)
  note z = region_zonesD [OF r(1) n]
  obtain p where p: "a = page_address (m_zones r ! i) p" "block_in (m_zones r ! i) k p" "blk k p \<inter> V i = {}"
    "zone_rep pe' z' (V i \<union> blk k p)" "same_place (m_zones r ! i) z'"
    "changes_entries (m_zones r ! i) pe pe' ({..<m_page_count (m_zones r ! i)} - V i)"
    using allocate_block_ok [OF z(1), of k] a by auto
  have ch: "changes_entries (m_zones r ! i) pe pe' {..<zone_pages (m_large_zones r) i}"
    using changes_entries_trans [OF p(6) changes_entries_refl, of _ "{}"] z(3) by auto
  have "m_page_count z' = zone_pages (m_large_zones r) i" using p(5) z(3) by (simp add: same_place_def)
  then have e: "zone_is_empty z' \<longleftrightarrow> V i \<union> blk k p = {..<zone_pages (m_large_zones r) i}"
    using zone_is_empty_iff [OF p(4)] by simp
  have "region_zones pe' r' (V(i := V i \<union> blk k p))"
    using region_zones_update [OF r(1) n p(4,5) ch] by (simp add: r'_def)
  moreover have "region_lists r' (V(i := V i \<union> blk k p))"
    unfolding r'_def by (rule region_lists_taken [OF r(2) i e])
  moreover have "same_region r r'" using same_region_trans [of r "set_zone r i z'"] by (simp add: r'_def)
  ultimately show ?thesis using p(1-3) z(3,4) n by (auto simp: block_in_def)
qed

text \<open>What clients see of taking a block of \<open>2 ^ k\<close> pages: they are next to each other and were not in use.\<close>
definition block_taken :: "nat \<Rightarrow> page_entries \<times> region \<Rightarrow> nat set \<Rightarrow> nat \<Rightarrow> page_entries \<times> region \<Rightarrow> bool" where
  "block_taken k s U a s' \<longleftrightarrow> (\<lambda>i. a + PAGE_SIZE * i) ` {..<2 ^ k} \<inter> U = {} \<and> a + PAGE_SIZE * 2 ^ k < size_limit \<and>
     PAGE_SIZE dvd a \<and> region_inv s' (U \<union> (\<lambda>i. a + PAGE_SIZE * i) ` {..<2 ^ k}) \<and> same_region (snd s) (snd s')"

lemma blk_image: "blk k p = (\<lambda>i. p + i) ` {..<2 ^ k}"
  unfolding blk_def lessThan_atLeast0 image_add_atLeastLessThan by (simp add: add.commute)

lemma page_at_plus: "page_at r i (p + j) = page_at r i p + PAGE_SIZE * j"
  by (simp add: page_at_def algebra_simps)

lemma take_block_seen:
  assumes r: "region_zones pe r V" "region_lists r V" and i: "i \<in> set (m_usable_zones r)"
    and a: "allocate_block pe (m_zones r ! i) k = Inr ((pe', z'), Some a)"
  shows "block_taken k (pe, r) (region_pages r V) a (pe', if zone_is_empty z' then region_append_full (set_zone r i z') i else set_zone r i z')"
proof -
  let ?r' = "if zone_is_empty z' then region_append_full (set_zone r i z') i else set_zone r i z'"
  obtain p where p: "a = page_at r i p" "p + 2 ^ k \<le> zone_pages (m_large_zones r) i" "i < length (m_zones r)" "blk k p \<inter> V i = {}"
    "region_zones pe' ?r' (V(i := V i \<union> blk k p))" "region_lists ?r' (V(i := V i \<union> blk k p))" "same_region r ?r'"
    using take_block_ok [OF assms] by blast
  have img: "(\<lambda>i. a + PAGE_SIZE * i) ` {..<2 ^ k} = page_at r i ` blk k p"
    unfolding blk_image image_image p(1) page_at_plus ..
  have "q \<notin> V i \<and> q < zone_pages (m_large_zones r) i" if "q \<in> blk k p" for q using p(2,4) that by (auto simp: blk_def)
  then have "page_at r i ` blk k p \<inter> region_pages r V = {}" using page_used_iff [OF r(1) p(3)] by blast
  moreover have "region_inv (pe', ?r') (region_pages r V \<union> page_at r i ` blk k p)"
    unfolding region_inv_def using p(5,6) region_pages_same [OF p(7)] region_pages_add [OF p(3), of V]
    by (intro exI [of _ "V(i := V i \<union> blk k p)"]) simp
  moreover have "a + PAGE_SIZE * 2 ^ k < size_limit"
  proof -
    obtain K fl where k: "zone_wf pe (m_zones r ! i) K fl" "m_page_count (m_zones r ! i) = 2 ^ K"
      by (rule zone_repE [OF region_zonesD(1) [OF r(1) p(3)]])
    have "p + 2 ^ k \<le> 2 ^ K" using p(2) k(2) region_zonesD(3) [OF r(1) p(3)] by simp
    from zone_top [OF k(1) this] show ?thesis
      unfolding region_zonesD(2) [OF r(1) p(3)] p(1) by (simp add: page_at_def algebra_simps)
  qed
  moreover have "PAGE_SIZE dvd a" using r(1) p(1) by (simp add: region_zones_def page_at_def)
  ultimately show ?thesis unfolding block_taken_def img using p(7) by simp
qed

lemma take_from_zones_ok:
  assumes "region_zones pe r V" "region_lists r V" and "set zs \<subseteq> set (m_usable_zones r)"
  shows "(take_from_zones k zs pe r = Inr ((pe, r), None) \<and>
            (\<forall>i \<in> set zs. \<forall>p. block_in (m_zones r ! i) k p \<longrightarrow> blk k p \<inter> V i \<noteq> {})) \<or>
         (\<exists>s' a. take_from_zones k zs pe r = Inr (s', Some a) \<and> block_taken k (pe, r) (region_pages r V) a s')"
  using assms(3)
proof (induction zs)
  case (Cons i zs)
  then have i: "i \<in> set (m_usable_zones r)" by simp
  then have n: "i < length (m_zones r)" using assms(2) by (auto simp: region_lists_def)
  from allocate_block_ok [OF region_zonesD(1) [OF assms(1) n], of k] show ?case
  proof (elim disjE exE conjE)
    assume n: "allocate_block pe (m_zones r ! i) k = Inr ((pe, m_zones r ! i), None)"
      "\<forall>p. block_in (m_zones r ! i) k p \<longrightarrow> blk k p \<inter> V i \<noteq> {}"
    have "set_zone r i (m_zones r ! i) = r" by (simp add: set_zone_def)
    then have "take_from_zones k (i # zs) pe r = take_from_zones k zs pe r" using n(1) by simp
    then show ?thesis using Cons n(2) by auto
  next
    fix pe' z' p
    assume "allocate_block pe (m_zones r ! i) k = Inr ((pe', z'), Some (page_address (m_zones r ! i) p))"
    from this take_block_seen [OF assms(1,2) i this] show ?thesis by (auto simp: Let_def)
  qed
qed simp

text \<open>The addresses of all pages of the zones.\<close>
definition all_pages :: "region \<Rightarrow> nat set" where
  "all_pages r = (\<lambda>p. m_lower r + PAGE_SIZE * p) ` {..<zone_offset (m_large_zones r) (length (m_zones r))}"

lemma zones_cover: "(\<Union>i < n. (\<lambda>p. zone_offset L i + p) ` {..<zone_pages L i}) = {..<zone_offset L n}"
proof (induction n)
  case (Suc n)
  have "{..<zone_offset L (Suc n)} = {..<zone_offset L n} \<union> {zone_offset L n..<zone_offset L n + zone_pages L n}"
    unfolding zone_offset_Suc by auto
  also have "{zone_offset L n..<zone_offset L n + zone_pages L n} = (\<lambda>p. zone_offset L n + p) ` {..<zone_pages L n}"
    unfolding lessThan_atLeast0 image_add_atLeastLessThan by (simp add: add.commute)
  finally show ?case unfolding lessThan_Suc using Suc by auto
qed simp

lemma region_pages_full: "region_pages r (\<lambda>i. {..<zone_pages (m_large_zones r) i}) = all_pages r"
  unfolding region_pages_def all_pages_def zones_cover [symmetric] page_at_def image_UN image_image ..

lemma region_pages_bound:
  assumes "region_zones pe r V"
  shows "region_pages r V \<subseteq> all_pages r"
  unfolding region_pages_full [symmetric] region_pages_def using used_in_zone [OF assms] by blast

lemma take_free_page_ok:
  assumes "region_inv (pe, r) U"
  shows "(take_free_page pe r = Inr ((pe, r), None) \<and> U = all_pages r) \<or>
         (\<exists>s' a. take_free_page pe r = Inr (s', Some a) \<and> block_taken 0 (pe, r) U a s')"
proof -
  obtain V where r: "region_zones pe r V" "region_lists r V" and U: "U = region_pages r V"
    using assms by (auto simp: region_inv_def)
  show ?thesis
  proof (cases "m_usable_zones r")
    case Nil
    have "V i = {..<zone_pages (m_large_zones r) i}" if "i < length (m_zones r)" for i
      using r(2) Nil that by (auto simp: region_lists_def zone_full_def)
    then have "region_pages r V = all_pages r" unfolding region_pages_full [symmetric] by (simp add: region_pages_def)
    then show ?thesis using Nil U by (simp add: take_free_page_def)
  next
    case (Cons i rest)
    then have i: "i \<in> set (m_usable_zones r)" by simp
    then have n: "i < length (m_zones r)" and nf: "V i \<noteq> {..<zone_pages (m_large_zones r) i}"
      using r(2) by (auto simp: region_lists_def zone_full_def)
    obtain p where p: "p < zone_pages (m_large_zones r) i" "p \<notin> V i" using nf used_in_zone [OF r(1) n] by blast
    then have "block_in (m_zones r ! i) 0 p \<and> blk 0 p \<inter> V i = {}"
      using region_zonesD(3) [OF r(1) n] by (simp add: block_in_def blk_def)
    then obtain pe' z' a where a: "allocate_block pe (m_zones r ! i) 0 = Inr ((pe', z'), Some a)"
      using allocate_block_ok [OF region_zonesD(1) [OF r(1) n], of 0] by blast
    from this take_block_seen [OF r i this] show ?thesis unfolding U by (simp add: take_free_page_def Cons Let_def)
  qed
qed

lemma take_contiguous_ok:
  assumes "region_inv (pe, r) U" and "0 < count" and "count \<le> 2 ^ 31"
  shows "\<exists>k. count \<le> 2 ^ k \<and> (\<forall>l < k. 2 ^ l < count) \<and>
           (take_contiguous_free_pages pe r count = Inr ((pe, r), []) \<and>
              (\<forall>i < length (m_zones r). \<forall>p. block_in (m_zones r ! i) k p \<longrightarrow> (\<exists>q \<in> blk k p. page_at r i q \<in> U)) \<or>
            (\<exists>s' a. take_contiguous_free_pages pe r count = Inr (s', map (\<lambda>i. a + PAGE_SIZE * i) [0..<count]) \<and>
               block_taken k (pe, r) U a s'))"
proof -
  obtain V where r: "region_zones pe r V" "region_lists r V" and U: "U = region_pages r V"
    using assms by (auto simp: region_inv_def)
  have un: "unat (of_nat count :: u32) = count" using assms(3) by (simp add: unat_of_nat)
  then obtain k where k: "k \<le> 31" "next_power_of_two (of_nat count) = 2 ^ k" "count \<le> 2 ^ k" "\<forall>l < k. 2 ^ l < count"
    using next_power_of_two_eq [of "of_nat count"] assms(2,3) by auto
  have ctz: "count_trailing_zeroes (next_power_of_two (of_nat count)) = k"
    using ctz_pow2 [of k, where 'a = 32] k(1,2) by simp
  from take_from_zones_ok [OF r subset_refl, of k] show ?thesis
  proof (elim disjE exE conjE)
    assume n: "take_from_zones k (m_usable_zones r) pe r = Inr ((pe, r), None)"
      "\<forall>i \<in> set (m_usable_zones r). \<forall>p. block_in (m_zones r ! i) k p \<longrightarrow> blk k p \<inter> V i \<noteq> {}"
    have "\<exists>q \<in> blk k p. page_at r i q \<in> U" if i: "i < length (m_zones r)" and p: "block_in (m_zones r ! i) k p" for i p
    proof -
      have "blk k p \<inter> V i \<noteq> {}"
      proof (cases "i \<in> set (m_usable_zones r)")
        case False
        then have "V i = {..<zone_pages (m_large_zones r) i}" using r(2) i by (auto simp: region_lists_def zone_full_def)
        moreover have "p < zone_pages (m_large_zones r) i"
          using p region_zonesD(3) [OF r(1) i] less_le_trans [of p "p + 2 ^ k"] by (simp add: block_in_def)
        ultimately show ?thesis using blk_head [of p k] by blast
      qed (use n(2) p in blast)
      then show ?thesis using i U by (auto simp: region_pages_def)
    qed
    moreover have "take_contiguous_free_pages pe r count = Inr ((pe, r), [])"
      using n(1) by (simp add: take_contiguous_free_pages_def ctz)
    ultimately show ?thesis using k(3,4) by blast
  next
    fix s' a assume t: "take_from_zones k (m_usable_zones r) pe r = Inr (s', Some a)" "block_taken k (pe, r) (region_pages r V) a s'"
    have "size_add a (size_mul i PAGE_SIZE) = a + PAGE_SIZE * i" if "i < count" for i
    proof -
      have "i * PAGE_SIZE \<le> PAGE_SIZE * 2 ^ k" using that k(3) by (simp add: PAGE_SIZE_def)
      then have lim: "a + i * PAGE_SIZE < size_limit" using t(2) unfolding block_taken_def by linarith
      then have "i * PAGE_SIZE < size_limit" by linarith
      then show ?thesis using lim by (simp add: size_mul_exact size_add_exact mult.commute)
    qed
    then have "take_contiguous_free_pages pe r count = Inr (s', map (\<lambda>i. a + PAGE_SIZE * i) [0..<count])"
      using t(1) by (auto simp: take_contiguous_free_pages_def ctz)
    then show ?thesis using k(3,4) t(2) U by blast
  qed
qed

section \<open>Returning pages\<close>

lemma region_top:
  assumes "region_zones pe r V" and "i < length (m_zones r)" and "j \<le> length (m_zones r)"
  shows "m_lower r + PAGE_SIZE * zone_offset (m_large_zones r) j < size_limit"
proof -
  have "m_lower r + PAGE_SIZE * zone_offset (m_large_zones r) (Suc n) < size_limit" if n: "n < length (m_zones r)" for n
  proof -
    obtain K fl where k: "zone_wf pe (m_zones r ! n) K fl" "m_page_count (m_zones r ! n) = 2 ^ K"
      by (rule zone_repE [OF region_zonesD(1) [OF assms(1) n]])
    show ?thesis
      using zone_top [OF k(1) order_refl] region_zonesD(2,3) [OF assms(1) n] k(2)
      by (simp add: page_at_def zone_offset_Suc algebra_simps)
  qed
  from this [of "length (m_zones r) - 1"] have "m_lower r + PAGE_SIZE * zone_offset (m_large_zones r) (length (m_zones r)) < size_limit"
    using assms(2) by (cases "length (m_zones r)") simp_all
  moreover have "PAGE_SIZE * zone_offset (m_large_zones r) j \<le> PAGE_SIZE * zone_offset (m_large_zones r) (length (m_zones r))"
    using zone_offset_mono [OF assms(3)] by simp
  ultimately show ?thesis by linarith
qed

text \<open>The index \<open>return_page\<close> computes is the index of the zone the page is in.\<close>
lemma zone_index_eq:
  assumes r: "region_zones pe r V" and i: "i < length (m_zones r)" and p: "p < zone_pages (m_large_zones r) i"
  defines "small \<equiv> size_add (m_lower r) (size_mul (m_large_zones r) large_zone_size)"
  shows "(if page_at r i p < small then size_sub (page_at r i p) (m_lower r) div large_zone_size
          else size_add (m_large_zones r) (size_sub (page_at r i p) small div small_zone_size)) = i"
proof -
  let ?L = "m_large_zones r"
  have "?L \<le> length (m_zones r)" using r by (simp add: region_zones_def)
  from region_top [OF r i this] have lim: "m_lower r + 4096 * (4096 * ?L) < size_limit"
    by (simp add: zone_offset_def PAGE_SIZE_def)
  then have "size_mul ?L large_zone_size = 16777216 * ?L"
    by (subst size_mul_exact) (simp_all add: large_zone_size_def)
  then have small: "small = m_lower r + 16777216 * ?L"
    unfolding small_def using lim by (subst size_add_exact) simp_all
  have top: "page_at r i p < size_limit"
  proof -
    have "Suc i \<le> length (m_zones r)" using i by simp
    from region_top [OF r i this] show ?thesis using p by (simp add: page_at_def zone_offset_Suc PAGE_SIZE_def)
  qed
  show ?thesis
  proof (cases "i < ?L")
    case True
    then have pa: "page_at r i p = m_lower r + (16777216 * i + 4096 * p)" and p': "4096 * p < 16777216"
      using p by (simp_all add: page_at_def zone_offset_def zone_pages_def PAGE_SIZE_def)
    have "16777216 * (i + 1) \<le> 16777216 * ?L" using True by simp
    then have "page_at r i p < small" using pa p' small by simp
    moreover have "size_sub (page_at r i p) (m_lower r) = 16777216 * i + 4096 * p"
      using top pa by (subst size_sub_exact) simp_all
    moreover have "(16777216 * i + 4096 * p) div 16777216 = i" using p' by simp
    ultimately show ?thesis by (simp add: large_zone_size_def)
  next
    case False
    then have pa: "page_at r i p = small + (1048576 * (i - ?L) + 4096 * p)" and p': "4096 * p < 1048576"
      using p by (simp_all add: page_at_def zone_offset_def zone_pages_def PAGE_SIZE_def small)
    have "size_sub (page_at r i p) small = 1048576 * (i - ?L) + 4096 * p"
      using top pa by (subst size_sub_exact) simp_all
    moreover have "(1048576 * (i - ?L) + 4096 * p) div 1048576 = i - ?L" using p' by simp
    moreover have "i < size_limit" using top pa False small by simp
    ultimately show ?thesis using pa False by (simp add: small_zone_size_def size_simps)
  qed
qed

lemma region_lists_given:
  assumes l: "region_lists r V" and i: "i < length (m_zones r)" and nf: "W \<noteq> {..<zone_pages (m_large_zones r) i}"
  shows "region_lists (if i \<in> set (m_full_zones r) then region_append_usable (set_zone r i z) i else set_zone r i z) (V(i := W))"
proof (cases "i \<in> set (m_full_zones r)")
  case True
  then show ?thesis
    using l i nf unfolding region_lists_def zone_full_def region_append_usable_def set_zone_def
    by (auto simp: set_remove1_eq remove1_append)
next
  case False
  then have "i \<in> set (m_usable_zones r)" using l i by (auto simp: region_lists_def)
  then show ?thesis
    using False l i nf unfolding region_lists_def zone_full_def set_zone_def by auto
qed

lemma return_page_ok:
  assumes "region_inv (pe, r) U" and "a \<in> U"
  shows "\<exists>pe' r'. return_page pe r a = Inr (pe', r') \<and> region_inv (pe', r') (U - {a}) \<and> same_region r r'"
proof -
  obtain V where r: "region_zones pe r V" "region_lists r V" and U: "U = region_pages r V"
    using assms(1) by (auto simp: region_inv_def)
  obtain i p where i: "i < length (m_zones r)" and p: "p \<in> V i" and a: "a = page_at r i p"
    using assms(2) U by (auto simp: region_pages_def)
  have pb: "p < zone_pages (m_large_zones r) i" using used_in_zone [OF r(1) i] p by blast
  note z = region_zonesD [OF r(1) i]
  have "block_in (m_zones r ! i) 0 p" "blk 0 p = {p}" using pb z(3) by (simp_all add: block_in_def blk_def)
  from deallocate_block_ok [OF z(1) this(1)] this(2) p obtain pe' z' where
    d: "deallocate_block pe (m_zones r ! i) a 0 = Inr (pe', z')" "zone_rep pe' z' (V i - {p})"
    "same_place (m_zones r ! i) z'" "changes_entries (m_zones r ! i) pe pe' ({..<m_page_count (m_zones r ! i)} - (V i - {p}))"
    using a z(4) by auto
  have contains: "zone_contains (m_zones r ! i) a"
  proof -
    obtain K fl where k: "zone_wf pe (m_zones r ! i) K fl" "m_page_count (m_zones r ! i) = 2 ^ K" "K \<le> max_order"
      by (rule zone_repE [OF z(1)])
    have lim: "m_base_address (m_zones r ! i) + PAGE_SIZE * 2 ^ K < size_limit" using zone_top [OF k(1) order_refl] .
    then have top: "size_add (m_base_address (m_zones r ! i)) (size_mul (m_page_count (m_zones r ! i)) PAGE_SIZE) =
        m_base_address (m_zones r ! i) + PAGE_SIZE * 2 ^ K"
      unfolding k(2) by (simp add: size_simps mult.commute)
    have "p < 2 ^ K" using pb z(3) k(2) by simp
    then show ?thesis unfolding zone_contains_def top unfolding z(2) a by (simp add: page_at_def PAGE_SIZE_def)
  qed
  let ?r' = "if i \<in> set (m_full_zones r) then region_append_usable (set_zone r i z') i else set_zone r i z'"
  have "m_full_zones (set_zone r i z') = m_full_zones r" by (simp add: set_zone_def)
  then have eq: "return_page pe r a = Inr (pe', ?r')"
    unfolding return_page_def Let_def a zone_index_eq [OF r(1) i pb] using i contains d(1) a by simp
  have ch: "changes_entries (m_zones r ! i) pe pe' {..<zone_pages (m_large_zones r) i}"
    using changes_entries_trans [OF d(4) changes_entries_refl, of _ "{}"] z(3) by auto
  have "region_zones pe' ?r' (V(i := V i - {p}))" using region_zones_update [OF r(1) i d(2,3) ch] by simp
  moreover have "region_lists ?r' (V(i := V i - {p}))"
    using pb by (intro region_lists_given [OF r(2) i]) auto
  moreover have same: "same_region r ?r'" using same_region_trans [of r "set_zone r i z'"] by simp
  moreover have "U - {a} = region_pages ?r' (V(i := V i - {p}))"
    unfolding region_pages_same [OF same] region_pages_remove [OF r(1) i pb] U a ..
  ultimately show ?thesis unfolding eq region_inv_def by auto
qed

section \<open>Making the zones\<close>

definition fresh_zone :: "page_entries \<Rightarrow> region \<Rightarrow> nat \<Rightarrow> nat \<Rightarrow> bool" where
  "fresh_zone pe r L i \<longleftrightarrow> zone_rep pe (m_zones r ! i) {} \<and>
     m_base_address (m_zones r ! i) = m_lower r + PAGE_SIZE * zone_offset L i \<and> m_page_count (m_zones r ! i) = zone_pages L i"

text \<open>A region whose first \<open>n\<close> zones are made, with all their pages free.\<close>
definition made_zones :: "page_entries \<Rightarrow> region \<Rightarrow> nat \<Rightarrow> nat \<Rightarrow> bool" where
  "made_zones pe r L n \<longleftrightarrow> PAGE_SIZE dvd m_lower r \<and> length (m_zones r) = n \<and> (\<forall>i < n. fresh_zone pe r L i) \<and>
     m_usable_zones r = [0..<n] \<and> m_full_zones r = []"

lemma made_zones_step:
  assumes m: "made_zones pe r L n" and z: "zone_rep pe' z {}" "m_base_address z = m_lower r + PAGE_SIZE * zone_offset L n"
      "m_page_count z = zone_pages L n" "changes_entries z pe pe' {..<zone_pages L n}"
  shows "made_zones pe' (region_append_usable (r\<lparr>m_zones := m_zones r @ [z]\<rparr>) (length (m_zones r))) L (Suc n)"
proof -
  have len: "length (m_zones r) = n" using m by (simp add: made_zones_def)
  obtain u where u: "m_lower r = PAGE_SIZE * u" using m by (auto simp: made_zones_def)
  have z': "first_page z = u + zone_offset L n" unfolding z(2) u by (simp add: PAGE_SIZE_def)
  have "zone_rep pe' (m_zones r ! i) {}" if i: "i < n" for i
  proof (rule zone_rep_other [OF _ z(4)])
    have f: "fresh_zone pe r L i" using m i by (simp add: made_zones_def)
    then show "zone_rep pe (m_zones r ! i) {}" by (simp add: fresh_zone_def)
    have "first_page (m_zones r ! i) = u + zone_offset L i" using f u by (simp add: fresh_zone_def PAGE_SIZE_def)
    then show "first_page (m_zones r ! i) + m_page_count (m_zones r ! i) \<le> first_page z \<or>
        first_page z + zone_pages L n \<le> first_page (m_zones r ! i)"
      using f z' zones_side_by_side [OF i, of L] by (simp add: fresh_zone_def)
  qed
  then show ?thesis
    using m z(1-3) unfolding made_zones_def fresh_zone_def region_append_usable_def
    by (auto simp: len nth_append less_Suc_eq remove1_idem)
qed

lemma make_zones_ok:
  assumes K: "K \<le> max_order" "kmalloc_gives kmalloc (2 ^ K)" and m: "made_zones pe r L n"
    and pages: "\<And>i. n \<le> i \<Longrightarrow> i < n + remaining div 2 ^ K \<Longrightarrow> zone_pages L i = 2 ^ K"
    and top: "m_lower r + PAGE_SIZE * (zone_offset L n + remaining) < size_limit"
      "m_lower r div PAGE_SIZE + zone_offset L n + remaining \<le> entry_count pe"
  shows "\<exists>pe' r'. make_zones kmalloc (2 ^ K) pe r (m_lower r + PAGE_SIZE * zone_offset L n) remaining c =
             Inr (pe', r', m_lower r + PAGE_SIZE * zone_offset L (n + remaining div 2 ^ K), remaining mod 2 ^ K, c + remaining div 2 ^ K) \<and>
           made_zones pe' r' L (n + remaining div 2 ^ K) \<and> m_lower r' = m_lower r \<and> m_upper r' = m_upper r \<and>
           m_pages r' = m_pages r \<and> m_large_zones r' = m_large_zones r \<and> entry_count pe' = entry_count pe"
  using m pages top
proof (induction remaining arbitrary: pe r n c rule: less_induct)
  case (less remaining)
  show ?case
  proof (cases "2 ^ K \<le> remaining")
    case False
    then have "remaining div 2 ^ K = 0" "remaining mod 2 ^ K = remaining" by simp_all
    then show ?thesis using less.prems(1) False by (simp add: make_zones.simps)
  next
    case True
    let ?rem = "remaining - 2 ^ K"
    have q: "remaining div 2 ^ K = Suc (?rem div 2 ^ K)" and md: "remaining mod 2 ^ K = ?rem mod 2 ^ K"
      using True by (simp_all add: le_div_geq le_mod_geq)
    have zp: "zone_pages L n = 2 ^ K" using less.prems(2) [of n] q by simp
    let ?base = "m_lower r + PAGE_SIZE * zone_offset L n"
    obtain u where u: "m_lower r = PAGE_SIZE * u" using less.prems(1) by (auto simp: made_zones_def)
    have "PAGE_SIZE dvd ?base" using u by simp
    moreover have step: "PAGE_SIZE * (zone_offset L n + 2 ^ K) \<le> PAGE_SIZE * (zone_offset L n + remaining)" using True by simp
    then have lim: "?base + PAGE_SIZE * 2 ^ K < size_limit"
      using less.prems(3) unfolding add_mult_distrib2 by linarith
    moreover have "?base div PAGE_SIZE + 2 ^ K \<le> entry_count pe" using less.prems(4) True u by (simp add: PAGE_SIZE_def)
    ultimately obtain pe1 z where z: "zone_create kmalloc pe ?base (2 ^ K) = Inr (pe1, z)" "zone_rep pe1 z {}"
      "m_base_address z = ?base" "m_page_count z = zone_pages L n" "changes_entries z pe pe1 {..<zone_pages L n}"
      using zone_create_ok [OF K, of ?base pe] unfolding zp by blast
    let ?r1 = "region_append_usable (r\<lparr>m_zones := m_zones r @ [z]\<rparr>) (length (m_zones r))"
    have m1: "made_zones pe1 ?r1 L (Suc n)" by (rule made_zones_step [OF less.prems(1) z(2-5)])
    have r1: "m_lower ?r1 = m_lower r" "m_upper ?r1 = m_upper r" "m_pages ?r1 = m_pages r" "m_large_zones ?r1 = m_large_zones r"
      by (simp_all add: region_append_usable_def)
    have next_base: "size_add ?base (size_mul (2 ^ K) PAGE_SIZE) = m_lower ?r1 + PAGE_SIZE * zone_offset L (Suc n)"
    proof -
      have "2 ^ K * PAGE_SIZE < size_limit" using lim by (simp add: mult.commute)
      then have "size_mul (2 ^ K) PAGE_SIZE = PAGE_SIZE * 2 ^ K" by (simp add: size_mul_exact mult.commute)
      then show ?thesis using lim r1(1) by (simp add: size_add_exact zone_offset_Suc zp add_mult_distrib2)
    qed
    have off: "zone_offset L (Suc n) + ?rem = zone_offset L n + remaining" using True zp by (simp add: zone_offset_Suc)
    have ec: "entry_count pe1 = entry_count pe" using z(5) by (simp add: changes_entries_def)
    have "?rem < remaining" using True by (intro diff_less) (simp_all add: less_le_trans [of 0 "2 ^ K"])
    moreover have "zone_pages L i = 2 ^ K" if "Suc n \<le> i" "i < Suc n + ?rem div 2 ^ K" for i
      using less.prems(2) [of i] that q by simp
    moreover have "m_lower ?r1 + PAGE_SIZE * (zone_offset L (Suc n) + ?rem) < size_limit" unfolding off r1(1) by (rule less.prems(3))
    moreover have "m_lower ?r1 div PAGE_SIZE + zone_offset L (Suc n) + ?rem \<le> entry_count pe1"
      using less.prems(4) off r1(1) ec by simp
    ultimately obtain pe' r' where r': "make_zones kmalloc (2 ^ K) pe1 ?r1 (m_lower ?r1 + PAGE_SIZE * zone_offset L (Suc n)) ?rem (c + 1) =
          Inr (pe', r', m_lower ?r1 + PAGE_SIZE * zone_offset L (Suc n + ?rem div 2 ^ K), ?rem mod 2 ^ K, c + 1 + ?rem div 2 ^ K)"
        "made_zones pe' r' L (Suc n + ?rem div 2 ^ K)" "m_lower r' = m_lower ?r1" "m_upper r' = m_upper ?r1"
        "m_pages r' = m_pages ?r1" "m_large_zones r' = m_large_zones ?r1" "entry_count pe' = entry_count pe1"
      using less.IH [of ?rem pe1 ?r1 "Suc n" "c + 1"] m1 by blast
    have "make_zones kmalloc (2 ^ K) pe r ?base remaining c =
        make_zones kmalloc (2 ^ K) pe1 ?r1 (m_lower ?r1 + PAGE_SIZE * zone_offset L (Suc n)) ?rem (c + 1)"
      unfolding make_zones.simps [of kmalloc "2 ^ K" pe r ?base remaining c] z(1) bindR.simps prod.case Let_def next_base
      using True by simp
    then show ?thesis using r' r1 ec unfolding q md by auto
  qed
qed

text \<open>A region whose bounds are page aligned and inside of the page entries.\<close>
definition fresh_region :: "page_entries \<Rightarrow> nat \<Rightarrow> nat \<Rightarrow> bool" where
  "fresh_region pe lower upper \<longleftrightarrow> PAGE_SIZE dvd lower \<and> PAGE_SIZE dvd upper \<and> lower \<le> upper \<and> upper < size_limit \<and>
     upper div PAGE_SIZE \<le> entry_count pe"

lemma initialize_zones_ok:
  assumes f: "fresh_region pe lower upper" and k: "kmalloc_gives kmalloc 4096"
  defines "n \<equiv> (upper - lower) div PAGE_SIZE"
  shows "\<exists>pe' r. initialize_zones kmalloc pe (region_create lower upper) = Inr (pe', r) \<and> region_inv (pe', r) {} \<and>
           m_lower r = lower \<and> m_upper r = upper \<and> m_pages r = n \<and>
           all_pages r = (\<lambda>p. lower + PAGE_SIZE * p) ` {..<256 * (n div 256)}"
proof -
  let ?r = "region_create lower upper" and ?L = "n div 4096"
  obtain u v where uv: "lower = PAGE_SIZE * u" "upper = PAGE_SIZE * v" using f unfolding fresh_region_def dvd_def by blast
  have n: "m_pages ?r = n" "lower + PAGE_SIZE * n = upper" "n = v - u" "u \<le> v"
    using f uv by (simp_all add: region_create_def n_def size_simps fresh_region_def PAGE_SIZE_def)
  have gives: "kmalloc_gives kmalloc (2 ^ 12)" "kmalloc_gives kmalloc (2 ^ 8)" using k by (simp_all add: kmalloc_gives_def)
  have zones: "large_zone_size div PAGE_SIZE = 2 ^ 12" "small_zone_size div PAGE_SIZE = 2 ^ 8"
    by (simp_all add: large_zone_size_def small_zone_size_def PAGE_SIZE_def)
  have base: "m_lower ?r = lower + PAGE_SIZE * zone_offset ?L 0" by (simp add: region_create_def)
  have m0: "made_zones pe ?r ?L 0" using uv by (simp add: made_zones_def region_create_def)
  have top: "lower + PAGE_SIZE * (zone_offset ?L 0 + n) < size_limit" "lower div PAGE_SIZE + zone_offset ?L 0 + n \<le> entry_count pe"
    using n f uv by (simp_all add: fresh_region_def PAGE_SIZE_def)
  obtain pe1 r1 where r1: "make_zones kmalloc (2 ^ 12) pe ?r (m_lower ?r) n 0 =
      Inr (pe1, r1, lower + PAGE_SIZE * zone_offset ?L ?L, n mod 4096, ?L)"
    "made_zones pe1 r1 ?L ?L" "m_lower r1 = lower" "m_upper r1 = upper" "m_pages r1 = n" "entry_count pe1 = entry_count pe"
    using make_zones_ok [OF _ gives(1) m0, of n 0] top n(1) by (auto simp: max_order_def zone_pages_def region_create_def)
  let ?r1 = "r1\<lparr>m_large_zones := ?L\<rparr>" and ?n = "?L + n mod 4096 div 256"
  have m1: "made_zones pe1 ?r1 ?L ?L" using r1(2) by (simp add: made_zones_def fresh_zone_def)
  have off: "zone_offset ?L ?L + n mod 4096 = n" by (simp add: zone_offset_def)
  then have "m_lower ?r1 + PAGE_SIZE * (zone_offset ?L ?L + n mod 4096) < size_limit"
    "m_lower ?r1 div PAGE_SIZE + zone_offset ?L ?L + n mod 4096 \<le> entry_count pe1"
    using top r1(3,6) by (simp_all add: add.assoc)
  from make_zones_ok [OF _ gives(2) m1 _ this, of 0] obtain pe2 r2 where
    r2: "make_zones kmalloc (2 ^ 8) pe1 ?r1 (lower + PAGE_SIZE * zone_offset ?L ?L) (n mod 4096) 0 =
      Inr (pe2, r2, lower + PAGE_SIZE * zone_offset ?L ?n, n mod 4096 mod 256, n mod 4096 div 256)"
    "made_zones pe2 r2 ?L ?n" "m_lower r2 = lower" "m_upper r2 = upper" "m_pages r2 = n" "m_large_zones r2 = ?L"
    using r1(3-5) by (auto simp: max_order_def zone_pages_def)
  have "initialize_zones kmalloc pe ?r = Inr (pe2, r2)"
    unfolding initialize_zones_def zones n(1) r1(1) bindR.simps prod.case r2(1) ..
  moreover have "region_inv (pe2, r2) {}"
  proof -
    have ok: "fresh_zone pe2 r2 ?L i" if "i < ?n" for i using r2(2) that by (simp add: made_zones_def)
    have "region_zones pe2 r2 (\<lambda>_. {})"
      using r2(2,6) ok unfolding region_zones_def made_zones_def fresh_zone_def page_at_def by simp
    moreover have "\<not> zone_full r2 (\<lambda>_. {}) i" for i
    proof -
      have "0 \<in> {..<zone_pages (m_large_zones r2) i}" by (simp add: zone_pages_def)
      then show ?thesis unfolding zone_full_def by blast
    qed
    then have "region_lists r2 (\<lambda>_. {})" using r2(2) unfolding region_lists_def made_zones_def by auto
    moreover have "{} = region_pages r2 (\<lambda>_. {})" by (simp add: region_pages_def)
    ultimately show ?thesis unfolding region_inv_def fst_conv snd_conv by blast
  qed
  moreover have "zone_offset ?L ?n = 256 * (n div 256)"
  proof -
    have "n = 16 * (n div 4096) * 256 + n mod 4096" by simp
    then have "n div 256 = 16 * (n div 4096) + n mod 4096 div 256" by (metis div_mult_self3 numeral_neq_zero)
    then show ?thesis by (simp add: zone_offset_def)
  qed
  then have "all_pages r2 = (\<lambda>p. lower + PAGE_SIZE * p) ` {..<256 * (n div 256)}"
    using r2(2,3,6) by (simp add: all_pages_def made_zones_def)
  ultimately show ?thesis using r2(3-5) by blast
qed

section \<open>A region as a provider of pages\<close>

datatype region_request = OnePage | Contiguous nat

fun region_take :: "page_entries \<times> region \<Rightarrow> region_request \<Rightarrow> ((page_entries \<times> region) \<times> nat list) result" where
  "region_take (pe, r) OnePage =
     bindR (take_free_page pe r) (\<lambda>(s, page). Inr (s, case page of None \<Rightarrow> [] | Some a \<Rightarrow> [a]))"
| "region_take (pe, r) (Contiguous count) = take_contiguous_free_pages pe r count"

fun region_give :: "page_entries \<times> region \<Rightarrow> nat \<Rightarrow> (page_entries \<times> region) result" where
  "region_give (pe, r) a = return_page pe r a"

fun region_request_ok :: "region_request \<Rightarrow> bool" where
  "region_request_ok OnePage = True"
| "region_request_ok (Contiguous count) \<longleftrightarrow> 0 < count \<and> count \<le> 2 ^ 31"

definition region_inv_at :: "region \<Rightarrow> page_entries \<times> region \<Rightarrow> nat set \<Rightarrow> bool" where
  "region_inv_at r0 s U \<longleftrightarrow> region_inv s U \<and> same_region r0 (snd s)"

interpretation region_pool: page_pool "region_inv_at r0" region_request_ok region_take region_give
  for r0
proof
  fix s U q
  assume at: "region_inv_at r0 s U" and ok: "region_request_ok q"
  obtain pe r where s: "s = (pe, r)" by fastforce
  have inv: "region_inv (pe, r) U" and same: "same_region r0 r" using at s by (simp_all add: region_inv_at_def)
  show "\<exists>s' ps W. region_take s q = Inr (s', ps) \<and> distinct ps \<and> set ps \<subseteq> W \<and> W \<inter> U = {} \<and> region_inv_at r0 s' (U \<union> W)"
  proof (cases q)
    case OnePage
    from take_free_page_ok [OF inv] show ?thesis
    proof (elim disjE exE conjE)
      assume "take_free_page pe r = Inr ((pe, r), None)"
      then show ?thesis using OnePage s at by (intro exI [of _ s] exI [of _ "[]"] exI [of _ "{}"]) simp
    next
      fix s' a assume "take_free_page pe r = Inr (s', Some a)" "block_taken 0 (pe, r) U a s'"
      then show ?thesis using OnePage s same_region_trans [OF same]
        by (intro exI [of _ s'] exI [of _ "[a]"] exI [of _ "{a}"]) (simp add: block_taken_def region_inv_at_def lessThan_Suc)
    qed
  next
    case (Contiguous count)
    then have count: "0 < count" "count \<le> 2 ^ 31" using ok by simp_all
    from take_contiguous_ok [OF inv count] obtain k where k: "count \<le> 2 ^ k"
      "take_contiguous_free_pages pe r count = Inr ((pe, r), []) \<or>
       (\<exists>s' a. take_contiguous_free_pages pe r count = Inr (s', map (\<lambda>i. a + PAGE_SIZE * i) [0..<count]) \<and> block_taken k (pe, r) U a s')"
      by (elim exE conjE disjE) blast+
    from k(2) show ?thesis
    proof (elim disjE exE conjE)
      assume "take_contiguous_free_pages pe r count = Inr ((pe, r), [])"
      then show ?thesis using Contiguous s at by (intro exI [of _ s] exI [of _ "[]"] exI [of _ "{}"]) simp
    next
      fix s' a
      assume t: "take_contiguous_free_pages pe r count = Inr (s', map (\<lambda>i. a + PAGE_SIZE * i) [0..<count])" "block_taken k (pe, r) U a s'"
      have "distinct (map (\<lambda>i. a + PAGE_SIZE * i) [0..<count])" by (simp add: distinct_map inj_on_def PAGE_SIZE_def)
      moreover have "set (map (\<lambda>i. a + PAGE_SIZE * i) [0..<count]) \<subseteq> (\<lambda>i. a + PAGE_SIZE * i) ` {..<2 ^ k}" using k(1) by auto
      ultimately show ?thesis using t Contiguous s same_region_trans [OF same]
        by (intro exI [of _ s'] exI [of _ "map (\<lambda>i. a + PAGE_SIZE * i) [0..<count]"] exI [of _ "(\<lambda>i. a + PAGE_SIZE * i) ` {..<2 ^ k}"])
          (auto simp: block_taken_def region_inv_at_def)
    qed
  qed
next
  fix s U p
  assume at: "region_inv_at r0 s U" and p: "p \<in> U"
  obtain pe r where s: "s = (pe, r)" by fastforce
  have inv: "region_inv (pe, r) U" and same: "same_region r0 r" using at s by (simp_all add: region_inv_at_def)
  from return_page_ok [OF inv p] show "\<exists>s'. region_give s p = Inr s' \<and> region_inv_at r0 s' (U - {p})"
    using s same_region_trans [OF same] by (auto simp: region_inv_at_def)
qed

lemma region_inv_bound: "region_inv s U \<Longrightarrow> U \<subseteq> all_pages (snd s)"
  using region_pages_bound by (auto simp: region_inv_def)

lemma all_pages_same: "same_region r r' \<Longrightarrow> all_pages r' = all_pages r"
  by (simp add: same_region_def all_pages_def)

section \<open>Properties\<close>

text \<open>
  C6: A region over page aligned bounds sets up its zones, and whatever clients do then (take single pages,
  take runs of pages, give back pages they hold in any order), no operation fails an assertion, no page
  is held twice, and every page held is a page of the region.
\<close>
theorem region_pages_disjoint:
  assumes "fresh_region pe lower upper" and "kmalloc_gives kmalloc 4096" and "\<forall>q \<in> taken ops. region_request_ok q"
  shows "\<exists>pe' r. initialize_zones kmalloc pe (region_create lower upper) = Inr (pe', r) \<and>
           (\<exists>s held. run_pages region_take region_give ops (pe', r) [] = Inr (s, held) \<and> distinct held \<and>
              (\<forall>a \<in> set held. PAGE_SIZE dvd a \<and> lower \<le> a \<and> a + PAGE_SIZE \<le> upper))"
proof -
  obtain pe' r where r: "initialize_zones kmalloc pe (region_create lower upper) = Inr (pe', r)" "region_inv (pe', r) {}"
    "all_pages r = (\<lambda>p. lower + PAGE_SIZE * p) ` {..<256 * ((upper - lower) div PAGE_SIZE div 256)}"
    using initialize_zones_ok [OF assms(1,2)] by blast
  have "region_inv_at r (pe', r) {}" using r(2) by (simp add: region_inv_at_def)
  from region_pool.run_pages_returns [OF this, of "[]" ops] assms(3) obtain s held U where
    s: "run_pages region_take region_give ops (pe', r) [] = Inr (s, held)" "region_inv_at r s U" "distinct held" "set held \<subseteq> U"
    by auto
  have sub: "set held \<subseteq> all_pages r"
    using s(2,4) region_inv_bound [of s U] all_pages_same [of r "snd s"] unfolding region_inv_at_def by blast
  have "PAGE_SIZE dvd a \<and> lower \<le> a \<and> a + PAGE_SIZE \<le> upper" if a: "a \<in> set held" for a
  proof -
    obtain p where p: "a = lower + PAGE_SIZE * p" "p < 256 * ((upper - lower) div PAGE_SIZE div 256)" using sub a r(3) by blast
    have "p < (upper - lower) div PAGE_SIZE" using p(2) times_div_less_eq_dividend [of 256 "(upper - lower) div PAGE_SIZE"] by linarith
    then have "Suc p * PAGE_SIZE \<le> upper - lower" by (simp add: less_eq_div_iff_mult_less_eq PAGE_SIZE_def flip: Suc_le_eq)
    then have le: "PAGE_SIZE + PAGE_SIZE * p \<le> upper - lower" by (simp add: mult.commute)
    have f: "PAGE_SIZE dvd lower" "lower \<le> upper" using assms(1) by (simp_all add: fresh_region_def)
    have "lower + PAGE_SIZE * p + PAGE_SIZE \<le> upper" using le f(2) by linarith
    then show ?thesis using p(1) f(1) by simp
  qed
  then show ?thesis using r(1) s(1,3) by blast
qed

theorem region_pages_disjoint_witness:
  "\<exists>pe' r. initialize_zones example_kmalloc example_entries (region_create 0x100000 0x200000) = Inr (pe', r) \<and>
     (\<exists>s held. run_pages region_take region_give [Take OnePage, Take (Contiguous 3), Give 2, Take OnePage] (pe', r) [] = Inr (s, held) \<and>
        distinct held \<and> (\<forall>a \<in> set held. PAGE_SIZE dvd a \<and> 0x100000 \<le> a \<and> a + PAGE_SIZE \<le> 0x200000))"
  by (rule region_pages_disjoint [OF _ example_kmalloc_gives])
    (auto simp: fresh_region_def PAGE_SIZE_def example_entries_def)

lemma example_region:
  "\<exists>pe r. initialize_zones example_kmalloc example_entries (region_create 0x100000 0x200000) = Inr (pe, r) \<and> region_inv (pe, r) {} \<and>
     all_pages r = (\<lambda>p. 0x100000 + PAGE_SIZE * p) ` {..<256}"
  using initialize_zones_ok [OF _ example_kmalloc_gives, of example_entries "0x100000" "0x200000"]
  by (auto simp: fresh_region_def PAGE_SIZE_def example_entries_def)

text \<open>
  C23: \<open>take_free_page\<close> finds a page whenever the zones have one: it always returns, with no page only if all pages of the
  zones are in use, and otherwise with a page of the zones that was not in use. The zones made by \<open>initialize_zones\<close> hold the pages of the
  region from its lower end in whole mebibytes (256 pages): the pages of the region that are never found are the last ones that do not fill a mebibyte, and no others.
\<close>
theorem take_free_page_complete:
  assumes "region_inv (pe, r) U"
  shows "(case take_free_page pe r of
           Inl e \<Rightarrow> False
         | Inr (s', None) \<Rightarrow> s' = (pe, r) \<and> U = all_pages r
         | Inr (s', Some a) \<Rightarrow> a \<in> all_pages r \<and> a \<notin> U \<and> region_inv s' (insert a U)) \<and>
    (fresh_region pe0 lower upper \<and> kmalloc_gives kmalloc 4096 \<longrightarrow>
      (\<exists>pe1 r1. initialize_zones kmalloc pe0 (region_create lower upper) = Inr (pe1, r1) \<and> region_inv (pe1, r1) {} \<and>
        all_pages r1 = (\<lambda>p. lower + PAGE_SIZE * p) ` {..<256 * ((upper - lower) div PAGE_SIZE div 256)}))"
    (is "?taken \<and> ?zones")
proof
  show ?zones using initialize_zones_ok [of pe0 lower upper kmalloc] by blast
  show ?taken
    using take_free_page_ok [OF assms]
  proof (elim disjE exE conjE)
    fix s' a assume t: "take_free_page pe r = Inr (s', Some a)" "block_taken 0 (pe, r) U a s'"
    then have b: "a \<notin> U" "region_inv s' (insert a U)" "same_region r (snd s')" by (simp_all add: block_taken_def lessThan_Suc)
    have "a \<in> all_pages r" using region_inv_bound [OF b(2)] all_pages_same [OF b(3)] by blast
    then show ?thesis using t(1) b by simp
  qed simp
qed

theorem take_free_page_complete_witness:
  "\<exists>pe r. initialize_zones example_kmalloc example_entries (region_create 0x100000 0x200000) = Inr (pe, r) \<and>
     all_pages r = (\<lambda>p. 0x100000 + PAGE_SIZE * p) ` {..<256} \<and>
     (case take_free_page pe r of
        Inl e \<Rightarrow> False
      | Inr (s', None) \<Rightarrow> s' = (pe, r) \<and> {} = all_pages r
      | Inr (s', Some a) \<Rightarrow> a \<in> all_pages r \<and> a \<notin> {} \<and> region_inv s' (insert a {}))"
proof -
  have f: "fresh_region example_entries 0x100000 0x200000" "(0x200000 - 0x100000) div PAGE_SIZE div 256 = 1"
    by (simp_all add: fresh_region_def PAGE_SIZE_def example_entries_def)
  obtain pe1 r1 where "region_inv (pe1, r1) {}" using example_region by blast
  from take_free_page_complete [OF this, of example_entries "0x100000" "0x200000" example_kmalloc] f example_kmalloc_gives
  obtain pe r where r: "initialize_zones example_kmalloc example_entries (region_create 0x100000 0x200000) = Inr (pe, r)"
    "region_inv (pe, r) {}" "all_pages r = (\<lambda>p. 0x100000 + PAGE_SIZE * p) ` {..<256}" by auto
  then show ?thesis using take_free_page_complete [OF r(2)] by blast
qed

text \<open>
  C29: A page taken from a region can be given back: \<open>return_page\<close> finds its zone from its address,
  verifies it and frees the page, and the pages in use are the ones that were in use before.
\<close>
theorem return_page_round_trip:
  assumes "region_inv (pe, r) U" and "take_free_page pe r = Inr ((pe', r'), Some a)"
  shows "\<exists>s. return_page pe' r' a = Inr s \<and> region_inv s U"
proof -
  have b: "a \<notin> U" "region_inv (pe', r') (insert a U)"
    using take_free_page_ok [OF assms(1)] assms(2) by (auto simp: block_taken_def lessThan_Suc)
  from return_page_ok [OF b(2), of a] b(1) show ?thesis by auto
qed

theorem return_page_round_trip_witness:
  "\<exists>pe r pe' r' a s. initialize_zones example_kmalloc example_entries (region_create 0x100000 0x200000) = Inr (pe, r) \<and>
     take_free_page pe r = Inr ((pe', r'), Some a) \<and> return_page pe' r' a = Inr s \<and> region_inv s {}"
proof -
  obtain pe r where r: "initialize_zones example_kmalloc example_entries (region_create 0x100000 0x200000) = Inr (pe, r)"
    "region_inv (pe, r) {}" "all_pages r = (\<lambda>p. 0x100000 + PAGE_SIZE * p) ` {..<256}"
    using example_region by blast
  have "all_pages r \<noteq> {}" unfolding r(3) by (simp add: lessThan_empty_iff)
  then obtain pe' r' a where "take_free_page pe r = Inr ((pe', r'), Some a)"
    using take_free_page_ok [OF r(2)] by (metis surj_pair)
  then show ?thesis using r(1) return_page_round_trip [OF r(2)] by blast
qed

text \<open>
  The bit smearing of \<open>next_power_of_two\<close> rounds up to the least power of two, for every
  argument from one to two to the 31; the result of zero is zero.
\<close>
theorem next_power_of_two_correct:
  assumes "unat v \<le> 2 ^ 31"
  shows "if v = 0 then next_power_of_two v = 0
         else \<exists>m \<le> 31. next_power_of_two v = 2 ^ m \<and> unat v \<le> 2 ^ m \<and> (\<forall>l < m. 2 ^ l < unat v)"
proof (cases "v = 0")
  case True
  then show ?thesis by (simp add: next_power_of_two_def)
next
  case False
  then show ?thesis using next_power_of_two_eq [OF _ assms] by (simp add: unat_gt_0)
qed

theorem next_power_of_two_correct_witness:
  "\<exists>m \<le> 31. next_power_of_two 1000 = 2 ^ m \<and> 1000 \<le> (2 :: nat) ^ m \<and> (\<forall>l < m. 2 ^ l < (1000 :: nat))"
  using next_power_of_two_correct [of 1000] by simp

text \<open>
  \<open>take_contiguous_free_pages\<close> takes a whole block of a power of two of pages but gives out only the
  number asked for. Pages are given back one by one, so when all of them are given back the
  others stay in use for ever: of three pages one is lost.
\<close>
theorem contiguous_pages_lost:
  assumes "region_inv (pe, r) U" and "take_contiguous_free_pages pe r 3 = Inr (s, [a, b, c])"
  shows "\<exists>s' d. bindR (region_give s a) (\<lambda>s. bindR (region_give s b) (\<lambda>s. region_give s c)) = Inr s' \<and>
           d \<notin> U \<and> region_inv s' (insert d U)"
proof -
  obtain k where k: "3 \<le> (2 :: nat) ^ k" "\<forall>l < k. 2 ^ l < (3 :: nat)"
    "\<exists>x. [a, b, c] = map (\<lambda>i. x + PAGE_SIZE * i) [0..<3] \<and> block_taken k (pe, r) U x s"
    using take_contiguous_ok [OF assms(1), of 3] unfolding assms(2) by (auto simp del: map_eq_Cons_conv)
  have three: "[0..<3] = [0, 1, 2 :: nat]" by (simp add: upt_rec)
  obtain x where abc: "a = x" "b = x + PAGE_SIZE" "c = x + 2 * PAGE_SIZE" and t: "block_taken k (pe, r) U x s"
    using k(3) unfolding three by auto
  have "k = 2"
  proof -
    have "k \<noteq> 0" "k \<noteq> 1" using k(1) by (auto intro: ccontr)
    moreover have "\<not> 2 < k" using k(2) by auto
    ultimately show ?thesis by simp
  qed
  then have four: "{..<(2 :: nat) ^ k} = {0, 1, 2, 3}" by auto
  define d where "d = x + 3 * PAGE_SIZE"
  have inv: "region_inv s (U \<union> {a, b, c, d})" and dis: "{a, b, c, d} \<inter> U = {}"
    using t unfolding block_taken_def four abc d_def by (simp_all add: mult.commute insert_commute)
  have neq: "distinct [a, b, c, d]" unfolding abc d_def by (simp add: PAGE_SIZE_def)
  have at: "region_inv_at (snd s) s (U \<union> {a, b, c, d})" using inv by (simp add: region_inv_at_def)
  obtain s1 where s1: "region_give s a = Inr s1" "region_inv_at (snd s) s1 (U \<union> {b, c, d})"
    using region_pool.give_law [OF at, of a] neq dis by (auto simp: Un_Diff insert_Diff_if)
  obtain s2 where s2: "region_give s1 b = Inr s2" "region_inv_at (snd s) s2 (U \<union> {c, d})"
    using region_pool.give_law [OF s1(2), of b] neq dis by (auto simp: Un_Diff insert_Diff_if)
  obtain s3 where s3: "region_give s2 c = Inr s3" "region_inv_at (snd s) s3 (U \<union> {d})"
    using region_pool.give_law [OF s2(2), of c] neq dis by (auto simp: Un_Diff insert_Diff_if)
  show ?thesis
    using s1(1) s2(1) s3 dis by (intro exI [of _ s3] exI [of _ d]) (simp add: region_inv_at_def)
qed

lemma example_contiguous: "\<exists>pe r s a b c. region_inv (pe, r) {} \<and> take_contiguous_free_pages pe r 3 = Inr (s, [a, b, c])"
proof -
  obtain pe r where r: "region_inv (pe, r) {}" "all_pages r = (\<lambda>p. 0x100000 + PAGE_SIZE * p) ` {..<256}"
    using example_region by blast
  then have "all_pages r \<noteq> {}" by (simp add: lessThan_empty_iff)
  then have n: "0 < length (m_zones r)" by (cases "m_zones r") (simp_all add: all_pages_def)
  obtain V where V: "region_zones pe r V" using r(1) by (auto simp: region_inv_def)
  have three: "0 < (3 :: nat)" "(3 :: nat) \<le> 2 ^ 31" by simp_all
  obtain k where k: "\<forall>l < k. 2 ^ l < (3 :: nat)"
    "take_contiguous_free_pages pe r 3 = Inr ((pe, r), []) \<and>
       (\<forall>i < length (m_zones r). \<forall>p. block_in (m_zones r ! i) k p \<longrightarrow> (\<exists>q \<in> blk k p. page_at r i q \<in> {})) \<or>
     (\<exists>s' a. take_contiguous_free_pages pe r 3 = Inr (s', map (\<lambda>i. a + PAGE_SIZE * i) [0..<3]) \<and> block_taken k (pe, r) {} a s')"
    using take_contiguous_ok [OF r(1), of 3, OF three] by blast
  have "\<not> 2 < k" using k(1) by auto
  then have "(2 :: nat) ^ k \<le> 2 ^ 2" by (intro power_increasing) simp_all
  then have "block_in (m_zones r ! 0) k 0"
    using region_zonesD(3) [OF V n] by (simp add: block_in_def zone_pages_def)
  then obtain s a where "take_contiguous_free_pages pe r 3 = Inr (s, map (\<lambda>i. a + PAGE_SIZE * i) [0..<3])"
    using k(2) n by blast
  moreover have "[0..<3] = [0, 1, 2 :: nat]" by (simp add: upt_rec)
  ultimately have "take_contiguous_free_pages pe r 3 = Inr (s, [a, a + PAGE_SIZE, a + PAGE_SIZE * 2])" by simp
  then show ?thesis using r(1) by blast
qed

theorem contiguous_pages_lost_witness:
  "\<exists>pe r s a b c s' d. take_contiguous_free_pages pe r 3 = Inr (s, [a, b, c]) \<and>
     bindR (region_give s a) (\<lambda>s. bindR (region_give s b) (\<lambda>s. region_give s c)) = Inr s' \<and> d \<notin> {} \<and> region_inv s' (insert d {})"
proof -
  obtain pe r s a b c where "region_inv (pe, r) {}" and t: "take_contiguous_free_pages pe r 3 = Inr (s, [a, b, c])"
    using example_contiguous by blast
  from contiguous_pages_lost [OF this] t show ?thesis by blast
qed

end
