(* ===== verification/Credentials.thy ===== *)
theory Credentials
  imports Prelude Bits
begin

unbundle bit_operations_syntax

text \<open>
  The credentials of a process and the system calls that change them:
  \<^verbatim>\<open>Kernel/Security/Credentials\<close> and \<^verbatim>\<open>Kernel/Syscalls/setuid.cpp\<close>. A system call is a
  function from the protected data of the process to the data after the call and the outcome; the flag
  \<open>promise_violation_pending\<close> belongs to the calling thread. Whether the allocations of a call
  succeed, and what it reads from user memory, are arguments.
\<close>

record credentials =
  m_uid :: u32
  m_gid :: u32
  m_euid :: u32
  m_egid :: u32
  m_suid :: u32
  m_sgid :: u32
  m_extra_gids :: "u32 list"
  m_sid :: int
  m_pgid :: int

record process =
  p_credentials :: credentials
  dumpable :: bool
  has_promises :: bool
  promises :: u32
  has_execpromises :: bool
  execpromises :: u32
  promise_violation_pending :: bool

definition credentials_create ::
    "bool \<Rightarrow> u32 \<Rightarrow> u32 \<Rightarrow> u32 \<Rightarrow> u32 \<Rightarrow> u32 \<Rightarrow> u32 \<Rightarrow> u32 list \<Rightarrow> int \<Rightarrow> int \<Rightarrow> credentials result" where
  "credentials_create memory uid gid euid egid suid sgid extra_gids sid pgid =
     (if memory
      then Inr \<lparr>m_uid = uid, m_gid = gid, m_euid = euid, m_egid = egid, m_suid = suid, m_sgid = sgid,
                m_extra_gids = extra_gids, m_sid = sid, m_pgid = pgid\<rparr>
      else Inl (Err ENOMEM))"

definition is_superuser :: "credentials \<Rightarrow> bool" where
  "is_superuser c \<longleftrightarrow> m_euid c = 0"

definition in_group :: "credentials \<Rightarrow> u32 \<Rightarrow> bool" where
  "in_group c gid \<longleftrightarrow> m_gid c = gid \<or> gid \<in> set (m_extra_gids c)"

section \<open>Promises\<close>

definition promise_names :: "string list" where
  "promise_names = [''stdio'', ''rpath'', ''wpath'', ''cpath'', ''dpath'', ''inet'', ''id'', ''proc'', ''ptrace'', ''exec'',
     ''unix'', ''recvfd'', ''sendfd'', ''fattr'', ''tty'', ''chown'', ''thread'', ''video'', ''accept'', ''settime'',
     ''sigaction'', ''setkeymap'', ''prot_exec'', ''map_fixed'', ''getkeymap'', ''mount'', ''unshare'', ''no_error'']"

definition Pledge_id :: nat where
  "Pledge_id = 6"

definition Pledge_no_error :: nat where
  "Pledge_no_error = 27"

definition has_promised :: "process \<Rightarrow> nat \<Rightarrow> bool" where
  "has_promised p pledge \<longleftrightarrow> promises p AND push_bit pledge 1 \<noteq> 0"

definition require_promise :: "process \<Rightarrow> nat \<Rightarrow> process \<times> unit result" where
  "require_promise p promise =
     (if \<not> has_promises p then (p, Inr ())
      else if has_promised p promise then (p, Inr ())
      else (p\<lparr>promise_violation_pending := True\<rparr>, Inl (Err EPROMISEVIOLATION)))"

text \<open>\<open>TRY(require_promise(...))\<close> in front of the body of a system call.\<close>
definition promised :: "process \<Rightarrow> nat \<Rightarrow> (process \<Rightarrow> process \<times> unit result) \<Rightarrow> process \<times> unit result" where
  "promised p promise body =
     (case require_promise p promise of
        (p', Inl e) \<Rightarrow> (p', Inl e)
      | (p', Inr _) \<Rightarrow> body p')"

section \<open>The system calls\<close>

definition sys_seteuid :: "bool \<Rightarrow> u32 \<Rightarrow> process \<Rightarrow> process \<times> unit result" where
  "sys_seteuid memory new_euid p = promised p Pledge_id (\<lambda>p.
     if new_euid = - 1 then (p, Inl (Err EINVAL))
     else
       let c = p_credentials p
       in if new_euid \<noteq> m_uid c \<and> new_euid \<noteq> m_suid c \<and> \<not> is_superuser c then (p, Inl (Err EPERM))
          else case credentials_create memory (m_uid c) (m_gid c) new_euid (m_egid c) (m_suid c) (m_sgid c)
                 (m_extra_gids c) (m_sid c) (m_pgid c) of
            Inl e \<Rightarrow> (p, Inl e)
          | Inr c' \<Rightarrow>
              let p1 = (if m_euid c \<noteq> new_euid then p\<lparr>dumpable := False\<rparr> else p)
              in (p1\<lparr>p_credentials := c'\<rparr>, Inr ()))"

definition sys_setegid :: "bool \<Rightarrow> u32 \<Rightarrow> process \<Rightarrow> process \<times> unit result" where
  "sys_setegid memory new_egid p = promised p Pledge_id (\<lambda>p.
     if new_egid = - 1 then (p, Inl (Err EINVAL))
     else
       let c = p_credentials p
       in if new_egid \<noteq> m_gid c \<and> new_egid \<noteq> m_sgid c \<and> \<not> is_superuser c then (p, Inl (Err EPERM))
          else case credentials_create memory (m_uid c) (m_gid c) (m_euid c) new_egid (m_suid c) (m_sgid c)
                 (m_extra_gids c) (m_sid c) (m_pgid c) of
            Inl e \<Rightarrow> (p, Inl e)
          | Inr c' \<Rightarrow>
              let p1 = (if m_egid c \<noteq> new_egid then p\<lparr>dumpable := False\<rparr> else p)
              in (p1\<lparr>p_credentials := c'\<rparr>, Inr ()))"

definition sys_setuid :: "bool \<Rightarrow> u32 \<Rightarrow> process \<Rightarrow> process \<times> unit result" where
  "sys_setuid memory new_uid p = promised p Pledge_id (\<lambda>p.
     if new_uid = - 1 then (p, Inl (Err EINVAL))
     else
       let c = p_credentials p
       in if new_uid \<noteq> m_uid c \<and> new_uid \<noteq> m_euid c \<and> \<not> is_superuser c then (p, Inl (Err EPERM))
          else case credentials_create memory new_uid (m_gid c) new_uid (m_egid c) new_uid (m_sgid c)
                 (m_extra_gids c) (m_sid c) (m_pgid c) of
            Inl e \<Rightarrow> (p, Inl e)
          | Inr c' \<Rightarrow>
              let p1 = (if m_euid c \<noteq> new_uid then p\<lparr>dumpable := False\<rparr> else p)
              in (p1\<lparr>p_credentials := c'\<rparr>, Inr ()))"

definition sys_setgid :: "bool \<Rightarrow> u32 \<Rightarrow> process \<Rightarrow> process \<times> unit result" where
  "sys_setgid memory new_gid p = promised p Pledge_id (\<lambda>p.
     if new_gid = - 1 then (p, Inl (Err EINVAL))
     else
       let c = p_credentials p
       in if new_gid \<noteq> m_gid c \<and> new_gid \<noteq> m_egid c \<and> \<not> is_superuser c then (p, Inl (Err EPERM))
          else case credentials_create memory (m_uid c) new_gid (m_euid c) new_gid (m_suid c) new_gid
                 (m_extra_gids c) (m_sid c) (m_pgid c) of
            Inl e \<Rightarrow> (p, Inl e)
          | Inr c' \<Rightarrow>
              let p1 = (if m_egid c \<noteq> new_gid then p\<lparr>dumpable := False\<rparr> else p)
              in (p1\<lparr>p_credentials := c'\<rparr>, Inr ()))"

text \<open>The lambdas \<open>ok\<close> of the calls that set several ids.\<close>
definition ok_uid :: "credentials \<Rightarrow> u32 \<Rightarrow> bool" where
  "ok_uid c i \<longleftrightarrow> i = m_uid c \<or> i = m_euid c \<or> i = m_suid c"

definition ok_gid :: "credentials \<Rightarrow> u32 \<Rightarrow> bool" where
  "ok_gid c i \<longleftrightarrow> i = m_gid c \<or> i = m_egid c \<or> i = m_sgid c"

definition sys_setreuid :: "bool \<Rightarrow> u32 \<Rightarrow> u32 \<Rightarrow> process \<Rightarrow> process \<times> unit result" where
  "sys_setreuid memory ruid euid p = promised p Pledge_id (\<lambda>p.
     let c = p_credentials p;
         new_ruid = (if ruid = - 1 then m_uid c else ruid);
         new_euid = (if euid = - 1 then m_euid c else euid)
     in if \<not> ok_uid c new_ruid \<or> \<not> ok_uid c new_euid then (p, Inl (Err EPERM))
        else if new_ruid < - 1 \<or> new_euid < - 1 then (p, Inl (Err EINVAL))
        else case credentials_create memory new_ruid (m_gid c) new_euid (m_egid c) (m_suid c) (m_sgid c)
               (m_extra_gids c) (m_sid c) (m_pgid c) of
          Inl e \<Rightarrow> (p, Inl e)
        | Inr c' \<Rightarrow>
            let p1 = (if m_euid c \<noteq> new_euid then p\<lparr>dumpable := False\<rparr> else p)
            in (p1\<lparr>p_credentials := c'\<rparr>, Inr ()))"

definition sys_setresuid :: "bool \<Rightarrow> u32 \<Rightarrow> u32 \<Rightarrow> u32 \<Rightarrow> process \<Rightarrow> process \<times> unit result" where
  "sys_setresuid memory ruid euid suid p = promised p Pledge_id (\<lambda>p.
     let c = p_credentials p;
         new_ruid = (if ruid = - 1 then m_uid c else ruid);
         new_euid = (if euid = - 1 then m_euid c else euid);
         new_suid = (if suid = - 1 then m_suid c else suid)
     in if (\<not> ok_uid c new_ruid \<or> \<not> ok_uid c new_euid \<or> \<not> ok_uid c new_suid) \<and> \<not> is_superuser c then (p, Inl (Err EPERM))
        else case credentials_create memory new_ruid (m_gid c) new_euid (m_egid c) new_suid (m_sgid c)
               (m_extra_gids c) (m_sid c) (m_pgid c) of
          Inl e \<Rightarrow> (p, Inl e)
        | Inr c' \<Rightarrow>
            let p1 = (if m_euid c \<noteq> new_euid then p\<lparr>dumpable := False\<rparr> else p)
            in (p1\<lparr>p_credentials := c'\<rparr>, Inr ()))"

definition sys_setregid :: "bool \<Rightarrow> u32 \<Rightarrow> u32 \<Rightarrow> process \<Rightarrow> process \<times> unit result" where
  "sys_setregid memory rgid egid p = promised p Pledge_id (\<lambda>p.
     let c = p_credentials p;
         new_rgid = (if rgid = - 1 then m_gid c else rgid);
         new_egid = (if egid = - 1 then m_egid c else egid)
     in if \<not> ok_gid c new_rgid \<or> \<not> ok_gid c new_egid then (p, Inl (Err EPERM))
        else case credentials_create memory (m_uid c) new_rgid (m_euid c) new_egid (m_suid c) (m_sgid c)
               (m_extra_gids c) (m_sid c) (m_pgid c) of
          Inl e \<Rightarrow> (p, Inl e)
        | Inr c' \<Rightarrow>
            let p1 = (if m_egid c \<noteq> new_egid then p\<lparr>dumpable := False\<rparr> else p)
            in (p1\<lparr>p_credentials := c'\<rparr>, Inr ()))"

definition sys_setresgid :: "bool \<Rightarrow> u32 \<Rightarrow> u32 \<Rightarrow> u32 \<Rightarrow> process \<Rightarrow> process \<times> unit result" where
  "sys_setresgid memory rgid egid sgid p = promised p Pledge_id (\<lambda>p.
     let c = p_credentials p;
         new_rgid = (if rgid = - 1 then m_gid c else rgid);
         new_egid = (if egid = - 1 then m_egid c else egid);
         new_sgid = (if sgid = - 1 then m_sgid c else sgid)
     in if (\<not> ok_gid c new_rgid \<or> \<not> ok_gid c new_egid \<or> \<not> ok_gid c new_sgid) \<and> \<not> is_superuser c then (p, Inl (Err EPERM))
        else case credentials_create memory (m_uid c) new_rgid (m_euid c) new_egid (m_suid c) new_sgid
               (m_extra_gids c) (m_sid c) (m_pgid c) of
          Inl e \<Rightarrow> (p, Inl e)
        | Inr c' \<Rightarrow>
            let p1 = (if m_egid c \<noteq> new_egid then p\<lparr>dumpable := False\<rparr> else p)
            in (p1\<lparr>p_credentials := c'\<rparr>, Inr ()))"

definition NGROUPS_MAX :: nat where
  "NGROUPS_MAX = 32"

text \<open>
  \<open>user_gids\<close> is what is read from user memory, nothing if it cannot be read, and \<open>table_order\<close> the order in which
  the hash table gives out its elements. The first flag says whether the vector and the table can
  be allocated.
\<close>
definition sys_setgroups ::
    "bool \<Rightarrow> bool \<Rightarrow> (u32 set \<Rightarrow> u32 list) \<Rightarrow> nat \<Rightarrow> u32 list option \<Rightarrow> process \<Rightarrow> process \<times> unit result" where
  "sys_setgroups vectors memory table_order count user_gids p = promised p Pledge_id (\<lambda>p.
     if count > NGROUPS_MAX then (p, Inl (Err EINVAL))
     else
       let c = p_credentials p;
           create = (\<lambda>extra_gids. credentials_create memory (m_uid c) (m_gid c) (m_euid c) (m_egid c) (m_suid c) (m_sgid c)
             extra_gids (m_sid c) (m_pgid c))
       in if \<not> is_superuser c then (p, Inl (Err EPERM))
          else if count = 0 then
            (case create [] of Inl e \<Rightarrow> (p, Inl e) | Inr c' \<Rightarrow> (p\<lparr>p_credentials := c'\<rparr>, Inr ()))
          else if \<not> vectors then (p, Inl (Err ENOMEM))
          else case user_gids of
                 None \<Rightarrow> (p, Inl (Err EFAULT))
               | Some new_extra_gids \<Rightarrow>
                   let unique_extra_gids = set (filter (\<lambda>extra_gid. extra_gid \<noteq> m_gid c) (take count new_extra_gids))
                   in (case create (table_order unique_extra_gids) of
                         Inl e \<Rightarrow> (p, Inl e)
                       | Inr c' \<Rightarrow> (p\<lparr>p_credentials := c'\<rparr>, Inr ())))"

end
