(* ===== verification/Set_Ids.thy ===== *)
theory Set_Ids
  imports Credentials
begin

text \<open>
  What the system calls that change credentials have in common, as an interface: they change
  nothing when they fail, only hand around the ids a process has unless it is the superuser, and
  make a process whose effective ids change undumpable. From this follows what sequences of such
  calls can do.
\<close>

definition uids :: "credentials \<Rightarrow> u32 set" where
  "uids c = {m_uid c, m_euid c, m_suid c}"

definition gids :: "credentials \<Rightarrow> u32 set" where
  "gids c = {m_gid c, m_egid c, m_sgid c}"

lemma own_ids [simp]:
  "m_uid c \<in> uids c" "m_euid c \<in> uids c" "m_suid c \<in> uids c" "m_gid c \<in> gids c" "m_egid c \<in> gids c" "m_sgid c \<in> gids c"
  by (simp_all add: uids_def gids_def)

lemma ok_iff: "ok_uid c i \<longleftrightarrow> i \<in> uids c" "ok_gid c i \<longleftrightarrow> i \<in> gids c"
  by (auto simp: ok_uid_def ok_gid_def uids_def gids_def)

locale id_call =
  fixes call :: "process \<Rightarrow> process \<times> unit result"
  assumes failure_law: "call p = (p', Inl e) \<Longrightarrow> p' = p\<lparr>promise_violation_pending := promise_violation_pending p'\<rparr>"
    and uids_law: "\<not> is_superuser (p_credentials p) \<Longrightarrow> uids (p_credentials (fst (call p))) \<subseteq> uids (p_credentials p)"
    and gids_law: "\<not> is_superuser (p_credentials p) \<Longrightarrow> gids (p_credentials (fst (call p))) \<subseteq> gids (p_credentials p)"
    and groups_law: "\<not> is_superuser (p_credentials p) \<Longrightarrow>
      m_extra_gids (p_credentials (fst (call p))) = m_extra_gids (p_credentials p)"
    and dumpable_law: "dumpable (fst (call p)) \<Longrightarrow> dumpable p \<and>
      m_euid (p_credentials (fst (call p))) = m_euid (p_credentials p) \<and>
      m_egid (p_credentials (fst (call p))) = m_egid (p_credentials p)"
    and promise_law: "has_promises p \<Longrightarrow> \<not> has_promised p Pledge_id \<Longrightarrow>
      call p = (p\<lparr>promise_violation_pending := True\<rparr>, Inl (Err EPROMISEVIOLATION))"
    and frame_law: "has_promises (fst (call p)) = has_promises p \<and> promises (fst (call p)) = promises p \<and>
      m_sid (p_credentials (fst (call p))) = m_sid (p_credentials p) \<and> m_pgid (p_credentials (fst (call p))) = m_pgid (p_credentials p)"
begin

text \<open>A process without the id 0 stays without it.\<close>
lemma stays_unprivileged:
  assumes "0 \<notin> uids (p_credentials p)"
  shows "0 \<notin> uids (p_credentials (fst (call p)))"
  using uids_law [of p] assms by (auto simp: is_superuser_def uids_def)

lemma dumpable_keeps_ids:
  assumes "dumpable (fst (call p))"
  shows "dumpable p" and "m_euid (p_credentials (fst (call p))) = m_euid (p_credentials p)"
    and "m_egid (p_credentials (fst (call p))) = m_egid (p_credentials p)"
  using dumpable_law [OF assms] by simp_all

lemma unpromised_keeps_credentials:
  assumes "has_promises p" and "\<not> has_promised p Pledge_id"
  shows "p_credentials (fst (call p)) = p_credentials p"
  using promise_law [OF assms] by simp

end

datatype id_request =
    Seteuid bool u32 | Setegid bool u32 | Setuid bool u32 | Setgid bool u32
  | Setreuid bool u32 u32 | Setresuid bool u32 u32 u32 | Setregid bool u32 u32 | Setresgid bool u32 u32 u32
  | Setgroups bool bool "u32 set \<Rightarrow> u32 list" nat "u32 list option"

fun run_id_call :: "id_request \<Rightarrow> process \<Rightarrow> process \<times> unit result" where
  "run_id_call (Seteuid m e) = sys_seteuid m e"
| "run_id_call (Setegid m e) = sys_setegid m e"
| "run_id_call (Setuid m u) = sys_setuid m u"
| "run_id_call (Setgid m g) = sys_setgid m g"
| "run_id_call (Setreuid m r e) = sys_setreuid m r e"
| "run_id_call (Setresuid m r e s) = sys_setresuid m r e s"
| "run_id_call (Setregid m r e) = sys_setregid m r e"
| "run_id_call (Setresgid m r e s) = sys_setresgid m r e s"
| "run_id_call (Setgroups v m order count user) = sys_setgroups v m order count user"

section \<open>What one call does\<close>

text \<open>The credentials a call may give a process: a process that is not the superuser only gets ids it has.\<close>
definition allowed :: "credentials \<Rightarrow> credentials \<Rightarrow> bool" where
  "allowed c c' \<longleftrightarrow> m_sid c' = m_sid c \<and> m_pgid c' = m_pgid c \<and>
     (is_superuser c \<or>
      {m_uid c', m_euid c', m_suid c'} \<subseteq> uids c \<and> {m_gid c', m_egid c', m_sgid c'} \<subseteq> gids c \<and> m_extra_gids c' = m_extra_gids c)"

definition id_step :: "process \<Rightarrow> process \<times> unit result \<Rightarrow> bool" where
  "id_step p out \<longleftrightarrow> (\<exists>b e. out = (p\<lparr>promise_violation_pending := b\<rparr>, Inl e)) \<or>
     (\<exists>c d. out = (p\<lparr>p_credentials := c, dumpable := d\<rparr>, Inr ()) \<and> allowed (p_credentials p) c \<and>
        (d \<longrightarrow> dumpable p \<and> m_euid c = m_euid (p_credentials p) \<and> m_egid c = m_egid (p_credentials p)))"

named_theorems id_steps \<open>rules for the outcome of a system call\<close>

lemma id_step_fail [id_steps]: "id_step p (p, Inl e)"
  unfolding id_step_def by (rule disjI1) (rule exI [of _ "promise_violation_pending p"], simp)

lemma id_step_if [id_steps]: "(b \<Longrightarrow> id_step p x) \<Longrightarrow> (\<not> b \<Longrightarrow> id_step p y) \<Longrightarrow> id_step p (if b then x else y)"
  by simp

lemma id_step_promised [id_steps]: "id_step p (body p) \<Longrightarrow> id_step p (promised p n body)"
  unfolding promised_def require_promise_def by (auto simp: id_step_def)

lemma id_step_create [id_steps]:
  assumes "allowed (p_credentials p) \<lparr>m_uid = u, m_gid = g, m_euid = eu, m_egid = eg, m_suid = su, m_sgid = sg, m_extra_gids = x, m_sid = s, m_pgid = pg\<rparr>"
    and "\<not> b \<Longrightarrow> eu = m_euid (p_credentials p) \<and> eg = m_egid (p_credentials p)"
  shows "id_step p (case credentials_create memory u g eu eg su sg x s pg of
      Inl e \<Rightarrow> (p, Inl e)
    | Inr c' \<Rightarrow> ((if b then p\<lparr>dumpable := False\<rparr> else p)\<lparr>p_credentials := c'\<rparr>, Inr ()))"
proof (cases memory)
  case True
  let ?c = "\<lparr>m_uid = u, m_gid = g, m_euid = eu, m_egid = eg, m_suid = su, m_sgid = sg, m_extra_gids = x, m_sid = s, m_pgid = pg\<rparr>"
  have "id_step p (p\<lparr>p_credentials := ?c, dumpable := \<not> b \<and> dumpable p\<rparr>, Inr ())"
    unfolding id_step_def using assms by (intro disjI2 exI [of _ ?c] exI [of _ "\<not> b \<and> dumpable p"]) simp
  then show ?thesis using True by (cases p; cases b) (simp_all add: credentials_create_def)
qed (simp add: credentials_create_def id_step_fail)

lemma id_step_groups [id_steps]:
  assumes "allowed (p_credentials p) \<lparr>m_uid = u, m_gid = g, m_euid = m_euid (p_credentials p), m_egid = m_egid (p_credentials p),
    m_suid = su, m_sgid = sg, m_extra_gids = x, m_sid = s, m_pgid = pg\<rparr>"
  shows "id_step p (case credentials_create memory u g (m_euid (p_credentials p)) (m_egid (p_credentials p)) su sg x s pg of
      Inl e \<Rightarrow> (p, Inl e)
    | Inr c' \<Rightarrow> (p\<lparr>p_credentials := c'\<rparr>, Inr ()))"
  by (rule id_step_create [OF assms, of False, unfolded if_False]) simp

lemma id_step_option [id_steps]: "(y = None \<Longrightarrow> id_step p a) \<Longrightarrow> (\<And>x. y = Some x \<Longrightarrow> id_step p (f x)) \<Longrightarrow> id_step p (case y of None \<Rightarrow> a | Some x \<Rightarrow> f x)"
  by (cases y) simp_all

lemma sets_ids:
  "id_step p (sys_seteuid m e p)" "id_step p (sys_setegid m e p)" "id_step p (sys_setuid m e p)" "id_step p (sys_setgid m e p)"
  "id_step p (sys_setreuid m r e p)" "id_step p (sys_setresuid m r e s p)" "id_step p (sys_setregid m r e p)"
  "id_step p (sys_setresgid m r e s p)" "id_step p (sys_setgroups v m order count user p)"
  unfolding sys_seteuid_def sys_setegid_def sys_setuid_def sys_setgid_def sys_setreuid_def
    sys_setresuid_def sys_setregid_def sys_setresgid_def sys_setgroups_def Let_def
  by (intro id_steps; (simp add: allowed_def ok_iff)?; (auto; fail)?)+

lemma run_id_call_step: "id_step p (run_id_call r p)"
  by (cases r) (simp_all add: sets_ids)

lemma id_stepE:
  assumes "id_step p out"
  obtains (fail) b e where "out = (p\<lparr>promise_violation_pending := b\<rparr>, Inl e)"
    | (ok) c d where "out = (p\<lparr>p_credentials := c, dumpable := d\<rparr>, Inr ())" "allowed (p_credentials p) c"
        "d \<Longrightarrow> dumpable p \<and> m_euid c = m_euid (p_credentials p) \<and> m_egid c = m_egid (p_credentials p)"
  using assms unfolding id_step_def by blast

interpretation id_calls: id_call "run_id_call r"
  for r
proof
  fix p p' e
  note step = run_id_call_step [of p r]
  show "run_id_call r p = (p', Inl e) \<Longrightarrow> p' = p\<lparr>promise_violation_pending := promise_violation_pending p'\<rparr>"
    using step by (cases rule: id_stepE) auto
  show "uids (p_credentials (fst (run_id_call r p))) \<subseteq> uids (p_credentials p)" if "\<not> is_superuser (p_credentials p)"
    using step that by (cases rule: id_stepE) (auto simp: allowed_def uids_def)
  show "gids (p_credentials (fst (run_id_call r p))) \<subseteq> gids (p_credentials p)" if "\<not> is_superuser (p_credentials p)"
    using step that by (cases rule: id_stepE) (auto simp: allowed_def gids_def)
  show "m_extra_gids (p_credentials (fst (run_id_call r p))) = m_extra_gids (p_credentials p)" if "\<not> is_superuser (p_credentials p)"
    using step that by (cases rule: id_stepE) (auto simp: allowed_def)
  show "dumpable p \<and> m_euid (p_credentials (fst (run_id_call r p))) = m_euid (p_credentials p) \<and>
      m_egid (p_credentials (fst (run_id_call r p))) = m_egid (p_credentials p)" if "dumpable (fst (run_id_call r p))"
    using step that by (cases rule: id_stepE) auto
  show "run_id_call r p = (p\<lparr>promise_violation_pending := True\<rparr>, Inl (Err EPROMISEVIOLATION))"
    if "has_promises p" "\<not> has_promised p Pledge_id"
    using that by (cases r) (simp_all add: promised_def require_promise_def sys_seteuid_def sys_setegid_def sys_setuid_def
        sys_setgid_def sys_setreuid_def sys_setresuid_def sys_setregid_def sys_setresgid_def sys_setgroups_def)
  show "has_promises (fst (run_id_call r p)) = has_promises p \<and> promises (fst (run_id_call r p)) = promises p \<and>
      m_sid (p_credentials (fst (run_id_call r p))) = m_sid (p_credentials p) \<and>
      m_pgid (p_credentials (fst (run_id_call r p))) = m_pgid (p_credentials p)"
    using step by (cases rule: id_stepE) (auto simp: allowed_def)
qed

section \<open>Sequences of calls\<close>

text \<open>The processes reached from a process by any number of calls.\<close>
inductive id_reach :: "process \<Rightarrow> process \<Rightarrow> bool" for p0 where
  start: "id_reach p0 p0"
| call: "id_reach p0 p \<Longrightarrow> id_reach p0 (fst (run_id_call r p))"

lemma uids_reach:
  assumes "id_reach p0 p" and "0 \<notin> uids (p_credentials p0)"
  shows "uids (p_credentials p) \<subseteq> uids (p_credentials p0)"
  using assms
proof (induction rule: id_reach.induct)
  case (call p r)
  then have "\<not> is_superuser (p_credentials p)" by (auto simp: is_superuser_def uids_def)
  then show ?case using id_calls.uids_law [of p r] call by blast
qed simp

lemma gids_reach:
  assumes "id_reach p0 p" and "0 \<notin> uids (p_credentials p0)"
  shows "gids (p_credentials p) \<subseteq> gids (p_credentials p0) \<and> m_extra_gids (p_credentials p) = m_extra_gids (p_credentials p0)"
  using assms
proof (induction rule: id_reach.induct)
  case (call p r)
  then have "\<not> is_superuser (p_credentials p)" using uids_reach [OF call.hyps] by (auto simp: is_superuser_def uids_def)
  then show ?case using id_calls.gids_law [of p r] id_calls.groups_law [of p r] call by auto
qed simp

section \<open>Properties\<close>

text \<open>
  C14: A process none of whose user ids is 0 can never become the superuser by any sequence of the system calls of
  \<^verbatim>\<open>setuid.cpp\<close>, and only ever has user and group ids, and the supplementary groups, that it had at the start.
\<close>
theorem no_privilege_escalation:
  assumes "id_reach p0 p" and "0 \<notin> uids (p_credentials p0)"
  shows "\<not> is_superuser (p_credentials p) \<and> uids (p_credentials p) \<subseteq> uids (p_credentials p0) \<and>
         gids (p_credentials p) \<subseteq> gids (p_credentials p0) \<and> m_extra_gids (p_credentials p) = m_extra_gids (p_credentials p0)"
  using uids_reach [OF assms] gids_reach [OF assms] assms(2) by (auto simp: is_superuser_def uids_def)

definition example_credentials :: credentials where
  "example_credentials = \<lparr>m_uid = 100, m_gid = 100, m_euid = 200, m_egid = 100, m_suid = 200, m_sgid = 100,
     m_extra_gids = [3], m_sid = 1, m_pgid = 1\<rparr>"

definition example_process :: process where
  "example_process = \<lparr>p_credentials = example_credentials, dumpable = True, has_promises = False, promises = 0,
     has_execpromises = False, execpromises = 0, promise_violation_pending = False\<rparr>"

theorem no_privilege_escalation_witness:
  "snd (run_id_call (Seteuid True 100) example_process) = Inr () \<and>
   \<not> is_superuser (p_credentials (fst (run_id_call (Seteuid True 100) example_process))) \<and>
   uids (p_credentials (fst (run_id_call (Seteuid True 100) example_process))) \<subseteq> {100, 200}"
proof -
  have "snd (run_id_call (Seteuid True 100) example_process) = Inr ()"
    by (simp add: sys_seteuid_def promised_def require_promise_def example_process_def example_credentials_def credentials_create_def)
  moreover have "id_reach example_process (fst (run_id_call (Seteuid True 100) example_process))"
    by (intro id_reach.intros)
  moreover have "uids (p_credentials example_process) = {100, 200}"
    by (auto simp: uids_def example_process_def example_credentials_def)
  ultimately show ?thesis using no_privilege_escalation [of example_process] by auto
qed

text \<open>
  C35: Dropping privileges with \<open>setuid\<close> is final: when the superuser calls it with an id other than 0, the process has
  only that user id afterwards, whatever it calls later.
\<close>
theorem setuid_drops_privileges:
  assumes "is_superuser (p_credentials p)" and "new_uid \<noteq> 0" and "sys_setuid memory new_uid p = (p1, Inr ())"
    and "id_reach p1 p2"
  shows "uids (p_credentials p2) = {new_uid} \<and> \<not> is_superuser (p_credentials p2)"
proof -
  have "uids (p_credentials p1) = {new_uid}"
    using assms(1-3) unfolding sys_setuid_def promised_def require_promise_def credentials_create_def
    by (auto simp: Let_def uids_def split: if_splits)
  moreover from this have "uids (p_credentials p2) \<subseteq> {new_uid}" using uids_reach [OF assms(4)] assms(2) by simp
  ultimately show ?thesis using assms(2) by (auto simp: uids_def is_superuser_def)
qed

theorem setuid_drops_privileges_witness:
  "\<exists>p1. sys_setuid True 100 (example_process\<lparr>p_credentials := example_credentials\<lparr>m_euid := 0\<rparr>\<rparr>) = (p1, Inr ()) \<and>
     uids (p_credentials (fst (sys_setresuid True 0 0 0 p1))) = {100}"
proof -
  let ?p = "example_process\<lparr>p_credentials := example_credentials\<lparr>m_euid := 0\<rparr>\<rparr>"
  obtain p1 where p1: "sys_setuid True 100 ?p = (p1, Inr ())"
    by (simp add: sys_setuid_def promised_def require_promise_def example_process_def example_credentials_def credentials_create_def Let_def)
  have "id_reach p1 (fst (run_id_call (Setresuid True 0 0 0) p1))" by (intro id_reach.intros)
  from setuid_drops_privileges [OF _ _ p1 this] p1 show ?thesis by (simp add: is_superuser_def)
qed

text \<open>
  A call that changes the effective user or group id of a process clears its dumpable flag, and no call sets
  it; a call that fails changes neither the credentials nor the flag.
\<close>
theorem changed_ids_not_dumpable:
  "(dumpable (fst (run_id_call r p)) \<longrightarrow> dumpable p \<and>
      m_euid (p_credentials (fst (run_id_call r p))) = m_euid (p_credentials p) \<and>
      m_egid (p_credentials (fst (run_id_call r p))) = m_egid (p_credentials p)) \<and>
   (\<forall>e. snd (run_id_call r p) = Inl e \<longrightarrow>
      p_credentials (fst (run_id_call r p)) = p_credentials p \<and> dumpable (fst (run_id_call r p)) = dumpable p)"
proof (intro conjI impI allI)
  assume "dumpable (fst (run_id_call r p))"
  then show "dumpable p" "m_euid (p_credentials (fst (run_id_call r p))) = m_euid (p_credentials p)"
    "m_egid (p_credentials (fst (run_id_call r p))) = m_egid (p_credentials p)"
    by (rule id_calls.dumpable_keeps_ids)+
next
  fix e assume e: "snd (run_id_call r p) = Inl e"
  from run_id_call_step [of p r] show "p_credentials (fst (run_id_call r p)) = p_credentials p"
    using e by (cases rule: id_stepE) auto
  from run_id_call_step [of p r] show "dumpable (fst (run_id_call r p)) = dumpable p"
    using e by (cases rule: id_stepE) auto
qed

theorem changed_ids_not_dumpable_witness:
  "dumpable example_process \<and> m_euid (p_credentials (fst (run_id_call (Seteuid True 100) example_process))) = 100 \<and>
   \<not> dumpable (fst (run_id_call (Seteuid True 100) example_process))"
proof -
  have "m_euid (p_credentials (fst (run_id_call (Seteuid True 100) example_process))) = 100"
    by (simp add: sys_seteuid_def promised_def require_promise_def example_process_def example_credentials_def credentials_create_def)
  moreover have "m_euid (p_credentials example_process) = 200" "dumpable example_process"
    by (simp_all add: example_process_def example_credentials_def)
  ultimately show ?thesis using changed_ids_not_dumpable [of "Seteuid True 100" example_process] by auto
qed

text \<open>
  \<open>setreuid\<close> never succeeds: after the ids are checked it reports \<open>EINVAL\<close> for every id below the
  largest one, so with ids other than the largest, which no process has, every call fails.
\<close>
theorem setreuid_never_succeeds:
  assumes "- 1 \<notin> uids (p_credentials p)"
  shows "snd (sys_setreuid memory ruid euid p) \<noteq> Inr () \<and> p_credentials (fst (sys_setreuid memory ruid euid p)) = p_credentials p"
proof -
  let ?c = "p_credentials p"
  have lt: "x < - 1" if "ok_uid ?c x" for x
    using that assms by (metis ok_iff(1) word_order.not_eq_extremum)
  show ?thesis
    unfolding sys_setreuid_def promised_def require_promise_def Let_def
    using lt by (simp add: if_distrib [of "\<lambda>x. x < - 1"])
qed

theorem setreuid_never_succeeds_witness:
  "snd (sys_setreuid True 200 100 example_process) \<noteq> Inr () \<and>
   p_credentials (fst (sys_setreuid True 200 100 example_process)) = p_credentials example_process"
  by (rule setreuid_never_succeeds) (simp add: uids_def example_process_def example_credentials_def)

end
