(* ===== verification/String_View.thy ===== *)
theory String_View
  imports Prelude "HOL-Library.Sublist"
begin

text \<open>
  What the kernel does with strings: \<^verbatim>\<open>StringView::for_each_split_view\<close> for one separator with empty parts
  dropped, string arguments of system calls, and \<^verbatim>\<open>Kernel/Library/KLexicalPath\<close>. A string argument is its length
  and what is in user memory, nothing if it cannot be read.
\<close>

section \<open>Splitting\<close>

function split_view :: "char \<Rightarrow> string \<Rightarrow> string list" where
  "split_view separator view =
     (case dropWhile (\<lambda>c. c \<noteq> separator) view of
        [] \<Rightarrow> (if view \<noteq> [] then [view] else [])
      | _ # rest \<Rightarrow>
          let part = takeWhile (\<lambda>c. c \<noteq> separator) view
          in if part \<noteq> [] then part # split_view separator rest else split_view separator rest)"
  by pat_completeness auto
termination
proof (relation "measure (\<lambda>(separator, view). length view)")
  fix separator view and c :: char and rest
  assume "dropWhile (\<lambda>c. c \<noteq> separator) view = c # rest"
  then have "length (c # rest) \<le> length view" by (metis length_dropWhile_le)
  then show "((separator, rest), separator, view) \<in> measure (\<lambda>(separator, view). length view)" by simp
  then show "((separator, rest), separator, view) \<in> measure (\<lambda>(separator, view). length view)" .
qed simp

declare split_view.simps [simp del]

definition join_words :: "char \<Rightarrow> string list \<Rightarrow> string" where
  "join_words separator ws = concat (map (\<lambda>w. w @ [separator]) ws)"

text \<open>Splitting gives back the words, also when there are more separators between them or at the ends.\<close>
lemma split_word: "w \<noteq> [] \<Longrightarrow> separator \<notin> set w \<Longrightarrow> split_view separator (w @ separator # rest) = w # split_view separator rest"
  by (subst split_view.simps) (simp add: takeWhile_append2 dropWhile_append2 Let_def takeWhile_append dropWhile_append)

lemma split_separator: "split_view separator (separator # rest) = split_view separator rest"
  by (subst split_view.simps) simp

lemma split_nil [simp]: "split_view separator [] = []"
  by (subst split_view.simps) simp

lemma split_join:
  assumes "\<And>w. w \<in> set ws \<Longrightarrow> w \<noteq> [] \<and> separator \<notin> set w"
  shows "split_view separator (join_words separator ws) = ws"
  using assms by (induction ws) (simp_all add: join_words_def split_word)

lemma split_words:
  assumes "w \<in> set (split_view separator view)"
  shows "w \<noteq> [] \<and> separator \<notin> set w"
  using assms
proof (induction separator view rule: split_view.induct)
  case (1 separator view)
  show ?case
  proof (cases "dropWhile (\<lambda>c. c \<noteq> separator) view")
    case Nil
    then have "separator \<notin> set view" by auto
    then show ?thesis using 1(3) Nil by (simp add: split_view.simps [of separator view] split: if_splits)
  next
    case (Cons c rest)
    let ?part = "takeWhile (\<lambda>c. c \<noteq> separator) view"
    have "separator \<notin> set ?part" using set_takeWhileD [of separator "\<lambda>c. c \<noteq> separator" view] by blast
    then show ?thesis
      using 1(1,2) [OF Cons] 1(3) Cons by (auto simp: split_view.simps [of separator view] Let_def split: if_splits)
  qed
qed

section \<open>String arguments\<close>

record string_argument =
  sa_length :: nat
  sa_contents :: "string option"

definition get_syscall_string_fixed_buffer :: "nat \<Rightarrow> string_argument \<Rightarrow> string result" where
  "get_syscall_string_fixed_buffer Size argument =
     (if sa_length argument > Size then Inl (Err E2BIG)
      else case sa_contents argument of
             None \<Rightarrow> Inl (Err EFAULT)
           | Some characters \<Rightarrow> Inr (takeWhile (\<lambda>c. c \<noteq> CHR 0x00) (take (sa_length argument) characters)))"

definition PATH_MAX :: nat where
  "PATH_MAX = 4096"

definition get_syscall_path_argument :: "string_argument \<Rightarrow> string result" where
  "get_syscall_path_argument argument =
     (if sa_length argument = 0 then Inl (Err EINVAL)
      else if sa_length argument > PATH_MAX then Inl (Err ENAMETOOLONG)
      else case sa_contents argument of
             None \<Rightarrow> Inl (Err EFAULT)
           | Some characters \<Rightarrow> Inr (takeWhile (\<lambda>c. c \<noteq> CHR 0x00) (take (sa_length argument) characters)))"

section \<open>Paths\<close>

fun contains_string :: "string \<Rightarrow> string \<Rightarrow> bool" where
  "contains_string needle [] \<longleftrightarrow> needle = []"
| "contains_string needle (c # cs) \<longleftrightarrow> prefix needle (c # cs) \<or> contains_string needle cs"

definition is_absolute :: "string \<Rightarrow> bool" where
  "is_absolute path \<longleftrightarrow> path \<noteq> [] \<and> hd path = CHR ''/''"

definition is_canonical :: "string \<Rightarrow> bool" where
  "is_canonical path \<longleftrightarrow>
     path \<noteq> [] \<and> \<not> (suffix ''/'' path \<and> length path \<noteq> 1) \<and>
     \<not> (prefix ''./'' path \<or> contains_string ''/./'' path \<or> suffix ''/.'' path) \<and>
     \<not> (prefix ''../'' path \<or> contains_string ''/../'' path \<or> suffix ''/..'' path) \<and>
     \<not> contains_string ''//'' path"

text \<open>What follows the last slash, and what comes before it.\<close>
definition after_last_slash :: "string \<Rightarrow> string" where
  "after_last_slash path = rev (takeWhile (\<lambda>c. c \<noteq> CHR ''/'') (rev path))"

definition before_last_slash :: "string \<Rightarrow> string" where
  "before_last_slash path = rev (drop 1 (dropWhile (\<lambda>c. c \<noteq> CHR ''/'') (rev path)))"

definition path_basename :: "string \<Rightarrow> string" where
  "path_basename a_path =
     (if a_path = ''/'' then a_path
      else if a_path = [] then ''.''
      else
        let path = rev (dropWhile (\<lambda>c. c = CHR ''/'') (rev a_path))
        in if path = [] then take 1 a_path
           else if CHR ''/'' \<notin> set path then path
           else after_last_slash path)"

definition path_dirname :: "string \<Rightarrow> string result" where
  "path_dirname path =
     (if \<not> is_canonical path then Inl VerifyFailed
      else if CHR ''/'' \<notin> set path then Inl VerifyFailed
      else Inr (before_last_slash path))"

definition path_parts :: "string \<Rightarrow> string list result" where
  "path_parts path = (if \<not> is_canonical path then Inl VerifyFailed else Inr (split_view CHR ''/'' path))"

definition try_join :: "bool \<Rightarrow> string \<Rightarrow> string \<Rightarrow> string result" where
  "try_join memory first second =
     (if \<not> is_canonical first then Inl VerifyFailed
      else if \<not> is_canonical second then Inl VerifyFailed
      else if is_absolute second then Inl VerifyFailed
      else if \<not> memory then Inl (Err ENOMEM)
      else if first = ''/'' then Inr (''/'' @ second)
      else Inr (first @ ''/'' @ second))"

text \<open>The absolute path with given parts.\<close>
definition path_of :: "string list \<Rightarrow> string" where
  "path_of ps = (if ps = [] then ''/'' else concat (map (\<lambda>p. CHR ''/'' # p) ps))"

text \<open>A name that can be a component of a path.\<close>
definition path_name :: "string \<Rightarrow> bool" where
  "path_name w \<longleftrightarrow> w \<noteq> [] \<and> CHR ''/'' \<notin> set w \<and> w \<noteq> ''.'' \<and> w \<noteq> ''..''"

lemma split_path: "(\<And>w. w \<in> set ps \<Longrightarrow> path_name w) \<Longrightarrow> split_view CHR ''/'' (path_of ps) = ps"
proof (induction ps)
  case Nil
  then show ?case by (simp add: path_of_def split_separator)
next
  case (Cons w ps)
  then have w: "w \<noteq> []" "CHR ''/'' \<notin> set w" by (simp_all add: path_name_def)
  show ?case
  proof (cases ps)
    case Nil
    have dw: "dropWhile (\<lambda>c. c \<noteq> CHR ''/'') w = []" using w(2) by (simp add: dropWhile_eq_Nil_conv) blast
    have "split_view CHR ''/'' w = [w]" unfolding split_view.simps [of _ w] dw using w(1) by simp
    then show ?thesis using Nil by (simp add: path_of_def split_separator)
  next
    case (Cons v vs)
    then have "path_of (w # ps) = CHR ''/'' # w @ path_of ps" "path_of ps = CHR ''/'' # tl (path_of ps)" by (simp_all add: path_of_def)
    then have "split_view CHR ''/'' (path_of (w # ps)) = w # split_view CHR ''/'' (tl (path_of ps))"
      using split_word [OF w] by (metis split_separator)
    moreover have "split_view CHR ''/'' (tl (path_of ps)) = ps"
      using Cons.IH Cons.prems \<open>path_of ps = CHR ''/'' # tl (path_of ps)\<close> by (metis list.set_intros(2) split_separator)
    ultimately show ?thesis by simp
  qed
qed

lemma contains_string_iff: "contains_string needle s \<longleftrightarrow> (\<exists>a b. s = a @ needle @ b)"
proof (induction s)
  case (Cons c s)
  show ?case
  proof
    assume "contains_string needle (c # s)"
    then consider b where "c # s = [] @ needle @ b" | a b where "c # s = (c # a) @ needle @ b"
      using Cons by (auto simp: prefix_def)
    then show "\<exists>a b. c # s = a @ needle @ b" by cases blast+
  next
    assume "\<exists>a b. c # s = a @ needle @ b"
    then obtain a b where ab: "c # s = a @ needle @ b" by blast
    show "contains_string needle (c # s)"
    proof (cases a)
      case Nil
      then have "prefix needle (c # s)" using ab by (simp only: append_Nil prefixI)
      then show ?thesis by simp
    next
      case (Cons x xs)
      then show ?thesis using ab Cons.IH by auto
    qed
  qed
qed auto

lemma split_clean:
  assumes "view \<noteq> []" and "hd view \<noteq> sep" and "last view \<noteq> sep" and "\<And>a b. view \<noteq> a @ [sep, sep] @ b"
  shows "concat (map (\<lambda>p. sep # p) (split_view sep view)) = sep # view"
  using assms
proof (induction sep view rule: split_view.induct)
  case (1 sep view)
  show ?case
  proof (cases "dropWhile (\<lambda>c. c \<noteq> sep) view")
    case Nil
    then show ?thesis unfolding split_view.simps [of sep view] Nil using 1(3) by simp
  next
    case (Cons c rest)
    let ?part = "takeWhile (\<lambda>c. c \<noteq> sep) view"
    have c: "c = sep" using hd_dropWhile [of "\<lambda>c. c \<noteq> sep" view] Cons by simp
    have v: "view = ?part @ sep # rest" using Cons c takeWhile_dropWhile_id [of "\<lambda>c. c \<noteq> sep" view] by simp
    have part: "?part \<noteq> []" using 1(3,4) by (cases view) simp_all
    have "rest \<noteq> []"
    proof
      assume "rest = []"
      then have "last view = sep" by (subst v) simp
      then show False using 1(5) by simp
    qed
    moreover have "hd rest \<noteq> sep"
    proof
      assume "hd rest = sep"
      then obtain r where "rest = sep # r" using \<open>rest \<noteq> []\<close> by (cases rest) auto
      then have "view = ?part @ [sep, sep] @ r" using v by simp
      then show False using 1(6) by blast
    qed
    moreover have "last rest \<noteq> sep" using 1(5) \<open>rest \<noteq> []\<close> by (subst (asm) v) simp
    moreover have "rest \<noteq> a @ [sep, sep] @ b" for a b using 1(6) [of "?part @ sep # a" b] v by auto
    ultimately have "concat (map (\<lambda>p. sep # p) (split_view sep rest)) = sep # rest" using 1(1) [OF Cons refl part] by blast
    then show ?thesis using Cons part v by (simp add: split_view.simps [of sep view] Let_def)
  qed
qed

text \<open>The parts of a canonical absolute path are the path.\<close>
lemma path_of_split:
  assumes "is_canonical path" and "is_absolute path"
  shows "path_of (split_view CHR ''/'' path) = path"
proof -
  obtain rest where path: "path = CHR ''/'' # rest" using assms(2) by (cases path) (auto simp: is_absolute_def)
  have c: "\<not> (suffix ''/'' path \<and> length path \<noteq> 1)" "\<not> contains_string ''//'' path"
    using assms(1) by (simp_all add: is_canonical_def)
  show ?thesis
  proof (cases "rest = []")
    case True
    then show ?thesis using path by (simp add: split_separator path_of_def)
  next
    case False
    have no: "path \<noteq> a @ ''//'' @ b" for a b using c(2) by (auto simp: contains_string_iff)
    have "hd rest \<noteq> CHR ''/''" using no [of "[]" "tl rest"] path False by (cases rest) auto
    moreover have "last rest \<noteq> CHR ''/''"
    proof
      assume "last rest = CHR ''/''"
      then have "path = (CHR ''/'' # butlast rest) @ ''/''" using path append_butlast_last_id [OF False] by simp
      then have "suffix ''/'' path" unfolding suffix_def by blast
      then show False using c(1) path False by simp
    qed
    moreover have "rest \<noteq> a @ [CHR ''/'', CHR ''/''] @ b" for a b using no [of "CHR ''/'' # a" b] path by auto
    ultimately have "concat (map (\<lambda>p. CHR ''/'' # p) (split_view CHR ''/'' rest)) = path"
      using split_clean [OF False, of "CHR ''/''"] path by simp
    moreover have "split_view CHR ''/'' rest \<noteq> []" using calculation path by auto
    ultimately show ?thesis using path by (simp add: path_of_def split_separator)
  qed
qed

end
