(* ===== verification/Pledge.thy ===== *)
theory Pledge
  imports Set_Ids String_View
begin

unbundle bit_operations_syntax

text \<open>
  \<^verbatim>\<open>Kernel/Syscalls/pledge.cpp\<close>: a process gives up promises. A string argument of a system call is its length and what
  is in user memory, nothing if it cannot be read. What \<^verbatim>\<open>Process::do_exec\<close> in \<^verbatim>\<open>Kernel/Syscalls/execve.cpp\<close> does to the credentials
  and promises of the process is here as well.
\<close>

section \<open>The system call\<close>

definition all_promises_strings_length_with_spaces :: nat where
  "all_promises_strings_length_with_spaces = sum_list (map (\<lambda>x. length x + 1 + 1) promise_names) - 1"

fun index_of :: "'a list \<Rightarrow> 'a \<Rightarrow> nat option" where
  "index_of [] y = None"
| "index_of (x # xs) y = (if y = x then Some 0 else map_option Suc (index_of xs y))"

text \<open>The callback for one part: the flag is \<open>found_invalid_pledge\<close>, which is set to false on an unknown promise.\<close>
definition parse_part :: "string \<Rightarrow> u32 \<times> bool \<Rightarrow> u32 \<times> bool" where
  "parse_part part = (\<lambda>(flags, found_invalid_pledge).
     case index_of promise_names part of
       Some n \<Rightarrow> (flags OR push_bit n 1, found_invalid_pledge)
     | None \<Rightarrow> (flags, False))"

definition parse_pledge :: "string \<Rightarrow> u32 \<Rightarrow> u32 \<times> bool" where
  "parse_pledge pledge_spec flags = fold parse_part (split_view CHR '' '' pledge_spec) (flags, True)"

text \<open>An argument that is given: its string is fetched and parsed.\<close>
definition fetch_promises :: "string_argument option \<Rightarrow> string result" where
  "fetch_promises argument =
     (case argument of
        None \<Rightarrow> Inr []
      | Some a \<Rightarrow> get_syscall_string_fixed_buffer all_promises_strings_length_with_spaces a)"

definition parse_promises :: "string_argument option \<Rightarrow> string \<Rightarrow> u32 result" where
  "parse_promises argument spec =
     (if argument \<noteq> None
      then let (flags, ok) = parse_pledge spec 0 in if \<not> ok then Inl (Err EINVAL) else Inr flags
      else Inr 0)"

text \<open>The check that no promise is regained, with the old and the new set of promises.\<close>
definition narrow_promises :: "process \<Rightarrow> bool \<Rightarrow> u32 \<Rightarrow> u32 \<Rightarrow> u32 result" where
  "narrow_promises p has_old old_promises new_promises =
     (if has_old \<and> new_promises AND NOT old_promises \<noteq> 0
      then if \<not> (promises p AND push_bit Pledge_no_error 1 \<noteq> 0) then Inl (Err EPERM)
           else Inr (new_promises AND old_promises)
      else Inr new_promises)"

definition sys_pledge ::
    "(string_argument option \<times> string_argument option) option \<Rightarrow> process \<Rightarrow> process \<times> unit result" where
  "sys_pledge user_params p =
     (case user_params of
        None \<Rightarrow> (p, Inl (Err EFAULT))
      | Some (promises_argument, execpromises_argument) \<Rightarrow>
          (case
             bindR (fetch_promises promises_argument) (\<lambda>promises_spec.
             bindR (fetch_promises execpromises_argument) (\<lambda>execpromises_spec.
             bindR (parse_promises promises_argument promises_spec) (\<lambda>new_promises.
             bindR (parse_promises execpromises_argument execpromises_spec) (\<lambda>new_execpromises.
             bindR (if promises_argument \<noteq> None then narrow_promises p (has_promises p) (promises p) new_promises
                    else Inr new_promises) (\<lambda>new_promises.
             bindR (if execpromises_argument \<noteq> None then narrow_promises p (has_execpromises p) (execpromises p) new_execpromises
                    else Inr new_execpromises) (\<lambda>new_execpromises.
             Inr (new_promises, new_execpromises)))))))
           of
             Inl e \<Rightarrow> (p, Inl e)
           | Inr (new_promises, new_execpromises) \<Rightarrow>
               let p1 = (if promises_argument \<noteq> None then p\<lparr>has_promises := True, promises := new_promises\<rparr> else p);
                   p2 = (if execpromises_argument \<noteq> None then p1\<lparr>has_execpromises := True, execpromises := new_execpromises\<rparr> else p1)
               in (p2, Inr ())))"

section \<open>Executing another program\<close>



section \<open>Parsing\<close>

lemma index_of_Some: "index_of xs y = Some n \<Longrightarrow> n < length xs \<and> xs ! n = y"
  by (induction xs y arbitrary: n rule: index_of.induct) (auto split: if_splits)

lemma index_of_None: "index_of xs y = None \<longleftrightarrow> y \<notin> set xs"
  by (induction xs y rule: index_of.induct) auto

lemma index_of_nth: "distinct xs \<Longrightarrow> n < length xs \<Longrightarrow> index_of xs (xs ! n) = Some n"
  by (induction xs arbitrary: n) (auto simp: nth_Cons' split: if_splits)

lemma promise_names_facts: "distinct promise_names" "length promise_names = 28"
  by (simp_all add: promise_names_def)

lemma parse_parts:
  "fold parse_part parts (flags, ok) =
     (fst (fold parse_part parts (flags, ok)), ok \<and> set parts \<subseteq> set promise_names)"
proof (induction parts arbitrary: flags ok)
  case (Cons part parts)
  show ?case
  proof (cases "index_of promise_names part")
    case None
    then have "part \<notin> set promise_names" by (simp add: index_of_None)
    then show ?thesis using None Cons [of flags False] by (simp add: parse_part_def)
  next
    case (Some n)
    then have "part \<in> set promise_names" using index_of_Some [OF Some] nth_mem by blast
    then show ?thesis using Some Cons [of "flags OR push_bit n 1" ok] by (simp add: parse_part_def)
  qed
qed simp

lemma parse_bits:
  assumes "i < 32"
  shows "bit (fst (fold parse_part parts (flags, ok))) i \<longleftrightarrow> bit flags i \<or> i < 28 \<and> promise_names ! i \<in> set parts"
proof (induction parts arbitrary: flags ok)
  case (Cons part parts)
  show ?case
  proof (cases "index_of promise_names part")
    case None
    then have "part \<notin> set promise_names" by (simp add: index_of_None)
    then have "i < 28 \<Longrightarrow> promise_names ! i \<noteq> part" using promise_names_facts(2) nth_mem by metis
    then show ?thesis using None Cons [of flags False] by (auto simp: parse_part_def)
  next
    case (Some n)
    have n: "n < 28" "promise_names ! n = part" using index_of_Some [OF Some] promise_names_facts(2) by simp_all
    have "bit (push_bit n 1 :: u32) i \<longleftrightarrow> i = n" using assms by (auto simp: bit_simps)
    then have b: "bit (flags OR push_bit n 1) i \<longleftrightarrow> bit flags i \<or> i = n" by (simp only: bit_or_iff)
    have e: "i < 28 \<and> promise_names ! i = part \<longleftrightarrow> i = n"
      using n nth_eq_iff_index_eq [OF promise_names_facts(1), of i n] promise_names_facts(2) by (metis order_less_le_trans)
    have "fold parse_part (part # parts) (flags, ok) = fold parse_part parts (flags OR push_bit n 1, ok)"
      using Some by (simp add: parse_part_def)
    then show ?thesis using Cons [of "flags OR push_bit n 1" ok] b e by (simp only: list.set insert_iff) metis
  qed
qed simp

lemma parse_pledge_result:
  "parse_pledge spec 0 = (flags, ok) \<Longrightarrow> ok = (set (split_view CHR '' '' spec) \<subseteq> set promise_names)"
  "parse_pledge spec 0 = (flags, ok) \<Longrightarrow> i < 32 \<Longrightarrow> bit flags i \<longleftrightarrow> i < 28 \<and> promise_names ! i \<in> set (split_view CHR '' '' spec)"
  using parse_parts [of "split_view CHR '' '' spec" 0 True] parse_bits [of i "split_view CHR '' '' spec" 0 True]
  by (simp_all add: parse_pledge_def)

section \<open>Giving up promises\<close>

text \<open>The promises of one process are among those of another, which has made some.\<close>
definition narrower :: "process \<Rightarrow> process \<Rightarrow> bool" where
  "narrower p q \<longleftrightarrow> (has_promises p \<longrightarrow> has_promises q \<and> promises q AND NOT (promises p) = 0) \<and>
     (has_execpromises p \<longrightarrow> has_execpromises q \<and> execpromises q AND NOT (execpromises p) = 0)"

lemma and_not_zero_iff: "(x :: 'a::len word) AND NOT y = 0 \<longleftrightarrow> (\<forall>i. bit x i \<longrightarrow> bit y i)"
proof -
  have "x AND NOT y = 0 \<longleftrightarrow> (\<forall>n < LENGTH('a). bit x n \<longrightarrow> bit y n)" by (auto simp: bit_eq_iff bit_simps)
  then show ?thesis using bit_imp_le_length by blast
qed

lemma has_promised_iff: "has_promised p i \<longleftrightarrow> bit (promises p) i"
  by (simp add: has_promised_def push_bit_of_1 and_exp_eq_0_iff_not_bit)

lemma narrower_refl: "narrower p p"
  by (simp add: narrower_def)

lemma narrower_trans: "narrower p q \<Longrightarrow> narrower q r \<Longrightarrow> narrower p r"
  unfolding narrower_def and_not_zero_iff by blast

lemma narrow_promises_law:
  assumes "narrow_promises p has_old old new = Inr x" and "has_old"
  shows "x AND NOT old = 0"
proof (cases "new AND NOT old = 0")
  case False
  then have "x = new AND old" using assms by (simp add: narrow_promises_def split: if_splits)
  then show ?thesis by (simp add: and_not_zero_iff bit_and_iff)
qed (use assms in \<open>simp add: narrow_promises_def\<close>)

lemma sys_pledge_outcome:
  "(\<exists>e. sys_pledge user_params p = (p, Inl e)) \<or> (snd (sys_pledge user_params p) = Inr () \<and> narrower p (fst (sys_pledge user_params p)) \<and>
     p_credentials (fst (sys_pledge user_params p)) = p_credentials p)"
proof (cases user_params)
  case (Some args)
  obtain a b where ab: "args = (a, b)" by fastforce
  let ?m = "bindR (fetch_promises a) (\<lambda>promises_spec.
             bindR (fetch_promises b) (\<lambda>execpromises_spec.
             bindR (parse_promises a promises_spec) (\<lambda>new_promises.
             bindR (parse_promises b execpromises_spec) (\<lambda>new_execpromises.
             bindR (if a \<noteq> None then narrow_promises p (has_promises p) (promises p) new_promises else Inr new_promises) (\<lambda>new_promises.
             bindR (if b \<noteq> None then narrow_promises p (has_execpromises p) (execpromises p) new_execpromises else Inr new_execpromises) (\<lambda>new_execpromises.
             Inr (new_promises, new_execpromises)))))))"
  show ?thesis
  proof (cases ?m)
    case (Inl e)
    then show ?thesis unfolding sys_pledge_def Some ab option.case prod.case by simp
  next
    case (Inr new)
    obtain x y where xy: "new = (x, y)" by fastforce
    have "a \<noteq> None \<Longrightarrow> has_promises p \<Longrightarrow> x AND NOT (promises p) = 0"
      "b \<noteq> None \<Longrightarrow> has_execpromises p \<Longrightarrow> y AND NOT (execpromises p) = 0"
      using Inr xy by (auto simp: bindR_Inr_iff dest: narrow_promises_law)
    then show ?thesis
      unfolding sys_pledge_def Some ab option.case prod.case Inr xy sum.case Let_def
      by (auto simp: narrower_def)
  qed
qed (simp add: sys_pledge_def)

text \<open>A process that makes any number of calls to \<open>pledge\<close> and to the calls that change its credentials.\<close>
inductive pledge_reach :: "process \<Rightarrow> process \<Rightarrow> bool" for p0 where
  start: "pledge_reach p0 p0"
| pledge: "pledge_reach p0 p \<Longrightarrow> pledge_reach p0 (fst (sys_pledge user_params p))"
| set_ids: "pledge_reach p0 p \<Longrightarrow> pledge_reach p0 (fst (run_id_call r p))"

lemma run_id_call_execpromises:
  "has_execpromises (fst (run_id_call r p)) = has_execpromises p \<and> execpromises (fst (run_id_call r p)) = execpromises p"
  using run_id_call_step [of p r] by (cases rule: id_stepE) auto

lemma pledge_reach_narrower: "pledge_reach p0 p \<Longrightarrow> narrower p0 p"
proof (induction rule: pledge_reach.induct)
  case (pledge p user_params)
  have "narrower p (fst (sys_pledge user_params p))"
    using sys_pledge_outcome [of user_params p] narrower_refl [of p] by fastforce
  then show ?case using pledge.IH narrower_trans by blast
next
  case (set_ids p r)
  have "narrower p (fst (run_id_call r p))"
    using id_calls.frame_law [of r p] run_id_call_execpromises [of r p] by (simp add: narrower_def)
  then show ?case using set_ids.IH narrower_trans by blast
qed (rule narrower_refl)

section \<open>Properties\<close>


definition example_pledge :: "string \<Rightarrow> string_argument option" where
  "example_pledge s = Some \<lparr>sa_length = length s, sa_contents = Some s\<rparr>"



text \<open>
  C32: A process that has made promises without \<open>id\<close> keeps its credentials for ever: no sequence of calls to \<open>pledge\<close> and
  to the calls that change credentials alters them.
\<close>
theorem unpromised_id_is_final:
  assumes "pledge_reach p0 p" and "has_promises p0" and "\<not> has_promised p0 Pledge_id"
  shows "p_credentials p = p_credentials p0"
  using assms(1)
proof (induction rule: pledge_reach.induct)
  case (pledge p user_params)
  then show ?case using sys_pledge_outcome [of user_params p] by fastforce
next
  case (set_ids p r)
  have n: "narrower p0 p" by (rule pledge_reach_narrower [OF set_ids.hyps])
  have "has_promises p" using n assms(2) by (simp add: narrower_def)
  moreover have "promises p AND NOT (promises p0) = 0" using n assms(2) by (simp add: narrower_def)
  then have "\<not> has_promised p Pledge_id"
    using assms(3) by (auto simp: has_promised_iff and_not_zero_iff)
  ultimately show ?case using id_calls.unpromised_keeps_credentials set_ids.IH by simp
qed simp

theorem unpromised_id_is_final_witness:
  "p_credentials (fst (run_id_call (Seteuid True 100) (fst (sys_pledge (Some (example_pledge ''stdio id'', None))
      (example_process\<lparr>has_promises := True, promises := 1\<rparr>))))) = example_credentials"
proof -
  have "has_promises (example_process\<lparr>has_promises := True, promises := 1\<rparr>)"
    "\<not> has_promised (example_process\<lparr>has_promises := True, promises := 1\<rparr>) Pledge_id"
    by (simp_all add: has_promised_def Pledge_id_def)
  from unpromised_id_is_final [OF pledge_reach.set_ids [OF pledge_reach.pledge [OF pledge_reach.start],
      where r = "Seteuid True 100"] this, of "Some (example_pledge ''stdio id'', None)"]
  show ?thesis by (simp add: example_process_def)
qed

text \<open>
  C37: The first pledge of a process is taken literally: when every word of the string is the name of a promise, the
  process has exactly the promises named, in whatever order and however they are spaced; when some word is not, the call
  reports \<open>EINVAL\<close> and changes nothing.
\<close>
theorem pledge_exact:
  assumes "\<not> has_promises p" and "length spec \<le> all_promises_strings_length_with_spaces" and "CHR 0x00 \<notin> set spec"
  defines "out \<equiv> sys_pledge (Some (Some \<lparr>sa_length = length spec, sa_contents = Some spec\<rparr>, None)) p"
  shows "if set (split_view CHR '' '' spec) \<subseteq> set promise_names
         then snd out = Inr () \<and> has_promises (fst out) \<and>
           (\<forall>i < 32. bit (promises (fst out)) i \<longleftrightarrow> i < 28 \<and> promise_names ! i \<in> set (split_view CHR '' '' spec))
         else out = (p, Inl (Err EINVAL))"
proof -
  obtain flags ok where pp: "parse_pledge spec 0 = (flags, ok)" by fastforce
  have all: "\<forall>c \<in> set spec. c \<noteq> CHR 0x00" using assms(3) by blast
  then have "takeWhile (\<lambda>c. c \<noteq> CHR 0x00) spec = spec" by (simp add: takeWhile_eq_all_conv)
  then have fetch: "fetch_promises (Some \<lparr>sa_length = length spec, sa_contents = Some spec\<rparr>) = Inr spec"
    using assms(2) by (simp add: fetch_promises_def get_syscall_string_fixed_buffer_def)
  have "out = (if ok then (p\<lparr>has_promises := True, promises := flags\<rparr>, Inr ()) else (p, Inl (Err EINVAL)))"
    unfolding out_def sys_pledge_def option.case prod.case fetch bindR.simps
    using assms(1) pp by (simp add: fetch_promises_def parse_promises_def narrow_promises_def)
  then show ?thesis
    using parse_pledge_result [OF pp] by auto
qed

theorem pledge_exact_witness:
  "snd (sys_pledge (Some (example_pledge ''stdio  id'', None)) example_process) = Inr () \<and>
   has_promised (fst (sys_pledge (Some (example_pledge ''stdio  id'', None)) example_process)) Pledge_id"
proof -
  have sp: "split_view CHR '' '' ''stdio  id'' = [''stdio'', ''id'']"
    by (simp add: split_view.simps [of _ "_ # _"] Let_def)
  have "length ''stdio  id'' \<le> all_promises_strings_length_with_spaces"
    by (simp add: all_promises_strings_length_with_spaces_def promise_names_def)
  from pledge_exact [of example_process, OF _ this] sp show ?thesis
    by (simp add: example_process_def example_pledge_def has_promised_iff Pledge_id_def promise_names_def)
qed

end
