(* ===== verification/Unveil.thy ===== *)
theory Unveil
  imports String_View "HOL-Library.AList" Bits
begin

unbundle bit_operations_syntax

text \<open>
  The veil of a process: \<^verbatim>\<open>AK/Trie.h\<close> as \<^verbatim>\<open>Kernel/FileSystem/UnveilNode.h\<close> uses it,
  \<^verbatim>\<open>Kernel/Syscalls/unveil.cpp\<close>, the part of \<^verbatim>\<open>execve\<close> that hands a veil to the new program, and the check of a path
  against the veil in \<^verbatim>\<open>VirtualFileSystem.cpp\<close>. The children of a node are a hash map in the code and an association list here.
  Every node of an unveil tree has metadata. \<open>memory\<close> is the number of nodes that can still be allocated. Resolving a path
  in the file system is a parameter.
\<close>

section \<open>Tries\<close>

datatype 'm trie = Trie (m_metadata: 'm) (m_children: "(string \<times> 'm trie) list")

fun traverse_until_last_accessible_node :: "'m trie \<Rightarrow> string list \<Rightarrow> 'm trie \<times> string list" where
  "traverse_until_last_accessible_node node [] = (node, [])"
| "traverse_until_last_accessible_node node (part # parts) =
     (case map_of (m_children node) part of
        None \<Rightarrow> (node, part # parts)
      | Some child \<Rightarrow> traverse_until_last_accessible_node child parts)"

text \<open>
  A change of the last accessible node in place: \<open>f\<close> is applied to the node and the parts that are left, and the nodes
  above it refer to what it returns.
\<close>
fun at_last_accessible_node ::
    "('m trie \<Rightarrow> string list \<Rightarrow> 'm trie \<times> unit result) \<Rightarrow> 'm trie \<Rightarrow> string list \<Rightarrow> 'm trie \<times> unit result" where
  "at_last_accessible_node f node [] = f node []"
| "at_last_accessible_node f node (part # parts) =
     (case map_of (m_children node) part of
        None \<Rightarrow> f node (part # parts)
      | Some child \<Rightarrow>
          let (child', r) = at_last_accessible_node f child parts
          in (Trie (m_metadata node) (AList.update part child' (m_children node)), r))"

text \<open>The loop of \<open>insert\<close> below the last accessible node, where every part needs a new child.\<close>
fun insert_missing ::
    "nat \<Rightarrow> 'm \<Rightarrow> ('m \<Rightarrow> string \<Rightarrow> 'm) \<Rightarrow> 'm trie \<Rightarrow> string list \<Rightarrow> 'm trie \<times> unit result" where
  "insert_missing memory metadata provide_missing_metadata node [] = (Trie metadata (m_children node), Inr ())"
| "insert_missing memory metadata provide_missing_metadata node (part # parts) =
     (case memory of
        0 \<Rightarrow> (node, Inl (Err ENOMEM))
      | Suc memory' \<Rightarrow>
          let (child, r) = insert_missing memory' metadata provide_missing_metadata
                (Trie (provide_missing_metadata (m_metadata node) part) []) parts
          in (Trie (m_metadata node) (AList.update part child (m_children node)), r))"

definition trie_insert ::
    "nat \<Rightarrow> 'm \<Rightarrow> ('m \<Rightarrow> string \<Rightarrow> 'm) \<Rightarrow> 'm trie \<Rightarrow> string list \<Rightarrow> 'm trie \<times> unit result" where
  "trie_insert memory metadata provide_missing_metadata =
     at_last_accessible_node (insert_missing memory metadata provide_missing_metadata)"

section \<open>The unveil tree\<close>

type_synonym access = u32

definition UnveilRead :: access where "UnveilRead = 1"
definition UnveilWrite :: access where "UnveilWrite = 2"
definition UnveilExecute :: access where "UnveilExecute = 4"
definition UnveilCreateOrRemove :: access where "UnveilCreateOrRemove = 8"
definition UnveilBrowse :: access where "UnveilBrowse = 16"

record unveil_metadata =
  full_path :: string
  permissions :: access
  explicitly_unveiled :: bool

type_synonym unveil_node = "unveil_metadata trie"

datatype veil_state = VeilNone | VeilDropped | VeilLocked | VeilLockedInherited

record unveil_data =
  u_state :: veil_state
  u_paths :: unveil_node

definition was_explicitly_unveiled :: "unveil_node \<Rightarrow> bool" where
  "was_explicitly_unveiled node = explicitly_unveiled (m_metadata node)"

definition node_permissions :: "unveil_node \<Rightarrow> access" where
  "node_permissions node = permissions (m_metadata node)"

definition new_unveil_tree :: unveil_node where
  "new_unveil_tree = Trie \<lparr>full_path = ''/'', permissions = 0, explicitly_unveiled = False\<rparr> []"

primrec update_intermediate_node_permissions :: "access \<Rightarrow> unveil_node \<Rightarrow> unveil_node" where
  "update_intermediate_node_permissions new_permissions (Trie metadata children) =
     Trie metadata (map (\<lambda>(part, node, updated).
         (part,
          if was_explicitly_unveiled node then node
          else Trie ((m_metadata node)\<lparr>permissions := new_permissions\<rparr>) (m_children updated)))
       (map (map_prod id (\<lambda>node. (node, update_intermediate_node_permissions new_permissions node))) children))"

text \<open>The matching node when the whole path is there.\<close>
definition unveil_matching_node :: "access \<Rightarrow> unveil_node \<Rightarrow> unveil_node \<times> unit result" where
  "unveil_matching_node new_permissions node =
     (if was_explicitly_unveiled node \<and> new_permissions AND NOT (node_permissions node) \<noteq> 0 then (node, Inl (Err EPERM))
      else
        let node1 = (if node_permissions node \<noteq> new_permissions
                     then update_intermediate_node_permissions new_permissions node else node)
        in (Trie ((m_metadata node1)\<lparr>explicitly_unveiled := True, permissions := new_permissions\<rparr>) (m_children node1), Inr ()))"

text \<open>The matching node when parts are left.\<close>
definition inherited_metadata :: "unveil_metadata \<Rightarrow> string \<Rightarrow> unveil_metadata" where
  "inherited_metadata parent part =
     \<lparr>full_path = full_path parent @ ''/'' @ part, permissions = permissions parent, explicitly_unveiled = False\<rparr>"

definition unveil_node_at :: "nat \<Rightarrow> string \<Rightarrow> access \<Rightarrow> unveil_node \<Rightarrow> string list \<Rightarrow> unveil_node \<times> unit result" where
  "unveil_node_at memory unveiled_path new_permissions node parts =
     (if parts = [] then unveil_matching_node new_permissions node
      else case memory of
             0 \<Rightarrow> (node, Inl (Err ENOMEM))
           | Suc memory' \<Rightarrow>
               trie_insert memory' \<lparr>full_path = unveiled_path, permissions = new_permissions, explicitly_unveiled = True\<rparr>
                 inherited_metadata node parts)"

definition update_unveil_data :: "nat \<Rightarrow> unveil_data \<Rightarrow> string \<Rightarrow> access \<Rightarrow> unveil_data \<times> unit result" where
  "update_unveil_data memory data unveiled_path new_permissions =
     (case path_parts unveiled_path of
        Inl e \<Rightarrow> (data, Inl e)
      | Inr parts \<Rightarrow>
          if u_state data = VeilLockedInherited then (data, Inr ())
          else if u_state data = VeilLocked then (data, Inl (Err EPERM))
          else
            (case at_last_accessible_node (unveil_node_at memory unveiled_path new_permissions) (u_paths data) parts of
               (paths, Inl e) \<Rightarrow> (data\<lparr>u_paths := paths\<rparr>, Inl e)
             | (paths, Inr _) \<Rightarrow> (data\<lparr>u_paths := paths, u_state := VeilDropped\<rparr>, Inr ())))"

section \<open>The system call\<close>

record veils =
  m_unveil_data :: unveil_data
  m_exec_unveil_data :: unveil_data

definition new_veils :: veils where
  "new_veils = \<lparr>m_unveil_data = \<lparr>u_state = VeilNone, u_paths = new_unveil_tree\<rparr>,
     m_exec_unveil_data = \<lparr>u_state = VeilNone, u_paths = new_unveil_tree\<rparr>\<rparr>"

record unveil_params =
  up_flags :: u32
  up_path :: "string_argument option"
  up_permissions :: "string_argument option"

definition CurrentProgram :: u32 where "CurrentProgram = 1"
definition AfterExec :: u32 where "AfterExec = 2"

fun parse_permissions :: "string \<Rightarrow> access \<Rightarrow> access result" where
  "parse_permissions [] new_permissions = Inr new_permissions"
| "parse_permissions (permission # rest) new_permissions =
     (if permission = CHR ''r'' then parse_permissions rest (new_permissions OR UnveilRead)
      else if permission = CHR ''w'' then parse_permissions rest (new_permissions OR UnveilWrite)
      else if permission = CHR ''x'' then parse_permissions rest (new_permissions OR UnveilExecute)
      else if permission = CHR ''c'' then parse_permissions rest (new_permissions OR UnveilCreateOrRemove)
      else if permission = CHR ''b'' then parse_permissions rest (new_permissions OR UnveilBrowse)
      else Inl (Err EINVAL))"

text \<open>What the file system finds at a path: the absolute path of the file, or an error and the absolute path of the parent if there is one.\<close>
datatype resolution = Found string | NotFound errno "string option"

text \<open>The path to unveil, as the call works it out of its arguments.\<close>
definition unveil_arguments :: "(string \<Rightarrow> resolution) \<Rightarrow> bool \<Rightarrow> string_argument \<Rightarrow> string_argument \<Rightarrow> (string \<times> access) result" where
  "unveil_arguments resolve memory path_argument permissions_argument =
     bindR (get_syscall_path_argument path_argument) (\<lambda>path.
     if path = [] \<or> \<not> prefix ''/'' path then Inl (Err EINVAL)
     else bindR (get_syscall_string_fixed_buffer 5 permissions_argument) (\<lambda>permissions_string.
     bindR (parse_permissions permissions_string 0) (\<lambda>new_permissions.
     case resolve path of
       Found absolute \<Rightarrow> Inr (absolute, new_permissions)
     | NotFound e parent \<Rightarrow>
         (case parent of
            Some parent_path \<Rightarrow>
              if e = ENOENT \<and> new_permissions AND UnveilCreateOrRemove \<noteq> 0
              then bindR (try_join memory parent_path (path_basename path)) (\<lambda>joined. Inr (joined, new_permissions))
              else Inl (Err e)
          | None \<Rightarrow> Inl (Err e)))))"

definition sys_unveil ::
    "(string \<Rightarrow> resolution) \<Rightarrow> nat \<Rightarrow> nat \<Rightarrow> unveil_params option \<Rightarrow> veils \<Rightarrow> veils \<times> unit result" where
  "sys_unveil resolve memory exec_memory user_params v =
     (case user_params of
        None \<Rightarrow> (v, Inl (Err EFAULT))
      | Some params \<Rightarrow>
          if up_path params = None \<and> up_permissions params = None
          then (v\<lparr>m_unveil_data := (m_unveil_data v)\<lparr>u_state := VeilLocked\<rparr>\<rparr>, Inr ())
          else if \<not> (up_flags params AND CurrentProgram \<noteq> 0 \<or> up_flags params AND AfterExec \<noteq> 0) then (v, Inl (Err EINVAL))
          else if up_flags params AND CurrentProgram \<noteq> 0 \<and> u_state (m_unveil_data v) = VeilLockedInherited then (v, Inr ())
          else if up_flags params AND CurrentProgram \<noteq> 0 \<and> u_state (m_unveil_data v) = VeilLocked then (v, Inl (Err EPERM))
          else
            (case (up_path params, up_permissions params) of
               (Some path_argument, Some permissions_argument) \<Rightarrow>
                 (case unveil_arguments resolve (memory > 0) path_argument permissions_argument of
                    Inl e \<Rightarrow> (v, Inl e)
                  | Inr (new_unveiled_path, new_permissions) \<Rightarrow>
                      let (v1, r1) =
                        (if up_flags params AND CurrentProgram \<noteq> 0
                         then let (data, r) = update_unveil_data memory (m_unveil_data v) new_unveiled_path new_permissions
                              in (v\<lparr>m_unveil_data := data\<rparr>, r)
                         else (v, Inr ()))
                      in (case r1 of
                            Inl e \<Rightarrow> (v1, Inl e)
                          | Inr _ \<Rightarrow>
                              if up_flags params AND AfterExec \<noteq> 0
                              then if u_state (m_exec_unveil_data v1) = VeilLockedInherited then (v1, Inl VerifyFailed)
                                   else let (data, r) = update_unveil_data exec_memory (m_exec_unveil_data v1) new_unveiled_path new_permissions
                                        in (v1\<lparr>m_exec_unveil_data := data\<rparr>, r)
                              else (v1, Inr ())))
             | _ \<Rightarrow> (v, Inl (Err EINVAL))))"

text \<open>What a successful \<open>execve\<close> does to the veils, when memory for the copies is there.\<close>
definition exec_unveil :: "veils \<Rightarrow> veils" where
  "exec_unveil v =
     \<lparr>m_unveil_data =
        (if u_state (m_exec_unveil_data v) = VeilDropped
         then \<lparr>u_state = VeilLockedInherited, u_paths = u_paths (m_exec_unveil_data v)\<rparr>
         else \<lparr>u_state = VeilNone, u_paths = new_unveil_tree\<rparr>),
      m_exec_unveil_data = \<lparr>u_state = VeilNone, u_paths = new_unveil_tree\<rparr>\<rparr>"

section \<open>Checking a path\<close>

definition O_RDONLY :: u32 where "O_RDONLY = 1"
definition O_WRONLY :: u32 where "O_WRONLY = 2"
definition O_EXEC :: u32 where "O_EXEC = 4"
definition O_CREAT :: u32 where "O_CREAT = 8"
definition O_DIRECTORY :: u32 where "O_DIRECTORY = 512"
definition O_UNLINK_INTERNAL :: u32 where "O_UNLINK_INTERNAL = push_bit 30 1"

definition find_matching_unveiled_path :: "unveil_data \<Rightarrow> string \<Rightarrow> unveil_node result" where
  "find_matching_unveiled_path data path =
     (if u_state data = VeilNone then Inl VerifyFailed
      else bindR (path_parts path) (\<lambda>parts. Inr (fst (traverse_until_last_accessible_node (u_paths data) parts))))"

definition validate_path_against_process_veil :: "unveil_data \<Rightarrow> string \<Rightarrow> u32 \<Rightarrow> unit result" where
  "validate_path_against_process_veil data path options =
     (if u_state data = VeilNone then Inr ()
      else if \<not> prefix ''/'' path then Inl VerifyFailed
      else if contains_string ''/../'' path \<or> suffix ''/..'' path then Inl VerifyFailed
      else if contains_string ''/./'' path \<or> suffix ''/.'' path then Inl VerifyFailed
      else bindR (find_matching_unveiled_path data path) (\<lambda>unveiled_path.
        let p = node_permissions unveiled_path
        in if p = 0 then Inl (Err ENOENT)
           else if options AND O_CREAT \<noteq> 0 \<and> p AND UnveilCreateOrRemove = 0 then Inl (Err EACCES)
           else if options AND O_UNLINK_INTERNAL \<noteq> 0
             then if p AND UnveilCreateOrRemove = 0 then Inl (Err EACCES) else Inr ()
           else if options AND O_RDONLY \<noteq> 0 \<and>
               (if options AND O_DIRECTORY \<noteq> 0 then p AND (UnveilRead OR UnveilBrowse) = 0 else p AND UnveilRead = 0)
             then Inl (Err EACCES)
           else if options AND O_WRONLY \<noteq> 0 \<and> p AND UnveilWrite = 0 then Inl (Err EACCES)
           else if options AND O_EXEC \<noteq> 0 \<and> p AND UnveilExecute = 0 then Inl (Err EACCES)
           else Inr ()))"

end
