(* ===== verification/Veil.thy ===== *)
theory Veil
  imports Unveil
begin

unbundle bit_operations_syntax

text \<open>
  An unveil tree stands for the map of the paths that were unveiled to their permissions, and a path has the
  permissions of its longest prefix in the map. The tree keeps nodes for the paths in between, which have the permissions of the
  node above them; that they do is the invariant of the tree.
\<close>

section \<open>The abstract veil\<close>

type_synonym veil = "string list \<rightharpoonup> access"

fun longest_match :: "veil \<Rightarrow> access \<Rightarrow> string list \<Rightarrow> access" where
  "longest_match E d [] = (case E [] of None \<Rightarrow> d | Some a \<Rightarrow> a)"
| "longest_match E d (p # ps) = longest_match (\<lambda>q. E (p # q)) (case E [] of None \<Rightarrow> d | Some a \<Rightarrow> a) ps"

lemma longest_match_none: "(\<And>q. prefix q ps \<Longrightarrow> E q = None) \<Longrightarrow> longest_match E d ps = d"
  by (induction ps arbitrary: E) simp_all

text \<open>\<open>longest_match\<close> is the value at the longest prefix that has one.\<close>
lemma longest_match_prefix:
  assumes "prefix q ps" and "E q = Some a" and "\<And>r. prefix r ps \<Longrightarrow> length q < length r \<Longrightarrow> E r = None"
  shows "longest_match E d ps = a"
  using assms
proof (induction ps arbitrary: E d q)
  case (Cons p ps)
  show ?case
  proof (cases q)
    case Nil
    then have "longest_match (\<lambda>q. E (p # q)) a ps = a" using Cons.prems(3) by (intro longest_match_none) simp
    then show ?thesis using Nil Cons.prems(2) by simp
  next
    case (Cons x q')
    then have q: "x = p" "prefix q' ps" using Cons.prems(1) by simp_all
    have "longest_match (\<lambda>q. E (p # q)) (case E [] of None \<Rightarrow> d | Some a \<Rightarrow> a) ps = a"
    proof (rule Cons.IH [OF q(2)])
      show "E (p # q') = Some a" using Cons.prems(2) Cons q(1) by simp
      show "E (p # r) = None" if "prefix r ps" "length q' < length r" for r
        using Cons.prems(3) [of "p # r"] that Cons by simp
    qed
    then show ?thesis by simp
  qed
qed simp

lemma longest_match_default: "(E [] = None \<Longrightarrow> d = d') \<Longrightarrow> longest_match E d ps = longest_match E d' ps"
  by (cases ps) (auto split: option.splits)

section \<open>The invariant of the tree\<close>

primrec inherits :: "unveil_node \<Rightarrow> bool" where
  "inherits (Trie m cs) \<longleftrightarrow> distinct (map fst cs) \<and>
     list_all (\<lambda>(part, node, ok). ok \<and> (\<not> was_explicitly_unveiled node \<longrightarrow> node_permissions node = permissions m))
       (map (map_prod id (\<lambda>node. (node, inherits node))) cs)"

declare inherits.simps [simp del]

text \<open>A node below a node with given permissions.\<close>
definition inherits_from :: "access \<Rightarrow> unveil_node \<Rightarrow> bool" where
  "inherits_from a c \<longleftrightarrow> inherits c \<and> (\<not> was_explicitly_unveiled c \<longrightarrow> node_permissions c = a)"

lemma inherits_iff:
  "inherits (Trie m cs) \<longleftrightarrow> distinct (map fst cs) \<and> (\<forall>k c. map_of cs k = Some c \<longrightarrow> inherits_from (permissions m) c)"
proof (cases "distinct (map fst cs)")
  case True
  then have "map_of cs k = Some c \<longleftrightarrow> (k, c) \<in> set cs" for k c by (metis map_of_eq_Some_iff)
  then show ?thesis unfolding inherits.simps inherits_from_def list_all_iff by fastforce
qed (simp add: inherits.simps)

fun explicit_at :: "unveil_node \<Rightarrow> veil" where
  "explicit_at node [] = (if was_explicitly_unveiled node then Some (node_permissions node) else None)"
| "explicit_at node (p # ps) = (case map_of (m_children node) p of None \<Rightarrow> None | Some c \<Rightarrow> explicit_at c ps)"

text \<open>The permissions \<open>find_matching_unveiled_path\<close> finds for a path.\<close>
definition effective :: "unveil_node \<Rightarrow> string list \<Rightarrow> access" where
  "effective node ps = node_permissions (fst (traverse_until_last_accessible_node node ps))"

lemma effective_simps [simp]:
  "effective node [] = node_permissions node"
  "effective node (p # ps) = (case map_of (m_children node) p of None \<Rightarrow> node_permissions node | Some c \<Rightarrow> effective c ps)"
  by (simp_all add: effective_def split: option.splits)

lemma inherits_child:
  "inherits node \<Longrightarrow> map_of (m_children node) p = Some c \<Longrightarrow> inherits_from (node_permissions node) c"
  by (cases node) (auto simp: inherits_iff node_permissions_def)

theorem effective_longest_match:
  "inherits node \<Longrightarrow> effective node ps = longest_match (explicit_at node) (node_permissions node) ps"
proof (induction ps arbitrary: node)
  case (Cons p ps)
  have d: "(case explicit_at node [] of None \<Rightarrow> node_permissions node | Some a \<Rightarrow> a) = node_permissions node" by simp
  show ?case
  proof (cases "map_of (m_children node) p")
    case None
    have "longest_match (\<lambda>q. explicit_at node (p # q)) (node_permissions node) ps = node_permissions node"
      using None by (intro longest_match_none) simp
    then show ?thesis using None d by simp
  next
    case (Some c)
    have c: "inherits c" "\<not> was_explicitly_unveiled c \<Longrightarrow> node_permissions c = node_permissions node"
      using inherits_child [OF Cons.prems Some] by (simp_all add: inherits_from_def)
    have "longest_match (explicit_at c) (node_permissions c) ps = longest_match (explicit_at c) (node_permissions node) ps"
      by (rule longest_match_default) (simp add: c(2) split: if_splits)
    then show ?thesis using Some d Cons.IH [OF c(1)] by simp
  qed
qed simp

section \<open>Changing the tree\<close>

lemma map_of_update_intermediate:
  "map_of (m_children (update_intermediate_node_permissions a node)) k =
     map_option (\<lambda>c. if was_explicitly_unveiled c then c
       else Trie ((m_metadata c)\<lparr>permissions := a\<rparr>) (m_children (update_intermediate_node_permissions a c))) (map_of (m_children node) k)"
proof (cases node)
  case (Trie m cs)
  show ?thesis unfolding Trie by (induction cs) auto
qed

lemma children_keys: "map fst (m_children (update_intermediate_node_permissions a node)) = map fst (m_children node)"
  by (cases node) (simp add: comp_def case_prod_beta)

lemma inherits_update_intermediate:
  "inherits node \<Longrightarrow> permissions m = a \<Longrightarrow> inherits (Trie m (m_children (update_intermediate_node_permissions a node)))"
proof (induction node arbitrary: m)
  case (Trie m0 cs)
  have d: "distinct (map fst cs)" using Trie.prems by (simp add: inherits_iff)
  show ?case
    unfolding inherits_iff
  proof (intro conjI allI impI)
    show "distinct (map fst (m_children (update_intermediate_node_permissions a (Trie m0 cs))))"
      using d by (simp add: children_keys del: update_intermediate_node_permissions.simps)
    fix k c assume "map_of (m_children (update_intermediate_node_permissions a (Trie m0 cs))) k = Some c"
    then obtain c0 where c0: "map_of cs k = Some c0" "c = (if was_explicitly_unveiled c0 then c0
        else Trie ((m_metadata c0)\<lparr>permissions := a\<rparr>) (m_children (update_intermediate_node_permissions a c0)))"
      by (auto simp: map_of_update_intermediate simp del: update_intermediate_node_permissions.simps)
    have i: "inherits c0" using Trie.prems(1) c0(1) by (auto simp: inherits_iff inherits_from_def)
    have mem: "(k, c0) \<in> set cs" using c0(1) by (rule map_of_SomeD)
    have "inherits (Trie ((m_metadata c0)\<lparr>permissions := a\<rparr>) (m_children (update_intermediate_node_permissions a c0)))"
      by (rule Trie.IH [OF mem _ i]) simp_all
    then show "inherits_from (permissions m) c"
      using c0(2) i Trie.prems(2) by (simp add: inherits_from_def was_explicitly_unveiled_def node_permissions_def)
  qed
qed

lemma explicit_update_intermediate:
  "explicit_at (Trie m (m_children (update_intermediate_node_permissions a node))) (p # ps) = explicit_at node (p # ps)"
proof (induction ps arbitrary: m node p)
  case Nil
  then show ?case
    by (simp add: map_of_update_intermediate was_explicitly_unveiled_def node_permissions_def split: option.splits)
next
  case (Cons q ps)
  show ?case
  proof (cases "map_of (m_children node) p")
    case (Some c)
    have "explicit_at (if was_explicitly_unveiled c then c
        else Trie ((m_metadata c)\<lparr>permissions := a\<rparr>) (m_children (update_intermediate_node_permissions a c))) (q # ps) = explicit_at c (q # ps)"
      using Cons.IH by (simp del: explicit_at.simps)
    then show ?thesis unfolding explicit_at.simps(2) [of _ p] by (simp add: map_of_update_intermediate Some del: explicit_at.simps)
  qed (simp add: map_of_update_intermediate)
qed

text \<open>
  What a change at a node has to do: keep the invariant, either make the node explicit or leave its permissions, and
  set the entry for the rest of the path, or change no entry if it fails.
\<close>
definition unveils :: "access \<Rightarrow> unveil_node \<Rightarrow> string list \<Rightarrow> unveil_node \<times> unit result \<Rightarrow> bool" where
  "unveils a node ps out \<longleftrightarrow>
     inherits (fst out) \<and>
     (was_explicitly_unveiled (fst out) \<or>
      \<not> was_explicitly_unveiled node \<and> node_permissions (fst out) = node_permissions node) \<and>
     explicit_at (fst out) = (case snd out of Inl _ \<Rightarrow> explicit_at node | Inr _ \<Rightarrow> (explicit_at node)(ps \<mapsto> a))"


lemma unveils_matching: "inherits node \<Longrightarrow> unveils a node [] (unveil_matching_node a node)"
proof -
  assume i: "inherits node"
  obtain m cs where node: "node = Trie m cs" by (cases node)
  let ?n1 = "if node_permissions node \<noteq> a then update_intermediate_node_permissions a node else node"
  let ?n = "Trie ((m_metadata ?n1)\<lparr>explicitly_unveiled := True, permissions := a\<rparr>) (m_children ?n1)"
  have same: "inherits (Trie (m'\<lparr>permissions := permissions m\<rparr>) cs)" for m' using i by (simp add: node inherits_iff)
  have "inherits ?n"
  proof (cases "node_permissions node = a")
    case True
    then show ?thesis using same [of "m\<lparr>explicitly_unveiled := True\<rparr>"] by (simp add: node node_permissions_def)
  next
    case False
    then show ?thesis using inherits_update_intermediate [OF i, of "(m_metadata ?n1)\<lparr>explicitly_unveiled := True, permissions := a\<rparr>" a]
      by (simp del: update_intermediate_node_permissions.simps)
  qed
  moreover have "explicit_at ?n = (explicit_at node)([] \<mapsto> a)"
  proof
    fix q
    show "explicit_at ?n q = ((explicit_at node)([] \<mapsto> a)) q"
    proof (cases q)
      case Nil
      then show ?thesis by (simp add: was_explicitly_unveiled_def node_permissions_def)
    next
      case (Cons p ps)
      then show ?thesis
        using explicit_update_intermediate [of _ a node p ps] by (simp del: explicit_at.simps) (simp add: explicit_at.simps)
    qed
  qed
  moreover have "was_explicitly_unveiled ?n" by (simp add: was_explicitly_unveiled_def)
  ultimately show ?thesis
    using i unfolding unveils_def unveil_matching_node_def Let_def
    by (cases "was_explicitly_unveiled node \<and> a AND NOT (node_permissions node) \<noteq> 0")
      (simp_all only: if_True if_False fst_conv snd_conv sum.case simp_thms)
qed

text \<open>Replacing or adding one child.\<close>
lemma inherits_update_child:
  assumes "inherits node" and "inherits_from (node_permissions node) c"
  shows "inherits (Trie (m_metadata node) (AList.update p c (m_children node)))"
  using assms by (cases node) (auto simp: inherits_iff update_conv' distinct_update node_permissions_def split: if_splits)

lemma explicit_update_child:
  "explicit_at (Trie (m_metadata node) (AList.update p c (m_children node))) q =
     (case q of [] \<Rightarrow> explicit_at node [] | p' # ps \<Rightarrow> if p' = p then explicit_at c ps else explicit_at node q)"
  by (cases q) (simp_all add: update_conv' was_explicitly_unveiled_def node_permissions_def)

lemma unveils_child:
  assumes "inherits node" and "unveils a c ps (c', r)" and "inherits_from (node_permissions node) c"
    and "\<And>q. explicit_at node (p # q) = explicit_at c q"
  shows "unveils a node (p # ps) (Trie (m_metadata node) (AList.update p c' (m_children node)), r)"
proof -
  have c': "inherits_from (node_permissions node) c'"
    using assms(2,3) by (auto simp: unveils_def inherits_from_def)
  have "explicit_at (Trie (m_metadata node) (AList.update p c' (m_children node))) =
      (case r of Inl _ \<Rightarrow> explicit_at node | Inr _ \<Rightarrow> (explicit_at node)(p # ps \<mapsto> a))"
  proof
    fix q
    show "explicit_at (Trie (m_metadata node) (AList.update p c' (m_children node))) q =
        (case r of Inl _ \<Rightarrow> explicit_at node | Inr _ \<Rightarrow> (explicit_at node)(p # ps \<mapsto> a)) q"
      using assms(2,4) unfolding explicit_update_child unveils_def
      by (auto simp del: explicit_at.simps split: list.split sum.split)
  qed
  then show ?thesis
    using inherits_update_child [OF assms(1) c', of p]
    by (simp add: unveils_def was_explicitly_unveiled_def node_permissions_def)
qed

lemma unveils_insert_missing:
  assumes "inherits node" and "parts \<noteq> []" and "map_of (m_children node) (hd parts) = None"
    and "permissions md = a" "explicitly_unveiled md"
  shows "unveils a node parts (insert_missing memory md inherited_metadata node parts)"
  using assms(1-3)
proof (induction parts arbitrary: memory node)
  case (Cons p ps)
  show ?case
  proof (cases memory)
    case 0
    then show ?thesis using Cons.prems(1) by (simp add: unveils_def)
  next
    case (Suc memory')
    let ?c = "Trie (inherited_metadata (m_metadata node) p) []"
    obtain c' r where c': "insert_missing memory' md inherited_metadata ?c ps = (c', r)" by (cases "insert_missing memory' md inherited_metadata ?c ps")
    have i: "inherits ?c" by (simp add: inherits_iff)
    have none: "explicit_at ?c q = None" for q
      by (cases q) (simp_all add: was_explicitly_unveiled_def inherited_metadata_def)
    have "unveils a ?c ps (c', r)"
    proof (cases "ps = []")
      case True
      have "explicit_at (Trie md []) = (explicit_at ?c)([] \<mapsto> a)"
      proof
        show "explicit_at (Trie md []) q = ((explicit_at ?c)([] \<mapsto> a)) q" for q
          using assms(4,5) by (cases q) (simp_all add: was_explicitly_unveiled_def node_permissions_def)
      qed
      then show ?thesis using c' True assms(4,5) by (auto simp: unveils_def inherits_iff was_explicitly_unveiled_def)
    next
      case False
      show ?thesis using Cons.IH [OF i False, of memory'] c' by simp
    qed
    then have "unveils a node (p # ps) (Trie (m_metadata node) (AList.update p c' (m_children node)), r)"
      using Cons.prems(1,3) none i
      by (intro unveils_child [where c = ?c])
        (auto simp: inherits_from_def inherited_metadata_def node_permissions_def)
    then show ?thesis using c' Suc by simp
  qed
qed simp

lemma unveils_node_at:
  assumes "inherits node" and "parts = [] \<or> map_of (m_children node) (hd parts) = None"
  shows "unveils a node parts (unveil_node_at memory path a node parts)"
proof (cases parts)
  case Nil
  then show ?thesis using unveils_matching [OF assms(1)] by (simp add: unveil_node_at_def)
next
  case (Cons p ps)
  have at: "trie_insert n md inherited_metadata node (p # ps) = insert_missing n md inherited_metadata node (p # ps)" for n md
    using assms(2) Cons by (simp add: trie_insert_def)
  show ?thesis
    using assms Cons unveils_insert_missing [of node "p # ps" "\<lparr>full_path = path, permissions = a, explicitly_unveiled = True\<rparr>" a]
    by (cases memory) (simp_all only: unveil_node_at_def at nat.case list.distinct if_False list.sel simp_thms unveil_metadata.simps,
      simp_all add: unveils_def)
qed

theorem unveils_at_last:
  "inherits node \<Longrightarrow> unveils a node parts (at_last_accessible_node (unveil_node_at memory path a) node parts)"
proof (induction parts arbitrary: node)
  case Nil
  then show ?case by (simp add: unveils_node_at)
next
  case (Cons p ps)
  show ?case
  proof (cases "map_of (m_children node) p")
    case None
    then show ?thesis using unveils_node_at [OF Cons.prems] by simp
  next
    case (Some c)
    obtain c' r where c': "at_last_accessible_node (unveil_node_at memory path a) c ps = (c', r)"
      by (cases "at_last_accessible_node (unveil_node_at memory path a) c ps")
    have from_node: "inherits_from (node_permissions node) c" using Cons.prems Some by (rule inherits_child)
    then have "unveils a c ps (c', r)" using Cons.IH [of c] c' by (simp add: inherits_from_def)
    then have "unveils a node (p # ps) (Trie (m_metadata node) (AList.update p c' (m_children node)), r)"
      using Cons.prems from_node Some by (intro unveils_child) simp_all
    then show ?thesis using Some c' by simp
  qed
qed


section \<open>When unveiling succeeds\<close>

lemma insert_missing_succeeds: "length parts \<le> memory \<Longrightarrow> snd (insert_missing memory md f node parts) = Inr ()"
proof (induction parts arbitrary: memory node)
  case (Cons p ps)
  then obtain memory' where "memory = Suc memory'" by (cases memory) auto
  then show ?case using Cons by (simp add: case_prod_beta Let_def)
qed simp

lemma at_last_result:
  "snd (at_last_accessible_node f node parts) =
     snd (f (fst (traverse_until_last_accessible_node node parts)) (snd (traverse_until_last_accessible_node node parts)))"
  by (induction parts arbitrary: node) (simp_all add: case_prod_beta Let_def split: option.split)

lemma explicit_at_traverse:
  "explicit_at node parts =
     (case traverse_until_last_accessible_node node parts of (n, rest) \<Rightarrow> if rest = [] then explicit_at n [] else None)"
  by (induction parts arbitrary: node) (simp_all split: option.split)

lemma traverse_rest:
  "traverse_until_last_accessible_node node parts = (n, rest) \<Longrightarrow> length rest \<le> length parts \<and> (rest \<noteq> [] \<longrightarrow> map_of (m_children n) (hd rest) = None)"
proof (induction parts arbitrary: node)
  case (Cons p ps)
  show ?case
  proof (cases "map_of (m_children node) p")
    case None
    then show ?thesis using Cons.prems by auto
  next
    case (Some c)
    then have "length rest \<le> length ps \<and> (rest \<noteq> [] \<longrightarrow> map_of (m_children n) (hd rest) = None)"
      using Cons.prems Cons.IH [of c] by simp
    then show ?thesis by simp
  qed
qed simp

text \<open>With enough memory it fails only if the path has been unveiled with fewer permissions.\<close>
lemma unveil_result:
  assumes "length parts < memory"
  shows "snd (at_last_accessible_node (unveil_node_at memory path a) node parts) =
    (case explicit_at node parts of
       Some b \<Rightarrow> if a AND NOT b \<noteq> 0 then Inl (Err EPERM) else Inr ()
     | None \<Rightarrow> Inr ())"
proof -
  obtain n rest where t: "traverse_until_last_accessible_node node parts = (n, rest)" by (cases "traverse_until_last_accessible_node node parts")
  note r = traverse_rest [OF t]
  obtain memory' where m: "memory = Suc memory'" "length rest \<le> memory'" using assms r by (cases memory) auto
  show ?thesis
  proof (cases rest)
    case Nil
    then show ?thesis
      by (simp add: at_last_result explicit_at_traverse [of node parts] t unveil_node_at_def unveil_matching_node_def Let_def)
  next
    case (Cons x xs)
    then show ?thesis using m r insert_missing_succeeds [OF m(2)]
      by (simp add: at_last_result explicit_at_traverse [of node parts] t unveil_node_at_def trie_insert_def del: insert_missing.simps)
  qed
qed

section \<open>The veils of a process\<close>

definition veil_ok :: "unveil_node \<Rightarrow> bool" where
  "veil_ok node \<longleftrightarrow> inherits node \<and> (was_explicitly_unveiled node \<or> node_permissions node = 0)"

lemma veil_ok_new [simp]: "veil_ok new_unveil_tree"
  by (simp add: veil_ok_def new_unveil_tree_def inherits_iff node_permissions_def)

lemma effective_veil:
  assumes "veil_ok node"
  shows "effective node ps = longest_match (explicit_at node) 0 ps"
proof -
  have "longest_match (explicit_at node) (node_permissions node) ps = longest_match (explicit_at node) 0 ps"
    using assms by (intro longest_match_default) (auto simp: veil_ok_def split: if_splits)
  then show ?thesis using effective_longest_match [of node ps] assms by (simp add: veil_ok_def)
qed

lemma veil_ok_unveils: "veil_ok node \<Longrightarrow> unveils a node ps out \<Longrightarrow> veil_ok (fst out)"
  by (auto simp: veil_ok_def unveils_def)

definition open_veil :: "unveil_data \<Rightarrow> bool" where
  "open_veil data \<longleftrightarrow> u_state data \<noteq> VeilLocked \<and> u_state data \<noteq> VeilLockedInherited"

lemma update_unveil_data_open:
  assumes "open_veil data" and "path_parts path = Inr parts"
    and "at_last_accessible_node (unveil_node_at memory path a) (u_paths data) parts = (node, r)"
  shows "update_unveil_data memory data path a =
    (case r of Inl e \<Rightarrow> (data\<lparr>u_paths := node\<rparr>, Inl e)
     | Inr _ \<Rightarrow> (data\<lparr>u_paths := node, u_state := VeilDropped\<rparr>, Inr ()))"
  using assms by (simp add: update_unveil_data_def open_veil_def split: sum.split)

lemma update_unveil_data_closed:
  assumes "\<not> open_veil data" and "path_parts path = Inr parts"
  shows "update_unveil_data memory data path a = (data, if u_state data = VeilLocked then Inl (Err EPERM) else Inr ())"
  using assms by (auto simp: update_unveil_data_def open_veil_def)

lemma unveil_open:
  assumes "veil_ok (u_paths data)" and "open_veil data" and "path_parts path = Inr parts"
    and "update_unveil_data memory data path a = (data', r)"
  shows "veil_ok (u_paths data') \<and>
    explicit_at (u_paths data') = (if r = Inr () then (explicit_at (u_paths data))(parts \<mapsto> a) else explicit_at (u_paths data)) \<and>
    u_state data' = (if r = Inr () then VeilDropped else u_state data) \<and>
    (length parts < memory \<longrightarrow>
      r = (case explicit_at (u_paths data) parts of
             Some b \<Rightarrow> if a AND NOT b \<noteq> 0 then Inl (Err EPERM) else Inr ()
           | None \<Rightarrow> Inr ()))"
proof -
  obtain node r' where at: "at_last_accessible_node (unveil_node_at memory path a) (u_paths data) parts = (node, r')"
    by (cases "at_last_accessible_node (unveil_node_at memory path a) (u_paths data) parts")
  have u: "unveils a (u_paths data) parts (node, r')"
    using unveils_at_last [of "u_paths data" a parts memory path] assms(1) at by (simp add: veil_ok_def)
  have d: "data' = (case r' of Inl e \<Rightarrow> data\<lparr>u_paths := node\<rparr> | Inr _ \<Rightarrow> data\<lparr>u_paths := node, u_state := VeilDropped\<rparr>)" and r: "r = r'"
    using update_unveil_data_open [OF assms(2,3) at] assms(4) by (cases r'; simp)+
  have paths: "u_paths data' = node" using d by (cases r') simp_all
  have ok: "veil_ok node" using veil_ok_unveils [OF assms(1) u] by simp
  have e: "explicit_at node = (if r' = Inr () then (explicit_at (u_paths data))(parts \<mapsto> a) else explicit_at (u_paths data))"
    using u by (cases r') (simp_all add: unveils_def)
  show ?thesis
    using ok e unveil_result [of parts memory path a "u_paths data"] d
    by (cases r') (simp_all only: paths r at fst_conv snd_conv, simp_all)
qed

text \<open>
  C17: What unveiling a path does to a veil, in every state of the veil. While the veil is open, a call that succeeds sets the entry of the path in the map of unveiled
  paths; with enough memory it fails exactly if the path was unveiled before without one of the permissions. A locked veil refuses the call
  with EPERM, an inherited one ignores it, and both stay as they are. A call that fails changes no entry, though one that runs out of memory may leave new
  nodes in the tree. In any case every path then has the permissions of its longest unveiled prefix.
\<close>
theorem unveil_refines:
  assumes "veil_ok (u_paths data)" and "path_parts path = Inr parts"
    and "update_unveil_data memory data path a = (data', r)"
  shows "veil_ok (u_paths data') \<and> effective (u_paths data') q = longest_match (explicit_at (u_paths data')) 0 q \<and>
    (if open_veil data
     then explicit_at (u_paths data') = (if r = Inr () then (explicit_at (u_paths data))(parts \<mapsto> a) else explicit_at (u_paths data)) \<and>
       u_state data' = (if r = Inr () then VeilDropped else u_state data) \<and>
       (length parts < memory \<longrightarrow>
         r = (case explicit_at (u_paths data) parts of
                Some b \<Rightarrow> if a AND NOT b \<noteq> 0 then Inl (Err EPERM) else Inr ()
              | None \<Rightarrow> Inr ()))
     else data' = data \<and> r = (if u_state data = VeilLocked then Inl (Err EPERM) else Inr ()))"
proof (cases "open_veil data")
  case True
  note o = unveil_open [OF assms(1) True assms(2,3)]
  then have "veil_ok (u_paths data')" by blast
  then show ?thesis using True o effective_veil by simp
next
  case False
  then show ?thesis using assms(1,3) update_unveil_data_closed [OF False assms(2), of memory a] effective_veil [OF assms(1)] by auto
qed

text \<open>A veil with \<^verbatim>\<open>/usr/bin\<close> unveiled for reading and executing.\<close>
definition example_veil :: unveil_data where
  "example_veil = fst (update_unveil_data 3 \<lparr>u_state = VeilNone, u_paths = new_unveil_tree\<rparr> ''/usr/bin'' (UnveilRead OR UnveilExecute))"

lemma example_veil_tree:
  "example_veil = \<lparr>u_state = VeilDropped, u_paths = Trie \<lparr>full_path = ''/'', permissions = 0, explicitly_unveiled = False\<rparr>
     [(''usr'', Trie \<lparr>full_path = ''//usr'', permissions = 0, explicitly_unveiled = False\<rparr>
       [(''bin'', Trie \<lparr>full_path = ''/usr/bin'', permissions = 5, explicitly_unveiled = True\<rparr> [])])]\<rparr>"
  by code_simp

lemma example_veil_ok: "veil_ok (u_paths example_veil)" "open_veil example_veil"
  by (simp_all add: example_veil_tree veil_ok_def open_veil_def inherits_iff inherits_from_def was_explicitly_unveiled_def node_permissions_def)

theorem unveil_refines_witness:
  "veil_ok (u_paths (fst (update_unveil_data 4 example_veil ''/usr'' UnveilWrite)))"
  using unveil_refines [OF example_veil_ok(1), of "''/usr''" "[''usr'']" 4 UnveilWrite _ _ "[]", OF _ prod.collapse [symmetric]]
  by (rule conjunct1) code_simp

section \<open>Checking paths\<close>

text \<open>The permissions an access needs.\<close>
definition veil_grants :: "access \<Rightarrow> u32 \<Rightarrow> bool" where
  "veil_grants a options \<longleftrightarrow>
     (options AND O_CREAT \<noteq> 0 \<or> options AND O_UNLINK_INTERNAL \<noteq> 0 \<longrightarrow> a AND UnveilCreateOrRemove \<noteq> 0) \<and>
     (options AND O_UNLINK_INTERNAL = 0 \<longrightarrow>
        (options AND O_RDONLY \<noteq> 0 \<longrightarrow> a AND UnveilRead \<noteq> 0 \<or> options AND O_DIRECTORY \<noteq> 0 \<and> a AND UnveilBrowse \<noteq> 0) \<and>
        (options AND O_WRONLY \<noteq> 0 \<longrightarrow> a AND UnveilWrite \<noteq> 0) \<and>
        (options AND O_EXEC \<noteq> 0 \<longrightarrow> a AND UnveilExecute \<noteq> 0))"

lemma or_zero_iff: "(x :: u32) AND (y OR z) = 0 \<longleftrightarrow> x AND y = 0 \<and> x AND z = 0"
  by (simp add: bit.conj_disj_distrib) (metis bit.disj_zero_right or_eq_0_iff)

lemma validate_result:
  assumes "u_state data \<noteq> VeilNone" and "path_parts path = Inr parts" and "prefix ''/'' path"
  shows "validate_path_against_process_veil data path options =
    (let a = effective (u_paths data) parts
     in if a = 0 then Inl (Err ENOENT) else if veil_grants a options then Inr () else Inl (Err EACCES))"
proof -
  have c: "is_canonical path" using assms(2) by (simp add: path_parts_def split: if_splits)
  then have v: "\<not> (contains_string ''/../'' path \<or> suffix ''/..'' path)" "\<not> (contains_string ''/./'' path \<or> suffix ''/.'' path)"
    by (auto simp: is_canonical_def)
  have f: "find_matching_unveiled_path data path = Inr (fst (traverse_until_last_accessible_node (u_paths data) parts))"
    using assms by (simp add: find_matching_unveiled_path_def)
  show ?thesis
    unfolding validate_path_against_process_veil_def f bindR.simps veil_grants_def effective_def Let_def or_zero_iff
    using assms(1,3) v by (simp only: if_False if_True simp_thms) auto
qed

section \<open>Sequences of calls\<close>

inductive veil_reach :: "(string \<Rightarrow> resolution) \<Rightarrow> veils \<Rightarrow> veils \<Rightarrow> bool" for resolve where
  veil_refl: "veil_reach resolve v v"
| veil_unveil: "veil_reach resolve u v \<Longrightarrow> veil_reach resolve u (fst (sys_unveil resolve memory exec_memory params v))"

text \<open>The same with programs started in between.\<close>
inductive veil_exec_reach :: "(string \<Rightarrow> resolution) \<Rightarrow> veils \<Rightarrow> veils \<Rightarrow> bool" for resolve where
  exec_refl: "veil_exec_reach resolve v v"
| exec_call: "veil_exec_reach resolve u v \<Longrightarrow> veil_exec_reach resolve u (fst (sys_unveil resolve memory exec_memory params v))"
| exec_exec: "veil_exec_reach resolve u v \<Longrightarrow> veil_exec_reach resolve u (exec_unveil v)"

lemma update_unveil_data_keeps_ok:
  assumes "veil_ok (u_paths data)"
  shows "veil_ok (u_paths (fst (update_unveil_data memory data path a)))"
proof (cases "path_parts path")
  case (Inl e)
  then show ?thesis using assms by (simp add: update_unveil_data_def)
next
  case (Inr parts)
  obtain node r where at: "at_last_accessible_node (unveil_node_at memory path a) (u_paths data) parts = (node, r)"
    by (cases "at_last_accessible_node (unveil_node_at memory path a) (u_paths data) parts")
  have "veil_ok node"
    using veil_ok_unveils [OF assms unveils_at_last [of _ a parts memory path]] assms at by (simp add: veil_ok_def)
  then show ?thesis using Inr at assms by (simp add: update_unveil_data_def split: sum.split)
qed

lemma update_unveil_data_state:
  "u_state (fst (update_unveil_data memory data path a)) = u_state data \<or>
   open_veil data \<and> u_state (fst (update_unveil_data memory data path a)) = VeilDropped"
  unfolding update_unveil_data_def open_veil_def by (auto split: sum.split prod.split)

definition veils_ok :: "veils \<Rightarrow> bool" where
  "veils_ok v \<longleftrightarrow> veil_ok (u_paths (m_unveil_data v)) \<and> veil_ok (u_paths (m_exec_unveil_data v)) \<and>
     (u_state (m_exec_unveil_data v) = VeilNone \<or> u_state (m_exec_unveil_data v) = VeilDropped)"


lemma sys_unveil_current:
  "m_unveil_data (fst (sys_unveil resolve memory exec_memory params v)) = m_unveil_data v \<or>
   m_unveil_data (fst (sys_unveil resolve memory exec_memory params v)) = (m_unveil_data v)\<lparr>u_state := VeilLocked\<rparr> \<or>
   open_veil (m_unveil_data v) \<and> (\<exists>path a. m_unveil_data (fst (sys_unveil resolve memory exec_memory params v)) =
     fst (update_unveil_data memory (m_unveil_data v) path a))"
  unfolding sys_unveil_def Let_def open_veil_def case_prod_beta
  by (simp split: option.split sum.split) blast

lemma sys_unveil_exec:
  "m_exec_unveil_data (fst (sys_unveil resolve memory exec_memory params v)) = m_exec_unveil_data v \<or>
   (\<exists>path a. m_exec_unveil_data (fst (sys_unveil resolve memory exec_memory params v)) =
     fst (update_unveil_data exec_memory (m_exec_unveil_data v) path a))"
  unfolding sys_unveil_def Let_def case_prod_beta
  by (simp split: option.split sum.split) blast

lemma sys_unveil_ok:
  assumes "veils_ok v"
  shows "veils_ok (fst (sys_unveil resolve memory exec_memory params v))"
proof -
  have "veil_ok (u_paths (m_unveil_data (fst (sys_unveil resolve memory exec_memory params v))))"
    using sys_unveil_current [of resolve memory exec_memory params v] assms
    by (auto simp: veils_ok_def update_unveil_data_keeps_ok)
  moreover have "veil_ok (u_paths (m_exec_unveil_data (fst (sys_unveil resolve memory exec_memory params v))))"
    using sys_unveil_exec [of resolve memory exec_memory params v] assms
    by (auto simp: veils_ok_def update_unveil_data_keeps_ok)
  moreover have "u_state (m_exec_unveil_data (fst (sys_unveil resolve memory exec_memory params v))) \<in> {VeilNone, VeilDropped}"
    using sys_unveil_exec [of resolve memory exec_memory params v] update_unveil_data_state [of exec_memory "m_exec_unveil_data v"] assms
    unfolding veils_ok_def by force
  ultimately show ?thesis by (simp add: veils_ok_def)
qed

lemma exec_unveil_ok: "veils_ok v \<Longrightarrow> veils_ok (exec_unveil v)"
  by (simp add: veils_ok_def exec_unveil_def)

lemma veils_reach_ok: "veil_exec_reach resolve u v \<Longrightarrow> veils_ok u \<Longrightarrow> veils_ok v"
  by (induction rule: veil_exec_reach.induct) (simp_all add: sys_unveil_ok exec_unveil_ok)

lemma veils_ok_new: "veils_ok new_veils"
  by (simp add: veils_ok_def new_veils_def)

text \<open>
  C19: Whatever unveil calls a process and the programs it starts have made: as long as the running program has no veil, every path passes. Once it has one,
  by its own calls or prepared before it was started, the check of a path gives ENOENT if the longest unveiled prefix of the path has no permissions or there is
  none, and otherwise lets the access pass exactly if that prefix was unveiled with all the permissions the access needs.
\<close>
theorem access_needs_unveil:
  assumes "veil_exec_reach resolve new_veils v" and "path_parts path = Inr parts" and "prefix ''/'' path"
  shows "validate_path_against_process_veil (m_unveil_data v) path options =
    (if u_state (m_unveil_data v) = VeilNone then Inr ()
     else let a = longest_match (explicit_at (u_paths (m_unveil_data v))) 0 parts
          in if a = 0 then Inl (Err ENOENT) else if veil_grants a options then Inr () else Inl (Err EACCES))"
proof (cases "u_state (m_unveil_data v) = VeilNone")
  case True
  then show ?thesis by (simp add: validate_path_against_process_veil_def)
next
  case False
  have "veil_ok (u_paths (m_unveil_data v))" using veils_reach_ok [OF assms(1) veils_ok_new] by (simp add: veils_ok_def)
  then show ?thesis unfolding validate_result [OF False assms(2,3)] using False by (simp only: effective_veil if_False)
qed

definition example_unveil :: "string \<Rightarrow> string \<Rightarrow> unveil_params option" where
  "example_unveil path perms = Some \<lparr>up_flags = CurrentProgram, up_path = Some \<lparr>sa_length = length path, sa_contents = Some path\<rparr>,
     up_permissions = Some \<lparr>sa_length = length perms, sa_contents = Some perms\<rparr>\<rparr>"

lemma example_reach:
  "veil_exec_reach Found new_veils (fst (sys_unveil Found 3 3 (example_unveil ''/usr/bin'' ''rx'') new_veils))"
  by (intro exec_call exec_refl)

theorem access_needs_unveil_witness:
  "validate_path_against_process_veil
     (m_unveil_data (fst (sys_unveil Found 3 3 (example_unveil ''/usr/bin'' ''rx'') new_veils))) ''/usr/bin/cat'' O_EXEC = Inr ()"
proof -
  let ?v = "fst (sys_unveil Found 3 3 (example_unveil ''/usr/bin'' ''rx'') new_veils)"
  have "u_state (m_unveil_data ?v) \<noteq> VeilNone" "path_parts ''/usr/bin/cat'' = Inr [''usr'', ''bin'', ''cat'']"
    "prefix ''/'' ''/usr/bin/cat''" by code_simp+
  note access_needs_unveil [OF example_reach this(2,3), of O_EXEC]
  moreover note this(1)
  moreover have "longest_match (explicit_at (u_paths (m_unveil_data ?v))) 0 [''usr'', ''bin'', ''cat''] = 5" by code_simp
  moreover have "veil_grants 5 O_EXEC" by code_simp
  ultimately show ?thesis by simp
qed

section \<open>Locked veils\<close>

lemma sys_unveil_locked:
  assumes "\<not> open_veil (m_unveil_data v)"
  shows "u_paths (m_unveil_data (fst (sys_unveil resolve memory exec_memory params v))) = u_paths (m_unveil_data v) \<and>
    \<not> open_veil (m_unveil_data (fst (sys_unveil resolve memory exec_memory params v)))"
  using sys_unveil_current [of resolve memory exec_memory params v] assms by (auto simp: open_veil_def)

text \<open>The veil of a process is locked by the call without a path, and by starting a program after unveiling paths for it.\<close>
lemma reach_locked:
  "veil_reach resolve u v \<Longrightarrow> \<not> open_veil (m_unveil_data u) \<Longrightarrow>
   u_paths (m_unveil_data v) = u_paths (m_unveil_data u) \<and> \<not> open_veil (m_unveil_data v)"
  by (induction rule: veil_reach.induct) (simp_all add: sys_unveil_locked)

text \<open>
  C24: A locked veil is final: once a process has locked its veil, or was started with the veil its parent
  prepared, no sequence of unveil calls changes the outcome of any check of a path.
\<close>
theorem locked_veil_is_final:
  assumes "veil_reach resolve u v" and "\<not> open_veil (m_unveil_data u)"
  shows "validate_path_against_process_veil (m_unveil_data v) path options =
    validate_path_against_process_veil (m_unveil_data u) path options"
proof -
  have v: "u_paths (m_unveil_data v) = u_paths (m_unveil_data u)" "\<not> open_veil (m_unveil_data v)"
    using reach_locked [OF assms] by simp_all
  have none: "u_state (m_unveil_data u) \<noteq> VeilNone" "u_state (m_unveil_data v) \<noteq> VeilNone"
    using assms(2) v(2) by (auto simp: open_veil_def)
  then have "find_matching_unveiled_path (m_unveil_data v) path = find_matching_unveiled_path (m_unveil_data u) path"
    using v(1) by (simp add: find_matching_unveiled_path_def)
  then show ?thesis using none by (simp add: validate_path_against_process_veil_def)
qed

definition example_locked :: veils where
  "example_locked = new_veils\<lparr>m_unveil_data := example_veil\<lparr>u_state := VeilLocked\<rparr>\<rparr>"

theorem locked_veil_is_final_witness:
  "validate_path_against_process_veil
     (m_unveil_data (fst (sys_unveil Found 3 3 (example_unveil ''/etc'' ''rw'') example_locked))) ''/etc/passwd'' O_RDONLY = Inl (Err ENOENT)"
proof -
  have "\<not> open_veil (m_unveil_data example_locked)" by (simp add: example_locked_def open_veil_def)
  note locked_veil_is_final [OF veil_unveil [OF veil_refl] this, of Found 3 3 "example_unveil ''/etc'' ''rw''" "''/etc/passwd''" O_RDONLY]
  also have "validate_path_against_process_veil (m_unveil_data example_locked) ''/etc/passwd'' O_RDONLY = Inl (Err ENOENT)"
    unfolding example_locked_def example_veil_tree by code_simp
  finally show ?thesis .
qed

end
