(* ===== verification/Mutex.thy ===== *)
theory Mutex
  imports Bits "HOL-Library.Multiset"
begin

text \<open>
  \<^verbatim>\<open>Kernel/Locking/Mutex.cpp\<close> and the two functions of \<^verbatim>\<open>Thread.cpp\<close> a mutex blocks threads with. A thread is its
  address, 0 is no thread. Every function runs under the spinlock of the mutex, except that a thread that blocks gives it up and takes it again
  when it runs on: such a call is two functions here, the second one (\<open>_resume\<close>) for what follows the wait. Whether a thread is
  blocked by this mutex (\<^verbatim>\<open>m_blocking_mutex\<close>) and how many locks it asked for are part of the state. Scheduling and debug
  output are left out.
\<close>

type_synonym thread = nat

datatype lock_mode = Unlocked | Shared | Exclusive

datatype mutex_behavior = Regular | BigLock

record mutex =
  m_mode :: lock_mode
  m_behavior :: mutex_behavior
  m_times_locked :: u32
  m_holder :: thread
  m_shared_holders :: u64
  l_exclusive :: "thread list"
  l_shared :: "thread list"
  l_exclusive_big_lock :: "thread list"
  m_blocking_mutex :: "thread \<Rightarrow> bool"
  m_lock_requested_count :: "thread \<Rightarrow> u32"

definition new_mutex :: "mutex_behavior \<Rightarrow> mutex" where
  "new_mutex behavior = \<lparr>m_mode = Unlocked, m_behavior = behavior, m_times_locked = 0, m_holder = 0, m_shared_holders = 0,
     l_exclusive = [], l_shared = [], l_exclusive_big_lock = [], m_blocking_mutex = (\<lambda>_. False), m_lock_requested_count = (\<lambda>_. 0)\<rparr>"

definition is_locked :: "mutex \<Rightarrow> bool" where
  "is_locked m \<longleftrightarrow> m_mode m \<noteq> Unlocked"

definition is_exclusively_locked_by_current_thread :: "thread \<Rightarrow> mutex \<Rightarrow> bool result" where
  "is_exclusively_locked_by_current_thread current_thread m =
     (if m_mode m = Shared then Inl VerifyFailed
      else if m_mode m = Unlocked then Inr False
      else Inr (m_holder m = current_thread))"

section \<open>Waiting\<close>

definition list_for_mode :: "lock_mode \<Rightarrow> mutex \<Rightarrow> thread list" where
  "list_for_mode mode m = (if mode = Exclusive then l_exclusive m else l_shared m)"

definition wait_list :: "lock_mode \<Rightarrow> mutex \<Rightarrow> thread list" where
  "wait_list mode m = (if m_behavior m = BigLock then l_exclusive_big_lock m else list_for_mode mode m)"

definition set_wait_list :: "lock_mode \<Rightarrow> thread list \<Rightarrow> mutex \<Rightarrow> mutex" where
  "set_wait_list mode ts m =
     (if m_behavior m = BigLock then m\<lparr>l_exclusive_big_lock := ts\<rparr>
      else if mode = Exclusive then m\<lparr>l_exclusive := ts\<rparr> else m\<lparr>l_shared := ts\<rparr>)"

definition thread_block :: "thread \<Rightarrow> u32 \<Rightarrow> mutex \<Rightarrow> mutex result" where
  "thread_block t lock_count m =
     (if m_blocking_mutex m t then Inl VerifyFailed
      else Inr (m\<lparr>m_blocking_mutex := (m_blocking_mutex m)(t := True),
        m_lock_requested_count := (m_lock_requested_count m)(t := lock_count)\<rparr>))"

definition mutex_block :: "thread \<Rightarrow> lock_mode \<Rightarrow> u32 \<Rightarrow> mutex \<Rightarrow> mutex result" where
  "mutex_block current_thread mode requested_locks m =
     (if m_behavior m = Regular \<and> mode = Unlocked then Inl VerifyFailed
      else if current_thread \<in> set (wait_list mode m) then Inl VerifyFailed
      else thread_block current_thread requested_locks (set_wait_list mode (wait_list mode m @ [current_thread]) m))"

definition mutex_block_resume :: "thread \<Rightarrow> lock_mode \<Rightarrow> mutex \<Rightarrow> mutex result" where
  "mutex_block_resume current_thread mode m =
     (if m_blocking_mutex m current_thread then Inl VerifyFailed
      else if current_thread \<notin> set (wait_list mode m) then Inl VerifyFailed
      else Inr (set_wait_list mode (remove1 current_thread (wait_list mode m)) m))"

section \<open>Locking\<close>

text \<open>The flag of the result is whether the thread blocks.\<close>
definition mutex_lock :: "thread \<Rightarrow> lock_mode \<Rightarrow> mutex \<Rightarrow> (mutex \<times> bool) result" where
  "mutex_lock current_thread mode m =
     (if mode = Unlocked then Inl VerifyFailed
      else case m_mode m of
        Unlocked \<Rightarrow>
          if m_holder m \<noteq> 0 \<or> m_shared_holders m \<noteq> 0 then Inl VerifyFailed
          else if m_times_locked m \<noteq> 0 then Inl VerifyFailed
          else if mode = Exclusive
            then Inr (m\<lparr>m_mode := mode, m_holder := current_thread, m_times_locked := m_times_locked m + 1\<rparr>, False)
          else Inr (m\<lparr>m_mode := mode, m_shared_holders := m_shared_holders m + 1, m_times_locked := m_times_locked m + 1\<rparr>, False)
      | Exclusive \<Rightarrow>
          if m_holder m = 0 then Inl VerifyFailed
          else if m_holder m \<noteq> current_thread then bindR (mutex_block current_thread mode 1 m) (\<lambda>m. Inr (m, True))
          else if m_shared_holders m \<noteq> 0 then Inl VerifyFailed
          else if m_times_locked m = 0 then Inl VerifyFailed
          else Inr (m\<lparr>m_times_locked := m_times_locked m + 1\<rparr>, False)
      | Shared \<Rightarrow>
          if m_behavior m \<noteq> Regular \<or> m_holder m \<noteq> 0 then Inl VerifyFailed
          else if mode = Exclusive then bindR (mutex_block current_thread mode 1 m) (\<lambda>m. Inr (m, True))
          else if m_times_locked m = 0 then Inl VerifyFailed
          else if m_shared_holders m = 0 then Inl VerifyFailed
          else Inr (m\<lparr>m_times_locked := m_times_locked m + 1, m_shared_holders := m_shared_holders m + 1\<rparr>, False))"

text \<open>\<open>entry_mode\<close> is the mode of the mutex when the call was made.\<close>
definition mutex_lock_resume :: "thread \<Rightarrow> lock_mode \<Rightarrow> lock_mode \<Rightarrow> mutex \<Rightarrow> mutex result" where
  "mutex_lock_resume current_thread entry_mode mode m0 =
     bindR (mutex_block_resume current_thread mode m0) (\<lambda>m.
     if m_mode m \<noteq> mode then Inl VerifyFailed
     else if entry_mode = Exclusive then
       if m_mode m = Exclusive \<and> (m_holder m \<noteq> current_thread \<or> m_shared_holders m \<noteq> 0) then Inl VerifyFailed
       else if m_mode m \<noteq> Exclusive \<and> mode = Shared \<and> (m_holder m \<noteq> 0 \<or> m_shared_holders m = 0) then Inl VerifyFailed
       else if m_times_locked m = 0 then Inl VerifyFailed
       else Inr m
     else
       if m_times_locked m = 0 then Inl VerifyFailed
       else if m_mode m = Shared then Inl VerifyFailed
       else if mode \<noteq> Exclusive \<or> m_holder m \<noteq> current_thread \<or> m_shared_holders m \<noteq> 0 then Inl VerifyFailed
       else Inr m)"

section \<open>Unlocking\<close>

definition unblock_from_mutex :: "thread \<Rightarrow> mutex \<Rightarrow> (mutex \<times> u32) result" where
  "unblock_from_mutex t m =
     (if \<not> m_blocking_mutex m t then Inl VerifyFailed
      else Inr (m\<lparr>m_blocking_mutex := (m_blocking_mutex m)(t := False)\<rparr>, m_lock_requested_count m t))"

fun unblock_each_shared :: "thread list \<Rightarrow> mutex \<Rightarrow> mutex result" where
  "unblock_each_shared [] m = Inr m"
| "unblock_each_shared (t # ts) m =
     bindR (unblock_from_mutex t m) (\<lambda>(m, requested_locks).
     unblock_each_shared ts (m\<lparr>m_shared_holders := m_shared_holders m + ucast requested_locks,
       m_times_locked := m_times_locked m + requested_locks\<rparr>))"

definition unblock_shared :: "mutex \<Rightarrow> (mutex \<times> bool) result" where
  "unblock_shared m =
     (if l_shared m = [] then Inr (m, False)
      else if m_behavior m \<noteq> Regular then Inl VerifyFailed
      else bindR (unblock_each_shared (l_shared m) (m\<lparr>m_mode := Shared\<rparr>)) (\<lambda>m. Inr (m, True)))"

definition unblock_exclusive :: "thread list \<Rightarrow> mutex \<Rightarrow> (mutex \<times> bool) result" where
  "unblock_exclusive ts m =
     (case ts of
        [] \<Rightarrow> Inr (m, False)
      | t # _ \<Rightarrow>
          bindR (unblock_from_mutex t (m\<lparr>m_mode := Exclusive\<rparr>)) (\<lambda>(m, requested_locks).
          Inr (m\<lparr>m_times_locked := requested_locks, m_holder := t\<rparr>, True)))"

definition unblock_waiters :: "lock_mode \<Rightarrow> mutex \<Rightarrow> mutex result" where
  "unblock_waiters previous_mode m =
     (if m_times_locked m \<noteq> 0 then Inl VerifyFailed
      else if m_mode m \<noteq> Unlocked then Inl VerifyFailed
      else if m_behavior m = BigLock then bindR (unblock_exclusive (l_exclusive_big_lock m) m) (\<lambda>(m, _). Inr m)
      else if previous_mode = Exclusive then
        bindR (unblock_shared m) (\<lambda>(m, unblocked).
        if \<not> unblocked then bindR (unblock_exclusive (l_exclusive m) m) (\<lambda>(m, _). Inr m) else Inr m)
      else
        bindR (unblock_exclusive (l_exclusive m) m) (\<lambda>(m, unblocked).
        if \<not> unblocked then bindR (unblock_shared m) (\<lambda>(m, _). Inr m) else Inr m))"

definition release_waiters :: "lock_mode \<Rightarrow> mutex \<Rightarrow> mutex result" where
  "release_waiters current_mode m =
     (if m_times_locked m = 0 then
        if (if current_mode = Exclusive then m_holder m \<noteq> 0 else m_shared_holders m \<noteq> 0) then Inl VerifyFailed
        else unblock_waiters current_mode (m\<lparr>m_mode := Unlocked\<rparr>)
      else Inr m)"

definition mutex_unlock :: "thread \<Rightarrow> mutex \<Rightarrow> mutex result" where
  "mutex_unlock current_thread m =
     (if m_mode m = Unlocked then Inl VerifyFailed
      else if m_times_locked m = 0 then Inl VerifyFailed
      else
        let m1 = m\<lparr>m_times_locked := m_times_locked m - 1\<rparr>
        in if m_mode m = Exclusive then
             if m_holder m1 \<noteq> current_thread \<or> m_shared_holders m1 \<noteq> 0 then Inl VerifyFailed
             else release_waiters (m_mode m) (if m_times_locked m1 = 0 then m1\<lparr>m_holder := 0\<rparr> else m1)
           else
             if m_holder m1 \<noteq> 0 \<or> m_shared_holders m1 = 0 then Inl VerifyFailed
             else release_waiters (m_mode m) (m1\<lparr>m_shared_holders := m_shared_holders m1 - 1\<rparr>))"

section \<open>Giving up the big lock\<close>

text \<open>The result has the mode and the number of locks to restore.\<close>
definition force_unlock_exclusive_if_locked :: "thread \<Rightarrow> mutex \<Rightarrow> (mutex \<times> lock_mode \<times> u32) result" where
  "force_unlock_exclusive_if_locked current_thread m =
     (if m_behavior m \<noteq> BigLock then Inl VerifyFailed
      else case m_mode m of
        Exclusive \<Rightarrow>
          if m_holder m \<noteq> current_thread then Inr (m, Unlocked, 0)
          else if m_times_locked m = 0 then Inl VerifyFailed
          else bindR (unblock_waiters Exclusive (m\<lparr>m_holder := 0, m_times_locked := 0, m_mode := Unlocked\<rparr>)) (\<lambda>m'.
               Inr (m', Exclusive, m_times_locked m))
      | Unlocked \<Rightarrow> Inr (m, Unlocked, 0)
      | Shared \<Rightarrow> Inl VerifyFailed)"

definition restore_exclusive_lock :: "thread \<Rightarrow> u32 \<Rightarrow> mutex \<Rightarrow> (mutex \<times> bool) result" where
  "restore_exclusive_lock current_thread lock_count m =
     (if m_behavior m \<noteq> BigLock then Inl VerifyFailed
      else if lock_count = 0 then Inl VerifyFailed
      else if m_mode m = Exclusive \<and> m_holder m \<noteq> current_thread
        then bindR (mutex_block current_thread Exclusive lock_count m) (\<lambda>m. Inr (m, True))
      else if m_mode m = Shared then Inl VerifyFailed
      else if m_shared_holders m \<noteq> 0 then Inl VerifyFailed
      else if m_mode m = Unlocked then
        if m_times_locked m \<noteq> 0 \<or> m_holder m \<noteq> 0 then Inl VerifyFailed
        else Inr (m\<lparr>m_mode := Exclusive, m_times_locked := lock_count, m_holder := current_thread\<rparr>, False)
      else if m_times_locked m = 0 then Inl VerifyFailed
      else Inr (m\<lparr>m_times_locked := m_times_locked m + lock_count\<rparr>, False))"

definition restore_exclusive_lock_resume :: "thread \<Rightarrow> mutex \<Rightarrow> mutex result" where
  "restore_exclusive_lock_resume current_thread m0 =
     bindR (mutex_block_resume current_thread Exclusive m0) (\<lambda>m.
     if m_mode m \<noteq> Exclusive then Inl VerifyFailed
     else if m_shared_holders m \<noteq> 0 then Inl VerifyFailed
     else if m_times_locked m = 0 \<or> m_holder m \<noteq> current_thread then Inl VerifyFailed
     else Inr m)"

end
