(* ===== verification/Mutual_Exclusion.thy ===== *)
theory Mutual_Exclusion
  imports Mutex
begin

text \<open>
  Threads that use one mutex. The state of the system is the mutex, for every waiting thread the call it waits in, and the locks
  that were given out and not given back, as a multiset of threads. The steps are the atomic parts of the calls, in any order.
\<close>

section \<open>The system\<close>

datatype waiting = InLock (entry_mode: lock_mode) (requested_mode: lock_mode) | InRestore

fun wait_mode :: "waiting \<Rightarrow> lock_mode" where
  "wait_mode (InLock _ mode) = mode"
| "wait_mode InRestore = Exclusive"

record mutex_system =
  the_mutex :: mutex
  waits :: "thread \<Rightarrow> waiting option"
  holds :: "thread multiset"

definition waiters :: "mutex \<Rightarrow> thread list" where
  "waiters m = l_exclusive m @ l_shared m @ l_exclusive_big_lock m"

text \<open>The locks given to threads a change of the mutex has unblocked.\<close>
definition granted :: "mutex \<Rightarrow> mutex \<Rightarrow> thread multiset" where
  "granted m m' = (\<Sum>t \<in> {t \<in> set (waiters m). m_blocking_mutex m t \<and> \<not> m_blocking_mutex m' t}.
     replicate_mset (unat (m_lock_requested_count m t)) t)"

text \<open>The big lock is only ever locked exclusively, and no thread unlocks a lock it does not hold.\<close>
inductive mutex_step :: "mutex_system \<Rightarrow> mutex_system \<Rightarrow> bool" where
  step_lock: "\<lbrakk>t \<noteq> 0; waits s t = None; mode \<noteq> Unlocked; m_behavior (the_mutex s) = BigLock \<Longrightarrow> mode = Exclusive;
     mutex_lock t mode (the_mutex s) = Inr (m, False)\<rbrakk>
   \<Longrightarrow> mutex_step s (s\<lparr>the_mutex := m, holds := add_mset t (holds s)\<rparr>)"
| step_lock_waits: "\<lbrakk>t \<noteq> 0; waits s t = None; mode \<noteq> Unlocked; m_behavior (the_mutex s) = BigLock \<Longrightarrow> mode = Exclusive;
     mutex_lock t mode (the_mutex s) = Inr (m, True)\<rbrakk>
   \<Longrightarrow> mutex_step s (s\<lparr>the_mutex := m, waits := (waits s)(t \<mapsto> InLock (m_mode (the_mutex s)) mode)\<rparr>)"
| step_lock_resume: "\<lbrakk>waits s t = Some (InLock entry mode); \<not> m_blocking_mutex (the_mutex s) t;
     mutex_lock_resume t entry mode (the_mutex s) = Inr m\<rbrakk>
   \<Longrightarrow> mutex_step s (s\<lparr>the_mutex := m, waits := (waits s)(t := None)\<rparr>)"
| step_unlock: "\<lbrakk>waits s t = None; t \<in># holds s; mutex_unlock t (the_mutex s) = Inr m\<rbrakk>
   \<Longrightarrow> mutex_step s (s\<lparr>the_mutex := m, holds := holds s - {#t#} + granted (the_mutex s) m\<rparr>)"
| step_force_unlock: "\<lbrakk>t \<noteq> 0; waits s t = None; force_unlock_exclusive_if_locked t (the_mutex s) = Inr (m, mode, n)\<rbrakk>
   \<Longrightarrow> mutex_step s (s\<lparr>the_mutex := m, holds := holds s - replicate_mset (unat n) t + granted (the_mutex s) m\<rparr>)"
| step_restore: "\<lbrakk>t \<noteq> 0; waits s t = None; restore_exclusive_lock t n (the_mutex s) = Inr (m, False)\<rbrakk>
   \<Longrightarrow> mutex_step s (s\<lparr>the_mutex := m, holds := holds s + replicate_mset (unat n) t\<rparr>)"
| step_restore_waits: "\<lbrakk>t \<noteq> 0; waits s t = None; restore_exclusive_lock t n (the_mutex s) = Inr (m, True)\<rbrakk>
   \<Longrightarrow> mutex_step s (s\<lparr>the_mutex := m, waits := (waits s)(t \<mapsto> InRestore)\<rparr>)"
| step_restore_resume: "\<lbrakk>waits s t = Some InRestore; \<not> m_blocking_mutex (the_mutex s) t;
     restore_exclusive_lock_resume t (the_mutex s) = Inr m\<rbrakk>
   \<Longrightarrow> mutex_step s (s\<lparr>the_mutex := m, waits := (waits s)(t := None)\<rparr>)"

text \<open>The counter of the mutex has 32 bits; the steps considered are those with fewer than $2^{32}$ locks given out.\<close>
definition few_locks :: "mutex_system \<Rightarrow> bool" where
  "few_locks s \<longleftrightarrow> size (holds s) < 2 ^ 32"

definition new_system :: "mutex_behavior \<Rightarrow> mutex_system" where
  "new_system behavior = \<lparr>the_mutex = new_mutex behavior, waits = (\<lambda>_. None), holds = {#}\<rparr>"

inductive mutex_reach :: "mutex_behavior \<Rightarrow> mutex_system \<Rightarrow> bool" for behavior where
  reach_new: "mutex_reach behavior (new_system behavior)"
| reach_step: "mutex_reach behavior s \<Longrightarrow> mutex_step s s' \<Longrightarrow> few_locks s' \<Longrightarrow> mutex_reach behavior s'"

section \<open>The invariant\<close>

fun call_ok :: "mutex_behavior \<Rightarrow> waiting \<Rightarrow> bool" where
  "call_ok b (InLock e d) \<longleftrightarrow> e \<noteq> Unlocked \<and> d \<noteq> Unlocked \<and> (e = Shared \<longrightarrow> d = Exclusive) \<and> (b = BigLock \<longrightarrow> d = Exclusive)"
| "call_ok b InRestore \<longleftrightarrow> True"

definition waits_for :: "(thread \<Rightarrow> waiting option) \<Rightarrow> lock_mode \<Rightarrow> thread set" where
  "waits_for w mode = {t. map_option wait_mode (w t) = Some mode}"

text \<open>The waiting lists hold the waiting threads.\<close>
definition lists_ok :: "mutex \<Rightarrow> (thread \<Rightarrow> waiting option) \<Rightarrow> bool" where
  "lists_ok m w \<longleftrightarrow>
     distinct (l_exclusive m) \<and> distinct (l_shared m) \<and> distinct (l_exclusive_big_lock m) \<and>
     set (l_exclusive m) = (if m_behavior m = Regular then waits_for w Exclusive else {}) \<and>
     set (l_shared m) = (if m_behavior m = Regular then waits_for w Shared else {}) \<and>
     set (l_exclusive_big_lock m) = (if m_behavior m = BigLock then waits_for w Exclusive else {}) \<and>
     (\<forall>t c. w t = Some c \<longrightarrow> call_ok (m_behavior m) c \<and> t \<noteq> 0) \<and>
     (\<forall>t. m_blocking_mutex m t \<longrightarrow> w t \<noteq> None \<and> 0 < m_lock_requested_count m t)"

text \<open>The mode and the counters say who holds the lock.\<close>
fun mode_ok :: "lock_mode \<Rightarrow> mutex \<Rightarrow> thread multiset \<Rightarrow> bool" where
  "mode_ok Unlocked m h \<longleftrightarrow> m_holder m = 0 \<and> m_shared_holders m = 0 \<and> h = {#} \<and> (\<forall>t. \<not> m_blocking_mutex m t)"
| "mode_ok Exclusive m h \<longleftrightarrow> m_holder m \<noteq> 0 \<and> m_shared_holders m = 0 \<and> h \<noteq> {#} \<and> set_mset h = {m_holder m}"
| "mode_ok Shared m h \<longleftrightarrow> m_holder m = 0 \<and> m_behavior m = Regular \<and> h \<noteq> {#} \<and> 0 \<notin># h \<and> m_shared_holders m = of_nat (size h)"

text \<open>The holder of an exclusive lock is not blocked, and nobody is blocked asking for a shared lock while it is shared.\<close>
definition blocked_ok :: "mutex \<Rightarrow> (thread \<Rightarrow> waiting option) \<Rightarrow> bool" where
  "blocked_ok m w \<longleftrightarrow>
     (m_mode m = Exclusive \<longrightarrow> \<not> m_blocking_mutex m (m_holder m)) \<and>
     (m_mode m = Shared \<longrightarrow> (\<forall>t c. w t = Some c \<and> wait_mode c = Shared \<longrightarrow> \<not> m_blocking_mutex m t))"

definition lock_inv :: "mutex \<Rightarrow> (thread \<Rightarrow> waiting option) \<Rightarrow> thread multiset \<Rightarrow> bool" where
  "lock_inv m w h \<longleftrightarrow>
     lists_ok m w \<and> mode_ok (m_mode m) m h \<and> blocked_ok m w \<and> m_times_locked m = of_nat (size h) \<and>
     (\<forall>t c. w t = Some c \<and> \<not> m_blocking_mutex m t \<longrightarrow> m_mode m = wait_mode c \<and> t \<in># h)"

lemma lock_invI:
  "lists_ok m w \<Longrightarrow> mode_ok (m_mode m) m h \<Longrightarrow> blocked_ok m w \<Longrightarrow> m_times_locked m = of_nat (size h) \<Longrightarrow>
   (\<And>t c. w t = Some c \<Longrightarrow> \<not> m_blocking_mutex m t \<Longrightarrow> m_mode m = wait_mode c \<and> t \<in># h) \<Longrightarrow> lock_inv m w h"
  unfolding lock_inv_def by blast

definition mutex_inv :: "mutex_system \<Rightarrow> bool" where
  "mutex_inv s \<longleftrightarrow> lock_inv (the_mutex s) (waits s) (holds s) \<and> few_locks s"

lemma mutex_inv_new: "mutex_inv (new_system behavior)"
  by (simp add: mutex_inv_def lock_inv_def blocked_ok_def few_locks_def new_system_def new_mutex_def lists_ok_def waits_for_def)

lemma of_nat_u32_0: "n < 2 ^ 32 \<Longrightarrow> (of_nat n :: u32) = 0 \<longleftrightarrow> n = 0"
  by (auto simp: word_of_nat_eq_0_iff dest: nat_dvd_not_less)

lemma of_nat_u64_0: "n < 2 ^ 32 \<Longrightarrow> (of_nat n :: u64) = 0 \<longleftrightarrow> n = 0"
  by (auto simp: word_of_nat_eq_0_iff dest: nat_dvd_not_less)

section \<open>Waiting\<close>

lemma waits_for_upd:
  "waits_for (w(t \<mapsto> c)) mode = (if wait_mode c = mode then insert t (waits_for w mode) else waits_for w mode - {t})"
  "waits_for (w(t := None)) mode = waits_for w mode - {t}"
  by (auto simp: waits_for_def)

lemma waits_for_None: "w t = None \<Longrightarrow> t \<notin> waits_for w mode"
  by (simp add: waits_for_def)

lemma lists_ok_call: "lists_ok m w \<Longrightarrow> w t = Some c \<Longrightarrow> call_ok (m_behavior m) c \<and> t \<noteq> 0"
  unfolding lists_ok_def by blast

lemma wait_list_set:
  "lists_ok m w \<Longrightarrow> mode \<noteq> Unlocked \<Longrightarrow> (m_behavior m = BigLock \<Longrightarrow> mode = Exclusive) \<Longrightarrow>
   set (wait_list mode m) = waits_for w mode \<and> distinct (wait_list mode m)"
  by (cases mode; cases "m_behavior m") (simp_all add: lists_ok_def wait_list_def list_for_mode_def)

text \<open>What the waiting functions keep of the mutex.\<close>
definition same_lock :: "mutex \<Rightarrow> mutex \<Rightarrow> bool" where
  "same_lock m m' \<longleftrightarrow> m_mode m' = m_mode m \<and> m_behavior m' = m_behavior m \<and> m_times_locked m' = m_times_locked m \<and>
     m_holder m' = m_holder m \<and> m_shared_holders m' = m_shared_holders m"

lemma mutex_block_ok:
  assumes "lists_ok m w" and "w t = None" and "t \<noteq> 0" and "0 < n" and "wait_mode c = mode" and "call_ok (m_behavior m) c"
  obtains m' where "mutex_block t mode n m = Inr m'" and "same_lock m m'" and "lists_ok m' (w(t \<mapsto> c))"
    and "m_blocking_mutex m' = (m_blocking_mutex m)(t := True)"
proof -
  let ?m = "(set_wait_list mode (wait_list mode m @ [t]) m)\<lparr>m_blocking_mutex := (m_blocking_mutex m)(t := True),
    m_lock_requested_count := (m_lock_requested_count m)(t := n)\<rparr>"
  have mode: "mode \<noteq> Unlocked" "m_behavior m = BigLock \<Longrightarrow> mode = Exclusive"
    using assms(5,6) by (cases c; auto)+
  have t: "t \<notin> waits_for w d" for d using assms(2) by (rule waits_for_None)
  have "\<not> m_blocking_mutex m t" using assms(1,2) by (auto simp: lists_ok_def)
  moreover have "t \<notin> set (wait_list mode m)" using wait_list_set [OF assms(1) mode] t by simp
  ultimately have b: "mutex_block t mode n m = Inr ?m"
    using mode by (simp add: mutex_block_def thread_block_def set_wait_list_def)
  have s: "same_lock m ?m" by (simp add: same_lock_def set_wait_list_def)
  have "lists_ok ?m (w(t \<mapsto> c))"
  proof (cases "m_behavior m")
    case Regular
    show ?thesis using assms t mode(1) Regular by (cases mode) (auto simp: lists_ok_def set_wait_list_def wait_list_def list_for_mode_def waits_for_upd)
  next
    case BigLock
    show ?thesis using assms t mode(2) [OF BigLock] BigLock by (auto simp: lists_ok_def set_wait_list_def wait_list_def waits_for_upd)
  qed
  then show thesis using that b s by (simp add: set_wait_list_def)
qed

lemma mutex_block_resume_ok:
  assumes "lists_ok m w" and "w t = Some c" and "\<not> m_blocking_mutex m t"
  obtains m' where "mutex_block_resume t (wait_mode c) m = Inr m'" and "same_lock m m'" and "lists_ok m' (w(t := None))"
    and "m_blocking_mutex m' = m_blocking_mutex m"
proof -
  let ?m = "set_wait_list (wait_mode c) (remove1 t (wait_list (wait_mode c) m)) m"
  have ok: "call_ok (m_behavior m) c" using assms(1,2) by (auto simp: lists_ok_def)
  have mode: "wait_mode c \<noteq> Unlocked" "m_behavior m = BigLock \<Longrightarrow> wait_mode c = Exclusive"
    using ok by (cases c; auto)+
  have t: "t \<in> waits_for w d \<longleftrightarrow> d = wait_mode c" for d using assms(2) by (auto simp: waits_for_def)
  then have b: "mutex_block_resume t (wait_mode c) m = Inr ?m"
    using wait_list_set [OF assms(1) mode] assms(3) by (simp add: mutex_block_resume_def)
  have s: "same_lock m ?m" by (simp add: same_lock_def set_wait_list_def)
  have "lists_ok ?m (w(t := None))"
  proof (cases "m_behavior m")
    case Regular
    show ?thesis using assms t mode(1) Regular
      by (cases "wait_mode c") (auto simp: lists_ok_def set_wait_list_def wait_list_def list_for_mode_def waits_for_upd)
  next
    case BigLock
    show ?thesis using assms t mode(2) [OF BigLock] BigLock by (auto simp: lists_ok_def set_wait_list_def wait_list_def waits_for_upd)
  qed
  then show thesis using that b s by (simp add: set_wait_list_def)
qed


section \<open>Locking\<close>

text \<open>A change of the counters leaves the waiting lists.\<close>
lemma lists_ok_lock [simp]:
  "lists_ok (m\<lparr>m_times_locked := n\<rparr>) w = lists_ok m w"
  "lists_ok (m\<lparr>m_holder := t\<rparr>) w = lists_ok m w"
  "lists_ok (m\<lparr>m_shared_holders := k\<rparr>) w = lists_ok m w"
  "lists_ok (m\<lparr>m_mode := d\<rparr>) w = lists_ok m w"
  by (simp_all add: lists_ok_def)

lemma mode_ok_same: "same_lock m m' \<Longrightarrow> (d = Unlocked \<Longrightarrow> m_blocking_mutex m' = m_blocking_mutex m) \<Longrightarrow> mode_ok d m' h = mode_ok d m h"
  by (cases d) (simp_all add: same_lock_def)

text \<open>Nobody waits for a mutex that is not locked.\<close>
lemma unlocked_no_waits: "lock_inv m w h \<Longrightarrow> m_mode m = Unlocked \<Longrightarrow> w t = None"
proof (rule ccontr)
  assume i: "lock_inv m w h" "m_mode m = Unlocked" and "w t \<noteq> None"
  then obtain c where c: "w t = Some c" by blast
  then have "m_mode m = wait_mode c" "call_ok (m_behavior m) c"
    using i by (auto simp: lock_inv_def lists_ok_def)
  then show False using i(2) by (cases c) auto
qed

lemma lock_blocks:
  assumes "lock_inv m w h" and "w t = None" and "t \<noteq> 0" and "m_mode m \<noteq> Unlocked" and "0 < n" and "call_ok (m_behavior m) c"
    and "m_mode m = Exclusive \<Longrightarrow> m_holder m \<noteq> t" and "m_mode m = Shared \<Longrightarrow> wait_mode c = Exclusive"
  obtains m' where "mutex_block t (wait_mode c) n m = Inr m'" and "lock_inv m' (w(t \<mapsto> c)) h"
proof -
  obtain m' where m': "mutex_block t (wait_mode c) n m = Inr m'" "same_lock m m'" "lists_ok m' (w(t \<mapsto> c))"
      "m_blocking_mutex m' = (m_blocking_mutex m)(t := True)"
    using mutex_block_ok [of m w t n c] assms by (auto simp: lock_inv_def)
  have "m_mode m' = m_mode m" "m_times_locked m' = m_times_locked m" using m'(2) by (simp_all add: same_lock_def)
  moreover have "blocked_ok m' (w(t \<mapsto> c))"
    using m'(2,4) assms(1,7,8) by (auto simp: blocked_ok_def same_lock_def lock_inv_def)
  ultimately have "lock_inv m' (w(t \<mapsto> c)) h"
    using m'(3,4) assms(1,4) mode_ok_same [OF m'(2)] by (auto simp: lock_inv_def)
  then show thesis using that m'(1) by blast
qed

lemma mutex_lock_ok:
  assumes "lock_inv m w h" and "size h < 2 ^ 32" and "w t = None" and "t \<noteq> 0" and "mode \<noteq> Unlocked"
    and "m_behavior m = BigLock \<Longrightarrow> mode = Exclusive"
  shows "\<exists>m' b. mutex_lock t mode m = Inr (m', b) \<and>
    (if b then lock_inv m' (w(t \<mapsto> InLock (m_mode m) mode)) h else lock_inv m' w (add_mset t h))"
proof -
  note inv = assms(1) [unfolded lock_inv_def]
  have blocks: "\<exists>m'. mutex_block t mode 1 m = Inr m' \<and> lock_inv m' (w(t \<mapsto> InLock (m_mode m) mode)) h"
    if "m_mode m \<noteq> Unlocked" "m_mode m = Exclusive \<Longrightarrow> m_holder m \<noteq> t" "m_mode m = Shared \<Longrightarrow> mode = Exclusive"
    using lock_blocks [OF assms(1,3,4), of 1 "InLock (m_mode m) mode"] assms(5,6) that by auto
  show ?thesis
  proof (cases "m_mode m")
    case Unlocked
    have w: "w u = None" for u using unlocked_no_waits [OF assms(1) Unlocked] .
    show ?thesis using inv Unlocked w assms(4-6)
      by (cases mode; cases "m_behavior m") (simp_all add: mutex_lock_def lock_inv_def blocked_ok_def exI [of _ False])
  next
    case Exclusive
    show ?thesis
    proof (cases "m_holder m = t")
      case True
      then have "mutex_lock t mode m = Inr (m\<lparr>m_times_locked := m_times_locked m + 1\<rparr>, False)"
        using inv Exclusive assms(2,4,5) by (simp add: mutex_lock_def of_nat_u32_0)
      then show ?thesis using inv Exclusive True by (auto simp: lock_inv_def blocked_ok_def)
    next
      case False
      obtain m' where m': "mutex_block t mode 1 m = Inr m'" "lock_inv m' (w(t \<mapsto> InLock (m_mode m) mode)) h" using blocks Exclusive False by auto
      then have "mutex_lock t mode m = Inr (m', True)" using False Exclusive inv assms(5) by (simp add: mutex_lock_def)
      then show ?thesis using m'(2) by auto
    qed
  next
    case Shared
    show ?thesis
    proof (cases mode)
      case Exclusive
      obtain m' where m': "mutex_block t mode 1 m = Inr m'" "lock_inv m' (w(t \<mapsto> InLock (m_mode m) mode)) h" using blocks Shared Exclusive by auto
      then have "mutex_lock t mode m = Inr (m', True)" using Exclusive Shared inv by (simp add: mutex_lock_def)
      then show ?thesis using m'(2) by auto
    next
      case mode: Shared
      then have "mutex_lock t mode m =
          Inr (m\<lparr>m_times_locked := m_times_locked m + 1, m_shared_holders := m_shared_holders m + 1\<rparr>, False)"
        using inv Shared assms(2) by (simp add: mutex_lock_def of_nat_u32_0 of_nat_u64_0)
      then show ?thesis using inv Shared assms(4) by (auto simp: lock_inv_def blocked_ok_def)
    qed (use assms(5) in simp)
  qed
qed

lemma mutex_lock_resume_ok:
  assumes "lock_inv m w h" and "size h < 2 ^ 32" and "w t = Some (InLock e d)" and "\<not> m_blocking_mutex m t"
  shows "\<exists>m'. mutex_lock_resume t e d m = Inr m' \<and> lock_inv m' (w(t := None)) h"
proof -
  note inv = assms(1) [unfolded lock_inv_def]
  obtain m' where m': "mutex_block_resume t d m = Inr m'" "same_lock m m'" "lists_ok m' (w(t := None))"
      "m_blocking_mutex m' = m_blocking_mutex m"
    using mutex_block_resume_ok [of m w t "InLock e d"] inv assms(3,4) by auto
  have fields: "m_mode m' = m_mode m" "m_times_locked m' = m_times_locked m" "m_holder m' = m_holder m" "m_shared_holders m' = m_shared_holders m"
    using m'(2) by (simp_all add: same_lock_def)
  have woken: "m_mode m = d" "t \<in># h" using inv assms(3,4) by fastforce+
  have c: "call_ok (m_behavior m) (InLock e d)" using lists_ok_call inv assms(3) by blast
  have "h \<noteq> {#}" using woken(2) by auto
  then have n: "m_times_locked m \<noteq> 0" using inv assms(2) by (simp add: of_nat_u32_0)
  have "mutex_lock_resume t e d m = Inr m'"
    using m'(1) fields woken c n inv assms(2) by (cases d; cases e) (auto simp: mutex_lock_resume_def of_nat_u64_0)
  moreover have "lock_inv m' (w(t := None)) h"
    using inv m'(3,4) fields mode_ok_same [OF m'(2)] by (auto simp: lock_inv_def blocked_ok_def)
  ultimately show ?thesis by blast
qed


section \<open>Unlocking\<close>

lemma call_ok_mode: "call_ok b c \<Longrightarrow> wait_mode c \<noteq> Unlocked \<and> (b = BigLock \<longrightarrow> wait_mode c = Exclusive)"
  by (cases c) auto

lemma set_waiters:
  assumes "lists_ok m w"
  shows "set (waiters m) = {t. w t \<noteq> None}"
proof -
  have u: "set (waiters m) = waits_for w Exclusive \<union> (if m_behavior m = Regular then waits_for w Shared else {})"
    using assms by (cases "m_behavior m") (simp_all add: lists_ok_def waiters_def)
  have "t \<in> set (waiters m) \<longleftrightarrow> w t \<noteq> None" for t
  proof (cases "w t")
    case None
    then show ?thesis unfolding u by (simp add: waits_for_def)
  next
    case (Some c)
    have "wait_mode c \<noteq> Unlocked" "m_behavior m = BigLock \<longrightarrow> wait_mode c = Exclusive"
      using call_ok_mode lists_ok_call [OF assms Some] by blast+
    then show ?thesis unfolding u using Some by (cases "m_behavior m"; cases "wait_mode c") (simp_all add: waits_for_def)
  qed
  then show ?thesis by (intro set_eqI) (simp only: mem_Collect_eq)
qed

lemma size_sum_replicate: "finite A \<Longrightarrow> size (\<Sum>t\<in>A. replicate_mset (f t) t) = (\<Sum>t\<in>A. f t)"
  by (induction rule: finite_induct) simp_all

lemma in_sum_replicate: "finite A \<Longrightarrow> t \<in># (\<Sum>t\<in>A. replicate_mset (f t) t) \<longleftrightarrow> t \<in> A \<and> 0 < f t"
proof (induction rule: finite_induct)
  case (insert x F)
  then show ?case by (cases "t = x") (simp_all add: in_replicate_mset)
qed simp

text \<open>The state in which the mutex looks for threads to unblock.\<close>
definition idle :: "mutex \<Rightarrow> (thread \<Rightarrow> waiting option) \<Rightarrow> bool" where
  "idle m w \<longleftrightarrow> lists_ok m w \<and> m_mode m = Unlocked \<and> m_times_locked m = 0 \<and> m_holder m = 0 \<and> m_shared_holders m = 0 \<and>
     (\<forall>t. w t \<noteq> None \<longrightarrow> m_blocking_mutex m t)"

lemma unblock_each_shared_result:
  assumes "distinct ts" and "\<And>t. t \<in> set ts \<Longrightarrow> m_blocking_mutex m t"
  shows "unblock_each_shared ts m =
    Inr (m\<lparr>m_blocking_mutex := (\<lambda>t. m_blocking_mutex m t \<and> t \<notin> set ts),
      m_shared_holders := m_shared_holders m + (\<Sum>t\<in>set ts. ucast (m_lock_requested_count m t)),
      m_times_locked := m_times_locked m + (\<Sum>t\<in>set ts. m_lock_requested_count m t)\<rparr>)"
  using assms
proof (induction ts arbitrary: m)
  case (Cons t ts)
  let ?m = "m\<lparr>m_blocking_mutex := (m_blocking_mutex m)(t := False),
    m_shared_holders := m_shared_holders m + ucast (m_lock_requested_count m t),
    m_times_locked := m_times_locked m + m_lock_requested_count m t\<rparr>"
  have "unblock_each_shared (t # ts) m = unblock_each_shared ts ?m"
    using Cons.prems(2) by (simp add: unblock_from_mutex_def)
  also have "\<dots> = Inr (?m\<lparr>m_blocking_mutex := (\<lambda>u. m_blocking_mutex ?m u \<and> u \<notin> set ts),
      m_shared_holders := m_shared_holders ?m + (\<Sum>t\<in>set ts. ucast (m_lock_requested_count ?m t)),
      m_times_locked := m_times_locked ?m + (\<Sum>t\<in>set ts. m_lock_requested_count ?m t)\<rparr>)"
    using Cons.prems by (intro Cons.IH) auto
  also have "(\<lambda>u. m_blocking_mutex ?m u \<and> u \<notin> set ts) = (\<lambda>u. m_blocking_mutex m u \<and> u \<notin> set (t # ts))" by auto
  finally show ?case using Cons.prems(1) by (simp add: add.assoc)
qed simp

lemma unblock_shared_ok:
  assumes "idle m w" and "l_shared m \<noteq> []"
  shows "\<exists>m'. unblock_shared m = Inr (m', True) \<and> lock_inv m' w (granted m m')"
proof -
  note idle = assms(1) [unfolded idle_def]
  let ?A = "set (l_shared m)"
  let ?m = "m\<lparr>m_mode := Shared, m_blocking_mutex := (\<lambda>t. m_blocking_mutex m t \<and> t \<notin> ?A),
      m_shared_holders := m_shared_holders m + (\<Sum>t\<in>?A. ucast (m_lock_requested_count m t)),
      m_times_locked := m_times_locked m + (\<Sum>t\<in>?A. m_lock_requested_count m t)\<rparr>"
  have lists: "lists_ok m w" using idle by blast
  have reg: "m_behavior m = Regular" and A: "?A = waits_for w Shared"
    using lists assms(2) by (cases "m_behavior m"; simp add: lists_ok_def)+
  have blocked: "m_blocking_mutex m t \<and> w t \<noteq> None" if "t \<in> ?A" for t
    using that A idle by (auto simp: waits_for_def)
  have "unblock_each_shared (l_shared m) (m\<lparr>m_mode := Shared\<rparr>) = Inr ?m"
    using blocked lists by (subst unblock_each_shared_result) (auto simp: lists_ok_def)
  then have u: "unblock_shared m = Inr (?m, True)" using assms(2) reg by (simp add: unblock_shared_def)
  have set: "{t \<in> set (waiters m). m_blocking_mutex m t \<and> \<not> m_blocking_mutex ?m t} = ?A"
    using blocked by (auto simp: waiters_def)
  have g: "granted m ?m = (\<Sum>t\<in>?A. replicate_mset (unat (m_lock_requested_count m t)) t)"
    unfolding granted_def set ..
  have pos: "0 < unat (m_lock_requested_count m t)" if "t \<in> ?A" for t
    using blocked [OF that] lists by (auto simp: lists_ok_def unat_gt_0)
  have members: "set_mset (granted m ?m) = ?A" unfolding g using pos by (intro set_eqI) (simp add: in_sum_replicate, blast)
  have size: "size (granted m ?m) = (\<Sum>t\<in>?A. unat (m_lock_requested_count m t))" by (simp add: g size_sum_replicate)
  have zero: "0 \<notin> ?A" using lists_ok_call [OF lists] blocked by force
  define G where "G = granted m ?m"
  have G: "set_mset G = ?A" "size G = (\<Sum>t\<in>?A. unat (m_lock_requested_count m t))"
    unfolding G_def using members size by simp_all
  have "G \<noteq> {#}" using G(1) assms(2) by auto
  have "lock_inv ?m w G"
  proof (rule lock_invI)
    show "mode_ok (m_mode ?m) ?m G" using idle reg zero G \<open>G \<noteq> {#}\<close> by simp
    show "lists_ok ?m w" using lists by (simp add: lists_ok_def)
    show "blocked_ok ?m w" using A by (auto simp: blocked_ok_def waits_for_def)
    show "m_times_locked ?m = of_nat (size G)" using idle G(2) by simp
    fix t c assume t: "w t = Some c" "\<not> m_blocking_mutex ?m t"
    then have "t \<in> ?A" using idle by simp
    then show "m_mode ?m = wait_mode c \<and> t \<in># G" using A t(1) G(1) by (simp add: waits_for_def)
  qed
  then show ?thesis using u unfolding G_def by (intro exI [of _ ?m] conjI)
qed

lemma unblock_exclusive_ok:
  assumes "idle m w" and "ts = wait_list Exclusive m" and "ts \<noteq> []"
  shows "\<exists>m'. unblock_exclusive ts m = Inr (m', True) \<and> lock_inv m' w (granted m m')"
proof -
  note idle = assms(1) [unfolded idle_def]
  obtain t us where ts: "ts = t # us" using assms(3) by (cases ts) auto
  let ?n = "m_lock_requested_count m t"
  let ?m = "m\<lparr>m_mode := Exclusive, m_blocking_mutex := (m_blocking_mutex m)(t := False), m_times_locked := ?n, m_holder := t\<rparr>"
  have lists: "lists_ok m w" using idle by blast
  have wl: "set (wait_list Exclusive m) = waits_for w Exclusive" using wait_list_set [OF lists, of Exclusive] by simp
  have "t \<in> set ts" by (simp add: ts)
  then have t: "t \<in> waits_for w Exclusive" by (simp only: assms(2) wl)
  then obtain c where c: "w t = Some c" "wait_mode c = Exclusive" by (auto simp: waits_for_def)
  have blocked: "m_blocking_mutex m t" using idle c(1) by simp
  have u: "unblock_exclusive ts m = Inr (?m, True)" using blocked by (simp add: unblock_exclusive_def ts unblock_from_mutex_def)
  have set: "{u \<in> set (waiters m). m_blocking_mutex m u \<and> \<not> m_blocking_mutex ?m u} = {t}"
    unfolding set_waiters [OF lists] using blocked c(1) by (intro set_eqI) (simp add: conj_commute, blast?)
  have g: "granted m ?m = replicate_mset (unat ?n) t"
    unfolding granted_def set by simp
  have pos: "0 < unat ?n" using blocked lists by (auto simp: lists_ok_def unat_gt_0)
  have "lock_inv ?m w (granted m ?m)"
    unfolding g
  proof (rule lock_invI)
    show "mode_ok (m_mode ?m) ?m (replicate_mset (unat ?n) t)" using idle pos lists_ok_call [OF lists c(1)] by simp
    show "lists_ok ?m w" using lists by (simp add: lists_ok_def)
    show "blocked_ok ?m w" by (simp add: blocked_ok_def)
    show "m_times_locked ?m = of_nat (size (replicate_mset (unat ?n) t))" by simp
    fix u d assume u: "w u = Some d" "\<not> m_blocking_mutex ?m u"
    then have "u = t" using idle by (cases "u = t") simp_all
    then show "m_mode ?m = wait_mode d \<and> u \<in># replicate_mset (unat ?n) t" using c u(1) pos by simp
  qed
  then show ?thesis using u by (intro exI [of _ ?m] conjI)
qed


lemma unblock_waiters_ok:
  assumes "idle m w"
  shows "\<exists>m'. unblock_waiters d m = Inr m' \<and> lock_inv m' w (granted m m')"
proof -
  note idle = assms [unfolded idle_def]
  have nobody: "lock_inv m w (granted m m)" if "\<And>t. w t = None"
    using idle that by (auto simp: lock_inv_def granted_def lists_ok_def blocked_ok_def)
  have big: "wait_list Exclusive m = l_exclusive_big_lock m" if "m_behavior m = BigLock" using that by (simp add: wait_list_def)
  have excl: "wait_list Exclusive m = l_exclusive m" if "m_behavior m = Regular" using that by (simp add: wait_list_def list_for_mode_def)
  have empty: "w t = None" if "wait_list Exclusive m = []" "l_shared m = []" for t
  proof -
    have "waiters m = []"
      using that idle big excl by (cases "m_behavior m") (simp_all add: waiters_def lists_ok_def)
    then have "{t. w t \<noteq> None} = {}" using set_waiters [of m w] idle by simp
    then show ?thesis by blast
  qed
  have s0: "unblock_shared m = Inr (m, False)" if "l_shared m = []" using that by (simp add: unblock_shared_def)
  have e0: "unblock_exclusive [] m = Inr (m, False)" by (simp add: unblock_exclusive_def)
  have s1: "\<exists>m'. unblock_shared m = Inr (m', True) \<and> lock_inv m' w (granted m m')" if "l_shared m \<noteq> []"
    using unblock_shared_ok [OF assms that] .
  have e1: "\<exists>m'. unblock_exclusive (wait_list Exclusive m) m = Inr (m', True) \<and> lock_inv m' w (granted m m')"
    if "wait_list Exclusive m \<noteq> []" using unblock_exclusive_ok [OF assms refl that] .
  show ?thesis
  proof (cases "m_behavior m")
    case BigLock
    have "l_shared m = []" using idle BigLock by (simp add: lists_ok_def)
    then show ?thesis
      using e0 e1 nobody empty idle BigLock big
      by (cases "l_exclusive_big_lock m = []") (auto simp: unblock_waiters_def)
  next
    case Regular
    show ?thesis
      using e0 e1 s0 s1 nobody empty idle Regular excl
      by (cases "l_exclusive m = []"; cases "l_shared m = []") (auto simp: unblock_waiters_def)
  qed
qed

end
