(* ===== verification/Mutex_Use.thy ===== *)
theory Mutex_Use
  imports Mutual_Exclusion
begin

text \<open>
  What threads can rely on when they use a mutex: every call keeps the invariant of the system and no check in the code fails, a thread that has an exclusive lock
  is alone until it gives the lock up, and a lock that is given up goes to a thread that waits for it.
\<close>

section \<open>Unlocking\<close>

lemma unat_size: "n < 2 ^ 32 \<Longrightarrow> unat (of_nat n :: u32) = n"
  by (simp add: unat_of_nat take_bit_nat_eq_self)

lemma granted_same: "m_blocking_mutex m' = m_blocking_mutex m \<Longrightarrow> granted m m' = {#}"
  by (simp add: granted_def)

lemma granted_cong:
  "m_blocking_mutex m1 = m_blocking_mutex m \<Longrightarrow> waiters m1 = waiters m \<Longrightarrow> m_lock_requested_count m1 = m_lock_requested_count m \<Longrightarrow>
   granted m1 m' = granted m m'"
  by (simp add: granted_def)

text \<open>When the running thread gives up the only locks, every waiting thread is still blocked.\<close>
lemma last_unlock_idle:
  assumes "lock_inv m w h" and "w t = None" and "set_mset h = {t}"
  shows "idle (m\<lparr>m_times_locked := 0, m_holder := 0, m_shared_holders := 0, m_mode := Unlocked\<rparr>) w"
proof -
  have "m_blocking_mutex m u" if "w u = Some c" for u c
  proof (rule ccontr)
    assume "\<not> m_blocking_mutex m u"
    then have "u \<in># h" using assms(1) that by (auto simp: lock_inv_def)
    then show False using assms(2,3) that by simp
  qed
  then show ?thesis using assms(1) by (auto simp: idle_def lock_inv_def)
qed

lemma last_unlock_ok:
  assumes "lock_inv m w h" and "w t = None" and "set_mset h = {t}"
  shows "\<exists>m'. unblock_waiters d (m\<lparr>m_times_locked := 0, m_holder := 0, m_shared_holders := 0, m_mode := Unlocked\<rparr>) = Inr m' \<and>
    lock_inv m' w (granted m m')"
proof -
  let ?m = "m\<lparr>m_times_locked := 0, m_holder := 0, m_shared_holders := 0, m_mode := Unlocked\<rparr>"
  have "granted ?m m' = granted m m'" for m' by (rule granted_cong) (simp_all add: waiters_def)
  then show ?thesis using unblock_waiters_ok [OF last_unlock_idle [OF assms], of d] by simp
qed

lemma mutex_unlock_ok:
  assumes "lock_inv m w h" and "size h < 2 ^ 32" and "w t = None" and "t \<in># h"
  shows "\<exists>m'. mutex_unlock t m = Inr m' \<and> lock_inv m' w (h - {#t#} + granted m m')"
proof -
  note inv = assms(1) [unfolded lock_inv_def]
  let ?h = "h - {#t#}"
  have h: "h = add_mset t ?h" using assms(4) by simp
  have size: "size h = Suc (size ?h)" using arg_cong [OF h, of size] by simp
  have times: "m_times_locked m = of_nat (Suc (size ?h))" "m_times_locked m - 1 = of_nat (size ?h)"
    using inv size by simp_all
  have nonzero: "m_times_locked m \<noteq> 0" using inv of_nat_u32_0 [OF assms(2)] assms(4) by auto
  have zero: "(of_nat (size ?h) :: u32) = 0 \<longleftrightarrow> ?h = {#}" using assms(2) size by (simp add: of_nat_u32_0)
  have mode: "m_mode m \<noteq> Unlocked" using inv h by (cases "m_mode m") auto
  show ?thesis
  proof (cases "?h = {#}")
    case True
    then have single: "set_mset h = {t}" using h by (metis set_mset_add_mset_insert set_mset_empty)
    have shared: "m_mode m = Shared \<Longrightarrow> m_shared_holders m = 1" using inv size True by simp
    have h0: "h = {#t#}" using h True by simp
    let ?m = "m\<lparr>m_times_locked := 0, m_holder := 0, m_shared_holders := 0, m_mode := Unlocked\<rparr>"
    have "mutex_unlock t m = unblock_waiters (m_mode m) ?m"
      using inv mode times(2) nonzero zero True single shared
      by (cases "m_mode m"; cases m) (simp_all add: mutex_unlock_def release_waiters_def)
    then show ?thesis using last_unlock_ok [OF assms(1,3) single, of "m_mode m"] True by simp
  next
    case False
    let ?m = "if m_mode m = Exclusive then m\<lparr>m_times_locked := m_times_locked m - 1\<rparr>
      else m\<lparr>m_times_locked := m_times_locked m - 1, m_shared_holders := m_shared_holders m - 1\<rparr>"
    have h2: "set_mset ?h \<subseteq> set_mset h" by (meson diff_subset_eq_self set_mset_mono)
    have shared: "m_shared_holders m = of_nat (Suc (size ?h))" "m_shared_holders m \<noteq> 0" if "m_mode m = Shared"
      using inv that size assms(2) by (simp_all add: of_nat_u64_0 del: of_nat_Suc)
    have u: "mutex_unlock t m = Inr ?m"
      using inv mode times(2) nonzero zero False shared assms(4)
      by (cases "m_mode m") (simp_all add: mutex_unlock_def release_waiters_def)
    have g: "granted m ?m = {#}" by (rule granted_same) simp
    have "lock_inv ?m w ?h"
    proof (rule lock_invI)
      show "lists_ok ?m w" using inv by simp
      show "blocked_ok ?m w" using inv by (simp add: blocked_ok_def)
      show "m_times_locked ?m = of_nat (size ?h)" using times(2) by simp
      show "mode_ok (m_mode ?m) ?m ?h"
      proof (cases "m_mode m")
        case Exclusive
        then have "set_mset ?h = {m_holder m}" using inv h2 False by (metis mode_ok.simps(2) set_mset_eq_empty_iff subset_singleton_iff)
        then show ?thesis using Exclusive inv False by simp
      next
        case Shared
        then have "m_holder m = 0" "m_behavior m = Regular" "0 \<notin># ?h" using inv h2 by auto
        then show ?thesis using Shared False shared(1) [OF Shared] by simp
      qed (use mode in simp)
      fix u c assume "w u = Some c" "\<not> m_blocking_mutex ?m u"
      then have "m_mode m = wait_mode c \<and> u \<in># h" "u \<noteq> t" using inv assms(3) by (auto split: if_splits)
      then show "m_mode ?m = wait_mode c \<and> u \<in># ?h" by (simp add: in_diff_count)
    qed
    then show ?thesis using u g by simp
  qed
qed


section \<open>The big lock\<close>

lemma force_unlock_ok:
  assumes "lock_inv m w h" and "size h < 2 ^ 32" and "w t = None" and "t \<noteq> 0" and "m_behavior m = BigLock"
  shows "\<exists>m' d n. force_unlock_exclusive_if_locked t m = Inr (m', d, n) \<and> n = of_nat (count h t) \<and>
    lock_inv m' w (h - replicate_mset (unat n) t + granted m m')"
proof -
  note inv = assms(1) [unfolded lock_inv_def]
  have un: "unat (of_nat (size h) :: u32) = size h" using assms(2) by (rule unat_size)
  have nochange: "lock_inv m w (h - replicate_mset (unat (0 :: u32)) t + granted m m)"
    using assms(1) by (simp add: granted_same)
  show ?thesis
  proof (cases "m_mode m")
    case Exclusive
    show ?thesis
    proof (cases "m_holder m = t")
      case True
      then have single: "set_mset h = {t}" using inv Exclusive by simp
      then have h: "h = replicate_mset (size h) t" by (metis order_refl set_mset_subset_singletonD)
      have c: "count h t = size h" using arg_cong [OF h, of "\<lambda>x. count x t"] by simp
      have "m_times_locked m \<noteq> 0" using inv single of_nat_u32_0 [OF assms(2)] by auto
      moreover have "m_shared_holders m = 0" using inv Exclusive by simp
      moreover obtain m' where m': "unblock_waiters Exclusive
          (m\<lparr>m_times_locked := 0, m_holder := 0, m_shared_holders := 0, m_mode := Unlocked\<rparr>) = Inr m'" "lock_inv m' w (granted m m')"
        using last_unlock_ok [OF assms(1,3) single] by blast
      ultimately have "force_unlock_exclusive_if_locked t m = Inr (m', Exclusive, m_times_locked m)"
        using Exclusive True assms(5) by (cases m) (simp add: force_unlock_exclusive_if_locked_def)
      moreover have "h - replicate_mset (unat (m_times_locked m)) t = {#}" using inv un h by (metis diff_cancel)
      ultimately show ?thesis using m'(2) inv c by auto
    next
      case False
      then have "count h t = 0" using inv Exclusive by (simp add: not_in_iff [symmetric])
      then show ?thesis using False Exclusive assms(5) nochange by (simp add: force_unlock_exclusive_if_locked_def)
    qed
  next
    case Unlocked
    then show ?thesis using inv assms(5) nochange by (simp add: force_unlock_exclusive_if_locked_def)
  next
    case Shared
    then show ?thesis using inv assms(5) by simp
  qed
qed

lemma restore_ok:
  assumes "lock_inv m w h" and "size h < 2 ^ 32" and "w t = None" and "t \<noteq> 0" and "m_behavior m = BigLock" and "0 < n"
  shows "\<exists>m' b. restore_exclusive_lock t n m = Inr (m', b) \<and>
    (if b then lock_inv m' (w(t \<mapsto> InRestore)) h else lock_inv m' w (h + replicate_mset (unat n) t))"
proof -
  note inv = assms(1) [unfolded lock_inv_def]
  have n: "n \<noteq> 0" "0 < unat n" using assms(6) by (auto simp: unat_gt_0 word_neq_0_conv)
  have shared: "m_mode m \<noteq> Shared" "m_shared_holders m = 0" using inv assms(5) by (cases "m_mode m"; simp)+
  show ?thesis
  proof (cases "m_mode m = Exclusive \<and> m_holder m \<noteq> t")
    case True
    obtain m' where m': "mutex_block t Exclusive n m = Inr m'" "lock_inv m' (w(t \<mapsto> InRestore)) h"
      using lock_blocks [OF assms(1,3,4), of n InRestore] True assms(6) by auto
    then have "restore_exclusive_lock t n m = Inr (m', True)" using True n(1) assms(5) by (simp add: restore_exclusive_lock_def)
    then show ?thesis using m'(2) by auto
  next
    case False
    let ?m = "m\<lparr>m_mode := Exclusive, m_times_locked := m_times_locked m + n, m_holder := t\<rparr>"
    have times: "m_mode m = Exclusive \<Longrightarrow> m_times_locked m \<noteq> 0" using inv of_nat_u32_0 [OF assms(2)] by auto
    have "restore_exclusive_lock t n m = Inr (?m, False)"
      using False n(1) assms(5) shared times inv
      by (cases "m_mode m"; cases m) (simp_all add: restore_exclusive_lock_def)
    moreover have "lock_inv ?m w (h + replicate_mset (unat n) t)"
    proof (rule lock_invI)
      show "lists_ok ?m w" using inv by simp
      show "mode_ok (m_mode ?m) ?m (h + replicate_mset (unat n) t)"
        using False inv n(2) shared assms(4) by (cases "m_mode m") auto
      show "blocked_ok ?m w" using inv assms(3) by (auto simp: blocked_ok_def lists_ok_def)
      show "m_times_locked ?m = of_nat (size (h + replicate_mset (unat n) t))" using inv by simp
      fix u c assume "w u = Some c" "\<not> m_blocking_mutex ?m u"
      then show "m_mode ?m = wait_mode c \<and> u \<in># h + replicate_mset (unat n) t"
        using inv False shared unlocked_no_waits [OF assms(1), of u] by (cases "m_mode m") auto
    qed
    ultimately show ?thesis by auto
  qed
qed

lemma restore_resume_ok:
  assumes "lock_inv m w h" and "size h < 2 ^ 32" and "w t = Some InRestore" and "\<not> m_blocking_mutex m t"
  shows "\<exists>m'. restore_exclusive_lock_resume t m = Inr m' \<and> lock_inv m' (w(t := None)) h"
proof -
  note inv = assms(1) [unfolded lock_inv_def]
  obtain m' where m': "mutex_block_resume t Exclusive m = Inr m'" "same_lock m m'" "lists_ok m' (w(t := None))"
      "m_blocking_mutex m' = m_blocking_mutex m"
    using mutex_block_resume_ok [of m w t InRestore] inv assms(3,4) by auto
  have fields: "m_mode m' = m_mode m" "m_times_locked m' = m_times_locked m" "m_holder m' = m_holder m" "m_shared_holders m' = m_shared_holders m"
    using m'(2) by (simp_all add: same_lock_def)
  have woken: "m_mode m = Exclusive" "t \<in># h" using inv assms(3,4) by fastforce+
  have n: "m_times_locked m \<noteq> 0" using inv of_nat_u32_0 [OF assms(2)] woken(2) by auto
  have "restore_exclusive_lock_resume t m = Inr m'"
    using m'(1) fields woken n inv by (auto simp: restore_exclusive_lock_resume_def)
  moreover have "lock_inv m' (w(t := None)) h"
    using inv m'(3,4) fields mode_ok_same [OF m'(2)] by (auto simp: lock_inv_def blocked_ok_def)
  ultimately show ?thesis by blast
qed


section \<open>Every step keeps the invariant\<close>

lemma mutex_inv_parts:
  "mutex_inv s \<Longrightarrow> lock_inv (the_mutex s) (waits s) (holds s) \<and> size (holds s) < 2 ^ 32"
  by (simp add: mutex_inv_def few_locks_def)

lemma step_lock_inv:
  assumes "mutex_step s s'" and "mutex_inv s"
  shows "lock_inv (the_mutex s') (waits s') (holds s')"
  using assms(1)
proof cases
  case (step_lock t mode m)
  then show ?thesis using mutex_lock_ok [of "the_mutex s" "waits s" "holds s" t mode] mutex_inv_parts [OF assms(2)] by auto
next
  case (step_lock_waits t mode m)
  then show ?thesis using mutex_lock_ok [of "the_mutex s" "waits s" "holds s" t mode] mutex_inv_parts [OF assms(2)] by auto
next
  case (step_lock_resume t entry mode m)
  then show ?thesis using mutex_lock_resume_ok [of "the_mutex s" "waits s" "holds s" t entry mode] mutex_inv_parts [OF assms(2)] by auto
next
  case (step_unlock t m)
  then show ?thesis using mutex_unlock_ok [of "the_mutex s" "waits s" "holds s" t] mutex_inv_parts [OF assms(2)] by auto
next
  case (step_force_unlock t m mode n)
  have "m_behavior (the_mutex s) = BigLock"
    using step_force_unlock by (auto simp: force_unlock_exclusive_if_locked_def split: if_splits)
  then show ?thesis using step_force_unlock force_unlock_ok [of "the_mutex s" "waits s" "holds s" t] mutex_inv_parts [OF assms(2)] by auto
next
  case (step_restore t n m)
  have "m_behavior (the_mutex s) = BigLock" "0 < n"
    using step_restore by (auto simp: restore_exclusive_lock_def word_neq_0_conv split: if_splits)
  then show ?thesis using step_restore restore_ok [of "the_mutex s" "waits s" "holds s" t n] mutex_inv_parts [OF assms(2)] by auto
next
  case (step_restore_waits t n m)
  have "m_behavior (the_mutex s) = BigLock" "0 < n"
    using step_restore_waits by (auto simp: restore_exclusive_lock_def word_neq_0_conv split: if_splits)
  then show ?thesis using step_restore_waits restore_ok [of "the_mutex s" "waits s" "holds s" t n] mutex_inv_parts [OF assms(2)] by auto
next
  case (step_restore_resume t m)
  then show ?thesis using restore_resume_ok [of "the_mutex s" "waits s" "holds s" t] mutex_inv_parts [OF assms(2)] by auto
qed

lemma mutex_reach_inv: "mutex_reach behavior s \<Longrightarrow> mutex_inv s"
proof (induction rule: mutex_reach.induct)
  case reach_new
  show ?case by (rule mutex_inv_new)
next
  case (reach_step s s')
  show ?case using step_lock_inv [OF reach_step(2,4)] reach_step(3) by (simp add: mutex_inv_def)
qed

section \<open>A mutex in use\<close>

text \<open>Thread 1 has an exclusive lock and thread 2 waits for a shared one.\<close>
definition example_mutex :: mutex where
  "example_mutex = (new_mutex Regular)\<lparr>m_mode := Exclusive, m_times_locked := 1, m_holder := 1\<rparr>"

definition example_waiting_mutex :: mutex where
  "example_waiting_mutex = example_mutex\<lparr>l_shared := [2], m_blocking_mutex := (\<lambda>_. False)(2 := True),
     m_lock_requested_count := (\<lambda>_. 0)(2 := 1)\<rparr>"

definition example_system :: mutex_system where
  "example_system = \<lparr>the_mutex = example_waiting_mutex, waits = (\<lambda>_. None)(2 \<mapsto> InLock Exclusive Shared), holds = {#1#}\<rparr>"

lemma example_mutex_reach: "mutex_reach Regular \<lparr>the_mutex = example_mutex, waits = (\<lambda>_. None), holds = {#1#}\<rparr>"
proof -
  have "mutex_lock 1 Exclusive (new_mutex Regular) = Inr (example_mutex, False)"
    by (simp add: mutex_lock_def new_mutex_def example_mutex_def)
  then have "mutex_step (new_system Regular) ((new_system Regular)\<lparr>the_mutex := example_mutex, holds := add_mset 1 (holds (new_system Regular))\<rparr>)"
    by (intro step_lock) (simp_all add: new_system_def new_mutex_def)
  then show ?thesis using reach_step [OF reach_new] by (simp add: new_system_def few_locks_def)
qed

lemma example_step: "mutex_step \<lparr>the_mutex = example_mutex, waits = (\<lambda>_. None), holds = {#1#}\<rparr> example_system"
proof -
  let ?s = "\<lparr>the_mutex = example_mutex, waits = (\<lambda>_. None), holds = {#1#}\<rparr>"
  have "mutex_lock 2 Shared example_mutex = Inr (example_waiting_mutex, True)"
    by (simp add: mutex_lock_def new_mutex_def example_mutex_def example_waiting_mutex_def mutex_block_def thread_block_def
      wait_list_def set_wait_list_def list_for_mode_def fun_upd_def)
  then have "mutex_step ?s (?s\<lparr>the_mutex := example_waiting_mutex, waits := (waits ?s)(2 \<mapsto> InLock (m_mode (the_mutex ?s)) Shared)\<rparr>)"
    by (intro step_lock_waits) (simp_all add: example_mutex_def new_mutex_def)
  then show ?thesis by (simp add: example_system_def example_mutex_def)
qed

lemma example_system_reach: "mutex_reach Regular example_system"
  by (rule reach_step [OF example_mutex_reach example_step]) (simp add: few_locks_def example_system_def)

lemmas example_mutex_simps = example_system_def example_waiting_mutex_def example_mutex_def new_mutex_def

section \<open>Properties\<close>

text \<open>The calls a thread may make in a state: it runs, unlocks only what it holds, and locks the big lock only exclusively.\<close>
definition may_lock :: "mutex_system \<Rightarrow> thread \<Rightarrow> lock_mode \<Rightarrow> bool" where
  "may_lock s t mode \<longleftrightarrow> t \<noteq> 0 \<and> waits s t = None \<and> mode \<noteq> Unlocked \<and> (m_behavior (the_mutex s) = BigLock \<longrightarrow> mode = Exclusive)"

text \<open>
  C9: No check in the code of a mutex ever fails: in every state that threads can reach by locking and unlocking in any order, with
  fewer than $2^{32}$ locks given out, a call to lock, to unlock a lock the thread holds, to give up or to take back the big lock, and
  the part of a call that follows the wait, all return.
\<close>
theorem mutex_calls_return:
  assumes "mutex_reach behavior s"
  shows "(may_lock s t mode \<longrightarrow> (\<exists>m b. mutex_lock t mode (the_mutex s) = Inr (m, b))) \<and>
    (waits s t = None \<and> t \<in># holds s \<longrightarrow> (\<exists>m. mutex_unlock t (the_mutex s) = Inr m)) \<and>
    (waits s t = Some (InLock e d) \<and> \<not> m_blocking_mutex (the_mutex s) t \<longrightarrow> (\<exists>m. mutex_lock_resume t e d (the_mutex s) = Inr m)) \<and>
    (m_behavior (the_mutex s) = BigLock \<and> t \<noteq> 0 \<and> waits s t = None \<longrightarrow>
       (\<exists>m r. force_unlock_exclusive_if_locked t (the_mutex s) = Inr (m, r)) \<and>
       (0 < n \<longrightarrow> (\<exists>m b. restore_exclusive_lock t n (the_mutex s) = Inr (m, b)))) \<and>
    (waits s t = Some InRestore \<and> \<not> m_blocking_mutex (the_mutex s) t \<longrightarrow> (\<exists>m. restore_exclusive_lock_resume t (the_mutex s) = Inr m))"
proof -
  have inv: "lock_inv (the_mutex s) (waits s) (holds s)" "size (holds s) < 2 ^ 32"
    using mutex_inv_parts [OF mutex_reach_inv [OF assms]] by simp_all
  have "\<exists>m b. mutex_lock t mode (the_mutex s) = Inr (m, b)" if "may_lock s t mode"
    using mutex_lock_ok [OF inv, of t mode] that by (auto simp: may_lock_def)
  moreover have "\<exists>m. mutex_unlock t (the_mutex s) = Inr m" if "waits s t = None" "t \<in># holds s"
    using mutex_unlock_ok [OF inv] that by blast
  moreover have "\<exists>m. mutex_lock_resume t e d (the_mutex s) = Inr m" if "waits s t = Some (InLock e d)" "\<not> m_blocking_mutex (the_mutex s) t"
    using mutex_lock_resume_ok [OF inv] that by blast
  moreover have "\<exists>m r. force_unlock_exclusive_if_locked t (the_mutex s) = Inr (m, r)"
    if "m_behavior (the_mutex s) = BigLock" "t \<noteq> 0" "waits s t = None"
    using force_unlock_ok [OF inv] that by blast
  moreover have "\<exists>m b. restore_exclusive_lock t n (the_mutex s) = Inr (m, b)"
    if "m_behavior (the_mutex s) = BigLock" "t \<noteq> 0" "waits s t = None" "0 < n"
    using restore_ok [OF inv] that by blast
  moreover have "\<exists>m. restore_exclusive_lock_resume t (the_mutex s) = Inr m" if "waits s t = Some InRestore" "\<not> m_blocking_mutex (the_mutex s) t"
    using restore_resume_ok [OF inv] that by blast
  ultimately show ?thesis by blast
qed

theorem mutex_calls_return_witness: "\<exists>m. mutex_unlock 1 (the_mutex example_system) = Inr m"
  using mutex_calls_return [OF example_system_reach, of 1] by (simp add: example_mutex_simps)

text \<open>
  C7: A mutex excludes: it is unlocked exactly if no thread holds a lock of it, in exclusive mode only one thread does, and so two
  threads hold locks only in shared mode.
\<close>
theorem mutual_exclusion:
  assumes "mutex_reach behavior s"
  shows "(m_mode (the_mutex s) = Unlocked \<longleftrightarrow> holds s = {#}) \<and>
    (m_mode (the_mutex s) = Exclusive \<longrightarrow> set_mset (holds s) = {m_holder (the_mutex s)}) \<and>
    (t \<in># holds s \<and> u \<in># holds s \<and> t \<noteq> u \<longrightarrow> m_mode (the_mutex s) = Shared)"
proof -
  have inv: "mode_ok (m_mode (the_mutex s)) (the_mutex s) (holds s)"
    using mutex_inv_parts [OF mutex_reach_inv [OF assms]] by (simp add: lock_inv_def)
  then show ?thesis by (cases "m_mode (the_mutex s)") auto
qed

theorem mutual_exclusion_witness: "set_mset (holds example_system) = {1}"
  using mutual_exclusion [OF example_system_reach] by (simp add: example_mutex_simps)

lemma granted_waiters: "t \<in># granted m m' \<Longrightarrow> t \<in> set (waiters m)"
  by (simp add: granted_def in_sum_replicate)

text \<open>Only giving up the last lock changes the mode of an exclusive lock.\<close>
lemma unlock_keeps_mode:
  assumes "mutex_unlock t m = Inr m'" and "m_mode m = Exclusive"
  shows "m_mode m' = Exclusive \<or> m_times_locked m = 1 \<and> m_holder m = t"
  using assms by (auto simp: mutex_unlock_def release_waiters_def Let_def split: if_splits)

lemma block_keeps_mode:
  "mutex_block t mode n m = Inr m' \<Longrightarrow> m_mode m' = m_mode m"
  "mutex_block_resume t mode m = Inr m' \<Longrightarrow> m_mode m' = m_mode m"
  by (auto simp: mutex_block_def thread_block_def mutex_block_resume_def set_wait_list_def split: if_splits)

lemma calls_keep_mode:
  assumes "m_mode m = Exclusive"
  shows "mutex_lock t d m = Inr (m', b) \<Longrightarrow> m_mode m' = Exclusive"
    and "mutex_lock_resume t e d m = Inr m' \<Longrightarrow> m_mode m' = Exclusive"
    and "restore_exclusive_lock t n m = Inr (m', b) \<Longrightarrow> m_mode m' = Exclusive"
    and "restore_exclusive_lock_resume t m = Inr m' \<Longrightarrow> m_mode m' = Exclusive"
    and "force_unlock_exclusive_if_locked t m = Inr (m', d, n) \<Longrightarrow> m_mode m' = Exclusive \<or> m_holder m = t"
  using assms
  by (auto simp: mutex_lock_def mutex_lock_resume_def restore_exclusive_lock_def restore_exclusive_lock_resume_def
    force_unlock_exclusive_if_locked_def bindR_Inr_iff dest: block_keeps_mode split: if_splits)

text \<open>
  C8: An exclusive lock is kept: as long as the thread that has it does not give up its last lock, no call of any
  thread lets another thread in or changes the mode.
\<close>
theorem exclusive_lock_kept:
  assumes "mutex_reach behavior s" and "m_mode (the_mutex s) = Exclusive" and "t \<in># holds s"
    and "mutex_step s s'" and "few_locks s'" and "t \<in># holds s'"
  shows "m_mode (the_mutex s') = Exclusive \<and> set_mset (holds s') = {t}"
proof -
  have inv: "lock_inv (the_mutex s) (waits s) (holds s)" "size (holds s) < 2 ^ 32"
    using mutex_inv_parts [OF mutex_reach_inv [OF assms(1)]] by simp_all
  have single: "set_mset (holds s) = {t}" "m_holder (the_mutex s) = t" using inv(1) assms(2,3) by (auto simp: lock_inv_def)
  have not_granted: "t \<notin># granted (the_mutex s) m'" if "waits s t = None" for m'
  proof
    assume "t \<in># granted (the_mutex s) m'"
    then have "t \<in> set (waiters (the_mutex s))" by (rule granted_waiters)
    then show False using set_waiters [of "the_mutex s" "waits s"] inv(1) that by (simp add: lock_inv_def)
  qed
  have mode: "m_mode (the_mutex s') = Exclusive"
    using assms(4)
  proof cases
    case (step_unlock u m)
    then have u: "u = t" using single by simp
    have "m_times_locked (the_mutex s) \<noteq> 1"
    proof
      assume "m_times_locked (the_mutex s) = 1"
      then have "(of_nat (size (holds s)) :: u32) = 1" using inv(1) by (simp add: lock_inv_def)
      then have "size (holds s) = 1" using unat_size [OF inv(2)] by (metis unsigned_1)
      then have "holds s = {#t#}" using assms(3) by (metis size_1_singleton_mset single(1) set_mset_single singleton_inject)
      then show False using step_unlock u assms(6) not_granted by simp
    qed
    then show ?thesis using unlock_keeps_mode [of u "the_mutex s" m] step_unlock assms(2) by simp
  next
    case (step_force_unlock u m d n)
    have "u \<noteq> t"
    proof
      assume u: "u = t"
      have "m_behavior (the_mutex s) = BigLock"
        using step_force_unlock by (auto simp: force_unlock_exclusive_if_locked_def split: if_splits)
      then have "n = of_nat (count (holds s) t)"
        using force_unlock_ok [OF inv, of t] step_force_unlock u by auto
      moreover have "count (holds s) t < 2 ^ 32" using inv(2) count_le_size [of "holds s" t] by simp
      ultimately have "unat n = count (holds s) t" by (simp add: unat_size)
      then have "t \<notin># holds s - replicate_mset (unat n) t" by (simp add: not_in_iff)
      then show False using step_force_unlock u assms(6) not_granted by simp
    qed
    then show ?thesis using calls_keep_mode(5) [OF assms(2)] step_force_unlock single(2) by auto
  qed (use calls_keep_mode [OF assms(2)] in auto)
  have "lock_inv (the_mutex s') (waits s') (holds s')"
    using step_lock_inv [OF assms(4) mutex_reach_inv [OF assms(1)]] .
  then show ?thesis using mode assms(6) by (auto simp: lock_inv_def)
qed

theorem exclusive_lock_kept_witness: "m_mode (the_mutex example_system) = Exclusive \<and> set_mset (holds example_system) = {1}"
proof (rule exclusive_lock_kept [OF example_mutex_reach])
  show "mutex_step \<lparr>the_mutex = example_mutex, waits = (\<lambda>_. None), holds = {#1#}\<rparr> example_system" by (rule example_step)
qed (simp_all add: example_mutex_simps few_locks_def)

text \<open>
  C10: No wakeup is lost: while a thread waits for the mutex, some thread that can run holds a lock and so can give it up, unless every thread
  with a lock is itself waiting to turn its shared lock into an exclusive one.
\<close>
theorem no_lost_wakeup:
  assumes "mutex_reach behavior s" and "waits s u = Some c"
  shows "holds s \<noteq> {#} \<and>
    ((\<exists>t. t \<in># holds s \<and> \<not> m_blocking_mutex (the_mutex s) t) \<or>
     m_mode (the_mutex s) = Shared \<and> (\<forall>t. t \<in># holds s \<longrightarrow> map_option wait_mode (waits s t) = Some Exclusive))"
proof -
  let ?m = "the_mutex s"
  have inv: "lock_inv ?m (waits s) (holds s)" using mutex_inv_parts [OF mutex_reach_inv [OF assms(1)]] by simp
  have mode: "m_mode ?m \<noteq> Unlocked" using unlocked_no_waits [OF inv, of u] assms(2) by auto
  have nonempty: "holds s \<noteq> {#}" using inv mode by (cases "m_mode ?m") (simp_all add: lock_inv_def)
  show ?thesis
  proof (cases "m_mode ?m")
    case Exclusive
    then have "m_holder ?m \<in># holds s" "\<not> m_blocking_mutex ?m (m_holder ?m)" using inv by (auto simp: lock_inv_def blocked_ok_def)
    then show ?thesis using nonempty by blast
  next
    case Shared
    have "map_option wait_mode (waits s t) = Some Exclusive" if blocked: "m_blocking_mutex ?m t" for t
    proof -
      have lists: "lists_ok ?m (waits s)" using inv by (simp add: lock_inv_def)
      then obtain d where d: "waits s t = Some d" using blocked by (auto simp: lists_ok_def)
      have "wait_mode d \<noteq> Unlocked" using call_ok_mode lists_ok_call [OF lists d] by blast
      moreover have "wait_mode d \<noteq> Shared" using inv Shared d blocked unfolding lock_inv_def blocked_ok_def by blast
      ultimately show ?thesis using d by (cases "wait_mode d") simp_all
    qed
    then show ?thesis using nonempty Shared by blast
  qed (use mode in simp)
qed


theorem no_lost_wakeup_witness:
  "waits example_system 2 = Some (InLock Exclusive Shared) \<and>
   (\<exists>t. t \<in># holds example_system \<and> \<not> m_blocking_mutex (the_mutex example_system) t)"
proof -
  have w: "waits example_system 2 = Some (InLock Exclusive Shared)" "m_mode (the_mutex example_system) \<noteq> Shared"
    by (simp_all add: example_mutex_simps)
  show ?thesis using no_lost_wakeup [OF example_system_reach w(1)] w by blast
qed

end
