(* ===== verification/Ordered_List.thy ===== *)
theory Ordered_List
  imports Main
begin

text \<open>
  The sequence of the elements of a search tree, in the order of their keys, and what the operations of the tree mean on it.
\<close>

fun insert_by :: "('a \<Rightarrow> 'k::linorder) \<Rightarrow> 'a \<Rightarrow> 'a list \<Rightarrow> 'a list" where
  "insert_by key r [] = [r]"
| "insert_by key r (q # qs) = (if key r < key q then r # q # qs else q # insert_by key r qs)"

fun remove_by :: "('a \<Rightarrow> 'k) \<Rightarrow> 'k \<Rightarrow> 'a list \<Rightarrow> 'a list \<times> bool" where
  "remove_by key k [] = ([], False)"
| "remove_by key k (q # qs) =
     (if key q = k then (qs, True) else let (rest, found) = remove_by key k qs in (q # rest, found))"

fun find_not_above :: "('a \<Rightarrow> 'k::linorder) \<Rightarrow> 'k \<Rightarrow> 'a option \<Rightarrow> 'a list \<Rightarrow> 'a option" where
  "find_not_above key k candidate [] = candidate"
| "find_not_above key k candidate (q # qs) =
     (if key q \<le> k then find_not_above key k (Some q) qs else candidate)"

fun find_not_below :: "('a \<Rightarrow> 'k::linorder) \<Rightarrow> 'k \<Rightarrow> 'a list \<Rightarrow> 'a option" where
  "find_not_below key k [] = None"
| "find_not_below key k (q # qs) = (if k \<le> key q then Some q else find_not_below key k qs)"

lemma set_insert_by [simp]: "set (insert_by key r rs) = insert r (set rs)"
  by (induction rs) auto

lemma length_insert_by [simp]: "length (insert_by key r rs) = Suc (length rs)"
  by (induction rs) auto

lemma insert_by_nonempty [simp]: "insert_by key r rs \<noteq> []"
  by (cases rs) auto

lemma distinct_insert_by: "distinct (map key rs) \<Longrightarrow> key r \<notin> key ` set rs \<Longrightarrow> distinct (map key (insert_by key r rs))"
  by (induction rs) auto

abbreviation sorted_by :: "('a \<Rightarrow> 'k::linorder) \<Rightarrow> 'a list \<Rightarrow> bool" where
  "sorted_by key rs \<equiv> sorted (map key rs)"

lemma sorted_insert_by: "sorted_by key rs \<Longrightarrow> sorted_by key (insert_by key r rs)"
  by (induction rs) auto

text \<open>The operations skip what is on the other side of an element.\<close>
lemma insert_by_left:
  "\<forall>q \<in> set qs. key r < key q \<Longrightarrow> insert_by key r (ps @ qs) = insert_by key r ps @ qs"
proof (induction ps)
  case Nil
  then show ?case by (cases qs) simp_all
qed simp

lemma insert_by_right:
  "\<forall>p \<in> set ps. key p \<le> key r \<Longrightarrow> insert_by key r (ps @ qs) = ps @ insert_by key r qs"
  by (induction ps) auto

lemma find_not_above_left:
  "\<forall>q \<in> set qs. k < key q \<Longrightarrow> find_not_above key k c (ps @ qs) = find_not_above key k c ps"
proof (induction ps arbitrary: c)
  case Nil
  then show ?case by (cases qs) (auto simp: not_le)
qed simp

lemma find_not_above_right:
  "\<forall>p \<in> set ps. key p \<le> k \<Longrightarrow> ps \<noteq> [] \<Longrightarrow> find_not_above key k c (ps @ qs) = find_not_above key k (Some (last ps)) qs"
  by (induction ps arbitrary: c) auto

lemma find_not_below_left:
  "q \<in> set ps \<Longrightarrow> k \<le> key q \<Longrightarrow> find_not_below key k (ps @ qs) = find_not_below key k ps"
  by (induction ps) auto

lemma find_not_below_right:
  "\<forall>p \<in> set ps. key p < k \<Longrightarrow> find_not_below key k (ps @ qs) = find_not_below key k qs"
  by (induction ps) auto


lemma find_not_below_append:
  "find_not_below key k (ps @ qs) = (case find_not_below key k ps of None \<Rightarrow> find_not_below key k qs | Some q \<Rightarrow> Some q)"
  by (induction ps) auto

text \<open>An element with the key itself decides the key of the result.\<close>
lemma find_not_above_key:
  "sorted_by key es \<Longrightarrow> k \<in> key ` set es \<Longrightarrow> \<exists>q. find_not_above key k c es = Some q \<and> key q = k"
proof (induction es arbitrary: c)
  case (Cons e es)
  show ?case
  proof (cases "k \<in> key ` set es")
    case True
    then show ?thesis using Cons by auto
  next
    case False
    then have "find_not_above key k (Some e) es = Some e" using Cons.prems by (cases es) (auto simp: not_le)
    then show ?thesis using False Cons.prems by auto
  qed
qed simp

lemma find_not_below_key:
  "sorted_by key es \<Longrightarrow> k \<in> key ` set es \<Longrightarrow> \<exists>q. find_not_below key k es = Some q \<and> key q = k"
  by (induction es) force+

end
