(* ===== verification/Address_Space.thy ===== *)
theory Address_Space
  imports Bits Ordered_List
begin

text \<open>
  \<^verbatim>\<open>Kernel/Memory/VirtualRange\<close> and \<^verbatim>\<open>Kernel/Memory/RegionTree\<close>: ranges of virtual addresses and the regions placed in an
  address space. Addresses have 64 bits and arithmetic on them wraps. The tree of regions is the list of their ranges in the order of the base
  addresses, which are the keys of the tree; \<open>Ordered_List\<close> has what the operations of the tree do to it. The random numbers of
  \<^verbatim>\<open>allocate_range_randomized\<close> are an argument.
\<close>

section \<open>Ranges\<close>

record virtual_range =
  vr_base :: nat
  vr_size :: nat

definition is_page_aligned :: "nat \<Rightarrow> bool" where
  "is_page_aligned address \<longleftrightarrow> address AND 0xfff = 0"

definition page_base :: "nat \<Rightarrow> nat" where
  "page_base address = unat ((word_of_nat address :: u64) AND NOT 0xfff)"

definition page_round_up :: "nat \<Rightarrow> nat result" where
  "page_round_up x =
     (if x > unat (NOT 0xfff :: u64) then Inl (Err EINVAL)
      else Inr (unat ((word_of_nat x + word_of_nat PAGE_SIZE - 1 :: u64) AND NOT (word_of_nat PAGE_SIZE - 1))))"

definition vr_end :: "virtual_range \<Rightarrow> nat" where
  "vr_end rng = size_add (vr_base rng) (vr_size rng)"

definition contains_address :: "virtual_range \<Rightarrow> nat \<Rightarrow> bool" where
  "contains_address rng vaddr \<longleftrightarrow> vaddr \<ge> vr_base rng \<and> vaddr < vr_end rng"

definition contains_span :: "virtual_range \<Rightarrow> nat \<Rightarrow> nat \<Rightarrow> bool" where
  "contains_span rng base bytes \<longleftrightarrow>
     \<not> size_add base bytes < base \<and> base \<ge> vr_base rng \<and> size_add base bytes \<le> vr_end rng"

definition contains_range :: "virtual_range \<Rightarrow> virtual_range \<Rightarrow> bool" where
  "contains_range rng other \<longleftrightarrow> contains_span rng (vr_base other) (vr_size other)"

definition carve :: "virtual_range \<Rightarrow> virtual_range \<Rightarrow> virtual_range list result" where
  "carve rng taken =
     (if vr_size taken mod PAGE_SIZE \<noteq> 0 then Inl VerifyFailed
      else if taken = rng then Inr []
      else Inr ((if vr_base taken > vr_base rng
                 then [\<lparr>vr_base = vr_base rng, vr_size = size_sub (vr_base taken) (vr_base rng)\<rparr>] else []) @
                (if vr_end taken < vr_end rng
                 then [\<lparr>vr_base = vr_end taken, vr_size = size_sub (vr_end rng) (vr_end taken)\<rparr>] else [])))"

definition intersects :: "virtual_range \<Rightarrow> virtual_range \<Rightarrow> bool" where
  "intersects rng other =
     (let (a, b) = (if vr_base rng > vr_base other then (other, rng) else (rng, other))
      in vr_base a < vr_end b \<and> vr_base b < vr_end a)"

definition intersect :: "virtual_range \<Rightarrow> virtual_range \<Rightarrow> virtual_range result" where
  "intersect rng other =
     (if rng = other then Inr rng
      else let new_base = max (vr_base rng) (vr_base other);
               new_end = min (vr_end rng) (vr_end other)
           in if \<not> new_base < new_end then Inl VerifyFailed
              else Inr \<lparr>vr_base = new_base, vr_size = size_sub new_end new_base\<rparr>)"

definition expand_to_page_boundaries :: "nat \<Rightarrow> nat \<Rightarrow> virtual_range result" where
  "expand_to_page_boundaries address bytes =
     (if size_add address bytes < address then Inl (Err EINVAL)
      else bindR (page_round_up (size_add address bytes)) (\<lambda>page_end.
        Inr \<lparr>vr_base = page_base address, vr_size = size_sub page_end (page_base address)\<rparr>))"

section \<open>The tree of regions\<close>

record region_tree =
  m_regions :: "virtual_range list"
  m_total_range :: virtual_range

definition allocate_from_window :: "nat \<Rightarrow> nat \<Rightarrow> virtual_range \<Rightarrow> virtual_range option" where
  "allocate_from_window bytes alignment window =
     (if vr_size window < size_add bytes alignment then None
      else Some \<lparr>vr_base = round_up_to_power_of_two (vr_base window) alignment, vr_size = bytes\<rparr>)"

text \<open>The loop over the regions: a range that was found, or the start of the last window.\<close>
fun scan_windows :: "nat \<Rightarrow> nat \<Rightarrow> nat \<Rightarrow> virtual_range list \<Rightarrow> virtual_range + nat" where
  "scan_windows bytes alignment window_start [] = Inr window_start"
| "scan_windows bytes alignment window_start (region # regions) =
     (if window_start = vr_base region then scan_windows bytes alignment (vr_end region) regions
      else case allocate_from_window bytes alignment
                  \<lparr>vr_base = window_start, vr_size = size_sub (vr_base region) window_start\<rparr> of
             Some rng \<Rightarrow> Inl rng
           | None \<Rightarrow> scan_windows bytes alignment (vr_end region) regions)"

definition allocate_range_anywhere :: "region_tree \<Rightarrow> nat \<Rightarrow> nat \<Rightarrow> virtual_range result" where
  "allocate_range_anywhere t bytes alignment =
     (if bytes = 0 then Inl (Err EINVAL)
      else if bytes mod PAGE_SIZE \<noteq> 0 then Inl VerifyFailed
      else if alignment mod PAGE_SIZE \<noteq> 0 then Inl VerifyFailed
      else if bytes + alignment \<ge> size_limit then Inl (Err EOVERFLOW)
      else case scan_windows bytes alignment (vr_base (m_total_range t)) (m_regions t) of
             Inl rng \<Rightarrow> Inr rng
           | Inr window_start \<Rightarrow>
               let window = \<lparr>vr_base = window_start, vr_size = size_sub (vr_end (m_total_range t)) window_start\<rparr>
               in if contains_range (m_total_range t) window
                  then (case allocate_from_window bytes alignment window of
                          Some rng \<Rightarrow> Inr rng
                        | None \<Rightarrow> Inl (Err ENOMEM))
                  else Inl (Err ENOMEM))"

definition allocate_range_specific :: "region_tree \<Rightarrow> nat \<Rightarrow> nat \<Rightarrow> virtual_range result" where
  "allocate_range_specific t base bytes =
     (if bytes = 0 then Inl (Err EINVAL)
      else if \<not> is_page_aligned base then Inl VerifyFailed
      else if bytes mod PAGE_SIZE \<noteq> 0 then Inl VerifyFailed
      else
        let rng = \<lparr>vr_base = base, vr_size = bytes\<rparr>
        in if \<not> contains_range (m_total_range t) rng then Inl (Err ENOMEM)
           else case find_not_above vr_base (size_add base (bytes - 1)) None (m_regions t) of
                  None \<Rightarrow> Inr rng
                | Some region \<Rightarrow> if intersects region rng then Inl (Err ENOMEM) else Inr rng)"

definition maximum_randomization_attempts :: nat where
  "maximum_randomization_attempts = 1000"

fun try_random_addresses :: "region_tree \<Rightarrow> nat \<Rightarrow> nat \<Rightarrow> nat list \<Rightarrow> virtual_range option result" where
  "try_random_addresses t bytes alignment [] = Inr None"
| "try_random_addresses t bytes alignment (random # rest) =
     (let random_address = round_up_to_power_of_two (random mod vr_end (m_total_range t)) alignment
      in if \<not> contains_span (m_total_range t) random_address bytes then try_random_addresses t bytes alignment rest
         else case allocate_range_specific t random_address bytes of
                Inr rng \<Rightarrow> Inr (Some rng)
              | Inl (Err _) \<Rightarrow> try_random_addresses t bytes alignment rest
              | Inl e \<Rightarrow> Inl e)"

definition allocate_range_randomized :: "(nat \<Rightarrow> nat) \<Rightarrow> region_tree \<Rightarrow> nat \<Rightarrow> nat \<Rightarrow> virtual_range result" where
  "allocate_range_randomized random t bytes alignment =
     (if bytes = 0 then Inl (Err EINVAL)
      else if bytes mod PAGE_SIZE \<noteq> 0 then Inl VerifyFailed
      else if alignment mod PAGE_SIZE \<noteq> 0 then Inl VerifyFailed
      else bindR (try_random_addresses t bytes alignment (map random [0..<maximum_randomization_attempts])) (\<lambda>found.
        case found of Some rng \<Rightarrow> Inr rng | None \<Rightarrow> allocate_range_anywhere t bytes alignment))"

definition place_anywhere :: "(nat \<Rightarrow> nat) \<Rightarrow> region_tree \<Rightarrow> bool \<Rightarrow> nat \<Rightarrow> nat \<Rightarrow> (region_tree \<times> virtual_range) result" where
  "place_anywhere random t randomize_virtual_address bytes alignment =
     bindR (if randomize_virtual_address then allocate_range_randomized random t bytes alignment
            else allocate_range_anywhere t bytes alignment) (\<lambda>rng.
     Inr (t\<lparr>m_regions := insert_by vr_base rng (m_regions t)\<rparr>, rng))"

definition place_specifically :: "region_tree \<Rightarrow> virtual_range \<Rightarrow> (region_tree \<times> virtual_range) result" where
  "place_specifically t rng =
     bindR (allocate_range_specific t (vr_base rng) (vr_size rng)) (\<lambda>allocated_range.
     Inr (t\<lparr>m_regions := insert_by vr_base allocated_range (m_regions t)\<rparr>, allocated_range))"

definition remove_region :: "region_tree \<Rightarrow> virtual_range \<Rightarrow> region_tree \<times> bool" where
  "remove_region t region =
     (let (regions, found) = remove_by vr_base (vr_base region) (m_regions t) in (t\<lparr>m_regions := regions\<rparr>, found))"

definition find_region_containing_address :: "region_tree \<Rightarrow> nat \<Rightarrow> virtual_range option" where
  "find_region_containing_address t address =
     (case find_not_above vr_base address None (m_regions t) of
        None \<Rightarrow> None
      | Some region \<Rightarrow> if \<not> contains_address region address then None else Some region)"

definition find_region_containing_range :: "region_tree \<Rightarrow> virtual_range \<Rightarrow> virtual_range option" where
  "find_region_containing_range t rng =
     (case find_not_above vr_base (vr_base rng) None (m_regions t) of
        None \<Rightarrow> None
      | Some region \<Rightarrow> if \<not> contains_range region rng then None else Some region)"

end
