(* ===== verification/Address_Space_Layout.thy ===== *)
theory Address_Space_Layout
  imports Address_Space
begin

text \<open>
  The regions of an address space never overlap: the tree keeps them in order with each one ending before the next begins.
\<close>

section \<open>Ranges as intervals\<close>

abbreviation upper :: "virtual_range \<Rightarrow> nat" where
  "upper r \<equiv> vr_base r + vr_size r"

lemma vr_end_exact: "upper r < size_limit \<Longrightarrow> vr_end r = upper r"
  by (simp add: vr_end_def size_simps)

definition disjoint_from :: "virtual_range \<Rightarrow> virtual_range \<Rightarrow> bool" where
  "disjoint_from r q \<longleftrightarrow> upper r \<le> vr_base q \<or> upper q \<le> vr_base r"

lemma intersects_iff:
  assumes "upper r < size_limit" and "upper q < size_limit" and "0 < vr_size r" and "0 < vr_size q"
  shows "intersects r q \<longleftrightarrow> \<not> disjoint_from r q"
  using assms by (auto simp: intersects_def disjoint_from_def vr_end_exact)

lemma contains_span_iff:
  assumes "upper r < size_limit" and "base < size_limit" and "bytes < size_limit"
  shows "contains_span r base bytes \<longleftrightarrow> vr_base r \<le> base \<and> base + bytes \<le> upper r"
proof (cases "base + bytes < size_limit")
  case True
  then show ?thesis using assms(1) by (simp add: contains_span_def vr_end_exact size_simps)
next
  case False
  then have "size_add base bytes < base" using size_add_wraps assms(2,3) by simp
  then show ?thesis using False assms(1) by (simp add: contains_span_def)
qed

section \<open>The layout\<close>

fun regions_from :: "nat \<Rightarrow> virtual_range list \<Rightarrow> nat \<Rightarrow> bool" where
  "regions_from lo [] hi \<longleftrightarrow> lo \<le> hi"
| "regions_from lo (r # rs) hi \<longleftrightarrow> lo \<le> vr_base r \<and> 0 < vr_size r \<and> regions_from (upper r) rs hi"

definition tree_ok :: "region_tree \<Rightarrow> bool" where
  "tree_ok t \<longleftrightarrow> upper (m_total_range t) < size_limit \<and>
     regions_from (vr_base (m_total_range t)) (m_regions t) (upper (m_total_range t))"

lemma regions_from_le: "regions_from lo rs hi \<Longrightarrow> lo \<le> hi"
  by (induction rs arbitrary: lo) fastforce+

lemma regions_from_mono: "regions_from lo rs hi \<Longrightarrow> lo' \<le> lo \<Longrightarrow> regions_from lo' rs hi"
  by (cases rs) auto

lemma regions_from_in: "regions_from lo rs hi \<Longrightarrow> r \<in> set rs \<Longrightarrow> lo \<le> vr_base r \<and> 0 < vr_size r \<and> upper r \<le> hi"
proof (induction rs arbitrary: lo)
  case (Cons q rs)
  show ?case
  proof (cases "r = q")
    case True
    then show ?thesis using Cons.prems(1) regions_from_le [of "upper q" rs hi] by simp
  next
    case False
    then have "upper q \<le> vr_base r \<and> 0 < vr_size r \<and> upper r \<le> hi" using Cons.IH [of "upper q"] Cons.prems by simp
    then show ?thesis using Cons.prems(1) by simp
  qed
qed simp

text \<open>Two places in the tree hold disjoint ranges.\<close>
lemma regions_from_disjoint:
  "regions_from lo rs hi \<Longrightarrow> i < j \<Longrightarrow> j < length rs \<Longrightarrow> upper (rs ! i) \<le> vr_base (rs ! j)"
proof (induction rs arbitrary: lo i j)
  case (Cons q rs)
  show ?case
  proof (cases i)
    case 0
    then have "rs ! (j - 1) \<in> set rs" using Cons.prems(2,3) by simp
    then have "upper q \<le> vr_base (rs ! (j - 1))" using regions_from_in [of "upper q" rs hi] Cons.prems(1) by simp
    then show ?thesis using 0 Cons.prems(2) by (simp add: nth_Cons')
  next
    case (Suc i')
    then show ?thesis using Cons.IH [of "upper q" i' "j - 1"] Cons.prems by (simp add: nth_Cons')
  qed
qed simp

lemma regions_from_insert:
  assumes "regions_from lo rs hi" and "lo \<le> vr_base r" and "upper r \<le> hi" and "0 < vr_size r"
    and "\<And>q. q \<in> set rs \<Longrightarrow> disjoint_from r q"
  shows "regions_from lo (insert_by vr_base r rs) hi"
  using assms
proof (induction rs arbitrary: lo)
  case (Cons q rs)
  have q: "disjoint_from r q" using Cons.prems(5) by simp
  show ?case
  proof (cases "vr_base r < vr_base q")
    case True
    then have "upper r \<le> vr_base q" using q Cons.prems(1) by (auto simp: disjoint_from_def)
    then show ?thesis using True Cons.prems(1,2,4) by simp
  next
    case False
    then have "upper q \<le> vr_base r" using q Cons.prems(4) by (auto simp: disjoint_from_def)
    then show ?thesis using False Cons.IH [of "upper q"] Cons.prems by simp
  qed
qed simp

lemma regions_from_remove: "regions_from lo rs hi \<Longrightarrow> regions_from lo (fst (remove_by vr_base key rs)) hi"
proof (induction rs arbitrary: lo)
  case (Cons q rs)
  then show ?case using regions_from_mono [of "upper q" rs hi lo] by (simp add: case_prod_beta Let_def)
qed simp

section \<open>Looking up\<close>

text \<open>The region found is the only one that can contain the key, or meet a range that ends at the key.\<close>
definition found_not_above :: "nat \<Rightarrow> virtual_range \<Rightarrow> virtual_range list \<Rightarrow> bool" where
  "found_not_above key r rs \<longleftrightarrow> r \<in> set rs \<and> vr_base r \<le> key \<and> (\<forall>q \<in> set rs. q \<noteq> r \<longrightarrow> key < vr_base q \<or> upper q \<le> vr_base r)"

lemma find_not_above_cases:
  "regions_from lo rs hi \<Longrightarrow>
   find_not_above vr_base key c rs = c \<and> (\<forall>q \<in> set rs. key < vr_base q) \<or>
   (\<exists>r. find_not_above vr_base key c rs = Some r \<and> found_not_above key r rs)"
proof (induction rs arbitrary: lo c)
  case (Cons q rs)
  have rs: "regions_from (upper q) rs hi" using Cons.prems by simp
  have above: "upper q \<le> vr_base p" if "p \<in> set rs" for p using regions_from_in [OF rs that] by simp
  show ?case
  proof (cases "vr_base q \<le> key")
    case True
    from Cons.IH [OF rs, of "Some q"] show ?thesis
    proof
      assume "find_not_above vr_base key (Some q) rs = Some q \<and> (\<forall>p \<in> set rs. key < vr_base p)"
      then show ?thesis using True by (auto simp: found_not_above_def)
    next
      assume "\<exists>r. find_not_above vr_base key (Some q) rs = Some r \<and> found_not_above key r rs"
      then show ?thesis using True above by (auto simp: found_not_above_def)
    qed
  next
    case False
    then have "key < vr_base p" if "p \<in> set rs" for p using above [OF that] by simp
    then show ?thesis using False by simp
  qed
qed simp

lemma find_not_above_result:
  assumes "regions_from lo rs hi"
  shows "(find_not_above vr_base key None rs = None \<and> (\<forall>q \<in> set rs. key < vr_base q)) \<or>
    (\<exists>r. find_not_above vr_base key None rs = Some r \<and> found_not_above key r rs)"
  using find_not_above_cases [OF assms, of key None] .

text \<open>A range meets a region if and only if it meets the one found for its last address.\<close>
lemma find_not_above_disjoint:
  assumes "regions_from lo rs hi" and "0 < vr_size r"
  shows "(\<forall>q \<in> set rs. disjoint_from r q) \<longleftrightarrow>
    (case find_not_above vr_base (upper r - 1) None rs of None \<Rightarrow> True | Some q \<Rightarrow> disjoint_from r q)"
proof -
  have above: "disjoint_from r q" if "upper r - 1 < vr_base q" for q using that assms(2) by (auto simp: disjoint_from_def)
  consider (none) "find_not_above vr_base (upper r - 1) None rs = None" "\<forall>q \<in> set rs. upper r - 1 < vr_base q"
    | (some) p where "find_not_above vr_base (upper r - 1) None rs = Some p" "found_not_above (upper r - 1) p rs"
    using find_not_above_result [OF assms(1), of "upper r - 1"] by (elim disjE conjE exE) metis+
  then show ?thesis
  proof cases
    case none
    then show ?thesis using above by simp
  next
    case (some p)
    have "disjoint_from r q" if "q \<in> set rs" "q \<noteq> p" "disjoint_from r p" for q
      using some(2) that assms(2) above [of q] unfolding found_not_above_def by (fastforce simp: disjoint_from_def)
    then show ?thesis using some by (auto simp: found_not_above_def)
  qed
qed

lemma tree_ok_region:
  assumes "tree_ok t" and "r \<in> set (m_regions t)"
  shows "vr_base (m_total_range t) \<le> vr_base r \<and> 0 < vr_size r \<and> upper r \<le> upper (m_total_range t) \<and> upper r < size_limit"
  using regions_from_in [of _ "m_regions t" _ r] assms unfolding tree_ok_def by fastforce

section \<open>Choosing a range\<close>

definition free_range :: "region_tree \<Rightarrow> virtual_range \<Rightarrow> bool" where
  "free_range t r \<longleftrightarrow> vr_base (m_total_range t) \<le> vr_base r \<and> upper r \<le> upper (m_total_range t) \<and>
     (\<forall>q \<in> set (m_regions t). disjoint_from r q)"

lemma allocate_range_specific_result:
  assumes "tree_ok t" and "base < size_limit" and "bytes < size_limit"
    and "0 < bytes" and "is_page_aligned base" and "bytes mod PAGE_SIZE = 0"
  shows "allocate_range_specific t base bytes =
    (if free_range t \<lparr>vr_base = base, vr_size = bytes\<rparr> then Inr \<lparr>vr_base = base, vr_size = bytes\<rparr> else Inl (Err ENOMEM))"
proof -
  let ?r = "\<lparr>vr_base = base, vr_size = bytes\<rparr>" and ?key = "base + bytes - 1"
  note t = assms(1) [unfolded tree_ok_def]
  show ?thesis
  proof (cases "contains_range (m_total_range t) ?r")
    case False
    then have "\<not> free_range t ?r" using contains_span_iff [of "m_total_range t" base bytes] t assms(2,3)
      by (auto simp: contains_range_def free_range_def)
    then show ?thesis using False assms(4-6) by (simp add: allocate_range_specific_def Let_def)
  next
    case True
    then have span: "vr_base (m_total_range t) \<le> base" "base + bytes \<le> upper (m_total_range t)"
      using contains_span_iff [of "m_total_range t" base bytes] t assms(2,3) by (simp_all add: contains_range_def)
    have "base + (bytes - 1) < size_limit" using span t by linarith
    then have key: "size_add base (bytes - 1) = ?key" using assms(4) by (simp only: size_add_exact)
    have d: "disjoint_from ?r q \<longleftrightarrow> \<not> intersects q ?r" if "q \<in> set (m_regions t)" for q
      using intersects_iff [of q ?r] tree_ok_region [OF assms(1) that] span t assms(4) by (auto simp: disjoint_from_def)
    have free: "free_range t ?r \<longleftrightarrow> (\<forall>q \<in> set (m_regions t). disjoint_from ?r q)" using span by (auto simp: free_range_def)
    have found: "q \<in> set (m_regions t)" if "find_not_above vr_base ?key None (m_regions t) = Some q" for q
      using find_not_above_result [OF conjunct2 [OF t], of ?key] that by (auto simp: found_not_above_def)
    have "(case find_not_above vr_base ?key None (m_regions t) of None \<Rightarrow> Inr ?r
        | Some region \<Rightarrow> if intersects region ?r then Inl (Err ENOMEM) else Inr ?r) =
        (if free_range t ?r then Inr ?r else Inl (Err ENOMEM))"
      unfolding free using find_not_above_disjoint [OF conjunct2 [OF t], of ?r] found d assms(4)
      by (cases "find_not_above vr_base ?key None (m_regions t)") auto
    then show ?thesis using True key assms(4-6) by (simp add: allocate_range_specific_def Let_def)
  qed
qed


lemma allocate_from_window_bounds:
  assumes "allocate_from_window bytes alignment \<lparr>vr_base = lo, vr_size = hi - lo\<rparr> = Some r"
    and "lo \<le> hi" and "hi < size_limit" and "bytes + alignment < size_limit" and "0 < alignment" and "0 < bytes"
  shows "vr_size r = bytes \<and> lo \<le> vr_base r \<and> upper r \<le> hi"
proof -
  have w: "bytes + alignment \<le> hi - lo" and r: "r = \<lparr>vr_base = round_up_to_power_of_two lo alignment, vr_size = bytes\<rparr>"
    using assms(1) size_add_exact [OF assms(4)] by (auto simp: allocate_from_window_def split: if_splits)
  have "lo + alignment < size_limit" using w assms(2,3,6) by linarith
  then show ?thesis using round_up_bounds [OF assms(5), of lo] w assms(2) r by auto
qed

lemma scan_windows_found:
  assumes "regions_from lo rs hi" and "hi < size_limit" and "bytes + alignment < size_limit" and "0 < alignment" and "0 < bytes"
    and "scan_windows bytes alignment lo rs = Inl r"
  shows "vr_size r = bytes \<and> lo \<le> vr_base r \<and> upper r \<le> hi \<and> (\<forall>q \<in> set rs. disjoint_from r q)"
  using assms(1,6)
proof (induction rs arbitrary: lo)
  case (Cons q rs)
  have rs: "regions_from (upper q) rs hi" and q: "lo \<le> vr_base q" using Cons.prems(1) by simp_all
  have up: "upper q \<le> hi" using rs by (rule regions_from_le)
  have e: "vr_end q = upper q" using up assms(2) by (intro vr_end_exact) simp
  show ?case
  proof (cases "scan_windows bytes alignment (upper q) rs = Inl r")
    case True
    then have "vr_size r = bytes \<and> upper q \<le> vr_base r \<and> upper r \<le> hi \<and> (\<forall>q \<in> set rs. disjoint_from r q)"
      using Cons.IH [OF rs] by blast
    then show ?thesis using q by (auto simp: disjoint_from_def)
  next
    case False
    have sub: "size_sub (vr_base q) lo = vr_base q - lo" using q up assms(2) by (intro size_sub_exact) auto
    have "allocate_from_window bytes alignment \<lparr>vr_base = lo, vr_size = vr_base q - lo\<rparr> = Some r"
      using Cons.prems(2) False e sub by (simp split: if_splits option.splits)
    then have r: "vr_size r = bytes \<and> lo \<le> vr_base r \<and> upper r \<le> vr_base q"
      using q up assms(2-5) by (intro allocate_from_window_bounds [where alignment = alignment]) auto
    moreover have "upper q \<le> vr_base p" if "p \<in> set rs" for p using regions_from_in [OF rs that] by simp
    ultimately show ?thesis using up by (fastforce simp: disjoint_from_def)
  qed
qed simp

lemma scan_windows_end:
  assumes "regions_from lo rs hi" and "hi < size_limit" and "scan_windows bytes alignment lo rs = Inr ws"
  shows "lo \<le> ws \<and> ws \<le> hi \<and> (\<forall>q \<in> set rs. upper q \<le> ws)"
  using assms(1,3)
proof (induction rs arbitrary: lo)
  case (Cons q rs)
  have rs: "regions_from (upper q) rs hi" and q: "lo \<le> vr_base q" using Cons.prems(1) by simp_all
  have e: "vr_end q = upper q" using regions_from_le [OF rs] assms(2) by (intro vr_end_exact) simp
  have "scan_windows bytes alignment (upper q) rs = Inr ws" using Cons.prems(2) e by (simp split: if_splits option.splits)
  then show ?case using Cons.IH [OF rs] q by auto
qed simp

lemma allocate_range_anywhere_free:
  assumes "tree_ok t" and "0 < alignment" and "allocate_range_anywhere t bytes alignment = Inr r"
  shows "vr_size r = bytes \<and> 0 < bytes \<and> free_range t r"
proof -
  note t = assms(1) [unfolded tree_ok_def]
  let ?lo = "vr_base (m_total_range t)" and ?hi = "upper (m_total_range t)"
  have g: "0 < bytes" "bytes + alignment < size_limit"
    using assms(3) by (auto simp: allocate_range_anywhere_def split: if_splits)
  show ?thesis
  proof (cases "scan_windows bytes alignment ?lo (m_regions t)")
    case (Inl q)
    then have "r = q" using assms(3) by (simp add: allocate_range_anywhere_def split: if_splits)
    then show ?thesis using scan_windows_found [OF _ _ g(2) assms(2) g(1)] Inl t g(1) by (auto simp: free_range_def)
  next
    case (Inr ws)
    have ws: "?lo \<le> ws" "ws \<le> ?hi" "\<And>q. q \<in> set (m_regions t) \<Longrightarrow> upper q \<le> ws"
      using scan_windows_end [OF _ _ Inr] t by blast+
    have sub: "size_sub (vr_end (m_total_range t)) ws = ?hi - ws"
      using ws(2) t by (simp only: vr_end_exact) (intro size_sub_exact, auto)
    have "allocate_from_window bytes alignment \<lparr>vr_base = ws, vr_size = ?hi - ws\<rparr> = Some r"
      using assms(3) Inr by (simp add: allocate_range_anywhere_def sub Let_def split: if_splits option.splits)
    then have "vr_size r = bytes \<and> ws \<le> vr_base r \<and> upper r \<le> ?hi"
      using ws(2) t g assms(2) by (intro allocate_from_window_bounds [where alignment = alignment]) auto
    then show ?thesis using ws(1,3) g(1) by (fastforce simp: free_range_def disjoint_from_def)
  qed
qed


lemma unat_less_limit: "unat (w :: u64) < size_limit"
  using unsigned_less [of w] by simp

lemma try_random_free:
  assumes "tree_ok t" and "0 < alignment" and "0 < bytes" and "bytes < size_limit"
    and "try_random_addresses t bytes alignment randoms = Inr (Some r)"
  shows "vr_size r = bytes \<and> free_range t r"
  using assms(5)
proof (induction randoms)
  case (Cons x xs)
  let ?a = "round_up_to_power_of_two (x mod vr_end (m_total_range t)) alignment"
  have a: "?a < size_limit" unfolding round_up_to_power_of_two_def Let_def by (rule unat_less_limit)
  show ?case
  proof (cases "try_random_addresses t bytes alignment xs = Inr (Some r)")
    case False
    then have r: "allocate_range_specific t ?a bytes = Inr r"
      using Cons.prems by (auto simp: Let_def split: if_splits sum.splits error.splits)
    then have "is_page_aligned ?a" "bytes mod PAGE_SIZE = 0"
      by (auto simp: allocate_range_specific_def split: if_splits)
    then show ?thesis using allocate_range_specific_result [OF assms(1) a assms(4,3)] r by (auto split: if_splits)
  qed (use Cons.IH in blast)
qed simp




section \<open>Placing and removing regions\<close>

inductive space_reach :: "(nat \<Rightarrow> nat) \<Rightarrow> virtual_range \<Rightarrow> region_tree \<Rightarrow> bool" for random total_range where
  space_new: "space_reach random total_range \<lparr>m_regions = [], m_total_range = total_range\<rparr>"
| space_anywhere: "\<lbrakk>space_reach random total_range t; 0 < alignment; bytes < size_limit;
     place_anywhere random t randomize bytes alignment = Inr (t', r)\<rbrakk> \<Longrightarrow> space_reach random total_range t'"
| space_specifically: "\<lbrakk>space_reach random total_range t; vr_base r < size_limit; vr_size r < size_limit;
     place_specifically t r = Inr (t', r')\<rbrakk> \<Longrightarrow> space_reach random total_range t'"
| space_remove: "space_reach random total_range t \<Longrightarrow> space_reach random total_range (fst (remove_region t r))"

lemma tree_ok_insert:
  assumes "tree_ok t" and "free_range t r" and "0 < vr_size r"
  shows "tree_ok (t\<lparr>m_regions := insert_by vr_base r (m_regions t)\<rparr>)"
  using assms regions_from_insert [of _ "m_regions t" _ r] by (simp add: tree_ok_def free_range_def)

lemma place_anywhere_ok:
  assumes "tree_ok t" and "0 < alignment" and "bytes < size_limit" and "place_anywhere random t randomize bytes alignment = Inr (t', r)"
  shows "t' = t\<lparr>m_regions := insert_by vr_base r (m_regions t)\<rparr> \<and> vr_size r = bytes \<and> 0 < bytes \<and> free_range t r"
proof -
  have t': "t' = t\<lparr>m_regions := insert_by vr_base r (m_regions t)\<rparr>" using assms(4) by (auto simp: place_anywhere_def bindR_Inr_iff)
  have "vr_size r = bytes \<and> 0 < bytes \<and> free_range t r"
  proof (cases "allocate_range_anywhere t bytes alignment = Inr r")
    case True
    then show ?thesis using allocate_range_anywhere_free [OF assms(1,2)] by blast
  next
    case False
    then have r: "allocate_range_randomized random t bytes alignment = Inr r"
      using assms(4) by (auto simp: place_anywhere_def bindR_Inr_iff split: if_splits)
    then have "0 < bytes" by (auto simp: allocate_range_randomized_def split: if_splits)
    moreover have "try_random_addresses t bytes alignment (map random [0..<maximum_randomization_attempts]) = Inr (Some r)"
      using r False by (auto simp: allocate_range_randomized_def bindR_Inr_iff split: if_splits option.splits)
    ultimately show ?thesis using try_random_free [OF assms(1,2) _ assms(3)] by blast
  qed
  then show ?thesis using t' by blast
qed

lemma place_specifically_ok:
  assumes "tree_ok t" and "vr_base r < size_limit" and "vr_size r < size_limit" and "place_specifically t r = Inr (t', r')"
  shows "t' = t\<lparr>m_regions := insert_by vr_base r' (m_regions t)\<rparr> \<and> r' = r \<and> 0 < vr_size r \<and> free_range t r"
proof -
  have a: "allocate_range_specific t (vr_base r) (vr_size r) = Inr r'" and t': "t' = t\<lparr>m_regions := insert_by vr_base r' (m_regions t)\<rparr>"
    using assms(4) by (auto simp: place_specifically_def bindR_Inr_iff)
  have g: "0 < vr_size r" "is_page_aligned (vr_base r)" "vr_size r mod PAGE_SIZE = 0"
    using a by (auto simp: allocate_range_specific_def split: if_splits)
  have "r = \<lparr>vr_base = vr_base r, vr_size = vr_size r\<rparr>" by simp
  then have "r' = r \<and> free_range t r" using allocate_range_specific_result [OF assms(1-3) g] a by (metis sum.distinct(1) sum.inject(2))
  then show ?thesis using t' g(1) by simp
qed

lemma space_reach_ok:
  "space_reach random total_range t \<Longrightarrow> upper total_range < size_limit \<Longrightarrow> tree_ok t \<and> m_total_range t = total_range"
proof (induction rule: space_reach.induct)
  case space_new
  then show ?case by (simp add: tree_ok_def)
next
  case (space_anywhere t alignment bytes randomize t' r)
  then show ?case using place_anywhere_ok [of t alignment bytes random randomize t' r] tree_ok_insert [of t r] by auto
next
  case (space_specifically t r t' r')
  then show ?case using place_specifically_ok [of t r t' r'] tree_ok_insert [of t r'] by auto
next
  case (space_remove t r)
  then show ?case using regions_from_remove [of _ "m_regions t" _ "vr_base r"]
    by (auto simp: tree_ok_def remove_region_def case_prod_beta Let_def)
qed











section \<open>An address space\<close>

definition example_total :: virtual_range where
  "example_total = \<lparr>vr_base = 65536, vr_size = 65536\<rparr>"

definition example_low :: virtual_range where
  "example_low = \<lparr>vr_base = 65536, vr_size = 4096\<rparr>"

definition example_high :: virtual_range where
  "example_high = \<lparr>vr_base = 77824, vr_size = 8192\<rparr>"

definition example_tree :: region_tree where
  "example_tree = \<lparr>m_regions = [example_low, example_high], m_total_range = example_total\<rparr>"

lemmas example_tree_simps = example_total_def example_low_def example_high_def example_tree_def

lemma example_tree_reach: "space_reach random example_total example_tree"
proof -
  let ?t0 = "\<lparr>m_regions = [], m_total_range = example_total\<rparr>" and ?t1 = "\<lparr>m_regions = [example_low], m_total_range = example_total\<rparr>"
  have ok: "tree_ok ?t0" "tree_ok ?t1" by (simp_all add: tree_ok_def example_tree_simps)
  have page: "is_page_aligned 65536" "is_page_aligned 77824" by (simp_all add: is_page_aligned_def)
  have "place_specifically ?t0 example_low = Inr (?t1, example_low)"
    using allocate_range_specific_result [OF ok(1), of 65536 4096] page(1)
    by (simp add: place_specifically_def example_tree_simps PAGE_SIZE_def free_range_def)
  then have t1: "space_reach random example_total ?t1"
    by (rule space_specifically [OF space_new, rotated 2]) (simp_all add: example_low_def)
  have "place_specifically ?t1 example_high = Inr (example_tree, example_high)"
    using allocate_range_specific_result [OF ok(2), of 77824 8192] page(2)
    by (simp add: place_specifically_def example_tree_simps PAGE_SIZE_def free_range_def disjoint_from_def)
  then show ?thesis by (rule space_specifically [OF t1, rotated 2]) (simp_all add: example_high_def)
qed

section \<open>Properties\<close>

text \<open>
  C5: The regions of an address space never overlap: whatever sequence of placements and removals led to the tree, its regions are
  in order, each ends before the next begins, and all of them are inside the range of the address space.
\<close>
theorem regions_never_overlap:
  assumes "space_reach random total_range t" and "upper total_range < size_limit" and "i < j" and "j < length (m_regions t)"
  shows "upper (m_regions t ! i) \<le> vr_base (m_regions t ! j) \<and>
    vr_base total_range \<le> vr_base (m_regions t ! i) \<and> upper (m_regions t ! j) \<le> upper total_range"
proof -
  have t: "tree_ok t" "m_total_range t = total_range" using space_reach_ok [OF assms(1,2)] by simp_all
  have m: "m_regions t ! i \<in> set (m_regions t)" "m_regions t ! j \<in> set (m_regions t)" using assms(3,4) by simp_all
  show ?thesis
    using regions_from_disjoint [OF _ assms(3,4)] tree_ok_region [OF t(1) m(1)] tree_ok_region [OF t(1) m(2)] t
    unfolding tree_ok_def by blast
qed

theorem regions_never_overlap_witness: "upper (m_regions example_tree ! 0) \<le> vr_base (m_regions example_tree ! 1)"
proof -
  have "upper example_total < size_limit" "(0 :: nat) < 1" "1 < length (m_regions example_tree)" by (simp_all add: example_tree_simps)
  then show ?thesis using regions_never_overlap [OF example_tree_reach] by blast
qed



text \<open>
  C40: The region found for an address is the one that contains it: there is never more than one, and if there is one it is found.
\<close>
theorem find_region_exact:
  assumes "space_reach random total_range t" and "upper total_range < size_limit"
  shows "find_region_containing_address t a = Some r \<longleftrightarrow> r \<in> set (m_regions t) \<and> vr_base r \<le> a \<and> a < upper r"
proof -
  have t: "tree_ok t" using space_reach_ok [OF assms] by simp
  have c: "contains_address q a \<longleftrightarrow> vr_base q \<le> a \<and> a < upper q" if "q \<in> set (m_regions t)" for q
    using tree_ok_region [OF t that] by (simp add: contains_address_def vr_end_exact)
  have "find_not_above vr_base a None (m_regions t) = None \<and> (\<forall>q \<in> set (m_regions t). a < vr_base q) \<or>
      (\<exists>p. find_not_above vr_base a None (m_regions t) = Some p \<and> found_not_above a p (m_regions t))"
    using find_not_above_result t unfolding tree_ok_def by blast
  then show ?thesis
  proof (elim disjE conjE exE)
    fix p assume p: "find_not_above vr_base a None (m_regions t) = Some p" "found_not_above a p (m_regions t)"
    have "r = p" if "r \<in> set (m_regions t)" "vr_base r \<le> a" "a < upper r"
      using p(2) that unfolding found_not_above_def by (meson le_trans linorder_not_less)
    then show ?thesis using p c by (auto simp: find_region_containing_address_def found_not_above_def)
  qed (auto simp: find_region_containing_address_def)
qed


theorem find_region_exact_witness: "find_region_containing_address example_tree 80000 = Some example_high"
proof -
  have "upper example_total < size_limit" by (simp add: example_total_def)
  then show ?thesis using find_region_exact [OF example_tree_reach, of 80000 example_high] by (simp add: example_tree_simps)
qed

end
