(* ===== verification/Fifo.thy ===== *)
theory Fifo
  imports Prelude
begin

text \<open>
  The contract of a buffer that several components of the system share: what is written is read back, in order and once. A write
  may take only the beginning of the data, and a read may return less than was asked for, but not nothing.
\<close>

datatype 'a fifo_call = PutCall "'a list" | GetCall nat

text \<open>A sequence of calls: the buffer after it, what the writes took and what the reads returned.\<close>
fun fifo_run :: "('b \<Rightarrow> 'a list \<Rightarrow> 'b \<times> nat) \<Rightarrow> ('b \<Rightarrow> nat \<Rightarrow> 'b \<times> 'a list) \<Rightarrow> 'b \<Rightarrow> 'a fifo_call list \<Rightarrow> 'b \<times> 'a list \<times> 'a list" where
  "fifo_run put get b [] = (b, [], [])"
| "fifo_run put get b (PutCall xs # cs) =
     (let (b1, n) = put b xs; (b2, taken, got) = fifo_run put get b1 cs in (b2, take n xs @ taken, got))"
| "fifo_run put get b (GetCall k # cs) =
     (let (b1, ys) = get b k; (b2, taken, got) = fifo_run put get b1 cs in (b2, taken, ys @ got))"

text \<open>Reading again and again.\<close>
fun fifo_drain :: "('b \<Rightarrow> nat \<Rightarrow> 'b \<times> 'a list) \<Rightarrow> nat \<Rightarrow> 'b \<Rightarrow> nat \<Rightarrow> 'a list" where
  "fifo_drain get 0 b k = []"
| "fifo_drain get (Suc rounds) b k = (let (b', ys) = get b k in ys @ fifo_drain get rounds b' k)"

locale fifo =
  fixes fifo_ok :: "'b \<Rightarrow> bool"
    and contents :: "'b \<Rightarrow> 'a list"
    and put :: "'b \<Rightarrow> 'a list \<Rightarrow> 'b \<times> nat"
    and get :: "'b \<Rightarrow> nat \<Rightarrow> 'b \<times> 'a list"
  assumes put_ok: "fifo_ok b \<Longrightarrow> put b xs = (b', n) \<Longrightarrow> fifo_ok b' \<and> n \<le> length xs \<and> contents b' = contents b @ take n xs"
    and get_ok: "fifo_ok b \<Longrightarrow> get b k = (b', ys) \<Longrightarrow> fifo_ok b' \<and> contents b = ys @ contents b' \<and> length ys \<le> k"
    and get_progress: "fifo_ok b \<Longrightarrow> get b k = (b', ys) \<Longrightarrow> 0 < k \<Longrightarrow> contents b \<noteq> [] \<Longrightarrow> ys \<noteq> []"
begin

lemma run_in_order:
  "fifo_ok b \<Longrightarrow> fifo_run put get b cs = (b', taken, got) \<Longrightarrow> fifo_ok b' \<and> contents b @ taken = got @ contents b'"
proof (induction cs arbitrary: b b' taken got)
  case (Cons c cs)
  show ?case
  proof (cases c)
    case (PutCall xs)
    obtain b1 n where w: "put b xs = (b1, n)" by (cases "put b xs")
    obtain b2 taken2 got2 where r: "fifo_run put get b1 cs = (b2, taken2, got2)" by (cases "fifo_run put get b1 cs") auto
    have "fifo_ok b1" "contents b1 = contents b @ take n xs" using put_ok [OF Cons.prems(1) w] by simp_all
    then show ?thesis using Cons.IH [OF _ r] Cons.prems(2) PutCall w r by simp
  next
    case (GetCall k)
    obtain b1 ys where w: "get b k = (b1, ys)" by (cases "get b k")
    obtain b2 taken2 got2 where r: "fifo_run put get b1 cs = (b2, taken2, got2)" by (cases "fifo_run put get b1 cs") auto
    have "fifo_ok b1" "contents b = ys @ contents b1" using get_ok [OF Cons.prems(1) w] by simp_all
    then show ?thesis using Cons.IH [OF _ r] Cons.prems(2) GetCall w r by simp
  qed
qed simp

lemma drain_all: "fifo_ok b \<Longrightarrow> 0 < k \<Longrightarrow> length (contents b) \<le> rounds \<Longrightarrow> fifo_drain get rounds b k = contents b"
proof (induction rounds arbitrary: b)
  case (Suc rounds)
  obtain b' ys where r: "get b k = (b', ys)" by (cases "get b k")
  note ok = get_ok [OF Suc.prems(1) r]
  have "length (contents b') \<le> rounds"
  proof (cases "contents b = []")
    case False
    then have "0 < length ys" using get_progress [OF Suc.prems(1) r Suc.prems(2)] by simp
    moreover have "length (contents b) = length ys + length (contents b')" using ok by simp
    ultimately show ?thesis using Suc.prems(3) by linarith
  qed (use ok in simp)
  then show ?case using Suc.IH [of b'] ok r Suc.prems(2) by simp
qed simp

end

end
