(* ===== verification/Double_Buffer.thy ===== *)
theory Double_Buffer
  imports Fifo Bits "HOL-Library.Sublist"
begin

text \<open>
  \<^verbatim>\<open>Kernel/Library/DoubleBuffer\<close>: a buffer of bytes with two halves, one that is written and one that is read, which change places
  when the reader has used up its half. The halves are parts of one storage, given by where they start; the pointers to the half to write
  and the half to read are a flag. Copying from or to user memory may fail, which is an argument; the callback that
  wakes waiting threads is left out.
\<close>

record inner_buffer =
  ib_data :: nat
  ib_size :: nat

record double_buffer =
  m_write_is_first :: bool
  m_buffer1 :: inner_buffer
  m_buffer2 :: inner_buffer
  m_storage :: "u8 list"
  m_capacity :: nat
  m_read_buffer_index :: nat
  m_space_for_writing :: nat
  m_empty :: bool

definition write_buffer :: "double_buffer \<Rightarrow> inner_buffer" where
  "write_buffer b = (if m_write_is_first b then m_buffer1 b else m_buffer2 b)"

definition read_buffer :: "double_buffer \<Rightarrow> inner_buffer" where
  "read_buffer b = (if m_write_is_first b then m_buffer2 b else m_buffer1 b)"

definition set_write_size :: "nat \<Rightarrow> double_buffer \<Rightarrow> double_buffer" where
  "set_write_size n b =
     (if m_write_is_first b then b\<lparr>m_buffer1 := (m_buffer1 b)\<lparr>ib_size := n\<rparr>\<rparr> else b\<lparr>m_buffer2 := (m_buffer2 b)\<lparr>ib_size := n\<rparr>\<rparr>)"

definition compute_lockfree_metadata :: "double_buffer \<Rightarrow> double_buffer" where
  "compute_lockfree_metadata b =
     b\<lparr>m_empty := (m_read_buffer_index b \<ge> ib_size (read_buffer b) \<and> ib_size (write_buffer b) = 0),
       m_space_for_writing := size_sub (m_capacity b) (ib_size (write_buffer b))\<rparr>"

definition double_buffer_create :: "nat \<Rightarrow> u8 list \<Rightarrow> double_buffer" where
  "double_buffer_create capacity storage =
     \<lparr>m_write_is_first = True, m_buffer1 = \<lparr>ib_data = 0, ib_size = 0\<rparr>, m_buffer2 = \<lparr>ib_data = capacity, ib_size = 0\<rparr>,
      m_storage = storage, m_capacity = capacity, m_read_buffer_index = 0, m_space_for_writing = capacity, m_empty = True\<rparr>"

text \<open>The memory for the two halves is zeroed by the kernel; without memory there is no buffer.\<close>
definition double_buffer_try_create :: "bool \<Rightarrow> nat \<Rightarrow> double_buffer result" where
  "double_buffer_try_create memory capacity =
     (if \<not> memory then Inl (Err ENOMEM) else Inr (double_buffer_create capacity (replicate (size_mul capacity 2) 0)))"

definition flip :: "double_buffer \<Rightarrow> double_buffer result" where
  "flip b =
     (if m_read_buffer_index b \<noteq> ib_size (read_buffer b) then Inl VerifyFailed
      else
        let b1 = b\<lparr>m_write_is_first := \<not> m_write_is_first b\<rparr>;
            b2 = (set_write_size 0 b1)\<lparr>m_read_buffer_index := 0\<rparr>
        in Inr (compute_lockfree_metadata b2))"

text \<open>Bytes copied into the storage, if they fit.\<close>
definition copy_in :: "u8 list \<Rightarrow> nat \<Rightarrow> u8 list \<Rightarrow> u8 list result" where
  "copy_in storage offset bytes =
     (if offset + length bytes > length storage then Inl OutOfBounds
      else Inr (take offset storage @ bytes @ drop (offset + length bytes) storage))"

definition copy_out :: "u8 list \<Rightarrow> nat \<Rightarrow> nat \<Rightarrow> u8 list result" where
  "copy_out storage offset n =
     (if offset + n > length storage then Inl OutOfBounds else Inr (take n (drop offset storage)))"

text \<open>\<open>user\<close> is the memory the data is copied from, nothing if that faults.\<close>
definition double_buffer_write :: "u8 list option \<Rightarrow> nat \<Rightarrow> double_buffer \<Rightarrow> (double_buffer \<times> nat) result" where
  "double_buffer_write user bytes b =
     (if bytes = 0 then Inr (b, 0)
      else
        let bytes_to_write = min bytes (m_space_for_writing b)
        in case user of
             None \<Rightarrow> Inl (Err EFAULT)
           | Some characters \<Rightarrow>
               bindR (copy_in (m_storage b) (ib_data (write_buffer b) + ib_size (write_buffer b)) (take bytes_to_write characters)) (\<lambda>storage.
               let b1 = set_write_size (ib_size (write_buffer b) + bytes_to_write) (b\<lparr>m_storage := storage\<rparr>)
               in Inr (compute_lockfree_metadata b1, bytes_to_write)))"

text \<open>The result has the bytes that are copied to the user, where that does not fault.\<close>
definition read_impl :: "bool \<Rightarrow> nat \<Rightarrow> bool \<Rightarrow> double_buffer \<Rightarrow> double_buffer \<times> u8 list result" where
  "read_impl user_ok bytes advance_buffer_index b =
     (if bytes = 0 then (b, Inr [])
      else
        case (if m_read_buffer_index b \<ge> ib_size (read_buffer b) \<and> ib_size (write_buffer b) \<noteq> 0 then flip b else Inr b) of
          Inl e \<Rightarrow> (b, Inl e)
        | Inr b1 \<Rightarrow>
            if m_read_buffer_index b1 \<ge> ib_size (read_buffer b1) then (b1, Inr [])
            else
              let nread = min (ib_size (read_buffer b1) - m_read_buffer_index b1) bytes
              in if \<not> user_ok then (b1, Inl (Err EFAULT))
                 else case copy_out (m_storage b1) (ib_data (read_buffer b1) + m_read_buffer_index b1) nread of
                        Inl e \<Rightarrow> (b1, Inl e)
                      | Inr characters \<Rightarrow>
                          let b2 = (if advance_buffer_index then b1\<lparr>m_read_buffer_index := m_read_buffer_index b1 + nread\<rparr> else b1)
                          in (compute_lockfree_metadata b2, Inr characters))"

definition double_buffer_read :: "bool \<Rightarrow> nat \<Rightarrow> double_buffer \<Rightarrow> double_buffer \<times> u8 list result" where
  "double_buffer_read user_ok bytes b = read_impl user_ok bytes True b"

definition double_buffer_peek :: "bool \<Rightarrow> nat \<Rightarrow> double_buffer \<Rightarrow> double_buffer \<times> u8 list result" where
  "double_buffer_peek user_ok bytes b = read_impl user_ok bytes False b"

definition immediately_readable :: "double_buffer \<Rightarrow> nat" where
  "immediately_readable b = size_add (size_sub (ib_size (read_buffer b)) (m_read_buffer_index b)) (ib_size (write_buffer b))"

section \<open>What is in the buffer\<close>

definition read_half :: "double_buffer \<Rightarrow> u8 list" where
  "read_half b = take (ib_size (read_buffer b) - m_read_buffer_index b) (drop (ib_data (read_buffer b) + m_read_buffer_index b) (m_storage b))"

definition write_half :: "double_buffer \<Rightarrow> u8 list" where
  "write_half b = take (ib_size (write_buffer b)) (drop (ib_data (write_buffer b)) (m_storage b))"

definition buffered :: "double_buffer \<Rightarrow> u8 list" where
  "buffered b = read_half b @ write_half b"

definition double_buffer_ok :: "double_buffer \<Rightarrow> bool" where
  "double_buffer_ok b \<longleftrightarrow>
     length (m_storage b) = 2 * m_capacity b \<and> 2 * m_capacity b < size_limit \<and>
     ib_data (m_buffer1 b) = 0 \<and> ib_data (m_buffer2 b) = m_capacity b \<and>
     ib_size (m_buffer1 b) \<le> m_capacity b \<and> ib_size (m_buffer2 b) \<le> m_capacity b \<and>
     m_read_buffer_index b \<le> ib_size (read_buffer b) \<and>
     m_space_for_writing b = m_capacity b - ib_size (write_buffer b) \<and>
     m_empty b = (buffered b = [])"


lemma copy_in_outside:
  assumes "copy_in storage offset bytes = Inr storage'" and "a + k \<le> offset \<or> offset + length bytes \<le> a"
  shows "take k (drop a storage') = take k (drop a storage)"
proof -
  have s: "storage' = take offset storage @ bytes @ drop (offset + length bytes) storage" and len: "offset + length bytes \<le> length storage"
    using assms(1) by (auto simp: copy_in_def split: if_splits)
  have same: "length storage' = length storage" using len by (simp add: s)
  show ?thesis
  proof (rule nth_equalityI)
    show "length (take k (drop a storage')) = length (take k (drop a storage))" using same by simp
    fix i assume "i < length (take k (drop a storage'))"
    then show "take k (drop a storage') ! i = take k (drop a storage) ! i"
      using len assms(2) by (auto simp: s nth_append)
  qed
qed

lemma copy_in_extends:
  assumes "copy_in storage (a + k) bytes = Inr storage'"
  shows "take (k + length bytes) (drop a storage') = take k (drop a storage) @ bytes \<and> length storage' = length storage"
proof -
  have s: "storage' = take (a + k) storage @ bytes @ drop (a + k + length bytes) storage" and len: "a + k + length bytes \<le> length storage"
    using assms by (auto simp: copy_in_def split: if_splits)
  have "drop a storage' = take k (drop a storage) @ bytes @ drop (a + k + length bytes) storage"
    using len by (simp add: s drop_take)
  moreover have "length (take k (drop a storage)) = k" using len by simp
  ultimately show ?thesis using len by (simp add: s)
qed

text \<open>The fields that are computed again, once the others are right.\<close>
lemma double_buffer_okI:
  assumes "length (m_storage b) = 2 * m_capacity b" and "2 * m_capacity b < size_limit"
    and "ib_data (m_buffer1 b) = 0" and "ib_data (m_buffer2 b) = m_capacity b"
    and "ib_size (m_buffer1 b) \<le> m_capacity b" and "ib_size (m_buffer2 b) \<le> m_capacity b"
    and "m_read_buffer_index b \<le> ib_size (read_buffer b)"
  shows "double_buffer_ok (compute_lockfree_metadata b) \<and> buffered (compute_lockfree_metadata b) = buffered b"
proof -
  let ?b = "compute_lockfree_metadata b"
  have same: "read_buffer ?b = read_buffer b" "write_buffer ?b = write_buffer b" "buffered ?b = buffered b"
    by (simp_all add: compute_lockfree_metadata_def read_buffer_def write_buffer_def buffered_def read_half_def write_half_def)
  have w: "ib_size (write_buffer b) \<le> m_capacity b" using assms(5,6) by (simp add: write_buffer_def)
  have sub: "size_sub (m_capacity b) (ib_size (write_buffer b)) = m_capacity b - ib_size (write_buffer b)"
    using w assms(2) by (intro size_sub_exact) auto
  have "buffered b = [] \<longleftrightarrow> m_read_buffer_index b \<ge> ib_size (read_buffer b) \<and> ib_size (write_buffer b) = 0"
    using assms unfolding buffered_def read_half_def write_half_def read_buffer_def write_buffer_def by (auto split: if_splits)
  then show ?thesis using assms same sub
    by (simp add: double_buffer_ok_def) (simp add: compute_lockfree_metadata_def)
qed


lemma flip_ok:
  assumes "double_buffer_ok b" and "m_read_buffer_index b \<ge> ib_size (read_buffer b)"
  shows "\<exists>b'. flip b = Inr b' \<and> double_buffer_ok b' \<and> buffered b' = buffered b \<and>
    m_read_buffer_index b' = 0 \<and> read_half b' = buffered b \<and> ib_size (read_buffer b') = ib_size (write_buffer b)"
proof -
  let ?b1 = "(set_write_size 0 (b\<lparr>m_write_is_first := \<not> m_write_is_first b\<rparr>))\<lparr>m_read_buffer_index := 0\<rparr>"
  have f: "flip b = Inr (compute_lockfree_metadata ?b1)"
    using assms by (simp add: flip_def Let_def double_buffer_ok_def)
  have r: "read_buffer ?b1 = write_buffer b" "ib_size (write_buffer ?b1) = 0"
    by (simp_all add: read_buffer_def write_buffer_def set_write_size_def)
  have e: "buffered b = write_half b" using assms(2) by (simp add: buffered_def read_half_def)
  have h: "read_half ?b1 = write_half b" using r by (simp add: read_half_def write_half_def) (simp add: set_write_size_def)
  have "buffered ?b1 = write_half b" using h r by (simp add: buffered_def write_half_def)
  moreover have "double_buffer_ok (compute_lockfree_metadata ?b1) \<and> buffered (compute_lockfree_metadata ?b1) = buffered ?b1"
    using assms(1) r by (intro double_buffer_okI) (simp_all add: double_buffer_ok_def set_write_size_def)
  moreover have "read_half (compute_lockfree_metadata ?b1) = read_half ?b1"
    "m_read_buffer_index (compute_lockfree_metadata ?b1) = 0" "read_buffer (compute_lockfree_metadata ?b1) = read_buffer ?b1"
    by (simp_all add: read_half_def compute_lockfree_metadata_def read_buffer_def)
  ultimately show ?thesis using f e h r by simp
qed

lemma double_buffer_write_ok:
  assumes "double_buffer_ok b" and "bytes \<le> length characters"
  shows "\<exists>b' n. double_buffer_write (Some characters) bytes b = Inr (b', n) \<and> n = min bytes (m_space_for_writing b) \<and>
    double_buffer_ok b' \<and> buffered b' = buffered b @ take n characters"
proof (cases "bytes = 0")
  case True
  then show ?thesis using assms(1) by (simp add: double_buffer_write_def)
next
  case False
  note ok = assms(1) [unfolded double_buffer_ok_def]
  let ?n = "min bytes (m_space_for_writing b)" and ?w = "write_buffer b"
  let ?o = "ib_data ?w + ib_size ?w" and ?bs = "take ?n characters"
  have len: "length ?bs = ?n" using assms(2) by simp
  have w: "ib_data ?w + m_capacity b \<le> 2 * m_capacity b" "ib_size ?w \<le> m_capacity b" "ib_size ?w + ?n \<le> m_capacity b"
    using ok by (auto simp: write_buffer_def split: if_splits)
  obtain storage where c: "copy_in (m_storage b) ?o ?bs = Inr storage"
    using w ok len by (auto simp: copy_in_def)
  let ?b1 = "set_write_size (ib_size ?w + ?n) (b\<lparr>m_storage := storage\<rparr>)"
  have r: "double_buffer_write (Some characters) bytes b = Inr (compute_lockfree_metadata ?b1, ?n)"
    using False c by (simp add: double_buffer_write_def Let_def)
  have ext: "take (ib_size ?w + ?n) (drop (ib_data ?w) storage) = write_half b @ ?bs" "length storage = length (m_storage b)"
    using copy_in_extends [OF c] len by (simp_all add: write_half_def)
  have fields: "read_buffer ?b1 = read_buffer b" "ib_data (write_buffer ?b1) = ib_data ?w" "ib_size (write_buffer ?b1) = ib_size ?w + ?n"
    "m_read_buffer_index ?b1 = m_read_buffer_index b" "m_storage ?b1 = storage"
    by (simp_all add: set_write_size_def read_buffer_def write_buffer_def)
  have "read_half ?b1 = read_half b"
    unfolding read_half_def fields
  proof (rule copy_in_outside [OF c])
    show "ib_data (read_buffer b) + m_read_buffer_index b + (ib_size (read_buffer b) - m_read_buffer_index b) \<le> ?o \<or>
        ?o + length ?bs \<le> ib_data (read_buffer b) + m_read_buffer_index b"
      using ok w(3) len by (auto simp: read_buffer_def write_buffer_def split: if_splits)
  qed
  moreover have "write_half ?b1 = write_half b @ ?bs" using ext by (simp add: write_half_def fields)
  ultimately have "buffered ?b1 = buffered b @ ?bs" by (simp add: buffered_def)
  moreover have "double_buffer_ok (compute_lockfree_metadata ?b1) \<and> buffered (compute_lockfree_metadata ?b1) = buffered ?b1"
    using ok w ext by (intro double_buffer_okI) (auto simp: set_write_size_def read_buffer_def write_buffer_def split: if_splits)
  ultimately show ?thesis using r by simp
qed


lemma read_impl_ok:
  assumes "double_buffer_ok b"
  shows "\<exists>b' ys. read_impl True bytes advance b = (b', Inr ys) \<and> double_buffer_ok b' \<and> length ys \<le> bytes \<and>
    (if advance then buffered b = ys @ buffered b' else buffered b' = buffered b \<and> prefix ys (buffered b)) \<and>
    (0 < bytes \<and> buffered b \<noteq> [] \<longrightarrow> ys \<noteq> [])"
proof (cases "bytes = 0")
  case True
  then show ?thesis using assms by (simp add: read_impl_def)
next
  case False
  let ?switch = "m_read_buffer_index b \<ge> ib_size (read_buffer b) \<and> ib_size (write_buffer b) \<noteq> 0"
  obtain b1 where b1: "(if ?switch then flip b else Inr b) = Inr b1" "double_buffer_ok b1" "buffered b1 = buffered b"
      "m_read_buffer_index b1 \<ge> ib_size (read_buffer b1) \<Longrightarrow> buffered b = []"
  proof (cases ?switch)
    case True
    then show thesis using flip_ok [OF assms] that by (metis (full_types) bot_nat_0.extremum_uniqueI)
  next
    case False
    then show thesis using that [of b] assms by (auto simp: double_buffer_ok_def buffered_def read_half_def write_half_def)
  qed
  note ok = b1(2) [unfolded double_buffer_ok_def]
  show ?thesis
  proof (cases "m_read_buffer_index b1 \<ge> ib_size (read_buffer b1)")
    case True
    then have "read_impl True bytes advance b = (b1, Inr [])" using False b1(1) by (simp add: read_impl_def)
    then show ?thesis using b1(2,3) b1(4) [OF True] by simp
  next
    case more: False
    let ?n = "min (ib_size (read_buffer b1) - m_read_buffer_index b1) bytes"
    let ?b2 = "if advance then b1\<lparr>m_read_buffer_index := m_read_buffer_index b1 + ?n\<rparr> else b1"
    have room: "ib_data (read_buffer b1) + ib_size (read_buffer b1) \<le> length (m_storage b1)"
      using ok by (auto simp: read_buffer_def split: if_splits)
    have out: "copy_out (m_storage b1) (ib_data (read_buffer b1) + m_read_buffer_index b1) ?n = Inr (take ?n (read_half b1))"
      using room more by (auto simp: copy_out_def read_half_def min_def)
    have r: "read_impl True bytes advance b = (compute_lockfree_metadata ?b2, Inr (take ?n (read_half b1)))"
      using False more b1(1) out by (simp add: read_impl_def Let_def)
    have b2: "double_buffer_ok (compute_lockfree_metadata ?b2) \<and> buffered (compute_lockfree_metadata ?b2) = buffered ?b2"
      using ok more by (intro double_buffer_okI) (auto simp: read_buffer_def split: if_splits)
    have half: "length (read_half b1) = ib_size (read_buffer b1) - m_read_buffer_index b1" using room by (simp add: read_half_def)
    have wh: "write_half (b1\<lparr>m_read_buffer_index := m_read_buffer_index b1 + ?n\<rparr>) = write_half b1"
      by (simp add: write_half_def write_buffer_def)
    have rh: "read_half (b1\<lparr>m_read_buffer_index := m_read_buffer_index b1 + ?n\<rparr>) = drop ?n (read_half b1)"
      by (simp add: read_half_def read_buffer_def drop_take ac_simps)
    have split: "buffered b = (take ?n (read_half b1) @ drop ?n (read_half b1)) @ write_half b1"
      using b1(3) unfolding buffered_def by (simp only: append_take_drop_id)
    then have adv: "buffered b = take ?n (read_half b1) @ buffered ?b2" if advance
      using that rh wh by (simp add: buffered_def)
    have stay: "buffered ?b2 = buffered b \<and> prefix (take ?n (read_half b1)) (buffered b)" if "\<not> advance"
      using that b1(3) by (simp add: split [unfolded append_assoc] prefixI [OF refl])
    have "take ?n (read_half b1) \<noteq> []" using half more False by auto
    moreover have "length (take ?n (read_half b1)) \<le> bytes" by simp
    ultimately show ?thesis using r b2 adv stay by (cases advance) simp_all
  qed
qed


section \<open>A queue of bytes\<close>

text \<open>Writing all of a list, and reading, without faults.\<close>
definition db_put :: "double_buffer \<Rightarrow> u8 list \<Rightarrow> double_buffer \<times> nat" where
  "db_put b xs = (case double_buffer_write (Some xs) (length xs) b of Inl _ \<Rightarrow> (b, 0) | Inr (b', n) \<Rightarrow> (b', n))"

definition db_get :: "double_buffer \<Rightarrow> nat \<Rightarrow> double_buffer \<times> u8 list" where
  "db_get b k = (case double_buffer_read True k b of (b', Inl _) \<Rightarrow> (b', []) | (b', Inr ys) \<Rightarrow> (b', ys))"

interpretation byte_queue: fifo double_buffer_ok buffered db_put db_get
proof
  fix b xs b' n assume b: "double_buffer_ok b" and p: "db_put b xs = (b', n)"
  obtain b1 m where w: "double_buffer_write (Some xs) (length xs) b = Inr (b1, m)" "m = min (length xs) (m_space_for_writing b)"
      "double_buffer_ok b1" "buffered b1 = buffered b @ take m xs"
    using double_buffer_write_ok [OF b, of "length xs" xs] by auto
  have "b' = b1" "n = m" using p w(1) by (simp_all add: db_put_def)
  then show "double_buffer_ok b' \<and> n \<le> length xs \<and> buffered b' = buffered b @ take n xs" using w by simp
next
  fix b k b' ys assume b: "double_buffer_ok b" and p: "db_get b k = (b', ys)"
  obtain b1 zs where r: "read_impl True k True b = (b1, Inr zs)" "double_buffer_ok b1" "length zs \<le> k" "buffered b = zs @ buffered b1"
      "0 < k \<and> buffered b \<noteq> [] \<longrightarrow> zs \<noteq> []"
    using read_impl_ok [OF b, of k True] by auto
  have e: "b' = b1" "ys = zs" using p r(1) by (simp_all add: db_get_def double_buffer_read_def)
  then show "double_buffer_ok b' \<and> buffered b = ys @ buffered b' \<and> length ys \<le> k" using r by simp
  show "0 < k \<Longrightarrow> buffered b \<noteq> [] \<Longrightarrow> ys \<noteq> []" using r(5) e by simp
qed

lemma double_buffer_create_ok:
  assumes "2 * capacity < size_limit" and "length storage = 2 * capacity"
  shows "double_buffer_ok (double_buffer_create capacity storage) \<and> buffered (double_buffer_create capacity storage) = []"
  using assms by (simp add: double_buffer_ok_def double_buffer_create_def buffered_def read_half_def write_half_def read_buffer_def write_buffer_def)

text \<open>
  C16: A new double buffer is a queue: after any sequence of writes and reads, what the reads returned followed by what is still in the buffer is
  what the writes took, in order; and reading on returns all the rest.
\<close>
theorem double_buffer_is_queue:
  assumes "2 * capacity < size_limit" and "double_buffer_try_create True capacity = Inr b0"
    and "fifo_run db_put db_get b0 calls = (b, taken, got)" and "0 < k"
  shows "taken = got @ buffered b \<and> fifo_drain db_get (length (buffered b)) b k = buffered b"
proof -
  have "size_mul capacity 2 = 2 * capacity" using assms(1) by (simp add: size_mul_def)
  then have b0: "double_buffer_ok b0" "buffered b0 = []"
    using double_buffer_create_ok [OF assms(1)] assms(2) by (auto simp: double_buffer_try_create_def)
  have b: "double_buffer_ok b" "buffered b0 @ taken = got @ buffered b"
    using byte_queue.run_in_order [OF b0(1) assms(3)] by simp_all
  then show ?thesis using byte_queue.drain_all [OF b(1) assms(4) order_refl] b0(2) by simp
qed

theorem double_buffer_is_queue_witness:
  "case fifo_run db_put db_get (double_buffer_create 2 [0, 0, 0, 0]) [PutCall [1, 2, 3], GetCall 1, PutCall [4]] of
     (b, taken, got) \<Rightarrow> taken = got @ buffered b"
proof -
  have "size_mul 2 2 = 4" by (simp add: size_mul_def)
  moreover have "replicate 4 (0 :: u8) = [0, 0, 0, 0]" by (simp add: numeral_eq_Suc)
  ultimately have "double_buffer_try_create True 2 = Inr (double_buffer_create 2 [0, 0, 0, 0])"
    by (simp add: double_buffer_try_create_def)
  then show ?thesis
    using double_buffer_is_queue [of 2 "double_buffer_create 2 [0, 0, 0, 0]" "[PutCall [1, 2, 3], GetCall 1, PutCall [4]]" _ _ _ 1]
    by (simp split: prod.split)
qed

text \<open>
  No call on a double buffer fails a check or touches memory outside of the storage: in every state that calls lead to, a write takes as much as there is
  space for, a read and a peek return, and a peek returns the beginning of what the buffer holds without removing it.
\<close>
theorem double_buffer_calls_return:
  assumes "double_buffer_ok b" and "bytes \<le> length characters"
  shows "\<exists>b1 b2 b3 got seen. double_buffer_write (Some characters) bytes b = Inr (b1, min bytes (m_space_for_writing b)) \<and>
    buffered b1 = buffered b @ take (min bytes (m_space_for_writing b)) characters \<and>
    double_buffer_read True n b = (b2, Inr got) \<and> buffered b = got @ buffered b2 \<and>
    double_buffer_peek True n b = (b3, Inr seen) \<and> prefix seen (buffered b) \<and> buffered b3 = buffered b \<and>
    double_buffer_ok b1 \<and> double_buffer_ok b2 \<and> double_buffer_ok b3"
proof -
  obtain b1 where w: "double_buffer_write (Some characters) bytes b = Inr (b1, min bytes (m_space_for_writing b))" "double_buffer_ok b1"
      "buffered b1 = buffered b @ take (min bytes (m_space_for_writing b)) characters"
    using double_buffer_write_ok [OF assms] by auto
  obtain b2 got where r: "double_buffer_read True n b = (b2, Inr got)" "double_buffer_ok b2" "buffered b = got @ buffered b2"
    using read_impl_ok [OF assms(1), of n True] by (auto simp: double_buffer_read_def)
  obtain b3 seen where p: "double_buffer_peek True n b = (b3, Inr seen)" "double_buffer_ok b3" "prefix seen (buffered b)" "buffered b3 = buffered b"
    using read_impl_ok [OF assms(1), of n False] by (auto simp: double_buffer_peek_def)
  show ?thesis by (intro exI [of _ b1] exI [of _ b2] exI [of _ b3] exI [of _ got] exI [of _ seen] conjI; fact w r p)
qed


theorem double_buffer_calls_return_witness:
  "\<exists>b1. double_buffer_write (Some [7, 8]) 2 (double_buffer_create 2 [0, 0, 0, 0]) = Inr (b1, 2) \<and> buffered b1 = [7, 8]"
proof -
  have "double_buffer_ok (double_buffer_create 2 [0, 0, 0, 0])" "buffered (double_buffer_create 2 [0, 0, 0, 0]) = []"
    using double_buffer_create_ok [of 2 "[0, 0, 0, 0]"] by simp_all
  moreover have "m_space_for_writing (double_buffer_create 2 [0, 0, 0, 0]) = 2" by (simp add: double_buffer_create_def)
  ultimately show ?thesis using double_buffer_calls_return [of _ 2 "[7, 8]"] by fastforce
qed

end
