(* ===== verification/Inode_Metadata.thy ===== *)
theory Inode_Metadata
  imports Credentials
begin

unbundle bit_operations_syntax

text \<open>
  \<^verbatim>\<open>Kernel/FileSystem/InodeMetadata\<close>: device numbers, the type and the permissions in the mode of a file, who may access it, and
  \<^verbatim>\<open>stat\<close>. The mode has 16 bits and its constants are octal in the code. Times are taken over unchanged, as a value of any type.
\<close>

section \<open>Device numbers\<close>

definition encoded_device :: "u32 \<Rightarrow> u32 \<Rightarrow> u64" where
  "encoded_device major minor = ucast ((minor AND 0xff) OR push_bit 8 major OR push_bit 12 (minor AND NOT 0xff))"

definition major_from_encoded_device :: "u64 \<Rightarrow> u32" where
  "major_from_encoded_device dev = ucast (drop_bit 8 (dev AND 0xfff00))"

definition minor_from_encoded_device :: "u64 \<Rightarrow> u32" where
  "minor_from_encoded_device dev = ucast ((dev AND 0xff) OR (drop_bit 12 dev AND 0xfff00))"

section \<open>The mode\<close>

type_synonym mode_t = "16 word"

definition S_IFMT :: mode_t where "S_IFMT = 0xF000"
definition S_IFDIR :: mode_t where "S_IFDIR = 0x4000"
definition S_IFCHR :: mode_t where "S_IFCHR = 0x2000"
definition S_IFBLK :: mode_t where "S_IFBLK = 0x6000"
definition S_IFREG :: mode_t where "S_IFREG = 0x8000"
definition S_IFIFO :: mode_t where "S_IFIFO = 0x1000"
definition S_IFLNK :: mode_t where "S_IFLNK = 0xA000"
definition S_IFSOCK :: mode_t where "S_IFSOCK = 0xC000"
definition S_ISUID :: mode_t where "S_ISUID = 2048"
definition S_ISGID :: mode_t where "S_ISGID = 1024"
definition S_ISVTX :: mode_t where "S_ISVTX = 512"
definition S_IRUSR :: mode_t where "S_IRUSR = 256"
definition S_IWUSR :: mode_t where "S_IWUSR = 128"
definition S_IXUSR :: mode_t where "S_IXUSR = 64"
definition S_IRGRP :: mode_t where "S_IRGRP = 32"
definition S_IWGRP :: mode_t where "S_IWGRP = 16"
definition S_IXGRP :: mode_t where "S_IXGRP = 8"
definition S_IROTH :: mode_t where "S_IROTH = 4"
definition S_IWOTH :: mode_t where "S_IWOTH = 2"
definition S_IXOTH :: mode_t where "S_IXOTH = 1"

definition is_directory :: "mode_t \<Rightarrow> bool" where "is_directory mode \<longleftrightarrow> mode AND S_IFMT = S_IFDIR"
definition is_character_device :: "mode_t \<Rightarrow> bool" where "is_character_device mode \<longleftrightarrow> mode AND S_IFMT = S_IFCHR"
definition is_block_device :: "mode_t \<Rightarrow> bool" where "is_block_device mode \<longleftrightarrow> mode AND S_IFMT = S_IFBLK"
definition is_regular_file :: "mode_t \<Rightarrow> bool" where "is_regular_file mode \<longleftrightarrow> mode AND S_IFMT = S_IFREG"
definition is_fifo :: "mode_t \<Rightarrow> bool" where "is_fifo mode \<longleftrightarrow> mode AND S_IFMT = S_IFIFO"
definition is_symlink :: "mode_t \<Rightarrow> bool" where "is_symlink mode \<longleftrightarrow> mode AND S_IFMT = S_IFLNK"
definition is_socket :: "mode_t \<Rightarrow> bool" where "is_socket mode \<longleftrightarrow> mode AND S_IFMT = S_IFSOCK"
definition is_sticky :: "mode_t \<Rightarrow> bool" where "is_sticky mode \<longleftrightarrow> mode AND S_ISVTX = S_ISVTX"
definition is_setuid :: "mode_t \<Rightarrow> bool" where "is_setuid mode \<longleftrightarrow> mode AND S_ISUID = S_ISUID"
definition is_setgid :: "mode_t \<Rightarrow> bool" where "is_setgid mode \<longleftrightarrow> mode AND S_ISGID = S_ISGID"

section \<open>Metadata\<close>

record inode_identifier =
  m_fsid :: u32
  m_index :: u64

record 't inode_metadata =
  im_inode :: inode_identifier
  im_size :: "64 word"
  im_mode :: mode_t
  im_uid :: u32
  im_gid :: u32
  im_link_count :: u64
  im_atime :: 't
  im_ctime :: 't
  im_mtime :: 't
  im_dtime :: 't
  im_block_count :: u64
  im_block_size :: u64
  im_major_device :: u32
  im_minor_device :: u32

record 't stat_buffer =
  st_dev :: u64
  st_ino :: u64
  st_mode :: mode_t
  st_nlink :: u64
  st_uid :: u32
  st_gid :: u32
  st_rdev :: u64
  st_size :: "64 word"
  st_blksize :: u64
  st_blocks :: u64
  st_atim :: 't
  st_mtim :: 't
  st_ctim :: 't

definition is_valid_inode :: "inode_identifier \<Rightarrow> bool" where
  "is_valid_inode i \<longleftrightarrow> m_fsid i \<noteq> 0 \<and> m_index i \<noteq> 0"

definition may_read_ids :: "'t inode_metadata \<Rightarrow> u32 \<Rightarrow> u32 \<Rightarrow> u32 list \<Rightarrow> bool" where
  "may_read_ids m u g eg =
     (if u = 0 then True
      else if im_uid m = u then im_mode m AND S_IRUSR = S_IRUSR
      else if im_gid m = g \<or> im_gid m \<in> set eg then im_mode m AND S_IRGRP = S_IRGRP
      else im_mode m AND S_IROTH = S_IROTH)"

definition may_write_ids :: "'t inode_metadata \<Rightarrow> u32 \<Rightarrow> u32 \<Rightarrow> u32 list \<Rightarrow> bool" where
  "may_write_ids m u g eg =
     (if u = 0 then True
      else if im_uid m = u then im_mode m AND S_IWUSR = S_IWUSR
      else if im_gid m = g \<or> im_gid m \<in> set eg then im_mode m AND S_IWGRP = S_IWGRP
      else im_mode m AND S_IWOTH = S_IWOTH)"

definition may_execute_ids :: "'t inode_metadata \<Rightarrow> u32 \<Rightarrow> u32 \<Rightarrow> u32 list \<Rightarrow> bool" where
  "may_execute_ids m u g eg =
     (if u = 0 then True
      else if im_uid m = u then im_mode m AND S_IXUSR = S_IXUSR
      else if im_gid m = g \<or> im_gid m \<in> set eg then im_mode m AND S_IXGRP = S_IXGRP
      else im_mode m AND S_IXOTH = S_IXOTH)"

definition may_read :: "'t inode_metadata \<Rightarrow> credentials \<Rightarrow> bool \<Rightarrow> bool" where
  "may_read m c eids = may_read_ids m (if eids then m_euid c else m_uid c) (if eids then m_egid c else m_gid c) (m_extra_gids c)"

definition may_write :: "'t inode_metadata \<Rightarrow> credentials \<Rightarrow> bool \<Rightarrow> bool" where
  "may_write m c eids = may_write_ids m (if eids then m_euid c else m_uid c) (if eids then m_egid c else m_gid c) (m_extra_gids c)"

definition may_execute :: "'t inode_metadata \<Rightarrow> credentials \<Rightarrow> bool \<Rightarrow> bool" where
  "may_execute m c eids = may_execute_ids m (if eids then m_euid c else m_uid c) (if eids then m_egid c else m_gid c) (m_extra_gids c)"

definition is_device :: "'t inode_metadata \<Rightarrow> bool" where
  "is_device m \<longleftrightarrow> is_character_device (im_mode m) \<or> is_block_device (im_mode m)"

definition inode_stat :: "'t inode_metadata \<Rightarrow> 't stat_buffer result" where
  "inode_stat m =
     (if \<not> is_valid_inode (im_inode m) then Inl (Err EIO)
      else Inr \<lparr>st_dev = ucast (m_fsid (im_inode m)), st_ino = m_index (im_inode m), st_mode = im_mode m,
        st_nlink = im_link_count m, st_uid = im_uid m, st_gid = im_gid m,
        st_rdev = encoded_device (im_major_device m) (im_minor_device m), st_size = im_size m, st_blksize = im_block_size m,
        st_blocks = im_block_count m, st_atim = im_atime m, st_mtim = im_mtime m, st_ctim = im_ctime m\<rparr>)"

section \<open>Properties\<close>

lemma bit_below:
  assumes "bit (w :: u32) n" and "unat w < 2 ^ k"
  shows "n < k"
proof (rule ccontr)
  assume "\<not> n < k"
  then have "2 ^ k \<le> (2 :: nat) ^ n" by simp
  then have "unat w < 2 ^ n" using assms(2) by (rule order_less_le_trans [rotated])
  then have "\<not> bit (unat w) n" by (simp add: bit_iff_odd)
  then show False using assms(1) by (simp add: bit_unsigned_iff)
qed

lemma device_masks:
  "(0xff :: u32) = mask 8" "(0xff :: u64) = mask 8" "(0xfff00 :: u64) = push_bit 8 (mask 12)"
  by (simp_all add: mask_eq_exp_minus_1 push_bit_eq_mult)

lemma encoded_device_bits:
  assumes "unat major < 2 ^ 12" and "unat minor < 2 ^ 20"
  shows "bit (encoded_device major minor) n \<longleftrightarrow>
    (if n < 8 then bit minor n else if n < 20 then bit major (n - 8) else n < 32 \<and> bit minor (n - 12))"
  using bit_below [OF _ assms(1), of "n - 8"] bit_below [OF _ assms(2), of "n - 12"] bit_below [OF _ assms(2), of n]
  by (auto simp: encoded_device_def device_masks bit_simps not_less)

lemma device_decode:
  assumes "unat major < 2 ^ 12" and "unat minor < 2 ^ 20"
  shows "major_from_encoded_device (encoded_device major minor) = major"
    and "minor_from_encoded_device (encoded_device major minor) = minor"
proof -
  note bits = encoded_device_bits [OF assms]
  show "major_from_encoded_device (encoded_device major minor) = major"
  proof (rule bit_word_eqI)
    fix n assume "n < LENGTH(32)"
    then show "bit (major_from_encoded_device (encoded_device major minor)) n \<longleftrightarrow> bit major n"
      using bit_below [OF _ assms(1), of n] by (auto simp: major_from_encoded_device_def device_masks bit_simps bits)
  qed
  show "minor_from_encoded_device (encoded_device major minor) = minor"
  proof (rule bit_word_eqI)
    fix n assume "n < LENGTH(32)"
    then show "bit (minor_from_encoded_device (encoded_device major minor)) n \<longleftrightarrow> bit minor n"
      using bit_below [OF _ assms(2), of n] by (auto simp: minor_from_encoded_device_def device_masks bit_simps bits)
  qed
qed

text \<open>
  Device numbers survive being encoded: a major number of up to 12 bits and a minor number of up to 20 bits are read back from the device
  number that \<^verbatim>\<open>stat\<close> reports.
\<close>
theorem device_round_trip:
  assumes "inode_stat m = Inr s" and "im_major_device m < 2 ^ 12" and "im_minor_device m < 2 ^ 20"
  shows "major_from_encoded_device (st_rdev s) = im_major_device m \<and> minor_from_encoded_device (st_rdev s) = im_minor_device m"
  using assms(1) device_decode [of "im_major_device m" "im_minor_device m"] assms(2,3)
  by (auto simp: inode_stat_def word_less_nat_alt split: if_splits)

definition example_metadata :: "nat inode_metadata" where
  "example_metadata = \<lparr>im_inode = \<lparr>m_fsid = 1, m_index = 5\<rparr>, im_size = 0, im_mode = 0x2184, im_uid = 100, im_gid = 10, im_link_count = 1,
     im_atime = 0, im_ctime = 0, im_mtime = 0, im_dtime = 0, im_block_count = 0, im_block_size = 512, im_major_device = 4, im_minor_device = 300\<rparr>"

theorem device_round_trip_witness:
  "minor_from_encoded_device (encoded_device 4 300) = 300"
proof -
  obtain s where s: "inode_stat example_metadata = Inr s" "st_rdev s = encoded_device 4 300"
    by (simp add: inode_stat_def is_valid_inode_def example_metadata_def)
  have "im_major_device example_metadata < 2 ^ 12" "im_minor_device example_metadata < 2 ^ 20" by (simp_all add: example_metadata_def)
  then show ?thesis using device_round_trip [OF s(1)] s(2) by (simp add: example_metadata_def)
qed

text \<open>The class a user belongs to, and the three bits of the mode for it.\<close>
datatype user_class = Owner | Group | Other

definition class_of :: "'t inode_metadata \<Rightarrow> u32 \<Rightarrow> u32 \<Rightarrow> u32 list \<Rightarrow> user_class" where
  "class_of m u g eg = (if im_uid m = u then Owner else if g = im_gid m \<or> im_gid m \<in> set eg then Group else Other)"

fun class_shift :: "user_class \<Rightarrow> nat" where
  "class_shift Owner = 6"
| "class_shift Group = 3"
| "class_shift Other = 0"

lemma mask_one_bit: "w AND 2 ^ n = 2 ^ n \<longleftrightarrow> bit (w :: mode_t) n" if "n < 16"
  using that by (subst bit_eq_iff) (auto simp: bit_simps)

lemma mode_bits:
  "m AND S_IRUSR = S_IRUSR \<longleftrightarrow> bit m 8" "m AND S_IWUSR = S_IWUSR \<longleftrightarrow> bit m 7" "m AND S_IXUSR = S_IXUSR \<longleftrightarrow> bit m 6"
  "m AND S_IRGRP = S_IRGRP \<longleftrightarrow> bit m 5" "m AND S_IWGRP = S_IWGRP \<longleftrightarrow> bit m 4" "m AND S_IXGRP = S_IXGRP \<longleftrightarrow> bit m 3"
  "m AND S_IROTH = S_IROTH \<longleftrightarrow> bit m 2" "m AND S_IWOTH = S_IWOTH \<longleftrightarrow> bit m 1" "m AND S_IXOTH = S_IXOTH \<longleftrightarrow> bit m 0"
  using mask_one_bit [of 8 m] mask_one_bit [of 7 m] mask_one_bit [of 6 m] mask_one_bit [of 5 m] mask_one_bit [of 4 m]
    mask_one_bit [of 3 m] mask_one_bit [of 2 m] mask_one_bit [of 1 m] mask_one_bit [of 0 m]
  by (simp_all add: S_IRUSR_def S_IWUSR_def S_IXUSR_def S_IRGRP_def S_IWGRP_def S_IXGRP_def S_IROTH_def S_IWOTH_def S_IXOTH_def)

lemma access_by_class_ids:
  assumes "u \<noteq> 0" and "k = class_shift (class_of m u g eg)"
  shows "may_read_ids m u g eg \<longleftrightarrow> bit (im_mode m) (k + 2)" and "may_write_ids m u g eg \<longleftrightarrow> bit (im_mode m) (k + 1)"
    and "may_execute_ids m u g eg \<longleftrightarrow> bit (im_mode m) k"
  using assms(1) unfolding assms(2) may_read_ids_def may_write_ids_def may_execute_ids_def mode_bits class_of_def by (auto simp flip: numeral_2_eq_2)

text \<open>
  C38: Access to a file is decided by one class of its mode alone: for a user other than the superuser the read, write and execute bits of the
  class the user belongs to, owner before group before others, are what may be done.
\<close>
theorem access_by_class:
  assumes "(if eids then m_euid c else m_uid c) \<noteq> 0"
    and "k = class_shift (class_of m (if eids then m_euid c else m_uid c) (if eids then m_egid c else m_gid c) (m_extra_gids c))"
  shows "(may_read m c eids \<longleftrightarrow> bit (im_mode m) (k + 2)) \<and> (may_write m c eids \<longleftrightarrow> bit (im_mode m) (k + 1)) \<and>
    (may_execute m c eids \<longleftrightarrow> bit (im_mode m) k)"
  using access_by_class_ids [OF assms] by (simp only: may_read_def may_write_def may_execute_def)

theorem access_by_class_witness:
  "may_read example_metadata \<lparr>m_uid = 5, m_gid = 10, m_euid = 5, m_egid = 10, m_suid = 5, m_sgid = 10, m_extra_gids = [], m_sid = 0, m_pgid = 0\<rparr> True =
   bit (0x2184 :: mode_t) 5"
  using access_by_class [of True "\<lparr>m_uid = 5, m_gid = 10, m_euid = 5, m_egid = 10, m_suid = 5, m_sgid = 10, m_extra_gids = [], m_sid = 0, m_pgid = 0\<rparr>"
    3 example_metadata]
  by (simp add: class_of_def example_metadata_def)

end
