(* ===== verification/Red_Black_Tree.thy ===== *)
theory Red_Black_Tree
  imports Prelude
begin

text \<open>
  \<^verbatim>\<open>AK/RedBlackTree.h\<close>: the nodes of the tree are a store from addresses to nodes, with 0 for the null pointer, and the operations follow and change
  the pointers as the code does. Following a null pointer is the error \<open>OutOfBounds\<close>. Loops have fuel, and the error \<open>NeverReturns\<close> if it
  is not enough; the operations give them the number of nodes of the tree.
\<close>

type_synonym addr = nat

datatype color = Red | Black

record 'k rb_node =
  left_child :: addr
  right_child :: addr
  parent :: addr
  color :: color
  key :: 'k

type_synonym 'k rb_nodes = "addr \<Rightarrow> 'k rb_node"

record 'k rb_tree =
  nodes :: "'k rb_nodes"
  m_root :: addr
  m_size :: nat
  m_minimum :: addr

definition empty_tree :: "'k rb_nodes \<Rightarrow> 'k rb_tree" where
  "empty_tree n = \<lparr>nodes = n, m_root = 0, m_size = 0, m_minimum = 0\<rparr>"

definition new_node :: "'k \<Rightarrow> 'k rb_node" where
  "new_node k = \<lparr>left_child = 0, right_child = 0, parent = 0, color = Red, key = k\<rparr>"

section \<open>Changing a node\<close>

definition set_left :: "addr \<Rightarrow> addr \<Rightarrow> 'k rb_nodes \<Rightarrow> 'k rb_nodes" where
  "set_left p x n = n(p := (n p)\<lparr>left_child := x\<rparr>)"

definition set_right :: "addr \<Rightarrow> addr \<Rightarrow> 'k rb_nodes \<Rightarrow> 'k rb_nodes" where
  "set_right p x n = n(p := (n p)\<lparr>right_child := x\<rparr>)"

definition set_parent :: "addr \<Rightarrow> addr \<Rightarrow> 'k rb_nodes \<Rightarrow> 'k rb_nodes" where
  "set_parent p x n = n(p := (n p)\<lparr>parent := x\<rparr>)"

definition set_color :: "addr \<Rightarrow> color \<Rightarrow> 'k rb_nodes \<Rightarrow> 'k rb_nodes" where
  "set_color p c n = n(p := (n p)\<lparr>color := c\<rparr>)"

section \<open>Rotations\<close>

definition rotate_left :: "addr \<Rightarrow> 'k rb_tree \<Rightarrow> 'k rb_tree result" where
  "rotate_left subtree_root t =
     (if subtree_root = 0 then Inl VerifyFailed
      else
        let pivot = right_child (nodes t subtree_root)
        in if pivot = 0 then Inl VerifyFailed
           else
             let up = parent (nodes t subtree_root);
                 n1 = set_right subtree_root (left_child (nodes t pivot)) (nodes t);
                 n2 = (if right_child (n1 subtree_root) \<noteq> 0 then set_parent (right_child (n1 subtree_root)) subtree_root n1 else n1);
                 n3 = set_parent subtree_root pivot (set_left pivot subtree_root n2);
                 n4 = set_parent pivot up n3
             in if up = 0 then Inr (t\<lparr>nodes := n4, m_root := pivot\<rparr>)
                else if left_child (n4 up) = subtree_root then Inr (t\<lparr>nodes := set_left up pivot n4\<rparr>)
                else Inr (t\<lparr>nodes := set_right up pivot n4\<rparr>))"

definition rotate_right :: "addr \<Rightarrow> 'k rb_tree \<Rightarrow> 'k rb_tree result" where
  "rotate_right subtree_root t =
     (if subtree_root = 0 then Inl VerifyFailed
      else
        let pivot = left_child (nodes t subtree_root)
        in if pivot = 0 then Inl VerifyFailed
           else
             let up = parent (nodes t subtree_root);
                 n1 = set_left subtree_root (right_child (nodes t pivot)) (nodes t);
                 n2 = (if left_child (n1 subtree_root) \<noteq> 0 then set_parent (left_child (n1 subtree_root)) subtree_root n1 else n1);
                 n3 = set_parent subtree_root pivot (set_right pivot subtree_root n2);
                 n4 = set_parent pivot up n3
             in if up = 0 then Inr (t\<lparr>nodes := n4, m_root := pivot\<rparr>)
                else if left_child (n4 up) = subtree_root then Inr (t\<lparr>nodes := set_left up pivot n4\<rparr>)
                else Inr (t\<lparr>nodes := set_right up pivot n4\<rparr>))"

section \<open>Searching\<close>

fun find :: "nat \<Rightarrow> 'k::linorder rb_nodes \<Rightarrow> addr \<Rightarrow> 'k \<Rightarrow> addr result" where
  "find 0 n node k = Inl NeverReturns"
| "find (Suc fuel) n node k =
     (if node \<noteq> 0 \<and> key (n node) \<noteq> k
      then if k < key (n node) then find fuel n (left_child (n node)) k else find fuel n (right_child (n node)) k
      else Inr node)"

fun find_largest_not_above :: "nat \<Rightarrow> 'k::linorder rb_nodes \<Rightarrow> addr \<Rightarrow> addr \<Rightarrow> 'k \<Rightarrow> addr result" where
  "find_largest_not_above 0 n candidate node k = Inl NeverReturns"
| "find_largest_not_above (Suc fuel) n candidate node k =
     (if node \<noteq> 0
      then if k = key (n node) then Inr node
           else if k < key (n node) then find_largest_not_above fuel n candidate (left_child (n node)) k
           else find_largest_not_above fuel n node (right_child (n node)) k
      else Inr candidate)"

fun find_smallest_not_below :: "nat \<Rightarrow> 'k::linorder rb_nodes \<Rightarrow> addr \<Rightarrow> addr \<Rightarrow> 'k \<Rightarrow> addr result" where
  "find_smallest_not_below 0 n candidate node k = Inl NeverReturns"
| "find_smallest_not_below (Suc fuel) n candidate node k =
     (if node \<noteq> 0
      then if key (n node) = k then Inr node
           else if key (n node) \<le> k then find_smallest_not_below fuel n candidate (right_child (n node)) k
           else find_smallest_not_below fuel n node (left_child (n node)) k
      else Inr candidate)"

section \<open>Inserting\<close>

text \<open>The loop that looks for the parent of a new node.\<close>
fun insert_parent :: "nat \<Rightarrow> 'k::linorder rb_nodes \<Rightarrow> 'k \<Rightarrow> addr \<Rightarrow> addr \<Rightarrow> addr result" where
  "insert_parent 0 n k up temp = Inl NeverReturns"
| "insert_parent (Suc fuel) n k up temp =
     (if temp \<noteq> 0
      then insert_parent fuel n k temp (if k < key (n temp) then left_child (n temp) else right_child (n temp))
      else Inr up)"

text \<open>The two halves of a round of the loop of \<^verbatim>\<open>insert_fixups\<close>, where the uncle is not red.\<close>
definition fixup_rotate_left :: "addr \<Rightarrow> addr \<Rightarrow> 'k rb_tree \<Rightarrow> (addr \<times> 'k rb_tree) result" where
  "fixup_rotate_left node grand_parent t =
     bindR (if left_child (nodes t (parent (nodes t node))) = node
            then bindR (rotate_right (parent (nodes t node)) t) (\<lambda>t'. Inr (parent (nodes t node), t'))
            else Inr (node, t)) (\<lambda>(node, t).
     if parent (nodes t node) = 0 then Inl OutOfBounds
     else bindR (rotate_left grand_parent
                   (t\<lparr>nodes := set_color grand_parent Red (set_color (parent (nodes t node)) Black (nodes t))\<rparr>)) (\<lambda>t.
          Inr (node, t)))"

definition fixup_rotate_right :: "addr \<Rightarrow> addr \<Rightarrow> 'k rb_tree \<Rightarrow> (addr \<times> 'k rb_tree) result" where
  "fixup_rotate_right node grand_parent t =
     bindR (if right_child (nodes t (parent (nodes t node))) = node
            then bindR (rotate_left (parent (nodes t node)) t) (\<lambda>t'. Inr (parent (nodes t node), t'))
            else Inr (node, t)) (\<lambda>(node, t).
     if parent (nodes t node) = 0 then Inl OutOfBounds
     else bindR (rotate_right grand_parent
                   (t\<lparr>nodes := set_color grand_parent Red (set_color (parent (nodes t node)) Black (nodes t))\<rparr>)) (\<lambda>t.
          Inr (node, t)))"

definition fixup_recolor :: "addr \<Rightarrow> addr \<Rightarrow> addr \<Rightarrow> 'k rb_tree \<Rightarrow> 'k rb_tree" where
  "fixup_recolor node uncle grand_parent t =
     t\<lparr>nodes := set_color grand_parent Red (set_color uncle Black (set_color (parent (nodes t node)) Black (nodes t)))\<rparr>"

text \<open>One round of the loop: the node and the tree for the next round, or nothing at the end of the loop.\<close>
definition insert_fixup_step :: "addr \<Rightarrow> 'k rb_tree \<Rightarrow> (addr \<times> 'k rb_tree) option result" where
  "insert_fixup_step node t =
     (let n = nodes t; up = parent (n node)
      in if up \<noteq> 0 \<and> color (n up) = Red then
           let grand_parent = parent (n up)
           in if grand_parent = 0 then Inl OutOfBounds
              else if right_child (n grand_parent) = up then
                let uncle = left_child (n grand_parent)
                in if uncle \<noteq> 0 \<and> color (n uncle) = Red
                   then Inr (Some (grand_parent, fixup_recolor node uncle grand_parent t))
                   else bindR (fixup_rotate_left node grand_parent t) (\<lambda>next. Inr (Some next))
              else
                let uncle = right_child (n grand_parent)
                in if uncle \<noteq> 0 \<and> color (n uncle) = Red
                   then Inr (Some (grand_parent, fixup_recolor node uncle grand_parent t))
                   else bindR (fixup_rotate_right node grand_parent t) (\<lambda>next. Inr (Some next))
         else Inr None)"

primrec insert_fixups_loop :: "nat \<Rightarrow> addr \<Rightarrow> 'k rb_tree \<Rightarrow> 'k rb_tree result" where
  "insert_fixups_loop 0 node t = Inl NeverReturns"
| "insert_fixups_loop (Suc fuel) node t =
     bindR (insert_fixup_step node t) (\<lambda>next.
     case next of None \<Rightarrow> Inr t | Some (node', t') \<Rightarrow> insert_fixups_loop fuel node' t')"

definition insert_fixups :: "addr \<Rightarrow> 'k rb_tree \<Rightarrow> 'k rb_tree result" where
  "insert_fixups node t =
     (if node = 0 \<or> color (nodes t node) \<noteq> Red then Inl VerifyFailed
      else bindR (insert_fixups_loop (Suc (Suc (m_size t))) node t) (\<lambda>t.
           if m_root t = 0 then Inl OutOfBounds
           else Inr (t\<lparr>nodes := set_color (m_root t) Black (nodes t)\<rparr>)))"

definition rb_insert :: "addr \<Rightarrow> 'k::linorder rb_tree \<Rightarrow> 'k rb_tree result" where
  "rb_insert node t =
     (if node = 0 then Inl VerifyFailed
      else bindR (insert_parent (Suc (m_size t)) (nodes t) (key (nodes t node)) 0 (m_root t)) (\<lambda>up.
        if up = 0
        then Inr (t\<lparr>nodes := set_color node Black (nodes t), m_root := node, m_size := 1, m_minimum := node\<rparr>)
        else
          let n1 = (if key (nodes t node) < key (nodes t up) then set_left up node (nodes t) else set_right up node (nodes t));
              n2 = set_parent node up n1;
              t2 = t\<lparr>nodes := n2\<rparr>
          in bindR (if parent (n2 (parent (n2 node))) \<noteq> 0 then insert_fixups node t2 else Inr t2) (\<lambda>t3.
             let t4 = t3\<lparr>m_size := size_add (m_size t3) 1\<rparr>
             in if m_minimum t4 = 0 then Inl OutOfBounds
                else if left_child (nodes t4 (m_minimum t4)) = node then Inr (t4\<lparr>m_minimum := node\<rparr>)
                else Inr t4)))"

section \<open>Neighbours\<close>

fun leftmost :: "nat \<Rightarrow> 'k rb_nodes \<Rightarrow> addr \<Rightarrow> addr result" where
  "leftmost 0 n node = Inl NeverReturns"
| "leftmost (Suc fuel) n node = (if left_child (n node) \<noteq> 0 then leftmost fuel n (left_child (n node)) else Inr node)"

fun rightmost :: "nat \<Rightarrow> 'k rb_nodes \<Rightarrow> addr \<Rightarrow> addr result" where
  "rightmost 0 n node = Inl NeverReturns"
| "rightmost (Suc fuel) n node = (if right_child (n node) \<noteq> 0 then rightmost fuel n (right_child (n node)) else Inr node)"

fun climb_from_right :: "nat \<Rightarrow> 'k rb_nodes \<Rightarrow> addr \<Rightarrow> addr \<Rightarrow> addr result" where
  "climb_from_right 0 n node temp = Inl NeverReturns"
| "climb_from_right (Suc fuel) n node temp =
     (if temp \<noteq> 0 \<and> node = right_child (n temp) then climb_from_right fuel n temp (parent (n temp)) else Inr temp)"

fun climb_from_left :: "nat \<Rightarrow> 'k rb_nodes \<Rightarrow> addr \<Rightarrow> addr \<Rightarrow> addr result" where
  "climb_from_left 0 n node temp = Inl NeverReturns"
| "climb_from_left (Suc fuel) n node temp =
     (if temp \<noteq> 0 \<and> node = left_child (n temp) then climb_from_left fuel n temp (parent (n temp)) else Inr temp)"

definition successor :: "nat \<Rightarrow> 'k rb_nodes \<Rightarrow> addr \<Rightarrow> addr result" where
  "successor fuel n node =
     (if node = 0 then Inl VerifyFailed
      else if right_child (n node) \<noteq> 0 then leftmost fuel n (right_child (n node))
      else climb_from_right fuel n node (parent (n node)))"

definition predecessor :: "nat \<Rightarrow> 'k rb_nodes \<Rightarrow> addr \<Rightarrow> addr result" where
  "predecessor fuel n node =
     (if node = 0 then Inl VerifyFailed
      else if left_child (n node) \<noteq> 0 then rightmost fuel n (left_child (n node))
      else climb_from_left fuel n node (parent (n node)))"


section \<open>Removing\<close>

text \<open>A null pointer counts as a black node.\<close>
definition is_black :: "'k rb_nodes \<Rightarrow> addr \<Rightarrow> bool" where
  "is_black n a \<longleftrightarrow> a = 0 \<or> color (n a) = Black"

text \<open>
  A round of the loop of \<^verbatim>\<open>remove_fixups\<close> where the node is the left child, in its steps: a red sibling is rotated away, the outer child of the sibling
  is made red, and the last rotation. The result is the node of the next round and the tree.
\<close>
definition remove_sibling_left :: "addr \<Rightarrow> 'k rb_tree \<Rightarrow> (addr \<times> 'k rb_tree) result" where
  "remove_sibling_left up t =
     (let sibling = right_child (nodes t up)
      in if sibling = 0 then Inl OutOfBounds
         else if color (nodes t sibling) = Red
         then bindR (rotate_left up (t\<lparr>nodes := set_color up Red (set_color sibling Black (nodes t))\<rparr>)) (\<lambda>t.
              Inr (right_child (nodes t up), t))
         else Inr (sibling, t))"

definition remove_outer_left :: "addr \<Rightarrow> addr \<Rightarrow> 'k rb_tree \<Rightarrow> (addr \<times> 'k rb_tree) result" where
  "remove_outer_left up sibling t =
     (if is_black (nodes t) (right_child (nodes t sibling))
      then if left_child (nodes t sibling) = 0 then Inl OutOfBounds
           else bindR (rotate_right sibling
                  (t\<lparr>nodes := set_color sibling Red (set_color (left_child (nodes t sibling)) Black (nodes t))\<rparr>)) (\<lambda>t.
                Inr (right_child (nodes t up), t))
      else Inr (sibling, t))"

definition remove_finish_left :: "addr \<Rightarrow> addr \<Rightarrow> 'k rb_tree \<Rightarrow> (addr \<times> 'k rb_tree) result" where
  "remove_finish_left up sibling t =
     (if sibling = 0 \<or> right_child (nodes t sibling) = 0 then Inl OutOfBounds
      else bindR (rotate_left up
             (t\<lparr>nodes := set_color (right_child (nodes t sibling)) Black
               (set_color up Black (set_color sibling (color (nodes t up)) (nodes t)))\<rparr>)) (\<lambda>t.
           Inr (m_root t, t)))"

definition remove_rest_left :: "addr \<Rightarrow> addr \<Rightarrow> 'k rb_tree \<Rightarrow> (addr \<times> 'k rb_tree) result" where
  "remove_rest_left up sibling t =
     (if sibling = 0 then Inl OutOfBounds
      else if is_black (nodes t) (left_child (nodes t sibling)) \<and> is_black (nodes t) (right_child (nodes t sibling))
      then Inr (up, t\<lparr>nodes := set_color sibling Red (nodes t)\<rparr>)
      else bindR (remove_outer_left up sibling t) (\<lambda>(sibling, t). remove_finish_left up sibling t))"

definition remove_fixup_left :: "addr \<Rightarrow> 'k rb_tree \<Rightarrow> (addr \<times> 'k rb_tree) result" where
  "remove_fixup_left up t = bindR (remove_sibling_left up t) (\<lambda>(sibling, t). remove_rest_left up sibling t)"

text \<open>The same where the node is the right child.\<close>
definition remove_sibling_right :: "addr \<Rightarrow> 'k rb_tree \<Rightarrow> (addr \<times> 'k rb_tree) result" where
  "remove_sibling_right up t =
     (let sibling = left_child (nodes t up)
      in if sibling = 0 then Inl OutOfBounds
         else if color (nodes t sibling) = Red
         then bindR (rotate_right up (t\<lparr>nodes := set_color up Red (set_color sibling Black (nodes t))\<rparr>)) (\<lambda>t.
              Inr (left_child (nodes t up), t))
         else Inr (sibling, t))"

definition remove_outer_right :: "addr \<Rightarrow> addr \<Rightarrow> 'k rb_tree \<Rightarrow> (addr \<times> 'k rb_tree) result" where
  "remove_outer_right up sibling t =
     (if is_black (nodes t) (left_child (nodes t sibling))
      then if right_child (nodes t sibling) = 0 then Inl OutOfBounds
           else bindR (rotate_left sibling
                  (t\<lparr>nodes := set_color sibling Red (set_color (right_child (nodes t sibling)) Black (nodes t))\<rparr>)) (\<lambda>t.
                Inr (left_child (nodes t up), t))
      else Inr (sibling, t))"

definition remove_finish_right :: "addr \<Rightarrow> addr \<Rightarrow> 'k rb_tree \<Rightarrow> (addr \<times> 'k rb_tree) result" where
  "remove_finish_right up sibling t =
     (if sibling = 0 \<or> left_child (nodes t sibling) = 0 then Inl OutOfBounds
      else bindR (rotate_right up
             (t\<lparr>nodes := set_color (left_child (nodes t sibling)) Black
               (set_color up Black (set_color sibling (color (nodes t up)) (nodes t)))\<rparr>)) (\<lambda>t.
           Inr (m_root t, t)))"

definition remove_rest_right :: "addr \<Rightarrow> addr \<Rightarrow> 'k rb_tree \<Rightarrow> (addr \<times> 'k rb_tree) result" where
  "remove_rest_right up sibling t =
     (if sibling = 0 then Inl OutOfBounds
      else if is_black (nodes t) (left_child (nodes t sibling)) \<and> is_black (nodes t) (right_child (nodes t sibling))
      then Inr (up, t\<lparr>nodes := set_color sibling Red (nodes t)\<rparr>)
      else bindR (remove_outer_right up sibling t) (\<lambda>(sibling, t). remove_finish_right up sibling t))"

definition remove_fixup_right :: "addr \<Rightarrow> 'k rb_tree \<Rightarrow> (addr \<times> 'k rb_tree) result" where
  "remove_fixup_right up t = bindR (remove_sibling_right up t) (\<lambda>(sibling, t). remove_rest_right up sibling t)"

primrec remove_fixups_loop :: "nat \<Rightarrow> addr \<Rightarrow> addr \<Rightarrow> 'k rb_tree \<Rightarrow> (addr \<times> 'k rb_tree) result" where
  "remove_fixups_loop 0 node up t = Inl NeverReturns"
| "remove_fixups_loop (Suc fuel) node up t =
     (if node \<noteq> m_root t \<and> is_black (nodes t) node
      then if up = 0 then Inl OutOfBounds
           else bindR (if left_child (nodes t up) = node then remove_fixup_left up t else remove_fixup_right up t) (\<lambda>(node', t').
                if node' = 0 then Inl OutOfBounds else remove_fixups_loop fuel node' (parent (nodes t' node')) t')
      else Inr (node, t))"

definition remove_fixups :: "addr \<Rightarrow> addr \<Rightarrow> 'k rb_tree \<Rightarrow> 'k rb_tree result" where
  "remove_fixups node up t =
     bindR (remove_fixups_loop (Suc (Suc (m_size t))) node up t) (\<lambda>(node, t).
     if node = 0 then Inl OutOfBounds else Inr (t\<lparr>nodes := set_color node Black (nodes t)\<rparr>))"

text \<open>A link of a parent, or the root of the tree where there is no parent, is changed from one node to another.\<close>
definition replace_child :: "addr \<Rightarrow> addr \<Rightarrow> addr \<Rightarrow> 'k rb_tree \<Rightarrow> 'k rb_tree" where
  "replace_child up x y t =
     (if up \<noteq> 0
      then if left_child (nodes t up) = x then t\<lparr>nodes := set_left up y (nodes t)\<rparr> else t\<lparr>nodes := set_right up y (nodes t)\<rparr>
      else t\<lparr>m_root := y\<rparr>)"

text \<open>
  A node with two children changes places with its successor, in three steps: the nodes around the two get new links, the two get new parents, and their children and
  colors are swapped. A swap of a field reads both nodes first.
\<close>
definition relink_around :: "bool \<Rightarrow> addr \<Rightarrow> addr \<Rightarrow> 'k rb_tree \<Rightarrow> 'k rb_tree" where
  "relink_around neighbor_swap node successor_node t =
     (let n1 = set_parent (left_child (nodes t node)) successor_node (nodes t);
          n2 = (if \<not> neighbor_swap then set_parent (right_child (n1 node)) successor_node n1 else n1);
          t3 = replace_child (parent (n2 node)) node successor_node (t\<lparr>nodes := n2\<rparr>);
          n3 = nodes t3
      in if right_child (n3 successor_node) \<noteq> 0 then t3\<lparr>nodes := set_parent (right_child (n3 successor_node)) node n3\<rparr> else t3)"

definition relink_parents :: "bool \<Rightarrow> addr \<Rightarrow> addr \<Rightarrow> 'k rb_tree \<Rightarrow> 'k rb_tree" where
  "relink_parents neighbor_swap node successor_node t =
     (if neighbor_swap
      then t\<lparr>nodes := set_parent node successor_node (set_parent successor_node (parent (nodes t node)) (nodes t))\<rparr>
      else
        let t' = replace_child (parent (nodes t successor_node)) successor_node node t;
            n = nodes t'
        in t'\<lparr>nodes := set_parent successor_node (parent (n node)) (set_parent node (parent (n successor_node)) n)\<rparr>)"

definition swap_children :: "bool \<Rightarrow> addr \<Rightarrow> addr \<Rightarrow> 'k rb_nodes \<Rightarrow> 'k rb_nodes" where
  "swap_children neighbor_swap node successor_node n =
     (let n' = set_left successor_node (left_child (n node)) (set_left node (left_child (n successor_node)) n)
      in if neighbor_swap
         then set_right successor_node node (set_right node (right_child (n' successor_node)) n')
         else set_right successor_node (right_child (n' node)) (set_right node (right_child (n' successor_node)) n'))"

definition swap_colors :: "addr \<Rightarrow> addr \<Rightarrow> 'k rb_nodes \<Rightarrow> 'k rb_nodes" where
  "swap_colors x y n = set_color y (color (n x)) (set_color x (color (n y)) n)"

definition relink_with_successor :: "addr \<Rightarrow> 'k rb_tree \<Rightarrow> 'k rb_tree result" where
  "relink_with_successor node t =
     bindR (successor (Suc (m_size t)) (nodes t) node) (\<lambda>successor_node.
     if successor_node = 0 then Inl OutOfBounds
     else
       let neighbor_swap = (parent (nodes t successor_node) = node);
           t' = relink_parents neighbor_swap node successor_node (relink_around neighbor_swap node successor_node t)
       in Inr (t'\<lparr>nodes := swap_colors node successor_node (swap_children neighbor_swap node successor_node (nodes t'))\<rparr>))"

text \<open>The only child of a node, if it has one, takes its place.\<close>
definition splice_out :: "addr \<Rightarrow> addr \<Rightarrow> 'k rb_tree \<Rightarrow> 'k rb_tree" where
  "splice_out node child t =
     (let n1 = (if child \<noteq> 0 then set_parent child (parent (nodes t node)) (nodes t) else nodes t)
      in replace_child (parent (n1 node)) node child (t\<lparr>nodes := n1\<rparr>))"

definition rb_remove :: "addr \<Rightarrow> 'k rb_tree \<Rightarrow> 'k rb_tree result" where
  "rb_remove node t =
     (if node = 0 then Inl VerifyFailed
      else if m_size t = 1 then Inr (t\<lparr>m_root := 0, m_minimum := 0, m_size := 0\<rparr>)
      else bindR (if m_minimum t = node
                  then bindR (successor (Suc (m_size t)) (nodes t) node) (\<lambda>s. Inr (t\<lparr>m_minimum := s\<rparr>))
                  else Inr t) (\<lambda>t.
      bindR (if left_child (nodes t node) \<noteq> 0 \<and> right_child (nodes t node) \<noteq> 0 then relink_with_successor node t else Inr t) (\<lambda>t.
      let child = (if left_child (nodes t node) \<noteq> 0 then left_child (nodes t node) else right_child (nodes t node));
          t' = splice_out node child t
      in bindR (if color (nodes t' node) \<noteq> Red then remove_fixups child (parent (nodes t' node)) t' else Inr t') (\<lambda>t.
         Inr (t\<lparr>m_size := size_sub (m_size t) 1\<rparr>)))))"

end
