(* ===== verification/Tree_Shape.thy ===== *)
theory Tree_Shape
  imports Red_Black_Tree Ordered_List "HOL-Library.Multiset"
begin

text \<open>
  The trees that the nodes of a red-black tree form. A tree has the address of every node, so the store holds a tree if every node has the fields the tree says. A place in the
  tree is the subtree there and the frames around it, from the inside out; a change of the tree at a place touches only the nodes there and the
  link of the innermost frame.
\<close>

section \<open>Trees and places\<close>

datatype 'k rbt = Leaf | Node addr "'k rbt" color 'k "'k rbt"

text \<open>The hole of a frame is the left or the right child; the last argument is the other child.\<close>
datatype 'k frame = LeftOf addr color 'k "'k rbt" | RightOf addr color 'k "'k rbt"

fun root_of :: "'k rbt \<Rightarrow> addr" where
  "root_of Leaf = 0"
| "root_of (Node a l c k r) = a"

fun addrs :: "'k rbt \<Rightarrow> addr list" where
  "addrs Leaf = []"
| "addrs (Node a l c k r) = addrs l @ a # addrs r"

fun elems :: "'k rbt \<Rightarrow> (addr \<times> 'k) list" where
  "elems Leaf = []"
| "elems (Node a l c k r) = elems l @ (a, k) # elems r"

fun fill :: "'k frame \<Rightarrow> 'k rbt \<Rightarrow> 'k rbt" where
  "fill (LeftOf a c k r) t = Node a t c k r"
| "fill (RightOf a c k l) t = Node a l c k t"

fun plug :: "'k frame list \<Rightarrow> 'k rbt \<Rightarrow> 'k rbt" where
  "plug [] t = t"
| "plug (f # ctx) t = plug ctx (fill f t)"

fun frame_addr :: "'k frame \<Rightarrow> addr" where
  "frame_addr (LeftOf a c k r) = a"
| "frame_addr (RightOf a c k l) = a"

fun top_addr :: "'k frame list \<Rightarrow> addr" where
  "top_addr [] = 0"
| "top_addr (f # ctx) = frame_addr f"

fun frame_addrs :: "'k frame \<Rightarrow> addr list" where
  "frame_addrs (LeftOf a c k r) = a # addrs r"
| "frame_addrs (RightOf a c k l) = a # addrs l"

definition ctx_addrs :: "'k frame list \<Rightarrow> addr list" where
  "ctx_addrs ctx = concat (map frame_addrs ctx)"

lemma ctx_addrs_simps [simp]: "ctx_addrs [] = []" "ctx_addrs (f # ctx) = frame_addrs f @ ctx_addrs ctx"
  by (simp_all add: ctx_addrs_def)

lemma mset_addrs_plug: "mset (addrs (plug ctx t)) = mset (addrs t) + mset (ctx_addrs ctx)"
proof (induction ctx arbitrary: t)
  case (Cons f ctx)
  then show ?case by (cases f) simp_all
qed simp

lemma distinct_plug: "distinct (addrs (plug ctx t)) \<longleftrightarrow> distinct (addrs t @ ctx_addrs ctx)"
proof -
  have "mset (addrs (plug ctx t)) = mset (addrs t @ ctx_addrs ctx)" by (simp add: mset_addrs_plug)
  then show ?thesis by (rule mset_eq_imp_distinct_iff)
qed

lemma map_fst_elems [simp]: "map fst (elems t) = addrs t"
  by (induction t) simp_all

lemma root_in_addrs: "t \<noteq> Leaf \<Longrightarrow> root_of t \<in> set (addrs t)"
  by (cases t) simp_all

section \<open>Trees in the store\<close>

fun rep :: "'k rb_nodes \<Rightarrow> addr \<Rightarrow> 'k rbt \<Rightarrow> bool" where
  "rep n p Leaf \<longleftrightarrow> True"
| "rep n p (Node a l c k r) \<longleftrightarrow>
     a \<noteq> 0 \<and> n a = \<lparr>left_child = root_of l, right_child = root_of r, parent = p, color = c, key = k\<rparr> \<and> rep n a l \<and> rep n a r"

fun rep_ctx :: "'k rb_nodes \<Rightarrow> 'k frame list \<Rightarrow> addr \<Rightarrow> bool" where
  "rep_ctx n [] x \<longleftrightarrow> True"
| "rep_ctx n (LeftOf a c k r # ctx) x \<longleftrightarrow>
     a \<noteq> 0 \<and> n a = \<lparr>left_child = x, right_child = root_of r, parent = top_addr ctx, color = c, key = k\<rparr> \<and> rep n a r \<and> rep_ctx n ctx a"
| "rep_ctx n (RightOf a c k l # ctx) x \<longleftrightarrow>
     a \<noteq> 0 \<and> n a = \<lparr>left_child = root_of l, right_child = x, parent = top_addr ctx, color = c, key = k\<rparr> \<and> rep n a l \<and> rep_ctx n ctx a"

lemma rep_plug: "rep n 0 (plug ctx t) \<longleftrightarrow> rep_ctx n ctx (root_of t) \<and> rep n (top_addr ctx) t"
proof (induction ctx arbitrary: t)
  case (Cons f ctx)
  then show ?case by (cases f) auto
qed simp

text \<open>Only the nodes of the tree matter.\<close>
lemma rep_agree: "rep n p t \<Longrightarrow> (\<And>a. a \<in> set (addrs t) \<Longrightarrow> n' a = n a) \<Longrightarrow> rep n' p t"
  by (induction t arbitrary: p) auto

lemma rep_ctx_agree: "rep_ctx n ctx x \<Longrightarrow> (\<And>a. a \<in> set (ctx_addrs ctx) \<Longrightarrow> n' a = n a) \<Longrightarrow> rep_ctx n' ctx x"
proof (induction ctx arbitrary: x)
  case (Cons f ctx)
  show ?case
  proof (cases f)
    case (LeftOf a c k r)
    then show ?thesis using Cons.prems Cons.IH [of a] rep_agree [of n a r n'] by simp
  next
    case (RightOf a c k l)
    then show ?thesis using Cons.prems Cons.IH [of a] rep_agree [of n a l n'] by simp
  qed
qed simp

lemma rep_root_0: "rep n p t \<Longrightarrow> root_of t = 0 \<longleftrightarrow> t = Leaf"
  by (cases t) auto

lemma rep_addrs_nonzero: "rep n p t \<Longrightarrow> 0 \<notin> set (addrs t)"
  by (induction t arbitrary: p) auto

text \<open>A subtree gets a new parent.\<close>
lemma rep_reparent:
  assumes "rep n p t" and "distinct (addrs t)"
  shows "rep (if root_of t \<noteq> 0 then set_parent (root_of t) q n else n) q t"
proof (cases t)
  case (Node a l c k r)
  have "rep (set_parent a q n) a l" "rep (set_parent a q n) a r"
    using assms Node by (auto simp: set_parent_def intro!: rep_agree [of n])
  then show ?thesis using assms Node by (simp add: set_parent_def)
qed simp

text \<open>The link of the innermost frame is changed.\<close>
definition relink :: "addr \<Rightarrow> addr \<Rightarrow> addr \<Rightarrow> 'k rb_nodes \<Rightarrow> 'k rb_nodes" where
  "relink u x y n = (if left_child (n u) = x then set_left u y n else set_right u y n)"

lemma relink_other [simp]: "a \<noteq> u \<Longrightarrow> relink u x y n a = n a"
  by (simp add: relink_def set_left_def set_right_def)

lemma rep_ctx_relink:
  assumes "rep_ctx n (f # ctx) x" and "x \<noteq> 0" and "distinct (ctx_addrs (f # ctx))" and "x \<notin> set (ctx_addrs (f # ctx))"
  shows "rep_ctx (relink (frame_addr f) x y n) (f # ctx) y"
proof (cases f)
  case (LeftOf a c k r)
  have "rep (relink a x y n) a r" "rep_ctx (relink a x y n) ctx a"
    using assms LeftOf by (auto intro!: rep_agree [of n] rep_ctx_agree [of n] relink_other)
  then show ?thesis using assms LeftOf by (simp add: relink_def set_left_def)
next
  case (RightOf a c k l)
  have l: "root_of l \<noteq> x" using assms(2,4) RightOf root_in_addrs [of l] by (cases l) auto
  have "rep (relink a x y n) a l" "rep_ctx (relink a x y n) ctx a"
    using assms RightOf by (auto intro!: rep_agree [of n] rep_ctx_agree [of n] relink_other)
  then show ?thesis using assms RightOf l by (simp add: relink_def set_right_def)
qed

section \<open>A tree object that holds a tree\<close>

definition rep_tree :: "'k rb_tree \<Rightarrow> 'k rbt \<Rightarrow> bool" where
  "rep_tree T t \<longleftrightarrow> m_root T = root_of t \<and> rep (nodes T) 0 t \<and> distinct (addrs t)"

definition rep_at :: "'k rb_tree \<Rightarrow> 'k frame list \<Rightarrow> 'k rbt \<Rightarrow> bool" where
  "rep_at T ctx t \<longleftrightarrow> rep_tree T (plug ctx t)"

lemma root_of_plug: "root_of (plug (f # ctx) t) = root_of (plug (f # ctx) t')"
proof (induction ctx arbitrary: f t t')
  case Nil
  then show ?case by (cases f) simp_all
next
  case (Cons g ctx)
  show ?case using Cons [of g "fill f t" "fill f t'"] by simp
qed


lemma rep_atD:
  assumes "rep_at T ctx t"
  shows "rep_ctx (nodes T) ctx (root_of t)" and "rep (nodes T) (top_addr ctx) t" and "distinct (addrs t)"
    and "distinct (ctx_addrs ctx)" and "\<And>a. a \<in> set (addrs t) \<Longrightarrow> a \<notin> set (ctx_addrs ctx)" and "m_root T = root_of (plug ctx t)"
  using assms by (auto simp: rep_at_def rep_tree_def rep_plug distinct_plug)

lemma rep_atI:
  assumes "rep_ctx n ctx (root_of t)" and "rep n (top_addr ctx) t" and "distinct (addrs t @ ctx_addrs ctx)"
    and "m_root T = root_of (plug ctx t)" and "nodes T = n"
  shows "rep_at T ctx t"
  using assms by (simp add: rep_at_def rep_tree_def rep_plug distinct_plug)

text \<open>
  The subtree at a place is replaced: the new one is in the store except that the link of the innermost frame has to be changed, which the code
  does with the root of the tree in place of the link where there is no frame.
\<close>
lemma rep_at_replace:
  assumes "rep_at T ctx t" and "t \<noteq> Leaf" and "rep n (top_addr ctx) t'" and "distinct (addrs t')" and "set (addrs t') = set (addrs t)"
    and "\<And>a. a \<in> set (ctx_addrs ctx) \<Longrightarrow> n a = nodes T a"
  shows "if top_addr ctx = 0 then ctx = [] \<and> rep_at (T\<lparr>nodes := n, m_root := root_of t'\<rparr>) ctx t'
    else rep_at (T\<lparr>nodes := relink (top_addr ctx) (root_of t) (root_of t') n\<rparr>) ctx t'"
proof (cases ctx)
  case Nil
  then show ?thesis using assms by (simp add: rep_at_def rep_tree_def)
next
  case (Cons f fs)
  note at = rep_atD [OF assms(1)]
  have x: "root_of t \<noteq> 0" using rep_root_0 [OF at(2)] assms(2) by simp
  have xin: "root_of t \<notin> set (ctx_addrs ctx)" using at(5) root_in_addrs [OF assms(2)] by blast
  have ctx: "rep_ctx n ctx (root_of t)" using at(1) assms(6) by (rule rep_ctx_agree)
  have top: "top_addr ctx \<noteq> 0" using at(1) Cons by (cases f) simp_all
  have top_in: "frame_addr f \<in> set (ctx_addrs ctx)" using Cons by (cases f) simp_all
  let ?n = "relink (top_addr ctx) (root_of t) (root_of t') n"
  have disj: "a \<notin> set (ctx_addrs ctx)" if "a \<in> set (addrs t')" for a using at(5) assms(5) that by blast
  have "rep_at (T\<lparr>nodes := ?n\<rparr>) ctx t'"
  proof (rule rep_atI [where n = ?n])
    show "rep_ctx ?n ctx (root_of t')" using rep_ctx_relink [of n f fs "root_of t"] ctx x at(4) xin Cons by simp
    show "rep ?n (top_addr ctx) t'" using assms(3) disj top_in Cons by (auto intro!: rep_agree [of n] relink_other)
    show "distinct (addrs t' @ ctx_addrs ctx)" using assms(4) at(4) disj by auto
    show "m_root (T\<lparr>nodes := ?n\<rparr>) = root_of (plug ctx t')" using at(6) root_of_plug [of f fs t t'] Cons by simp
  qed simp
  then show ?thesis using top by simp
qed

section \<open>Rotations\<close>

lemmas set_simps = set_left_def set_right_def set_parent_def set_color_def

lemma rotate_left_ok:
  assumes "rep_at T ctx (Node x a c k (Node y b c' k' d))"
  shows "\<exists>T'. rotate_left x T = Inr T' \<and> rep_at T' ctx (Node y (Node x a c k b) c' k' d) \<and>
    m_size T' = m_size T \<and> m_minimum T' = m_minimum T"
proof -
  let ?t = "Node x a c k (Node y b c' k' d)" and ?t' = "Node y (Node x a c k b) c' k' d" and ?n = "nodes T"
  note at = rep_atD [OF assms]
  have nx: "?n x = \<lparr>left_child = root_of a, right_child = y, parent = top_addr ctx, color = c, key = k\<rparr>"
    and ny: "?n y = \<lparr>left_child = root_of b, right_child = root_of d, parent = x, color = c', key = k'\<rparr>"
    and nz: "x \<noteq> 0" "y \<noteq> 0" using at(2) by simp_all
  have ne: "x \<noteq> y" using at(3) by auto
  have b: "root_of b \<noteq> x" "root_of b \<noteq> y" if "root_of b \<noteq> 0"
    using that at(3) root_in_addrs [of b] by (cases b; auto)+
  define nb where "nb = (if root_of b \<noteq> 0 then set_parent (root_of b) x ?n else ?n)"
  have rb: "rep nb x b" unfolding nb_def using at(2,3) by (intro rep_reparent [of ?n y]) simp_all
  define n4 where "n4 = set_parent y (top_addr ctx) (set_parent x y (set_left y x
    (if root_of b \<noteq> 0 then set_parent (root_of b) x (set_right x (root_of b) ?n) else set_right x (root_of b) ?n)))"
  have other: "n4 z = nb z" if "z \<noteq> x" "z \<noteq> y" for z using that by (auto simp: n4_def nb_def set_simps)
  have n4x: "n4 x = \<lparr>left_child = root_of a, right_child = root_of b, parent = y, color = c, key = k\<rparr>"
    and n4y: "n4 y = \<lparr>left_child = x, right_child = root_of d, parent = top_addr ctx, color = c', key = k'\<rparr>"
    using nx ny ne b by (auto simp: n4_def set_simps)
  have far: "n4 z = ?n z" if "z \<noteq> x" "z \<noteq> y" "z \<notin> set (addrs b)" for z
    using other [OF that(1,2)] that(3) root_in_addrs [of b] by (cases b) (auto simp: nb_def set_simps)
  have "rep n4 x a" "rep n4 y d" using at(2,3) by (auto intro!: rep_agree [of ?n] far)
  moreover have "rep n4 x b" using rb at(3) by (auto intro!: rep_agree [of nb] other)
  ultimately have "rep n4 (top_addr ctx) ?t'" using n4x n4y nz by simp
  moreover have "n4 z = ?n z" if "z \<in> set (ctx_addrs ctx)" for z using at(5) that by (intro far) auto
  ultimately have "if top_addr ctx = 0 then ctx = [] \<and> rep_at (T\<lparr>nodes := n4, m_root := y\<rparr>) ctx ?t'
      else rep_at (T\<lparr>nodes := relink (top_addr ctx) x y n4\<rparr>) ctx ?t'"
    using rep_at_replace [OF assms, of n4 ?t'] at(3) by (auto split: if_splits)
  moreover have "rotate_left x T = Inr (if top_addr ctx = 0 then T\<lparr>nodes := n4, m_root := y\<rparr> else T\<lparr>nodes := relink (top_addr ctx) x y n4\<rparr>)"
    using nx ny nz ne by (simp add: rotate_left_def Let_def n4_def relink_def set_right_def)
  ultimately show ?thesis by (auto split: if_splits)
qed


lemma rotate_right_ok:
  assumes "rep_at T ctx (Node x (Node y d c' k' b) c k a)"
  shows "\<exists>T'. rotate_right x T = Inr T' \<and> rep_at T' ctx (Node y d c' k' (Node x b c k a)) \<and>
    m_size T' = m_size T \<and> m_minimum T' = m_minimum T"
proof -
  let ?t = "Node x (Node y d c' k' b) c k a" and ?t' = "Node y d c' k' (Node x b c k a)" and ?n = "nodes T"
  note at = rep_atD [OF assms]
  have nx: "?n x = \<lparr>left_child = y, right_child = root_of a, parent = top_addr ctx, color = c, key = k\<rparr>"
    and ny: "?n y = \<lparr>left_child = root_of d, right_child = root_of b, parent = x, color = c', key = k'\<rparr>"
    and nz: "x \<noteq> 0" "y \<noteq> 0" using at(2) by simp_all
  have ne: "x \<noteq> y" using at(3) by auto
  have b: "root_of b \<noteq> x" "root_of b \<noteq> y" if "root_of b \<noteq> 0"
    using that at(3) root_in_addrs [of b] by (cases b; auto)+
  define nb where "nb = (if root_of b \<noteq> 0 then set_parent (root_of b) x ?n else ?n)"
  have rb: "rep nb x b" unfolding nb_def using at(2,3) by (intro rep_reparent [of ?n y]) simp_all
  define n4 where "n4 = set_parent y (top_addr ctx) (set_parent x y (set_right y x
    (if root_of b \<noteq> 0 then set_parent (root_of b) x (set_left x (root_of b) ?n) else set_left x (root_of b) ?n)))"
  have other: "n4 z = nb z" if "z \<noteq> x" "z \<noteq> y" for z using that by (auto simp: n4_def nb_def set_simps)
  have n4x: "n4 x = \<lparr>left_child = root_of b, right_child = root_of a, parent = y, color = c, key = k\<rparr>"
    and n4y: "n4 y = \<lparr>left_child = root_of d, right_child = x, parent = top_addr ctx, color = c', key = k'\<rparr>"
    using nx ny ne b by (auto simp: n4_def set_simps)
  have far: "n4 z = ?n z" if "z \<noteq> x" "z \<noteq> y" "z \<notin> set (addrs b)" for z
    using other [OF that(1,2)] that(3) root_in_addrs [of b] by (cases b) (auto simp: nb_def set_simps)
  have "rep n4 x a" "rep n4 y d" using at(2,3) by (auto intro!: rep_agree [of ?n] far)
  moreover have "rep n4 x b" using rb at(3) by (auto intro!: rep_agree [of nb] other)
  ultimately have "rep n4 (top_addr ctx) ?t'" using n4x n4y nz by simp
  moreover have "n4 z = ?n z" if "z \<in> set (ctx_addrs ctx)" for z using at(5) that by (intro far) auto
  ultimately have "if top_addr ctx = 0 then ctx = [] \<and> rep_at (T\<lparr>nodes := n4, m_root := y\<rparr>) ctx ?t'
      else rep_at (T\<lparr>nodes := relink (top_addr ctx) x y n4\<rparr>) ctx ?t'"
    using rep_at_replace [OF assms, of n4 ?t'] at(3) by (auto split: if_splits)
  moreover have "rotate_right x T = Inr (if top_addr ctx = 0 then T\<lparr>nodes := n4, m_root := y\<rparr> else T\<lparr>nodes := relink (top_addr ctx) x y n4\<rparr>)"
    using nx ny nz ne by (simp add: rotate_right_def Let_def n4_def relink_def set_left_def)
  ultimately show ?thesis by (auto split: if_splits)
qed

text \<open>Giving a node another color.\<close>
lemma rep_at_color:
  assumes "rep_at T ctx (Node x l c k r)"
  shows "rep_at (T\<lparr>nodes := set_color x c' (nodes T)\<rparr>) ctx (Node x l c' k r)"
proof (rule rep_atI [where n = "set_color x c' (nodes T)"])
  note at = rep_atD [OF assms]
  have far: "set_color x c' (nodes T) z = nodes T z" if "z \<noteq> x" for z using that by (simp add: set_color_def)
  show "rep_ctx (set_color x c' (nodes T)) ctx (root_of (Node x l c' k r))"
    using at(1,5) by (auto intro!: rep_ctx_agree [of "nodes T"] far)
  have "rep (set_color x c' (nodes T)) x l" "rep (set_color x c' (nodes T)) x r"
    using at(2,3) by (auto intro!: rep_agree [of "nodes T"] far)
  then show "rep (set_color x c' (nodes T)) (top_addr ctx) (Node x l c' k r)" using at(2) by (simp add: set_color_def)
  show "distinct (addrs (Node x l c' k r) @ ctx_addrs ctx)" using at(3,4,5) by auto
  show "m_root (T\<lparr>nodes := set_color x c' (nodes T)\<rparr>) = root_of (plug ctx (Node x l c' k r))"
    using at(6) root_of_plug [of _ _ "Node x l c k r" "Node x l c' k r"] by (cases ctx) (simp, metis rb_tree.select_convs(2) rb_tree.surjective rb_tree.update_convs(1))
qed simp

text \<open>The same place seen from the parent.\<close>
lemma rep_at_up: "rep_at T (f # ctx) t \<longleftrightarrow> rep_at T ctx (fill f t)"
  by (simp add: rep_at_def)

end
