(* ===== verification/Tree_Balance.thy ===== *)
theory Tree_Balance
  imports Tree_Shape
begin

text \<open>
  What makes a tree a red-black tree, for trees and for places: \<open>rb h t\<close> says that no red node of \<open>t\<close> has a red child and that every path has
  \<open>h\<close> black nodes, \<open>rb_ctx h ctx\<close> says that the place needs a tree of black height \<open>h\<close>. The elements around a place, and the shape at
  the left end of a tree, which the code relies on to maintain its minimum.
\<close>

section \<open>Colors and black height\<close>

fun black :: "'k rbt \<Rightarrow> bool" where
  "black Leaf \<longleftrightarrow> True"
| "black (Node a l c k r) \<longleftrightarrow> c = Black"

fun rb :: "nat \<Rightarrow> 'k rbt \<Rightarrow> bool" where
  "rb h Leaf \<longleftrightarrow> h = 0"
| "rb h (Node a l Red k r) \<longleftrightarrow> black l \<and> black r \<and> rb h l \<and> rb h r"
| "rb h (Node a l Black k r) \<longleftrightarrow> 0 < h \<and> rb (h - 1) l \<and> rb (h - 1) r"

fun frame_color :: "'k frame \<Rightarrow> color" where
  "frame_color (LeftOf a c k r) = c"
| "frame_color (RightOf a c k l) = c"

fun frame_tree :: "'k frame \<Rightarrow> 'k rbt" where
  "frame_tree (LeftOf a c k r) = r"
| "frame_tree (RightOf a c k l) = l"

fun black_top :: "'k frame list \<Rightarrow> bool" where
  "black_top [] \<longleftrightarrow> False"
| "black_top (f # ctx) \<longleftrightarrow> frame_color f = Black"

text \<open>A red frame has a black frame around it, since the root of the tree is black.\<close>
fun rb_ctx :: "nat \<Rightarrow> 'k frame list \<Rightarrow> bool" where
  "rb_ctx h [] \<longleftrightarrow> True"
| "rb_ctx h (f # ctx) \<longleftrightarrow> rb h (frame_tree f) \<and>
     (if frame_color f = Red then black (frame_tree f) \<and> black_top ctx \<and> rb_ctx h ctx else rb_ctx (Suc h) ctx)"

lemma rb_fill:
  "rb h (fill f t) \<longleftrightarrow> (if frame_color f = Red then black t \<and> black (frame_tree f) \<and> rb h t \<and> rb h (frame_tree f)
     else 0 < h \<and> rb (h - 1) t \<and> rb (h - 1) (frame_tree f))"
  by (cases f; cases "frame_color f") auto

lemma black_fill: "black (fill f t) \<longleftrightarrow> frame_color f = Black"
  by (cases f) simp_all

text \<open>A tree of the right black height in a place.\<close>
lemma rb_plug:
  "rb_ctx h ctx \<Longrightarrow> rb h t \<Longrightarrow> black t \<or> ctx = [] \<or> black_top ctx \<Longrightarrow>
   \<exists>h'. rb h' (plug ctx t) \<and> (ctx \<noteq> [] \<or> black t \<longrightarrow> black (plug ctx t))"
proof (induction ctx arbitrary: h t)
  case (Cons f ctx)
  show ?case
  proof (cases "frame_color f")
    case Red
    then have "black_top ctx" "ctx \<noteq> []" using Cons.prems(1) by (auto split: if_splits)
    then show ?thesis using Cons.IH [of h "fill f t"] Cons.prems Red by (auto simp: rb_fill)
  next
    case Black
    then show ?thesis using Cons.IH [of "Suc h" "fill f t"] Cons.prems by (auto simp: rb_fill black_fill)
  qed
qed auto

lemma rb_unplug:
  "rb h (plug ctx t) \<Longrightarrow> black (plug ctx t) \<Longrightarrow> \<exists>h'. rb_ctx h' ctx \<and> rb h' t \<and> (black t \<or> black_top ctx)"
proof (induction ctx arbitrary: t)
  case (Cons f ctx)
  obtain h' where *: "rb_ctx h' ctx" "rb h' (fill f t)" "black (fill f t) \<or> black_top ctx"
    using Cons.IH [of "fill f t"] Cons.prems by auto
  show ?case
  proof (cases "frame_color f")
    case Red
    then show ?thesis using * by (auto simp: rb_fill black_fill)
  next
    case Black
    then show ?thesis using * by (intro exI [of _ "h' - 1"]) (auto simp: rb_fill black_fill)
  qed
qed auto

lemma rb_blacken: "rb h (Node a l c k r) \<Longrightarrow> \<exists>h'. rb h' (Node a l Black k r)"
  by (cases c) (auto intro: exI [of _ "Suc h"])

section \<open>The elements around a place\<close>

fun before :: "'k frame list \<Rightarrow> (addr \<times> 'k) list" where
  "before [] = []"
| "before (LeftOf a c k r # ctx) = before ctx"
| "before (RightOf a c k l # ctx) = before ctx @ elems l @ [(a, k)]"

fun after :: "'k frame list \<Rightarrow> (addr \<times> 'k) list" where
  "after [] = []"
| "after (LeftOf a c k r # ctx) = (a, k) # elems r @ after ctx"
| "after (RightOf a c k l # ctx) = after ctx"

lemma elems_plug: "elems (plug ctx t) = before ctx @ elems t @ after ctx"
proof (induction ctx arbitrary: t)
  case (Cons f ctx)
  then show ?case by (cases f) simp_all
qed simp

lemma elems_Nil [simp]: "elems t = [] \<longleftrightarrow> t = Leaf"
  by (cases t) simp_all

lemma length_ctx: "length ctx \<le> length (elems (plug ctx t))"
proof (induction ctx arbitrary: t)
  case (Cons f ctx)
  have "length (f # ctx) \<le> length (before (f # ctx)) + length (after (f # ctx))"
    using Cons [of Leaf] by (cases f) (auto simp: elems_plug)
  then show ?case by (simp only: elems_plug length_append)
qed simp

section \<open>The left end\<close>

fun min_is_leaf :: "'k rbt \<Rightarrow> bool" where
  "min_is_leaf Leaf \<longleftrightarrow> True"
| "min_is_leaf (Node a Leaf c k r) \<longleftrightarrow> r = Leaf"
| "min_is_leaf (Node a l c k r) \<longleftrightarrow> min_is_leaf l"

lemma min_is_leaf_Node: "min_is_leaf (Node a l c k r) \<longleftrightarrow> (if l = Leaf then r = Leaf else min_is_leaf l)"
  by (cases l) simp_all

lemma fill_not_Leaf [simp]: "fill f t \<noteq> Leaf"
  by (cases f) simp_all

lemma min_is_leaf_plug:
  "t \<noteq> Leaf \<Longrightarrow> t' \<noteq> Leaf \<Longrightarrow> min_is_leaf t \<longrightarrow> min_is_leaf t' \<Longrightarrow> min_is_leaf (plug ctx t) \<longrightarrow> min_is_leaf (plug ctx t')"
proof (induction ctx arbitrary: t t')
  case (Cons f ctx)
  have "min_is_leaf (fill f t) \<longrightarrow> min_is_leaf (fill f t')"
    using Cons.prems by (cases f) (auto simp: min_is_leaf_Node)
  then show ?case using Cons.IH [of "fill f t" "fill f t'"] by simp
qed simp

lemma min_is_leaf_first: "before ctx = [] \<Longrightarrow> t \<noteq> Leaf \<Longrightarrow> min_is_leaf t \<Longrightarrow> min_is_leaf (plug ctx t)"
proof (induction ctx arbitrary: t)
  case (Cons f ctx)
  then show ?case by (cases f) (auto simp: min_is_leaf_Node)
qed simp

text \<open>Then the second node has the first as its left child.\<close>
lemma min_is_leaf_second:
  "rep n p t \<Longrightarrow> min_is_leaf t \<Longrightarrow> elems t = x # y # rest \<Longrightarrow> left_child (n (fst y)) = fst x"
proof (induction t arbitrary: p rest)
  case (Node a l c k r)
  show ?case
  proof (cases "elems l")
    case Nil
    then show ?thesis using Node.prems by (simp add: min_is_leaf_Node)
  next
    case (Cons z zs)
    have l: "l \<noteq> Leaf" "min_is_leaf l" "rep n a l" using Cons Node.prems by (auto simp: min_is_leaf_Node split: if_splits)
    show ?thesis
    proof (cases zs)
      case Nil
      then have "y = (a, k)" "x = z" using Node.prems(3) Cons by simp_all
      moreover have "l = Node (fst z) Leaf (color (n (root_of l))) (snd z) Leaf"
        using Cons Nil l by (cases l) (auto simp: append_eq_Cons_conv)
      ultimately show ?thesis using Node.prems(1) by (cases l) auto
    next
      case (Cons z' zs')
      then show ?thesis using Node.IH(1) [OF l(3,2), of zs'] \<open>elems l = z # zs\<close> Node.prems(3) by simp
    qed
  qed
qed simp

text \<open>The first node has no left child.\<close>
lemma first_no_left: "rep n p t \<Longrightarrow> elems t = x # rest \<Longrightarrow> left_child (n (fst x)) = 0"
proof (induction t arbitrary: p rest)
  case (Node a l c k r)
  then show ?case by (cases "elems l") auto
qed simp


section \<open>The contract of the tree\<close>

text \<open>The tree object holds a sequence of elements: its nodes form a red-black tree of them, in the order of the keys.\<close>
definition tree_holds :: "'k::linorder rb_tree \<Rightarrow> (addr \<times> 'k) list \<Rightarrow> bool" where
  "tree_holds T es \<longleftrightarrow> (\<exists>t h. rep_tree T t \<and> rb h t \<and> black t \<and> elems t = es) \<and> sorted_by snd es \<and>
     m_size T = length es \<and> length es < size_limit \<and> m_minimum T = (case es of [] \<Rightarrow> 0 | e # _ \<Rightarrow> fst e)"

lemma tree_holdsI:
  assumes "rep_tree T t" and "rb h t" and "black t" and "elems t = es" and "sorted_by snd es"
    and "m_size T = length es" and "length es < size_limit" and "m_minimum T = (case es of [] \<Rightarrow> 0 | e # _ \<Rightarrow> fst e)"
  shows "tree_holds T es"
  using assms unfolding tree_holds_def by blast

lemma tree_holdsE:
  assumes "tree_holds T es"
  obtains t h where "rep_tree T t" "rb h t" "black t" "elems t = es" "sorted_by snd es"
    "m_size T = length es" "length es < size_limit" "m_minimum T = (case es of [] \<Rightarrow> 0 | e # _ \<Rightarrow> fst e)"
  using assms unfolding tree_holds_def by blast

lemma empty_tree_holds: "tree_holds (empty_tree n) []"
  by (rule tree_holdsI [of _ Leaf 0]) (simp_all add: rep_tree_def empty_tree_def)

end
