(* ===== verification/Tree_Insert.thy ===== *)
theory Tree_Insert
  imports Tree_Balance
begin

text \<open>
  \<^verbatim>\<open>insert\<close> and \<^verbatim>\<open>insert_fixups\<close> of \<^verbatim>\<open>AK/RedBlackTree.h\<close> on the trees of the store: every round of the loop
  recolors two levels of the tree or rotates once or twice and is the last but one, and the tree the loop leaves is a red-black tree of the same elements.
\<close>

section \<open>A round of the loop\<close>

fun set_frame_color :: "color \<Rightarrow> 'k frame \<Rightarrow> 'k frame" where
  "set_frame_color c' (LeftOf a c k r) = LeftOf a c' k r"
| "set_frame_color c' (RightOf a c k l) = RightOf a c' k l"

lemma rep_at_frame_color:
  assumes "rep_at T (f # ctx) t"
  shows "rep_at (T\<lparr>nodes := set_color (frame_addr f) c (nodes T)\<rparr>) (set_frame_color c f # ctx) t"
  using assms by (cases f) (simp_all only: rep_at_up fill.simps frame_addr.simps set_frame_color.simps rep_at_color)

fun set_root_color :: "color \<Rightarrow> 'k rbt \<Rightarrow> 'k rbt" where
  "set_root_color c' Leaf = Leaf"
| "set_root_color c' (Node a l c k r) = Node a l c' k r"

text \<open>The tree of a frame gets another color.\<close>
fun set_uncle_color :: "color \<Rightarrow> 'k frame \<Rightarrow> 'k frame" where
  "set_uncle_color c' (LeftOf a c k r) = LeftOf a c k (set_root_color c' r)"
| "set_uncle_color c' (RightOf a c k l) = RightOf a c k (set_root_color c' l)"

lemma rep_at_uncle_color:
  assumes "rep_at T (f # ctx) t" and "frame_tree f \<noteq> Leaf"
  shows "rep_at (T\<lparr>nodes := set_color (root_of (frame_tree f)) c (nodes T)\<rparr>) (set_uncle_color c f # ctx) t"
proof (cases f)
  case (LeftOf a c' k r)
  obtain u ul uc uk ur where r: "r = Node u ul uc uk ur" using assms(2) LeftOf by (cases r) auto
  have "rep_at T (RightOf a c' k t # ctx) r" using assms(1) LeftOf by (simp add: rep_at_up)
  from rep_at_color [OF this [unfolded r], of c] show ?thesis using LeftOf r by (simp add: rep_at_up)
next
  case (RightOf a c' k l)
  obtain u ul uc uk ur where l: "l = Node u ul uc uk ur" using assms(2) RightOf by (cases l) auto
  have "rep_at T (LeftOf a c' k t # ctx) l" using assms(1) RightOf by (simp add: rep_at_up)
  from rep_at_color [OF this [unfolded l], of c] show ?thesis using RightOf l by (simp add: rep_at_up)
qed

text \<open>What the store says about a node, its parent and its grandparent.\<close>
lemma rep_at_fields:
  assumes "rep_at T (P # G # ctx) t" and "t \<noteq> Leaf"
  shows "parent (nodes T (root_of t)) = frame_addr P" "root_of t \<noteq> 0"
    and "frame_addr P \<noteq> 0" "color (nodes T (frame_addr P)) = frame_color P" "parent (nodes T (frame_addr P)) = frame_addr G"
    and "frame_addr G \<noteq> 0"
    and "left_child (nodes T (frame_addr P)) = (case P of LeftOf a c k r \<Rightarrow> root_of t | RightOf a c k l \<Rightarrow> root_of l)"
    and "right_child (nodes T (frame_addr P)) = (case P of LeftOf a c k r \<Rightarrow> root_of r | RightOf a c k l \<Rightarrow> root_of t)"
    and "left_child (nodes T (frame_addr G)) = (case G of LeftOf a c k r \<Rightarrow> frame_addr P | RightOf a c k l \<Rightarrow> root_of l)"
    and "right_child (nodes T (frame_addr G)) = (case G of LeftOf a c k r \<Rightarrow> root_of r | RightOf a c k l \<Rightarrow> frame_addr P)"
    and "color (nodes T (root_of (frame_tree G))) = (if black (frame_tree G) then Black else Red) \<or> frame_tree G = Leaf"
    and "root_of (frame_tree G) = 0 \<longleftrightarrow> frame_tree G = Leaf"
    and "root_of (frame_tree G) \<noteq> frame_addr P" and "root_of (frame_tree P) \<noteq> root_of t"
proof -
  note at = rep_atD [OF assms(1)]
  obtain x l c k r where t: "t = Node x l c k r" using assms(2) by (cases t) auto
  note f = at(1,2)
  show "parent (nodes T (root_of t)) = frame_addr P" "root_of t \<noteq> 0"
    "frame_addr P \<noteq> 0" "color (nodes T (frame_addr P)) = frame_color P" "parent (nodes T (frame_addr P)) = frame_addr G"
    "frame_addr G \<noteq> 0"
    "left_child (nodes T (frame_addr P)) = (case P of LeftOf a c k r \<Rightarrow> root_of t | RightOf a c k l \<Rightarrow> root_of l)"
    "right_child (nodes T (frame_addr P)) = (case P of LeftOf a c k r \<Rightarrow> root_of r | RightOf a c k l \<Rightarrow> root_of t)"
    "left_child (nodes T (frame_addr G)) = (case G of LeftOf a c k r \<Rightarrow> frame_addr P | RightOf a c k l \<Rightarrow> root_of l)"
    "right_child (nodes T (frame_addr G)) = (case G of LeftOf a c k r \<Rightarrow> root_of r | RightOf a c k l \<Rightarrow> frame_addr P)"
    using f t by (cases P; cases G; simp)+
  have u: "rep (nodes T) (frame_addr G) (frame_tree G)" using f by (cases P; cases G) simp_all
  then show "color (nodes T (root_of (frame_tree G))) = (if black (frame_tree G) then Black else Red) \<or> frame_tree G = Leaf"
    using color.exhaust by (cases "frame_tree G") auto
  show z: "root_of (frame_tree G) = 0 \<longleftrightarrow> frame_tree G = Leaf" using rep_root_0 [OF u] .
  have p: "rep (nodes T) (frame_addr P) (frame_tree P)" using f by (cases P; cases G) simp_all
  show "root_of (frame_tree G) \<noteq> frame_addr P"
  proof
    assume *: "root_of (frame_tree G) = frame_addr P"
    then have "frame_tree G \<noteq> Leaf" using z \<open>frame_addr P \<noteq> 0\<close> by auto
    then have "frame_addr P \<in> set (addrs (frame_tree G))" using root_in_addrs * by metis
    then show False using at(4) by (cases P; cases G) auto
  qed
  show "root_of (frame_tree P) \<noteq> root_of t"
  proof
    assume *: "root_of (frame_tree P) = root_of t"
    then have "frame_tree P \<noteq> Leaf" using rep_root_0 [OF p] \<open>root_of t \<noteq> 0\<close> by auto
    then have "root_of t \<in> set (addrs (frame_tree P))" using root_in_addrs * by metis
    then show False using at(5) [of "root_of t"] t by (cases P) auto
  qed
qed

text \<open>The loop ends at a node without a red parent.\<close>
lemma fixup_step_done:
  assumes "rep_at T ctx t" and "t \<noteq> Leaf" and "ctx = [] \<or> black_top ctx"
  shows "insert_fixup_step (root_of t) T = Inr None"
proof -
  note at = rep_atD [OF assms(1)]
  obtain x l c k r where t: "t = Node x l c k r" using assms(2) by (cases t) auto
  then show ?thesis using at(1,2) assms(3)
    by (cases ctx; cases "hd ctx") (auto simp: insert_fixup_step_def Let_def)
qed

lemma fixup_step_recolor:
  assumes "rep_at T (P # G # ctx) t" and "t \<noteq> Leaf" and "frame_color P = Red" and "\<not> black (frame_tree G)"
  defines "T' \<equiv> fixup_recolor (root_of t) (root_of (frame_tree G)) (frame_addr G) T"
  shows "insert_fixup_step (root_of t) T = Inr (Some (frame_addr G, T'))"
    and "rep_at T' ctx (fill (set_frame_color Red (set_uncle_color Black G)) (fill (set_frame_color Black P) t))"
    and "m_size T' = m_size T" and "m_minimum T' = m_minimum T"
proof -
  note fs = rep_at_fields [OF assms(1,2)]
  have u: "frame_tree G \<noteq> Leaf" using assms(4) by auto
  then have ur: "root_of (frame_tree G) \<noteq> 0" "color (nodes T (root_of (frame_tree G))) = Red" using fs(11,12) assms(4) by auto
  show "insert_fixup_step (root_of t) T = Inr (Some (frame_addr G, T'))"
    using fs(1-10,13) ur assms(3) by (cases G) (simp_all add: insert_fixup_step_def Let_def T'_def)
  let ?T1 = "T\<lparr>nodes := set_color (frame_addr P) Black (nodes T)\<rparr>"
  have 1: "rep_at ?T1 (G # ctx) (fill (set_frame_color Black P) t)"
    using rep_at_frame_color [OF assms(1), of Black] by (simp add: rep_at_up)
  from rep_at_frame_color [OF rep_at_uncle_color [OF this u, of Black], of Red]
  show "rep_at T' ctx (fill (set_frame_color Red (set_uncle_color Black G)) (fill (set_frame_color Black P) t))"
    using fs(1) by (cases G) (simp_all add: T'_def fixup_recolor_def rep_at_up)
qed (simp_all add: T'_def fixup_recolor_def)


text \<open>What a rotation round makes of the grandparent, the parent and the node.\<close>
fun rotated :: "'k frame \<Rightarrow> 'k frame \<Rightarrow> 'k rbt \<Rightarrow> 'k rbt" where
  "rotated (RightOf g cg kg u) (RightOf p cp kp l) t = Node p (Node g u Red kg l) Black kp t"
| "rotated (RightOf g cg kg u) (LeftOf p cp kp r) (Node x a c k b) = Node x (Node g u Red kg a) Black k (Node p b cp kp r)"
| "rotated (LeftOf g cg kg u) (LeftOf p cp kp r) t = Node p t Black kp (Node g r Red kg u)"
| "rotated (LeftOf g cg kg u) (RightOf p cp kp l) (Node x a c k b) = Node x (Node p l cp kp a) Black k (Node g b Red kg u)"
| "rotated G P Leaf = Leaf"

text \<open>The node of the next round is a child of the black node on top.\<close>
definition next_round :: "(addr \<times> 'k rb_tree) result \<Rightarrow> 'k rb_tree \<Rightarrow> 'k frame list \<Rightarrow> 'k rbt \<Rightarrow> bool" where
  "next_round res T ctx t \<longleftrightarrow> (\<exists>T' f s. res = Inr (root_of s, T') \<and> rep_at T' (f # ctx) s \<and> s \<noteq> Leaf \<and>
     frame_color f = Black \<and> fill f s = t \<and> m_size T' = m_size T \<and> m_minimum T' = m_minimum T)"

lemma next_roundI:
  assumes "rep_at T' (f # ctx) s" and "s \<noteq> Leaf" and "frame_color f = Black" and "fill f s = t"
    and "m_size T' = m_size T" and "m_minimum T' = m_minimum T" and "res = Inr (root_of s, T')"
  shows "next_round res T ctx t"
  using assms unfolding next_round_def by blast

text \<open>The last part of a round: the parent becomes black, the grandparent red, and the parent moves up.\<close>
lemma fixup_up_left:
  assumes "rep_at T (RightOf p cp kp l # RightOf g cg kg u # ctx) t"
  defines "T1 \<equiv> T\<lparr>nodes := set_color g Red (set_color p Black (nodes T))\<rparr>"
  shows "\<exists>T'. rotate_left g T1 = Inr T' \<and> rep_at T' (RightOf p Black kp (Node g u Red kg l) # ctx) t \<and>
    m_size T' = m_size T \<and> m_minimum T' = m_minimum T"
proof -
  have "rep_at (T\<lparr>nodes := set_color p Black (nodes T)\<rparr>) (RightOf p Black kp l # RightOf g cg kg u # ctx) t"
    using rep_at_frame_color [OF assms(1), of Black] by simp
  then have "rep_at (T\<lparr>nodes := set_color p Black (nodes T)\<rparr>) ctx (Node g u cg kg (Node p l Black kp t))" by (simp add: rep_at_up)
  from rep_at_color [OF this, of Red] have "rep_at T1 ctx (Node g u Red kg (Node p l Black kp t))" by (simp add: T1_def)
  from rotate_left_ok [OF this] show ?thesis by (auto simp: rep_at_up T1_def)
qed

lemma fixup_up_right:
  assumes "rep_at T (LeftOf p cp kp r # LeftOf g cg kg u # ctx) t"
  defines "T1 \<equiv> T\<lparr>nodes := set_color g Red (set_color p Black (nodes T))\<rparr>"
  shows "\<exists>T'. rotate_right g T1 = Inr T' \<and> rep_at T' (LeftOf p Black kp (Node g r Red kg u) # ctx) t \<and>
    m_size T' = m_size T \<and> m_minimum T' = m_minimum T"
proof -
  have "rep_at (T\<lparr>nodes := set_color p Black (nodes T)\<rparr>) (LeftOf p Black kp r # LeftOf g cg kg u # ctx) t"
    using rep_at_frame_color [OF assms(1), of Black] by simp
  then have "rep_at (T\<lparr>nodes := set_color p Black (nodes T)\<rparr>) ctx (Node g (Node p t Black kp r) cg kg u)" by (simp add: rep_at_up)
  from rep_at_color [OF this, of Red] have "rep_at T1 ctx (Node g (Node p t Black kp r) Red kg u)" by (simp add: T1_def)
  from rotate_right_ok [OF this] show ?thesis by (auto simp: rep_at_up T1_def)
qed

lemma fixup_rotate_left_ok:
  assumes "rep_at T (P # RightOf g cg kg u # ctx) t" and "t \<noteq> Leaf"
  shows "next_round (fixup_rotate_left (root_of t) g T) T ctx (rotated (RightOf g cg kg u) P t)"
proof (cases P)
  case (RightOf p cp kp l)
  note fs = rep_at_fields [OF assms]
  obtain T' where "rotate_left g (T\<lparr>nodes := set_color g Red (set_color p Black (nodes T))\<rparr>) = Inr T'"
    and *: "rep_at T' (RightOf p Black kp (Node g u Red kg l) # ctx) t" "m_size T' = m_size T" "m_minimum T' = m_minimum T"
    using fixup_up_left [OF assms(1) [unfolded RightOf]] by auto
  then show ?thesis using fs(1,3,7,14) assms(2) RightOf
    by (intro next_roundI [OF *(1) assms(2) _ _ *(2,3)]) (simp_all add: fixup_rotate_left_def)
next
  case (LeftOf p cp kp r)
  obtain x a c k b where t: "t = Node x a c k b" using assms(2) by (cases t) auto
  note fs = rep_at_fields [OF assms]
  have "rep_at T (RightOf g cg kg u # ctx) (Node p (Node x a c k b) cp kp r)" using assms(1) LeftOf t by (simp add: rep_at_up)
  from rotate_right_ok [OF this] obtain T1 where rot: "rotate_right p T = Inr T1"
    and 1: "rep_at T1 (RightOf x c k a # RightOf g cg kg u # ctx) (Node p b cp kp r)"
    and eq: "m_size T1 = m_size T" "m_minimum T1 = m_minimum T" by (auto simp: rep_at_up)
  note fs1 = rep_at_fields [OF 1]
  obtain T' where "rotate_left g (T1\<lparr>nodes := set_color g Red (set_color x Black (nodes T1))\<rparr>) = Inr T'"
    and *: "rep_at T' (RightOf x Black k (Node g u Red kg a) # ctx) (Node p b cp kp r)" "m_size T' = m_size T1" "m_minimum T' = m_minimum T1"
    using fixup_up_left [OF 1] by auto
  then show ?thesis using fs(1,2,3,7) fs1(1,3) rot LeftOf t eq
    by (intro next_roundI [OF *(1)]) (simp_all add: fixup_rotate_left_def)
qed

lemma fixup_rotate_right_ok:
  assumes "rep_at T (P # LeftOf g cg kg u # ctx) t" and "t \<noteq> Leaf"
  shows "next_round (fixup_rotate_right (root_of t) g T) T ctx (rotated (LeftOf g cg kg u) P t)"
proof (cases P)
  case (LeftOf p cp kp r)
  note fs = rep_at_fields [OF assms]
  obtain T' where "rotate_right g (T\<lparr>nodes := set_color g Red (set_color p Black (nodes T))\<rparr>) = Inr T'"
    and *: "rep_at T' (LeftOf p Black kp (Node g r Red kg u) # ctx) t" "m_size T' = m_size T" "m_minimum T' = m_minimum T"
    using fixup_up_right [OF assms(1) [unfolded LeftOf]] by auto
  then show ?thesis using fs(1,3,8,14) assms(2) LeftOf
    by (intro next_roundI [OF *(1) assms(2) _ _ *(2,3)]) (simp_all add: fixup_rotate_right_def)
next
  case (RightOf p cp kp l)
  obtain x a c k b where t: "t = Node x a c k b" using assms(2) by (cases t) auto
  note fs = rep_at_fields [OF assms]
  have "rep_at T (LeftOf g cg kg u # ctx) (Node p l cp kp (Node x a c k b))" using assms(1) RightOf t by (simp add: rep_at_up)
  from rotate_left_ok [OF this] obtain T1 where rot: "rotate_left p T = Inr T1"
    and 1: "rep_at T1 (LeftOf x c k b # LeftOf g cg kg u # ctx) (Node p l cp kp a)"
    and eq: "m_size T1 = m_size T" "m_minimum T1 = m_minimum T" by (auto simp: rep_at_up)
  note fs1 = rep_at_fields [OF 1]
  obtain T' where "rotate_right g (T1\<lparr>nodes := set_color g Red (set_color x Black (nodes T1))\<rparr>) = Inr T'"
    and *: "rep_at T' (LeftOf x Black k (Node g b Red kg u) # ctx) (Node p l cp kp a)" "m_size T' = m_size T1" "m_minimum T' = m_minimum T1"
    using fixup_up_right [OF 1] by auto
  then show ?thesis using fs(1,2,3,8) fs1(1,3) rot RightOf t eq
    by (intro next_roundI [OF *(1)]) (simp_all add: fixup_rotate_right_def)
qed

lemma fixup_step_rotate:
  assumes "rep_at T (P # G # ctx) t" and "t \<noteq> Leaf" and "frame_color P = Red" and "black (frame_tree G)"
  shows "\<exists>T' f s. insert_fixup_step (root_of t) T = Inr (Some (root_of s, T')) \<and> rep_at T' (f # ctx) s \<and> s \<noteq> Leaf \<and>
     frame_color f = Black \<and> fill f s = rotated G P t \<and> m_size T' = m_size T \<and> m_minimum T' = m_minimum T"
proof -
  note fs = rep_at_fields [OF assms(1,2)]
  show ?thesis
  proof (cases G)
    case (RightOf g cg kg u)
    then have "insert_fixup_step (root_of t) T = bindR (fixup_rotate_left (root_of t) g T) (\<lambda>next. Inr (Some next))"
      using fs assms(3,4) by (auto simp: insert_fixup_step_def Let_def)
    then show ?thesis using fixup_rotate_left_ok [OF assms(1) [unfolded RightOf] assms(2)] RightOf by (auto simp: next_round_def) blast
  next
    case (LeftOf g cg kg u)
    then have "insert_fixup_step (root_of t) T = bindR (fixup_rotate_right (root_of t) g T) (\<lambda>next. Inr (Some next))"
      using fs assms(3,4) by (auto simp: insert_fixup_step_def Let_def)
    then show ?thesis using fixup_rotate_right_ok [OF assms(1) [unfolded LeftOf] assms(2)] LeftOf by (auto simp: next_round_def) blast
  qed
qed


section \<open>The loop\<close>

lemma rotated_tree:
  assumes "t \<noteq> Leaf" and "\<not> black t" and "rb h t" and "rb_ctx h (P # G # ctx)" and "frame_color P = Red" and "black (frame_tree G)"
  shows "rb (Suc h) (rotated G P t)" and "black (rotated G P t)" and "rb_ctx (Suc h) ctx"
proof -
  obtain x a k b where t: "t = Node x a Red k b" using assms(1,2) color.exhaust by (cases t) auto
  show "rb (Suc h) (rotated G P t)" "black (rotated G P t)" "rb_ctx (Suc h) ctx"
    using assms t by (cases G; cases P; auto split: if_splits)+
qed

lemma elems_rotated: "t \<noteq> Leaf \<Longrightarrow> elems (rotated G P t) = elems (fill G (fill P t))"
  by (cases t; cases G; cases P) simp_all

lemma rotated_not_Leaf: "t \<noteq> Leaf \<Longrightarrow> rotated G P t \<noteq> Leaf"
  by (cases t; cases G; cases P) simp_all

lemma min_is_leaf_rotated: "t \<noteq> Leaf \<Longrightarrow> min_is_leaf (fill G (fill P t)) \<longrightarrow> min_is_leaf (rotated G P t)"
  by (cases t; cases G; cases P) (simp_all add: min_is_leaf_Node)

lemma recolored_tree:
  assumes "t \<noteq> Leaf" and "\<not> black t" and "rb h t" and "rb_ctx h (P # G # ctx)" and "frame_color P = Red" and "\<not> black (frame_tree G)"
  shows "rb (Suc h) (fill (set_frame_color Red (set_uncle_color Black G)) (fill (set_frame_color Black P) t))" and "rb_ctx (Suc h) ctx"
proof -
  obtain x a k b where t: "t = Node x a Red k b" using assms(1,2) color.exhaust by (cases t) auto
  obtain y l k' r where u: "frame_tree G = Node y l Red k' r" using assms(6) color.exhaust by (cases "frame_tree G") auto
  show "rb (Suc h) (fill (set_frame_color Red (set_uncle_color Black G)) (fill (set_frame_color Black P) t))" "rb_ctx (Suc h) ctx"
    using assms t u by (cases G; cases P; auto split: if_splits)+
qed

lemma set_root_color_simps [simp]:
  "elems (set_root_color c t) = elems t" "set_root_color c t = Leaf \<longleftrightarrow> t = Leaf"
  by (cases t; simp)+

lemma elems_recolored: "elems (fill (set_frame_color c (set_uncle_color c' G)) (fill (set_frame_color c'' P) t)) = elems (fill G (fill P t))"
  by (cases G; cases P) simp_all

lemma min_is_leaf_color [simp]: "min_is_leaf (set_root_color c t) = min_is_leaf t"
  by (cases t) (simp_all add: min_is_leaf_Node)

lemma min_is_leaf_recolored:
  "min_is_leaf (fill (set_frame_color c (set_uncle_color c' G)) (fill (set_frame_color c'' P) t)) = min_is_leaf (fill G (fill P t))"
  by (cases G; cases P) (auto simp: min_is_leaf_Node)

text \<open>What the loop leaves at a place.\<close>
definition fixed_up :: "'k rb_tree result \<Rightarrow> 'k rb_tree \<Rightarrow> 'k rbt \<Rightarrow> bool" where
  "fixed_up res T t \<longleftrightarrow> (\<exists>T' t' h. res = Inr T' \<and> rep_tree T' t' \<and> t' \<noteq> Leaf \<and> rb h t' \<and> elems t' = elems t \<and>
     (min_is_leaf t \<longrightarrow> min_is_leaf t') \<and> m_size T' = m_size T \<and> m_minimum T' = m_minimum T)"

lemma fixed_upI:
  assumes "rep_tree T' t'" and "t' \<noteq> Leaf" and "rb h t'" and "elems t' = elems t" and "min_is_leaf t \<longrightarrow> min_is_leaf t'"
    and "m_size T' = m_size T" and "m_minimum T' = m_minimum T" and "res = Inr T'"
  shows "fixed_up res T t"
  using assms unfolding fixed_up_def by blast

lemma plug_not_Leaf [simp]: "t \<noteq> Leaf \<Longrightarrow> plug ctx t \<noteq> Leaf"
  by (induction ctx arbitrary: t) simp_all

lemma fixups_loop_ok:
  assumes "rep_at T ctx t" and "t \<noteq> Leaf" and "\<not> black t" and "rb h t" and "rb_ctx h ctx" and "length ctx + 2 \<le> fuel"
  shows "fixed_up (insert_fixups_loop fuel (root_of t) T) T (plug ctx t)"
  using assms
proof (induction "length ctx" arbitrary: ctx t T h fuel rule: less_induct)
  case less
  obtain fuel' where fuel: "fuel = Suc (Suc fuel')" using less.prems(6) by (cases fuel; cases "fuel - 1") auto
  consider "ctx = [] \<or> black_top ctx" | P G ctx' where "ctx = P # G # ctx'" "frame_color P = Red"
    using less.prems(5) color.exhaust by (cases ctx; cases "tl ctx") (auto split: if_splits)
  then show ?case
  proof cases
    case 1
    obtain h' where "rb h' (plug ctx t)" using rb_plug [OF less.prems(5,4)] 1 by auto
    then show ?thesis using less.prems(1,2) fixup_step_done [OF less.prems(1,2) 1] fuel
      by (intro fixed_upI [of T "plug ctx t" h']) (simp_all add: rep_at_def)
  next
    case (2 P G ctx')
    note prems = less.prems(1,5) [unfolded 2(1)]
    show ?thesis
    proof (cases "black (frame_tree G)")
      case True
      obtain T' f s where step: "insert_fixup_step (root_of t) T = Inr (Some (root_of s, T'))" and at: "rep_at T' (f # ctx') s"
        and s: "s \<noteq> Leaf" "frame_color f = Black" "fill f s = rotated G P t" and eq: "m_size T' = m_size T" "m_minimum T' = m_minimum T"
        using fixup_step_rotate [OF prems(1) less.prems(2) 2(2) True] by auto
      have loop: "insert_fixups_loop fuel (root_of t) T = Inr T'"
        using step fixup_step_done [OF at s(1)] s(2) fuel by simp
      note tree = rotated_tree [OF less.prems(2,3,4) prems(2) 2(2) True]
      obtain h' where "rb h' (plug ctx' (rotated G P t))" using rb_plug [OF tree(3,1)] tree(2) by auto
      moreover have "min_is_leaf (plug ctx t) \<longrightarrow> min_is_leaf (plug ctx' (rotated G P t))"
        using min_is_leaf_plug [OF _ rotated_not_Leaf min_is_leaf_rotated] less.prems(2) 2(1) by simp
      moreover have "rep_tree T' (plug ctx' (rotated G P t))" using at s(3) by (simp add: rep_at_def)
      ultimately show ?thesis using eq loop less.prems(2) 2(1)
        by (intro fixed_upI [of T' "plug ctx' (rotated G P t)" h']) (simp_all add: rotated_not_Leaf elems_plug elems_rotated)
    next
      case False
      let ?t = "fill (set_frame_color Red (set_uncle_color Black G)) (fill (set_frame_color Black P) t)"
      define T' where "T' = fixup_recolor (root_of t) (root_of (frame_tree G)) (frame_addr G) T"
      note step = fixup_step_recolor [OF prems(1) less.prems(2) 2(2) False, folded T'_def]
      note tree = recolored_tree [OF less.prems(2,3,4) prems(2) 2(2) False]
      have g: "root_of ?t = frame_addr G" by (cases G) simp_all
      have "fixed_up (insert_fixups_loop (Suc fuel') (root_of ?t) T') T' (plug ctx' ?t)"
        using step(2) tree less.prems(6) 2(1) fuel
        by (intro less.hyps [of ctx' T' ?t "Suc h"]) (simp_all add: black_fill, cases G, simp_all)
      moreover have "min_is_leaf (plug ctx t) \<longrightarrow> min_is_leaf (plug ctx' ?t)"
        using min_is_leaf_plug [of "fill G (fill P t)" ?t ctx'] 2(1) by (simp add: min_is_leaf_recolored)
      ultimately show ?thesis using step(1,3,4) fuel 2(1) g unfolding fixed_up_def by (simp add: elems_plug elems_recolored) blast
    qed
  qed
qed


section \<open>The place of a new node\<close>

fun descend :: "'k::linorder \<Rightarrow> 'k rbt \<Rightarrow> 'k frame list \<Rightarrow> 'k frame list" where
  "descend k Leaf ctx = ctx"
| "descend k (Node a l c k' r) ctx = (if k < k' then descend k l (LeftOf a c k' r # ctx) else descend k r (RightOf a c k' l # ctx))"

lemma plug_descend: "plug (descend k t ctx) Leaf = plug ctx t"
  by (induction t arbitrary: ctx) simp_all

lemma insert_parent_ok:
  "rep n p t \<Longrightarrow> length (elems t) < fuel \<Longrightarrow> top_addr ctx = p \<Longrightarrow>
   insert_parent fuel n k p (root_of t) = Inr (top_addr (descend k t ctx))"
proof (induction t arbitrary: fuel p ctx)
  case Leaf
  then show ?case by (cases fuel) simp_all
next
  case (Node a l c k' r)
  then obtain fuel' where "fuel = Suc fuel'" by (cases fuel) auto
  then show ?case using Node.prems Node.IH(1) [of a fuel' "LeftOf a c k' r # ctx"] Node.IH(2) [of a fuel' "RightOf a c k' l # ctx"] by simp
qed

lemma elems_descend:
  "sorted_by snd (elems t) \<Longrightarrow>
   elems (plug (descend k t ctx) (Node x Leaf c k Leaf)) = before ctx @ insert_by snd (x, k) (elems t) @ after ctx"
proof (induction t arbitrary: ctx)
  case Leaf
  then show ?case by (simp add: elems_plug)
next
  case (Node a l c' k' r)
  have s: "sorted_by snd (elems l)" "sorted_by snd (elems r)" "\<forall>q \<in> set (elems l). snd q \<le> k'" "\<forall>q \<in> set (elems r). k' \<le> snd q"
    using Node.prems by (auto simp: sorted_append)
  show ?case
  proof (cases "k < k'")
    case True
    then have "\<forall>q \<in> set ((a, k') # elems r). snd (x, k) < snd q" using s(4) by auto
    then show ?thesis using True Node.IH(1) [OF s(1), of "LeftOf a c' k' r # ctx"] insert_by_left [of "(a, k') # elems r" snd "(x, k)" "elems l"] by simp
  next
    case False
    then have "\<forall>q \<in> set (elems l @ [(a, k')]). snd q \<le> snd (x, k)" using s(3) by auto
    then show ?thesis using False Node.IH(2) [OF s(2), of "RightOf a c' k' l # ctx"] insert_by_right [of "elems l @ [(a, k')]" snd "(x, k)" "elems r"] by simp
  qed
qed

text \<open>The code compares with the parent again to choose the link.\<close>
fun side_ok :: "'k::linorder \<Rightarrow> 'k frame list \<Rightarrow> bool" where
  "side_ok k [] \<longleftrightarrow> True"
| "side_ok k (LeftOf a c k' r # ctx) \<longleftrightarrow> k < k'"
| "side_ok k (RightOf a c k' l # ctx) \<longleftrightarrow> \<not> k < k'"

lemma side_ok_descend: "side_ok k ctx \<Longrightarrow> side_ok k (descend k t ctx)"
  by (induction t arbitrary: ctx) simp_all

text \<open>Linking a node at a place without a tree.\<close>
lemma rep_at_link:
  assumes "rep_at T (f # ctx) Leaf" and "x \<noteq> 0" and "x \<notin> set (ctx_addrs (f # ctx))"
    and "nodes T x = \<lparr>left_child = 0, right_child = 0, parent = p, color = c, key = k\<rparr>"
  defines "n \<equiv> set_parent x (frame_addr f)
    (case f of LeftOf a _ _ _ \<Rightarrow> set_left a x (nodes T) | RightOf a _ _ _ \<Rightarrow> set_right a x (nodes T))"
  shows "rep_at (T\<lparr>nodes := n\<rparr>) (f # ctx) (Node x Leaf c k Leaf)"
proof (rule rep_atI [where n = n])
  note at = rep_atD [OF assms(1)]
  have far: "n z = nodes T z" if "z \<noteq> x" "z \<noteq> frame_addr f" for z
    using that by (cases f) (simp_all add: n_def set_simps)
  have ne: "frame_addr f \<noteq> x" using assms(3) by (cases f) auto
  show "rep n (top_addr (f # ctx)) (Node x Leaf c k Leaf)"
    using assms(2,4) ne by (cases f) (simp_all add: n_def set_simps)
  have "rep n (frame_addr f) (frame_tree f)" using at(1,4) assms(3) by (cases f) (auto intro!: rep_agree [of "nodes T"] far)
  moreover have "rep_ctx n ctx (frame_addr f)" using at(1,4) assms(3) by (cases f) (auto intro!: rep_ctx_agree [of "nodes T"] far)
  ultimately show "rep_ctx n (f # ctx) (root_of (Node x Leaf c k Leaf))"
    using at(1) ne by (cases f) (simp_all add: n_def set_simps)
  show "distinct (addrs (Node x Leaf c k Leaf) @ ctx_addrs (f # ctx))" using at(4) assms(3) by simp
  show "m_root (T\<lparr>nodes := n\<rparr>) = root_of (plug (f # ctx) (Node x Leaf c k Leaf))"
    using at(6) root_of_plug [of f ctx Leaf "Node x Leaf c k Leaf"] by simp
qed simp


section \<open>Inserting\<close>

text \<open>The loop and the root turned black.\<close>
lemma insert_fixups_ok:
  assumes "rep_at T ctx t" and "t \<noteq> Leaf" and "\<not> black t" and "rb h t" and "rb_ctx h ctx" and "length ctx \<le> m_size T"
  shows "\<exists>T' t' h. insert_fixups (root_of t) T = Inr T' \<and> rep_tree T' t' \<and> rb h t' \<and> black t' \<and> elems t' = elems (plug ctx t) \<and>
    (min_is_leaf (plug ctx t) \<longrightarrow> min_is_leaf t') \<and> m_size T' = m_size T \<and> m_minimum T' = m_minimum T"
proof -
  obtain T1 t1 h1 where loop: "insert_fixups_loop (Suc (Suc (m_size T))) (root_of t) T = Inr T1"
    and t1: "rep_tree T1 t1" "t1 \<noteq> Leaf" "rb h1 t1" "elems t1 = elems (plug ctx t)" "min_is_leaf (plug ctx t) \<longrightarrow> min_is_leaf t1"
    and eq: "m_size T1 = m_size T" "m_minimum T1 = m_minimum T"
    using fixups_loop_ok [OF assms(1-5), of "Suc (Suc (m_size T))"] assms(6) unfolding fixed_up_def by auto
  obtain x l c k r where x: "t1 = Node x l c k r" using t1(2) by (cases t1) auto
  define T' where "T' = T1\<lparr>nodes := set_color x Black (nodes T1)\<rparr>"
  have root: "m_root T1 = x" "x \<noteq> 0" using t1(1) x by (auto simp: rep_tree_def)
  have "rep_at T1 [] (Node x l c k r)" using t1(1) x by (simp add: rep_at_def)
  from rep_at_color [OF this, of Black] have "rep_tree T' (Node x l Black k r)" by (simp add: rep_at_def T'_def)
  moreover obtain h' where "rb h' (Node x l Black k r)" using rb_blacken [OF t1(3) [unfolded x]] by auto
  moreover have "insert_fixups (root_of t) T = Inr T'"
  proof -
    obtain y a c' k' b where t: "t = Node y a c' k' b" using assms(2) by (cases t) auto
    then have "c' = Red" using assms(3) color.exhaust by auto
    then have "y \<noteq> 0" "color (nodes T y) = Red" using rep_atD(2) [OF assms(1)] t by simp_all
    then show ?thesis using loop root t by (simp add: insert_fixups_def T'_def)
  qed
  moreover have "m_size T' = m_size T" "m_minimum T' = m_minimum T" using eq by (simp_all add: T'_def)
  moreover have "elems (Node x l Black k r) = elems (plug ctx t)" "min_is_leaf (plug ctx t) \<longrightarrow> min_is_leaf (Node x l Black k r)"
    using t1(4,5) x by (simp_all add: min_is_leaf_Node)
  ultimately show ?thesis by (meson black.simps(2))
qed

definition fresh_node :: "'k rb_tree \<Rightarrow> addr \<Rightarrow> 'k \<Rightarrow> bool" where
  "fresh_node T x k \<longleftrightarrow> x \<noteq> 0 \<and> nodes T x = new_node k"

lemma insert_into_empty:
  assumes "tree_holds T []" and "fresh_node T x k"
  shows "\<exists>T'. rb_insert x T = Inr T' \<and> tree_holds T' [(x, k)]"
proof -
  define T' where "T' = T\<lparr>nodes := set_color x Black (nodes T), m_root := x, m_size := 1, m_minimum := x\<rparr>"
  obtain t h where "rep_tree T t" "elems t = []" using assms(1) by (rule tree_holdsE)
  then have "m_root T = 0" by (simp add: rep_tree_def)
  then have "rb_insert x T = Inr T'" using assms(2) by (simp add: rb_insert_def fresh_node_def T'_def)
  moreover have "tree_holds T' [(x, k)]"
    using assms(2) by (intro tree_holdsI [of _ "Node x Leaf Black k Leaf" 1])
      (simp_all add: T'_def rep_tree_def fresh_node_def new_node_def set_color_def)
  ultimately show ?thesis by blast
qed

text \<open>Linking the node below its parent, and the fixups where the tree is higher than two.\<close>
lemma insert_link:
  assumes "rep_at T (f # ctx) Leaf" and "rb h (plug (f # ctx) Leaf)" and "black (plug (f # ctx) Leaf)" and "side_ok k (f # ctx)"
    and "fresh_node T x k" and "x \<notin> set (ctx_addrs (f # ctx))" and "length (elems (plug (f # ctx) Leaf)) = m_size T"
  defines "n \<equiv> set_parent x (frame_addr f) (if key (nodes T x) < key (nodes T (frame_addr f)) then set_left (frame_addr f) x (nodes T)
    else set_right (frame_addr f) x (nodes T))"
  defines "T2 \<equiv> T\<lparr>nodes := n\<rparr>"
  shows "\<exists>T' t' h'. (if parent (n (parent (n x))) \<noteq> 0 then insert_fixups x T2 else Inr T2) = Inr T' \<and> rep_tree T' t' \<and> rb h' t' \<and> black t' \<and>
    elems t' = elems (plug (f # ctx) (Node x Leaf Red k Leaf)) \<and>
    (min_is_leaf (plug (f # ctx) (Node x Leaf Red k Leaf)) \<longrightarrow> min_is_leaf t') \<and> m_size T' = m_size T \<and> m_minimum T' = m_minimum T"
proof -
  let ?t = "Node x Leaf Red k Leaf"
  have nx: "nodes T x = \<lparr>left_child = 0, right_child = 0, parent = 0, color = Red, key = k\<rparr>" and x0: "x \<noteq> 0"
    using assms(5) by (simp_all add: fresh_node_def new_node_def)
  have n: "n = set_parent x (frame_addr f) (case f of LeftOf a _ _ _ \<Rightarrow> set_left a x (nodes T) | RightOf a _ _ _ \<Rightarrow> set_right a x (nodes T))"
    using rep_atD(1) [OF assms(1)] assms(4) nx by (cases f) (simp_all add: n_def)
  have at: "rep_at T2 (f # ctx) ?t" using rep_at_link [OF assms(1) x0 assms(6) nx] unfolding T2_def n by simp
  obtain h' where ctx: "rb_ctx h' (f # ctx)" "rb h' (Leaf :: 'a rbt)" using rb_unplug [OF assms(2,3)] by auto
  then have t: "rb h' ?t" by simp
  have up: "parent (n x) = frame_addr f" "parent (n (frame_addr f)) = top_addr ctx" "top_addr ctx = 0 \<longleftrightarrow> ctx = []"
    using rep_atD(1,2) [OF at] by (cases f; cases ctx; cases "hd ctx"; simp add: T2_def)+
  show ?thesis
  proof (cases "ctx = []")
    case True
    then have f: "black_top (f # ctx)" using ctx(1) color.exhaust by (auto split: if_splits)
    then obtain h'' where "rb h'' (plug (f # ctx) ?t)" "black (plug (f # ctx) ?t)" using rb_plug [OF ctx(1) t] by auto
    then show ?thesis using at up True by (intro exI [of _ T2] exI [of _ "plug (f # ctx) ?t"] exI [of _ h'']) (simp add: rep_at_def T2_def)
  next
    case False
    have "length (f # ctx) \<le> m_size T2" using length_ctx [of "f # ctx" Leaf] assms(7) by (simp add: T2_def)
    then show ?thesis using insert_fixups_ok [OF at _ _ t ctx(1)] False up by (simp add: T2_def)
  qed
qed

text \<open>The new node is the left child of the old minimum exactly if it is the new one.\<close>
lemma insert_minimum:
  assumes "plug (f # ctx) Leaf = t" and "elems t = e # es" and "x \<notin> fst ` set (e # es)" and "x \<noteq> 0"
    and "rep_tree T' t'" and "elems t' = insert_by snd (x, k) (e # es)" and "elems t' = elems (plug (f # ctx) (Node x Leaf Red k Leaf))"
    and "min_is_leaf (plug (f # ctx) (Node x Leaf Red k Leaf)) \<longrightarrow> min_is_leaf t'"
  shows "left_child (nodes T' (fst e)) = x \<longleftrightarrow> k < snd e"
proof (cases "k < snd e")
  case True
  have es: "before (f # ctx) @ after (f # ctx) = e # es" "before (f # ctx) @ (x, k) # after (f # ctx) = (x, k) # e # es"
    using assms(1,2,6,7) True elems_plug [of "f # ctx"] by auto
  have "before (f # ctx) = []"
  proof (cases "before (f # ctx)")
    case (Cons y ys)
    then have "y = (x, k)" "y = e" using es by simp_all
    then show ?thesis using assms(3) by auto
  qed
  then have "min_is_leaf t'" using assms(8) min_is_leaf_first [of "f # ctx" "Node x Leaf Red k Leaf"] by simp
  then show ?thesis using min_is_leaf_second [of "nodes T'" 0 t' "(x, k)" e es] assms(5,6) True by (simp add: rep_tree_def)
next
  case False
  then show ?thesis using first_no_left [of "nodes T'" 0 t' e] assms(4,5,6) by (simp add: rep_tree_def)
qed

lemma rb_insert_ok:
  assumes "tree_holds T es" and "fresh_node T x k" and "x \<notin> fst ` set es" and "Suc (length es) < size_limit"
  shows "\<exists>T'. rb_insert x T = Inr T' \<and> tree_holds T' (insert_by snd (x, k) es)"
proof (cases es)
  case Nil
  then show ?thesis using insert_into_empty assms by simp
next
  case (Cons e es')
  obtain t h where t: "rep_tree T t" "rb h t" "black t" "elems t = es" and s: "sorted_by snd es"
    and len: "m_size T = length es" and mn: "m_minimum T = fst e" using assms(1) Cons by (auto elim!: tree_holdsE)
  let ?new = "Node x Leaf Red k Leaf"
  have k: "key (nodes T x) = k" using assms(2) by (simp add: fresh_node_def new_node_def)
  have parent: "insert_parent (Suc (m_size T)) (nodes T) k 0 (m_root T) = Inr (top_addr (descend k t []))"
    using t len insert_parent_ok [of "nodes T" 0 t "Suc (m_size T)" "[]" k] by (simp only: rep_tree_def top_addr.simps)
  have plug: "plug (descend k t []) Leaf = t" by (simp add: plug_descend)
  then obtain f ctx where d: "descend k t [] = f # ctx" using t(4) Cons by (cases "descend k t []") auto
  have at: "rep_at T (f # ctx) Leaf" using t(1) plug d by (simp add: rep_at_def)
  have new: "x \<notin> set (ctx_addrs (f # ctx))"
    using assms(3) t(4) mset_addrs_plug [of "f # ctx" Leaf] plug d map_fst_elems [of t] by (metis add_0 addrs.simps(1) list.set_map mset.simps(1) set_mset_mset)
  have up: "top_addr (f # ctx) \<noteq> 0" using rep_atD(1) [OF at] by (cases f) simp_all
  define n where "n = set_parent x (frame_addr f) (if key (nodes T x) < key (nodes T (frame_addr f)) then set_left (frame_addr f) x (nodes T)
    else set_right (frame_addr f) x (nodes T))"
  obtain T3 t3 h3 where up3: "(if parent (n (parent (n x))) \<noteq> 0 then insert_fixups x (T\<lparr>nodes := n\<rparr>) else Inr (T\<lparr>nodes := n\<rparr>)) = Inr T3"
    and t3: "rep_tree T3 t3" "rb h3 t3" "black t3" "elems t3 = elems (plug (f # ctx) ?new)" "min_is_leaf (plug (f # ctx) ?new) \<longrightarrow> min_is_leaf t3"
    and eq: "m_size T3 = m_size T" "m_minimum T3 = m_minimum T"
    using insert_link [OF at, of h k x] t(2-4) plug d assms(2) new len side_ok_descend [of k "[]" t] unfolding n_def by auto
  have es3: "elems t3 = insert_by snd (x, k) es" using t3(4) elems_descend [of t k "[]" x Red] s t(4) d by simp
  have "left_child (nodes T3 (fst e)) = x \<longleftrightarrow> k < snd e"
    using insert_minimum [of f ctx t e es' x T3 t3 k] t(4) plug d assms(2,3) Cons es3 t3 by (simp add: fresh_node_def)
  moreover have "fst e \<noteq> 0" using rep_addrs_nonzero [of "nodes T" 0 t] t(1,4) Cons by (auto simp: rep_tree_def simp flip: map_fst_elems)
  moreover have "rb_insert x T = (if left_child (nodes T3 (fst e)) = x then Inr (T3\<lparr>m_size := length es + 1, m_minimum := x\<rparr>)
      else Inr (T3\<lparr>m_size := length es + 1\<rparr>))" if "fst e \<noteq> 0"
  proof -
    have up': "insert_parent (Suc (m_size T)) (nodes T) (key (nodes T x)) 0 (m_root T) = Inr (frame_addr f)"
      using parent by (simp only: k d top_addr.simps)
    have "rb_insert x T = (let t4 = T3\<lparr>m_size := size_add (m_size T3) 1\<rparr> in if m_minimum t4 = 0 then Inl OutOfBounds
        else if left_child (nodes t4 (m_minimum t4)) = x then Inr (t4\<lparr>m_minimum := x\<rparr>) else Inr t4)"
      using assms(2) up unfolding rb_insert_def Let_def up' bindR.simps n_def [symmetric] up3 by (simp add: fresh_node_def)
    then show ?thesis using that eq mn len assms(4) by (simp add: Let_def size_simps)
  qed
  moreover have "tree_holds (if k < snd e then T3\<lparr>m_size := length es + 1, m_minimum := x\<rparr> else T3\<lparr>m_size := length es + 1\<rparr>) (insert_by snd (x, k) es)"
    using t3(1-3) es3 s assms(4) Cons eq mn
    by (intro tree_holdsI [of _ t3 h3]) (auto simp: rep_tree_def sorted_insert_by length_insert_by)
  ultimately show ?thesis using eq mn by auto
qed

end
