(* ===== verification/Tree_Search.thy ===== *)
theory Tree_Search
  imports Tree_Balance
begin

text \<open>
  The searches of \<^verbatim>\<open>AK/RedBlackTree.h\<close> and the steps to the neighbours of a node, on the sequence of elements that the tree holds.
\<close>

definition address_of :: "(addr \<times> 'k) list \<Rightarrow> addr" where
  "address_of es = (case es of [] \<Rightarrow> 0 | e # _ \<Rightarrow> fst e)"

lemma address_of_simps [simp]: "address_of [] = 0" "address_of (e # es) = fst e"
  by (simp_all add: address_of_def)

lemma address_of_append: "address_of (xs @ ys) = (if xs = [] then address_of ys else address_of xs)"
  by (cases xs) simp_all

section \<open>Searching\<close>

lemma sorted_Node:
  assumes "sorted_by snd (elems (Node a l c k r))"
  shows "sorted_by snd (elems l)" "sorted_by snd (elems r)" "\<forall>q \<in> set (elems l). snd q \<le> k" "\<forall>q \<in> set (elems r). k \<le> snd q"
  using assms by (auto simp: sorted_append)

lemma find_ok:
  "rep n p t \<Longrightarrow> sorted_by snd (elems t) \<Longrightarrow> length (elems t) < fuel \<Longrightarrow>
   \<exists>a. find fuel n (root_of t) k = Inr a \<and> (if k \<in> snd ` set (elems t) then a \<noteq> 0 \<and> (a, k) \<in> set (elems t) else a = 0)"
proof (induction t arbitrary: fuel p)
  case Leaf
  then show ?case by (cases fuel) simp_all
next
  case (Node a l c k' r)
  obtain fuel' where fuel: "fuel = Suc fuel'" using Node.prems(3) by (cases fuel) auto
  note s = sorted_Node [OF Node.prems(2)]
  consider "k = k'" | "k < k'" | "k' < k" by force
  then show ?case
  proof cases
    case 1
    then show ?thesis using Node.prems fuel by simp
  next
    case 2
    then have "k \<notin> snd ` set (elems r)" using s(4) by force
    moreover obtain b where "find fuel' n (root_of l) k = Inr b"
      "if k \<in> snd ` set (elems l) then b \<noteq> 0 \<and> (b, k) \<in> set (elems l) else b = 0"
      using Node.IH(1) [OF _ s(1), of a fuel'] Node.prems fuel by auto
    ultimately show ?thesis using 2 Node.prems(1) fuel by (intro exI [of _ b]) (auto simp: image_Un split: if_splits)
  next
    case 3
    then have "k \<notin> snd ` set (elems l)" "\<not> k < k'" using s(3) by force+
    moreover obtain b where "find fuel' n (root_of r) k = Inr b"
      "if k \<in> snd ` set (elems r) then b \<noteq> 0 \<and> (b, k) \<in> set (elems r) else b = 0"
      using Node.IH(2) [OF _ s(2), of a fuel'] Node.prems fuel by auto
    ultimately show ?thesis using 3 Node.prems(1) fuel by (intro exI [of _ b]) (auto simp: image_Un split: if_splits)
  qed
qed

text \<open>An element with the key that a search is to find.\<close>
definition found :: "(addr \<times> 'k) list \<Rightarrow> (addr \<times> 'k) option \<Rightarrow> addr \<Rightarrow> bool" where
  "found es q a \<longleftrightarrow> (case q of None \<Rightarrow> a = 0 | Some q \<Rightarrow> a \<noteq> 0 \<and> (a, snd q) \<in> set es)"

lemma find_not_above_ok:
  "rep n p t \<Longrightarrow> sorted_by snd (elems t) \<Longrightarrow> length (elems t) < fuel \<Longrightarrow> found es q cand \<Longrightarrow> set (elems t) \<subseteq> set es \<Longrightarrow>
   \<exists>a. find_largest_not_above fuel n cand (root_of t) k = Inr a \<and> found es (find_not_above snd k q (elems t)) a"
proof (induction t arbitrary: fuel p cand q)
  case Leaf
  then show ?case by (cases fuel) simp_all
next
  case (Node a l c k' r)
  obtain fuel' where fuel: "fuel = Suc fuel'" using Node.prems(3) by (cases fuel) auto
  note s = sorted_Node [OF Node.prems(2)]
  have left: "\<forall>p \<in> set (elems l @ [(a, k')]). snd p \<le> k" if "k' \<le> k" using s(3) that by auto
  have mid: "find_not_above snd k q (elems (Node a l c k' r)) = find_not_above snd k (Some (a, k')) (elems r)" if "k' \<le> k"
    using find_not_above_right [OF left [OF that], of q "elems r"] by simp
  consider "k = k'" | "k < k'" | "k' < k" by force
  then show ?case
  proof cases
    case 1
    then obtain e where "find_not_above snd k q (elems (Node a l c k' r)) = Some e" "snd e = k"
      using find_not_above_key [OF Node.prems(2), of k q] by auto
    then show ?thesis using 1 Node.prems(1,5) fuel by (simp add: found_def)
  next
    case 2
    have "find_not_above snd k q (elems (Node a l c k' r)) = find_not_above snd k q (elems l)"
      using find_not_above_left [of "(a, k') # elems r" k snd q "elems l"] s(4) 2 by fastforce
    then show ?thesis using 2 Node.IH(1) [OF _ s(1), of a fuel' q cand] Node.prems fuel by auto
  next
    case 3
    have "found es (Some (a, k')) a" using Node.prems(1,5) by (simp add: found_def)
    moreover have "k \<noteq> k'" "\<not> k < k'" "k' \<le> k" using 3 by auto
    ultimately show ?thesis using mid Node.IH(2) [OF _ s(2), of a fuel' "Some (a, k')" a] Node.prems fuel by simp
  qed
qed

lemma find_not_below_ok:
  "rep n p t \<Longrightarrow> sorted_by snd (elems t) \<Longrightarrow> length (elems t) < fuel \<Longrightarrow> found es q cand \<Longrightarrow> set (elems t) \<subseteq> set es \<Longrightarrow>
   \<exists>a. find_smallest_not_below fuel n cand (root_of t) k = Inr a \<and>
     found es (case find_not_below snd k (elems t) of None \<Rightarrow> q | Some e \<Rightarrow> Some e) a"
proof (induction t arbitrary: fuel p cand q)
  case Leaf
  then show ?case by (cases fuel) simp_all
next
  case (Node a l c k' r)
  obtain fuel' where fuel: "fuel = Suc fuel'" using Node.prems(3) by (cases fuel) auto
  note s = sorted_Node [OF Node.prems(2)]
  consider "k = k'" | "k < k'" | "k' < k" by force
  then show ?case
  proof cases
    case 1
    then obtain e where "find_not_below snd k (elems (Node a l c k' r)) = Some e" "snd e = k"
      using find_not_below_key [OF Node.prems(2), of k] by auto
    then show ?thesis using 1 Node.prems(1,5) fuel by (simp add: found_def)
  next
    case 2
    have "find_not_below snd k (elems (Node a l c k' r)) = (case find_not_below snd k (elems l) of None \<Rightarrow> Some (a, k') | Some e \<Rightarrow> Some e)"
      using find_not_below_append [of snd k "elems l" "(a, k') # elems r"] less_imp_le [OF 2] by (simp split: option.splits)
    moreover have "found es (Some (a, k')) a" using Node.prems(1,5) by (simp add: found_def)
    ultimately show ?thesis using 2 Node.IH(1) [OF _ s(1), of a fuel' "Some (a, k')" a] Node.prems fuel
      by (auto split: option.splits)
  next
    case 3
    have "\<forall>p \<in> set (elems l @ [(a, k')]). snd p < k" using s(3) 3 by fastforce
    then have "find_not_below snd k (elems (Node a l c k' r)) = find_not_below snd k (elems r)"
      using find_not_below_right [of "elems l @ [(a, k')]" snd k "elems r"] by simp
    moreover have "k' \<noteq> k" "k' \<le> k" using 3 by auto
    ultimately show ?thesis using Node.IH(2) [OF _ s(2), of a fuel' q cand] Node.prems fuel by simp
  qed
qed


section \<open>Neighbours\<close>

lemma leftmost_ok: "rep n p t \<Longrightarrow> t \<noteq> Leaf \<Longrightarrow> length (elems t) \<le> fuel \<Longrightarrow> leftmost fuel n (root_of t) = Inr (address_of (elems t))"
proof (induction t arbitrary: fuel p)
  case (Node a l c k r)
  obtain fuel' where fuel: "fuel = Suc fuel'" using Node.prems(3) by (cases fuel) auto
  show ?case
  proof (cases "l = Leaf")
    case False
    then show ?thesis using Node.IH(1) [of a fuel'] Node.prems fuel rep_root_0 [of n a l] by (simp add: address_of_append)
  qed (use Node.prems fuel in simp)
qed simp

lemma rightmost_ok: "rep n p t \<Longrightarrow> t \<noteq> Leaf \<Longrightarrow> length (elems t) \<le> fuel \<Longrightarrow> rightmost fuel n (root_of t) = Inr (address_of (rev (elems t)))"
proof (induction t arbitrary: fuel p)
  case (Node a l c k r)
  obtain fuel' where fuel: "fuel = Suc fuel'" using Node.prems(3) by (cases fuel) auto
  show ?case
  proof (cases "r = Leaf")
    case False
    then show ?thesis using Node.IH(2) [of a fuel'] Node.prems fuel rep_root_0 [of n a r] by (simp add: address_of_append)
  qed (use Node.prems fuel in simp)
qed simp

lemma climb_from_right_ok:
  "rep_ctx n ctx x \<Longrightarrow> x \<noteq> 0 \<Longrightarrow> x \<notin> set (ctx_addrs ctx) \<Longrightarrow> distinct (ctx_addrs ctx) \<Longrightarrow> length ctx < fuel \<Longrightarrow>
   climb_from_right fuel n x (top_addr ctx) = Inr (address_of (after ctx))"
proof (induction ctx arbitrary: x fuel)
  case Nil
  then show ?case by (cases fuel) simp_all
next
  case (Cons f ctx)
  obtain fuel' where fuel: "fuel = Suc fuel'" using Cons.prems(5) by (cases fuel) auto
  show ?case
  proof (cases f)
    case (LeftOf a c k r)
    have "root_of r \<noteq> x" using root_in_addrs [of r] Cons.prems(2,3) LeftOf by (cases r) auto
    then show ?thesis using Cons.prems fuel LeftOf by simp
  next
    case (RightOf a c k l)
    then show ?thesis using Cons.IH [of a fuel'] Cons.prems fuel by simp
  qed
qed

lemma climb_from_left_ok:
  "rep_ctx n ctx x \<Longrightarrow> x \<noteq> 0 \<Longrightarrow> x \<notin> set (ctx_addrs ctx) \<Longrightarrow> distinct (ctx_addrs ctx) \<Longrightarrow> length ctx < fuel \<Longrightarrow>
   climb_from_left fuel n x (top_addr ctx) = Inr (address_of (rev (before ctx)))"
proof (induction ctx arbitrary: x fuel)
  case Nil
  then show ?case by (cases fuel) simp_all
next
  case (Cons f ctx)
  obtain fuel' where fuel: "fuel = Suc fuel'" using Cons.prems(5) by (cases fuel) auto
  show ?case
  proof (cases f)
    case (RightOf a c k l)
    have "root_of l \<noteq> x" using root_in_addrs [of l] Cons.prems(2,3) RightOf by (cases l) auto
    then show ?thesis using Cons.prems fuel RightOf by simp
  next
    case (LeftOf a c k r)
    then show ?thesis using Cons.IH [of a fuel'] Cons.prems fuel by simp
  qed
qed

text \<open>Every node has a place.\<close>
lemma place_of:
  "x \<in> set (addrs t) \<Longrightarrow> \<exists>ctx' l c k r. plug ctx t = plug (ctx' @ ctx) (Node x l c k r)"
proof (induction t arbitrary: ctx)
  case (Node a l c k r)
  consider "x = a" | "x \<in> set (addrs l)" | "x \<in> set (addrs r)" using Node.prems by auto
  then show ?case
  proof cases
    case 1
    then show ?thesis by (intro exI [of _ "[]"]) auto
  next
    case 2
    then obtain ctx' l' c' k' r' where "plug (LeftOf a c k r # ctx) l = plug (ctx' @ LeftOf a c k r # ctx) (Node x l' c' k' r')"
      using Node.IH(1) by metis
    then show ?thesis by (intro exI [of _ "ctx' @ [LeftOf a c k r]"]) auto
  next
    case 3
    then obtain ctx' l' c' k' r' where "plug (RightOf a c k l # ctx) r = plug (ctx' @ RightOf a c k l # ctx) (Node x l' c' k' r')"
      using Node.IH(2) by metis
    then show ?thesis by (intro exI [of _ "ctx' @ [RightOf a c k l]"]) auto
  qed
qed simp

lemma split_at_address:
  assumes "distinct (map fst (xs @ (x, k) # ys))" and "xs @ (x, k) # ys = xs' @ (x, k') # ys'"
  shows "xs = xs' \<and> k = k' \<and> ys = ys'"
  using assms
proof (induction xs arbitrary: xs')
  case Nil
  then show ?case by (cases xs') auto
next
  case (Cons z zs)
  then obtain zs' where "xs' = z # zs'" by (cases xs') auto
  moreover have "distinct (map fst (zs @ (x, k) # ys))" using Cons.prems(1) by simp
  ultimately have "zs = zs' \<and> k = k' \<and> ys = ys'" using Cons.IH Cons.prems(2) by (metis append_Cons list.inject)
  then show ?case using \<open>xs' = z # zs'\<close> by simp
qed

text \<open>The place of an element that the tree holds.\<close>
lemma element_place:
  assumes "rep_tree T t" and "elems t = xs @ (x, k) # ys"
  obtains ctx l c r where "t = plug ctx (Node x l c k r)" and "rep_at T ctx (Node x l c k r)"
    and "xs = before ctx @ elems l" and "ys = elems r @ after ctx"
proof -
  have x: "x \<in> set (addrs t)" using assms(2) by (auto simp flip: map_fst_elems)
  obtain ctx l c k' r where t: "t = plug ctx (Node x l c k' r)" using place_of [OF x, of "[]"] by auto
  have "distinct (map fst (xs @ (x, k) # ys))" using assms unfolding rep_tree_def by (metis map_fst_elems)
  moreover have "xs @ (x, k) # ys = (before ctx @ elems l) @ (x, k') # (elems r @ after ctx)" using assms(2) t by (simp add: elems_plug)
  ultimately have "xs = before ctx @ elems l \<and> k = k' \<and> ys = elems r @ after ctx" by (rule split_at_address)
  then show ?thesis using that [of ctx l c r] t assms(1) by (simp add: rep_at_def)
qed

lemma successor_ok:
  assumes "tree_holds T (xs @ (x, k) # ys)" and "length (xs @ (x, k) # ys) < fuel"
  shows "successor fuel (nodes T) x = Inr (address_of ys)"
proof -
  obtain t where t: "rep_tree T t" "elems t = xs @ (x, k) # ys" using assms(1) by (auto elim: tree_holdsE)
  obtain ctx l c r where p: "t = plug ctx (Node x l c k r)" and at: "rep_at T ctx (Node x l c k r)" and ys: "ys = elems r @ after ctx"
    using t by (rule element_place)
  note at' = rep_atD [OF at]
  show ?thesis
  proof (cases "r = Leaf")
    case True
    have "length ctx < fuel" using length_ctx [of ctx "Node x l c k r"] t(2) p assms(2) by simp
    then show ?thesis using climb_from_right_ok [OF at'(1)] at'(2,4,5) True ys by (simp add: successor_def)
  next
    case False
    then have "leftmost fuel (nodes T) (root_of r) = Inr (address_of (elems r))"
      using leftmost_ok [of "nodes T" x r fuel] at'(2) assms(2) ys by simp
    then show ?thesis using False at'(2) ys rep_root_0 [of "nodes T" x r] by (simp add: successor_def address_of_append)
  qed
qed

lemma predecessor_ok:
  assumes "tree_holds T (xs @ (x, k) # ys)" and "length (xs @ (x, k) # ys) < fuel"
  shows "predecessor fuel (nodes T) x = Inr (address_of (rev xs))"
proof -
  obtain t where t: "rep_tree T t" "elems t = xs @ (x, k) # ys" using assms(1) by (auto elim: tree_holdsE)
  obtain ctx l c r where p: "t = plug ctx (Node x l c k r)" and at: "rep_at T ctx (Node x l c k r)" and xs: "xs = before ctx @ elems l"
    using t by (rule element_place)
  note at' = rep_atD [OF at]
  show ?thesis
  proof (cases "l = Leaf")
    case True
    have "length ctx < fuel" using length_ctx [of ctx "Node x l c k r"] t(2) p assms(2) by simp
    then show ?thesis using climb_from_left_ok [OF at'(1)] at'(2,4,5) True xs by (simp add: predecessor_def)
  next
    case False
    then have "rightmost fuel (nodes T) (root_of l) = Inr (address_of (rev (elems l)))"
      using rightmost_ok [of "nodes T" x l fuel] at'(2) assms(2) xs by simp
    then show ?thesis using False at'(2) xs rep_root_0 [of "nodes T" x l] by (simp add: predecessor_def address_of_append)
  qed
qed


section \<open>The searches from the root\<close>

lemma tree_find:
  assumes "tree_holds T es"
  shows "\<exists>a. find (Suc (m_size T)) (nodes T) (m_root T) k = Inr a \<and> (if k \<in> snd ` set es then a \<noteq> 0 \<and> (a, k) \<in> set es else a = 0)"
proof -
  obtain t where t: "rep (nodes T) 0 t" "m_root T = root_of t" "elems t = es" "sorted_by snd es" "m_size T = length es"
    using assms by (auto elim!: tree_holdsE simp: rep_tree_def)
  show ?thesis unfolding t(2) using find_ok [OF t(1), of "Suc (m_size T)" k] unfolding t(3) using t(4,5) by simp
qed

lemma tree_find_not_above:
  assumes "tree_holds T es"
  shows "\<exists>a. find_largest_not_above (Suc (m_size T)) (nodes T) 0 (m_root T) k = Inr a \<and> found es (find_not_above snd k None es) a"
proof -
  obtain t where t: "rep (nodes T) 0 t" "m_root T = root_of t" "elems t = es" "sorted_by snd es" "m_size T = length es"
    using assms by (auto elim!: tree_holdsE simp: rep_tree_def)
  have "found es None 0" by (simp add: found_def)
  then show ?thesis unfolding t(2) using find_not_above_ok [OF t(1), of "Suc (m_size T)" es None 0 k] unfolding t(3) using t(4,5) by simp
qed

lemma tree_find_not_below:
  assumes "tree_holds T es"
  shows "\<exists>a. find_smallest_not_below (Suc (m_size T)) (nodes T) 0 (m_root T) k = Inr a \<and> found es (find_not_below snd k es) a"
proof -
  obtain t where t: "rep (nodes T) 0 t" "m_root T = root_of t" "elems t = es" "sorted_by snd es" "m_size T = length es"
    using assms by (auto elim!: tree_holdsE simp: rep_tree_def)
  have "found es None 0" by (simp add: found_def)
  then obtain a where "find_smallest_not_below (Suc (m_size T)) (nodes T) 0 (root_of t) k = Inr a"
    "found es (case find_not_below snd k es of None \<Rightarrow> None | Some e \<Rightarrow> Some e) a"
    using find_not_below_ok [OF t(1), of "Suc (m_size T)" es None 0 k] unfolding t(3) using t(4,5) by auto
  then show ?thesis unfolding t(2) by (cases "find_not_below snd k es") simp_all
qed


section \<open>The number of rounds\<close>

fun tree_height :: "'k rbt \<Rightarrow> nat" where
  "tree_height Leaf = 0"
| "tree_height (Node a l c k r) = Suc (max (tree_height l) (tree_height r))"

text \<open>A path has at most one red node for each black one.\<close>
lemma rb_height: "rb h t \<Longrightarrow> tree_height t \<le> 2 * h + (if black t then 0 else 1)"
proof (induction h t rule: rb.induct)
  case (3 h a l k r)
  then have "tree_height l \<le> 2 * (h - 1) + 1" "tree_height r \<le> 2 * (h - 1) + 1" by (auto split: if_splits)
  then show ?case using 3 by auto
qed auto

lemma rb_size: "rb h t \<Longrightarrow> 2 ^ h \<le> length (elems t) + 1"
proof (induction h t rule: rb.induct)
  case (3 h a l k r)
  then have "2 ^ (h - 1) \<le> length (elems l) + 1" "2 ^ (h - 1) \<le> length (elems r) + 1" by auto
  moreover have "(2 :: nat) ^ h = 2 * 2 ^ (h - 1)" using 3 by (cases h) auto
  ultimately show ?case by simp
qed auto

lemma tree_height_bound:
  assumes "rb h t" and "black t"
  shows "2 ^ tree_height t \<le> (length (elems t) + 1)\<^sup>2"
proof -
  have "(2 :: nat) ^ tree_height t \<le> 2 ^ (2 * h)" using rb_height [OF assms(1)] assms(2) by (intro power_increasing) auto
  also have "\<dots> = (2 ^ h)\<^sup>2" by (simp add: power_mult mult.commute)
  also have "\<dots> \<le> (length (elems t) + 1)\<^sup>2" using rb_size [OF assms(1)] by (rule power_mono) simp
  finally show ?thesis .
qed

lemma find_rounds: "rep n p t \<Longrightarrow> tree_height t < fuel \<Longrightarrow> \<exists>a. find fuel n (root_of t) k = Inr a"
proof (induction t arbitrary: fuel p)
  case Leaf
  then show ?case by (cases fuel) simp_all
next
  case (Node a l c k' r)
  obtain fuel' where "fuel = Suc fuel'" using Node.prems(2) by (cases fuel) auto
  then show ?case using Node.IH(1) [of a fuel'] Node.IH(2) [of a fuel'] Node.prems by simp
qed

lemma insert_parent_rounds: "rep n p t \<Longrightarrow> tree_height t < fuel \<Longrightarrow> \<exists>a. insert_parent fuel n k q (root_of t) = Inr a"
proof (induction t arbitrary: fuel p q)
  case Leaf
  then show ?case by (cases fuel) simp_all
next
  case (Node a l c k' r)
  obtain fuel' where "fuel = Suc fuel'" using Node.prems(2) by (cases fuel) auto
  then show ?case using Node.IH(1) [of a fuel'] Node.IH(2) [of a fuel'] Node.prems by simp
qed

end
