(* ===== verification/Tree_Fixup.thy ===== *)
theory Tree_Fixup
  imports Tree_Insert Tree_Search
begin

text \<open>
  \<^verbatim>\<open>remove_fixups\<close> of \<^verbatim>\<open>AK/RedBlackTree.h\<close>: one place of the tree misses a black node, and the loop moves this place up, or repairs it with rotations, until
  the tree is a red-black tree again. The elements stay as they are.
\<close>

section \<open>A place that misses a black node\<close>

text \<open>The tree at the place is too low by one, or it is red and has the right height when it is turned black.\<close>
definition short_place :: "'k frame list \<Rightarrow> 'k rbt \<Rightarrow> bool" where
  "short_place ctx t \<longleftrightarrow>
     (if black t then \<exists>h. rb h t \<and> rb_ctx (Suc h) ctx else \<exists>h. rb h (set_root_color Black t) \<and> rb_ctx h ctx)"

text \<open>What a round of the loop leaves: a place further up, a red one, or the tree repaired.\<close>
definition round_done :: "(addr \<times> 'k rb_tree) result \<Rightarrow> 'k rb_tree \<Rightarrow> 'k frame list \<Rightarrow> 'k rbt \<Rightarrow> bool" where
  "round_done res T ctx t \<longleftrightarrow> (\<exists>T'. m_size T' = m_size T \<and> m_minimum T' = m_minimum T \<and>
     ((\<exists>ctx' t'. res = Inr (root_of t', T') \<and> t' \<noteq> Leaf \<and> rep_at T' ctx' t' \<and> short_place ctx' t' \<and>
        (black t' \<longrightarrow> length ctx' < length ctx) \<and> elems (plug ctx' t') = elems (plug ctx t)) \<or>
      (\<exists>t' h. res = Inr (m_root T', T') \<and> rep_tree T' t' \<and> t' \<noteq> Leaf \<and> rb h t' \<and> black t' \<and> elems t' = elems (plug ctx t))))"

lemma round_doneI1:
  assumes "rep_at T' ctx' t'" and "short_place ctx' t'" and "t' \<noteq> Leaf" and "black t' \<longrightarrow> length ctx' < length ctx"
    and "elems (plug ctx' t') = elems (plug ctx t)" and "m_size T' = m_size T" and "m_minimum T' = m_minimum T" and "res = Inr (root_of t', T')"
  shows "round_done res T ctx t"
  using assms unfolding round_done_def by blast

lemma round_doneI2:
  assumes "rep_tree T' t'" and "t' \<noteq> Leaf" and "rb h t'" and "black t'" and "elems t' = elems (plug ctx t)"
    and "m_size T' = m_size T" and "m_minimum T' = m_minimum T" and "res = Inr (m_root T', T')"
  shows "round_done res T ctx t"
  using assms unfolding round_done_def by blast

lemma is_black_root: "rep n p t \<Longrightarrow> is_black n (root_of t) \<longleftrightarrow> black t"
  by (cases t) (simp_all add: is_black_def)

section \<open>The steps of a round\<close>

text \<open>The node is the left child.\<close>
lemma remove_sibling_left_black:
  assumes "rep_at T (LeftOf p c k (Node s sl Black ks sr) # ctx) t"
  shows "remove_sibling_left p T = Inr (s, T)"
  using rep_atD(1) [OF assms] by (simp add: remove_sibling_left_def)

lemma remove_sibling_left_red:
  assumes "rep_at T (LeftOf p c k (Node s sl Red ks sr) # ctx) t"
  shows "\<exists>T'. remove_sibling_left p T = Inr (root_of sl, T') \<and> rep_at T' (LeftOf p Red k sl # LeftOf s Black ks sr # ctx) t \<and>
    m_size T' = m_size T \<and> m_minimum T' = m_minimum T"
proof -
  define T1 where "T1 = T\<lparr>nodes := set_color s Black (nodes T)\<rparr>"
  define T2 where "T2 = T1\<lparr>nodes := set_color p Red (nodes T1)\<rparr>"
  have "rep_at T (RightOf p c k t # ctx) (Node s sl Red ks sr)" using assms by (simp add: rep_at_up)
  from rep_at_color [OF this, of Black] have "rep_at T1 ctx (Node p t c k (Node s sl Black ks sr))" by (simp add: T1_def rep_at_up)
  from rep_at_color [OF this, of Red] have "rep_at T2 ctx (Node p t Red k (Node s sl Black ks sr))" by (simp add: T2_def)
  from rotate_left_ok [OF this] obtain T' where rot: "rotate_left p T2 = Inr T'"
    and at: "rep_at T' (LeftOf p Red k sl # LeftOf s Black ks sr # ctx) t" and eq: "m_size T' = m_size T2" "m_minimum T' = m_minimum T2"
    by (auto simp: rep_at_up)
  moreover have "right_child (nodes T' p) = root_of sl" using rep_atD(1) [OF at] by simp
  ultimately show ?thesis using rep_atD(1) [OF assms] by (simp add: remove_sibling_left_def Let_def T2_def T1_def)
qed

lemma remove_outer_left_red:
  assumes "rep_at T (LeftOf p c k (Node s sl cs ks sr) # ctx) t" and "\<not> black sr"
  shows "remove_outer_left p s T = Inr (s, T)"
  using rep_atD(1) [OF assms(1)] assms(2) is_black_root [of "nodes T" s sr] by (simp add: remove_outer_left_def)

lemma remove_outer_left_black:
  assumes "rep_at T (LeftOf p c k (Node s (Node a b ca ka d) cs ks sr) # ctx) t" and "black sr"
  shows "\<exists>T'. remove_outer_left p s T = Inr (a, T') \<and> rep_at T' (LeftOf p c k (Node a b Black ka (Node s d Red ks sr)) # ctx) t \<and>
    m_size T' = m_size T \<and> m_minimum T' = m_minimum T"
proof -
  define T1 where "T1 = T\<lparr>nodes := set_color a Black (nodes T)\<rparr>"
  define T2 where "T2 = T1\<lparr>nodes := set_color s Red (nodes T1)\<rparr>"
  have "rep_at T (LeftOf s cs ks sr # RightOf p c k t # ctx) (Node a b ca ka d)" using assms(1) by (simp add: rep_at_up)
  from rep_at_color [OF this, of Black] have "rep_at T1 (RightOf p c k t # ctx) (Node s (Node a b Black ka d) cs ks sr)" by (simp add: T1_def rep_at_up)
  from rep_at_color [OF this, of Red] have "rep_at T2 (RightOf p c k t # ctx) (Node s (Node a b Black ka d) Red ks sr)" by (simp add: T2_def)
  from rotate_right_ok [OF this] obtain T' where rot: "rotate_right s T2 = Inr T'"
    and at: "rep_at T' (LeftOf p c k (Node a b Black ka (Node s d Red ks sr)) # ctx) t" and eq: "m_size T' = m_size T2" "m_minimum T' = m_minimum T2"
    by (auto simp: rep_at_up)
  moreover have "right_child (nodes T' p) = a" using rep_atD(1) [OF at] by simp
  ultimately show ?thesis using rep_atD(1) [OF assms(1)] assms(2) is_black_root [of "nodes T" s sr]
    by (simp add: remove_outer_left_def T2_def T1_def)
qed

lemma remove_finish_left_ok:
  assumes "rep_at T (LeftOf p c k (Node s sl cs ks (Node q ql cq kq qr)) # ctx) t"
  shows "\<exists>T'. remove_finish_left p s T = Inr (m_root T', T') \<and> rep_at T' ctx (Node s (Node p t Black k sl) c ks (Node q ql Black kq qr)) \<and> m_size T' = m_size T \<and> m_minimum T' = m_minimum T"
proof -
  define T1 where "T1 = T\<lparr>nodes := set_color s c (nodes T)\<rparr>"
  define T2 where "T2 = T1\<lparr>nodes := set_color p Black (nodes T1)\<rparr>"
  define T3 where "T3 = T2\<lparr>nodes := set_color q Black (nodes T2)\<rparr>"
  have "rep_at T (RightOf p c k t # ctx) (Node s sl cs ks (Node q ql cq kq qr))" using assms by (simp add: rep_at_up)
  from rep_at_color [OF this, of c] have "rep_at T1 ctx (Node p t c k (Node s sl c ks (Node q ql cq kq qr)))" by (simp add: T1_def rep_at_up)
  from rep_at_color [OF this, of Black] have "rep_at T2 (RightOf s c ks sl # RightOf p Black k t # ctx) (Node q ql cq kq qr)" by (simp add: T2_def rep_at_up)
  from rep_at_color [OF this, of Black] have "rep_at T3 ctx (Node p t Black k (Node s sl c ks (Node q ql Black kq qr)))" by (simp add: T3_def rep_at_up)
  from rotate_left_ok [OF this] obtain T' where "rotate_left p T3 = Inr T'" "rep_at T' ctx (Node s (Node p t Black k sl) c ks (Node q ql Black kq qr))"
    "m_size T' = m_size T3" "m_minimum T' = m_minimum T3" by auto
  then show ?thesis using rep_atD(1) [OF assms] by (simp add: remove_finish_left_def T3_def T2_def T1_def)
qed

text \<open>The node is the right child.\<close>
lemma remove_sibling_right_black:
  assumes "rep_at T (RightOf p c k (Node s sr Black ks sl) # ctx) t"
  shows "remove_sibling_right p T = Inr (s, T)"
  using rep_atD(1) [OF assms] by (simp add: remove_sibling_right_def)

lemma remove_sibling_right_red:
  assumes "rep_at T (RightOf p c k (Node s sr Red ks sl) # ctx) t"
  shows "\<exists>T'. remove_sibling_right p T = Inr (root_of sl, T') \<and> rep_at T' (RightOf p Red k sl # RightOf s Black ks sr # ctx) t \<and>
    m_size T' = m_size T \<and> m_minimum T' = m_minimum T"
proof -
  define T1 where "T1 = T\<lparr>nodes := set_color s Black (nodes T)\<rparr>"
  define T2 where "T2 = T1\<lparr>nodes := set_color p Red (nodes T1)\<rparr>"
  have "rep_at T (LeftOf p c k t # ctx) (Node s sr Red ks sl)" using assms by (simp add: rep_at_up)
  from rep_at_color [OF this, of Black] have "rep_at T1 ctx (Node p (Node s sr Black ks sl) c k t)" by (simp add: T1_def rep_at_up)
  from rep_at_color [OF this, of Red] have "rep_at T2 ctx (Node p (Node s sr Black ks sl) Red k t)" by (simp add: T2_def)
  from rotate_right_ok [OF this] obtain T' where rot: "rotate_right p T2 = Inr T'"
    and at: "rep_at T' (RightOf p Red k sl # RightOf s Black ks sr # ctx) t" and eq: "m_size T' = m_size T2" "m_minimum T' = m_minimum T2"
    by (auto simp: rep_at_up)
  moreover have "left_child (nodes T' p) = root_of sl" using rep_atD(1) [OF at] by simp
  ultimately show ?thesis using rep_atD(1) [OF assms] by (simp add: remove_sibling_right_def Let_def T2_def T1_def)
qed

lemma remove_outer_right_red:
  assumes "rep_at T (RightOf p c k (Node s sr cs ks sl) # ctx) t" and "\<not> black sr"
  shows "remove_outer_right p s T = Inr (s, T)"
  using rep_atD(1) [OF assms(1)] assms(2) is_black_root [of "nodes T" s sr] by (simp add: remove_outer_right_def)

lemma remove_outer_right_black:
  assumes "rep_at T (RightOf p c k (Node s sr cs ks (Node a d ca ka b)) # ctx) t" and "black sr"
  shows "\<exists>T'. remove_outer_right p s T = Inr (a, T') \<and> rep_at T' (RightOf p c k (Node a (Node s sr Red ks d) Black ka b) # ctx) t \<and>
    m_size T' = m_size T \<and> m_minimum T' = m_minimum T"
proof -
  define T1 where "T1 = T\<lparr>nodes := set_color a Black (nodes T)\<rparr>"
  define T2 where "T2 = T1\<lparr>nodes := set_color s Red (nodes T1)\<rparr>"
  have "rep_at T (RightOf s cs ks sr # LeftOf p c k t # ctx) (Node a d ca ka b)" using assms(1) by (simp add: rep_at_up)
  from rep_at_color [OF this, of Black] have "rep_at T1 (LeftOf p c k t # ctx) (Node s sr cs ks (Node a d Black ka b))" by (simp add: T1_def rep_at_up)
  from rep_at_color [OF this, of Red] have "rep_at T2 (LeftOf p c k t # ctx) (Node s sr Red ks (Node a d Black ka b))" by (simp add: T2_def)
  from rotate_left_ok [OF this] obtain T' where rot: "rotate_left s T2 = Inr T'"
    and at: "rep_at T' (RightOf p c k (Node a (Node s sr Red ks d) Black ka b) # ctx) t" and eq: "m_size T' = m_size T2" "m_minimum T' = m_minimum T2"
    by (auto simp: rep_at_up)
  moreover have "left_child (nodes T' p) = a" using rep_atD(1) [OF at] by simp
  ultimately show ?thesis using rep_atD(1) [OF assms(1)] assms(2) is_black_root [of "nodes T" s sr]
    by (simp add: remove_outer_right_def T2_def T1_def)
qed

lemma remove_finish_right_ok:
  assumes "rep_at T (RightOf p c k (Node s (Node q qr cq kq ql) cs ks sl) # ctx) t"
  shows "\<exists>T'. remove_finish_right p s T = Inr (m_root T', T') \<and> rep_at T' ctx (Node s (Node q qr Black kq ql) c ks (Node p sl Black k t)) \<and> m_size T' = m_size T \<and> m_minimum T' = m_minimum T"
proof -
  define T1 where "T1 = T\<lparr>nodes := set_color s c (nodes T)\<rparr>"
  define T2 where "T2 = T1\<lparr>nodes := set_color p Black (nodes T1)\<rparr>"
  define T3 where "T3 = T2\<lparr>nodes := set_color q Black (nodes T2)\<rparr>"
  have "rep_at T (LeftOf p c k t # ctx) (Node s (Node q qr cq kq ql) cs ks sl)" using assms by (simp add: rep_at_up)
  from rep_at_color [OF this, of c] have "rep_at T1 ctx (Node p (Node s (Node q qr cq kq ql) c ks sl) c k t)" by (simp add: T1_def rep_at_up)
  from rep_at_color [OF this, of Black] have "rep_at T2 (LeftOf s c ks sl # LeftOf p Black k t # ctx) (Node q qr cq kq ql)" by (simp add: T2_def rep_at_up)
  from rep_at_color [OF this, of Black] have "rep_at T3 ctx (Node p (Node s (Node q qr Black kq ql) c ks sl) Black k t)" by (simp add: T3_def rep_at_up)
  from rotate_right_ok [OF this] obtain T' where "rotate_right p T3 = Inr T'" "rep_at T' ctx (Node s (Node q qr Black kq ql) c ks (Node p sl Black k t))"
    "m_size T' = m_size T3" "m_minimum T' = m_minimum T3" by auto
  then show ?thesis using rep_atD(1) [OF assms] by (simp add: remove_finish_right_def T3_def T2_def T1_def)
qed

section \<open>A round\<close>

definition tree_repaired :: "(addr \<times> 'k rb_tree) result \<Rightarrow> 'k rb_tree \<Rightarrow> 'k rbt \<Rightarrow> bool" where
  "tree_repaired res T t \<longleftrightarrow> (\<exists>T' t' h. res = Inr (m_root T', T') \<and> rep_tree T' t' \<and> t' \<noteq> Leaf \<and> rb h t' \<and> black t' \<and>
     elems t' = elems t \<and> m_size T' = m_size T \<and> m_minimum T' = m_minimum T)"

lemma round_done_repaired:
  assumes "tree_repaired res T1 t1" and "m_size T1 = m_size T" and "m_minimum T1 = m_minimum T" and "elems t1 = elems (plug ctx t)"
  shows "round_done res T ctx t"
  using assms unfolding tree_repaired_def by (metis round_doneI2)

text \<open>A tree of the same color and height as the one that the frame was around.\<close>
lemma rb_plug_frame:
  assumes "rb_ctx h (f # ctx)" and "frame_color f = Red \<Longrightarrow> rb h t" and "frame_color f = Black \<Longrightarrow> rb (Suc h) t \<and> black t"
  shows "\<exists>h'. rb h' (plug ctx t) \<and> black (plug ctx t)"
proof (cases "frame_color f")
  case Red
  then have "rb_ctx h ctx" "black_top ctx" "ctx \<noteq> []" using assms(1) by auto
  then show ?thesis using rb_plug [of h ctx t] assms(2) Red by auto
next
  case Black
  then show ?thesis using rb_plug [of "Suc h" ctx t] assms by auto
qed

lemma remove_rest_left_finish:
  assumes at: "rep_at T (LeftOf p c k (Node s sl Black ks sr) # ctx) t" and t: "black t" "rb h t" and ctx: "rb_ctx (Suc h) (LeftOf p c k (Node s sl Black ks sr) # ctx)"
    and red: "\<not> (black sl \<and> black sr)"
  shows "tree_repaired (remove_rest_left p s T) T (plug ctx (Node p t c k (Node s sl Black ks sr)))"
proof -
  have s: "s \<noteq> 0" "rep (nodes T) s sl" "rep (nodes T) s sr" "left_child (nodes T s) = root_of sl" "right_child (nodes T s) = root_of sr"
    using rep_atD(1) [OF at] by simp_all
  have rest: "remove_rest_left p s T = bindR (remove_outer_left p s T) (\<lambda>(sibling, t). remove_finish_left p sibling t)"
    using s red is_black_root [OF s(2)] is_black_root [OF s(3)] by (auto simp: remove_rest_left_def)
  show ?thesis
  proof (cases "black sr")
    case False
    then obtain q ql kq qr where q: "sr = (Node q ql Red kq qr)" using color.exhaust by (cases sr) auto
    obtain T' where "remove_finish_left p s T = Inr (m_root T', T')" "rep_at T' ctx (Node s (Node p t Black k sl) c ks (Node q ql Black kq qr))" "m_size T' = m_size T" "m_minimum T' = m_minimum T"
      using remove_finish_left_ok [OF at [unfolded q]] by auto
    moreover have "\<exists>h'. rb h' (plug ctx (Node s (Node p t Black k sl) c ks (Node q ql Black kq qr))) \<and> black (plug ctx (Node s (Node p t Black k sl) c ks (Node q ql Black kq qr)))"
      using ctx t q by (intro rb_plug_frame [OF ctx]) (auto split: if_splits)
    ultimately show ?thesis using rest remove_outer_left_red [OF at False] q
      by (auto simp: tree_repaired_def rep_at_def elems_plug intro!: exI [of _ T'] exI [of _ "plug ctx (Node s (Node p t Black k sl) c ks (Node q ql Black kq qr))"])
  next
    case True
    then obtain a b ka d where a: "sl = (Node a b Red ka d)" using red color.exhaust by (cases sl) auto
    obtain T1 where out: "remove_outer_left p s T = Inr (a, T1)" and at1: "rep_at T1 (LeftOf p c k (Node a b Black ka (Node s d Red ks sr)) # ctx) t"
      and eq: "m_size T1 = m_size T" "m_minimum T1 = m_minimum T"
      using remove_outer_left_black [OF at [unfolded a] True] by auto
    obtain T' where "remove_finish_left p a T1 = Inr (m_root T', T')" "rep_at T' ctx (Node a (Node p t Black k b) c ka (Node s d Black ks sr))" "m_size T' = m_size T" "m_minimum T' = m_minimum T"
      using remove_finish_left_ok [OF at1] eq by auto
    moreover have "\<exists>h'. rb h' (plug ctx (Node a (Node p t Black k b) c ka (Node s d Black ks sr))) \<and> black (plug ctx (Node a (Node p t Black k b) c ka (Node s d Black ks sr)))"
      using ctx t a by (intro rb_plug_frame [OF ctx]) (auto split: if_splits)
    ultimately show ?thesis using rest out a
      by (auto simp: tree_repaired_def rep_at_def elems_plug intro!: exI [of _ T'] exI [of _ "plug ctx (Node a (Node p t Black k b) c ka (Node s d Black ks sr))"])
  qed
qed

lemma remove_rest_left_up:
  assumes at: "rep_at T (LeftOf p c k (Node s sl Black ks sr) # ctx) t" and t: "black t" "rb h t" and ctx: "rb_ctx (Suc h) (LeftOf p c k (Node s sl Black ks sr) # ctx)"
    and blk: "black sl" "black sr"
  shows "\<exists>T'. remove_rest_left p s T = Inr (p, T') \<and> rep_at T' ctx (Node p t c k (Node s sl Red ks sr)) \<and> short_place ctx (Node p t c k (Node s sl Red ks sr)) \<and>
    m_size T' = m_size T \<and> m_minimum T' = m_minimum T"
proof -
  have s: "s \<noteq> 0" "rep (nodes T) s sl" "rep (nodes T) s sr" "left_child (nodes T s) = root_of sl" "right_child (nodes T s) = root_of sr"
    using rep_atD(1) [OF at] by simp_all
  have "rep_at T (RightOf p c k t # ctx) (Node s sl Black ks sr)" using at by (simp add: rep_at_up)
  from rep_at_color [OF this, of Red] have "rep_at (T\<lparr>nodes := set_color s Red (nodes T)\<rparr>) ctx (Node p t c k (Node s sl Red ks sr))" by (simp add: rep_at_up)
  moreover have "short_place ctx (Node p t c k (Node s sl Red ks sr))"
  proof (cases c)
    case Red
    then show ?thesis using t ctx blk unfolding short_place_def by (auto intro!: exI [of _ "Suc h"])
  next
    case Black
    then show ?thesis using t ctx blk unfolding short_place_def by (auto intro!: exI [of _ "Suc h"])
  qed
  ultimately show ?thesis using s blk is_black_root [OF s(2)] is_black_root [OF s(3)] by (auto simp: remove_rest_left_def)
qed

lemma remove_fixup_left_ok:
  assumes at: "rep_at T (LeftOf p c k S # ctx) t" and t: "black t" "rb h t" and ctx: "rb_ctx (Suc h) (LeftOf p c k S # ctx)"
  shows "round_done (remove_fixup_left p T) T (LeftOf p c k S # ctx) t"
proof -
  obtain s sl cs ks sr where S: "S = Node s sl cs ks sr" using ctx by (cases S) auto
  show ?thesis
  proof (cases cs)
    case Black
    note at' = at [unfolded S Black] and ctx' = ctx [unfolded S Black]
    have eq: "remove_fixup_left p T = remove_rest_left p s T"
      using remove_sibling_left_black [OF at'] by (simp add: remove_fixup_left_def)
    show ?thesis
    proof (cases "black sl \<and> black sr")
      case True
      then show ?thesis using remove_rest_left_up [OF at' t ctx'] eq S Black by (auto intro!: round_doneI1 simp: elems_plug)
    next
      case False
      then show ?thesis using remove_rest_left_finish [OF at' t ctx'] eq S Black by (simp add: round_done_repaired)
    qed
  next
    case Red
    note at' = at [unfolded S Red] and ctx' = ctx [unfolded S Red]
    have c: "c = Black" using ctx' color.exhaust by (auto split: if_splits)
    obtain x l k2 r where sl: "sl = (Node x l Black k2 r)" using ctx' c color.exhaust by (cases sl) auto
    obtain T1 where sib: "remove_sibling_left p T = Inr (x, T1)" and at1: "rep_at T1 (LeftOf p Red k sl # LeftOf s Black ks sr # ctx) t"
      and eq: "m_size T1 = m_size T" "m_minimum T1 = m_minimum T"
      using remove_sibling_left_red [OF at'] sl by auto
    have rest: "remove_fixup_left p T = remove_rest_left p x T1" using sib by (simp add: remove_fixup_left_def)
    have ctx1: "rb_ctx (Suc h) (LeftOf p Red k sl # LeftOf s Black ks sr # ctx)" using ctx' c sl by (auto split: if_splits)
    have el: "elems (plug ctx (fill (LeftOf s Black ks sr) (fill (LeftOf p Red k sl) t))) = elems (plug (LeftOf p c k S # ctx) t)"
      using S by (simp add: elems_plug)
    show ?thesis
    proof (cases "black l \<and> black r")
      case True
      then obtain T' where "remove_rest_left p x T1 = Inr (p, T')" "rep_at T' (LeftOf s Black ks sr # ctx) (Node p t Red k (Node x l Red k2 r))"
        "short_place (LeftOf s Black ks sr # ctx) (Node p t Red k (Node x l Red k2 r))" "m_size T' = m_size T1" "m_minimum T' = m_minimum T1"
        using remove_rest_left_up [OF at1 [unfolded sl] t ctx1 [unfolded sl]] by auto
      then show ?thesis using rest eq el sl by (intro round_doneI1 [of T' "LeftOf s Black ks sr # ctx" "(Node p t Red k (Node x l Red k2 r))"]) (simp_all add: elems_plug)
    next
      case False
      then have "tree_repaired (remove_fixup_left p T) T1 (plug ctx (fill (LeftOf s Black ks sr) (fill (LeftOf p Red k sl) t)))"
        using remove_rest_left_finish [OF at1 [unfolded sl] t ctx1 [unfolded sl]] rest sl by simp
      then show ?thesis using eq el by (rule round_done_repaired)
    qed
  qed
qed

lemma remove_rest_right_finish:
  assumes at: "rep_at T (RightOf p c k (Node s sr Black ks sl) # ctx) t" and t: "black t" "rb h t" and ctx: "rb_ctx (Suc h) (RightOf p c k (Node s sr Black ks sl) # ctx)"
    and red: "\<not> (black sl \<and> black sr)"
  shows "tree_repaired (remove_rest_right p s T) T (plug ctx (Node p (Node s sr Black ks sl) c k t))"
proof -
  have s: "s \<noteq> 0" "rep (nodes T) s sl" "rep (nodes T) s sr" "left_child (nodes T s) = root_of sr" "right_child (nodes T s) = root_of sl"
    using rep_atD(1) [OF at] by simp_all
  have rest: "remove_rest_right p s T = bindR (remove_outer_right p s T) (\<lambda>(sibling, t). remove_finish_right p sibling t)"
    using s red is_black_root [OF s(2)] is_black_root [OF s(3)] by (auto simp: remove_rest_right_def)
  show ?thesis
  proof (cases "black sr")
    case False
    then obtain q ql kq qr where q: "sr = (Node q qr Red kq ql)" using color.exhaust by (cases sr) auto
    obtain T' where "remove_finish_right p s T = Inr (m_root T', T')" "rep_at T' ctx (Node s (Node q qr Black kq ql) c ks (Node p sl Black k t))" "m_size T' = m_size T" "m_minimum T' = m_minimum T"
      using remove_finish_right_ok [OF at [unfolded q]] by auto
    moreover have "\<exists>h'. rb h' (plug ctx (Node s (Node q qr Black kq ql) c ks (Node p sl Black k t))) \<and> black (plug ctx (Node s (Node q qr Black kq ql) c ks (Node p sl Black k t)))"
      using ctx t q by (intro rb_plug_frame [OF ctx]) (auto split: if_splits)
    ultimately show ?thesis using rest remove_outer_right_red [OF at False] q
      by (auto simp: tree_repaired_def rep_at_def elems_plug intro!: exI [of _ T'] exI [of _ "plug ctx (Node s (Node q qr Black kq ql) c ks (Node p sl Black k t))"])
  next
    case True
    then obtain a b ka d where a: "sl = (Node a d Red ka b)" using red color.exhaust by (cases sl) auto
    obtain T1 where out: "remove_outer_right p s T = Inr (a, T1)" and at1: "rep_at T1 (RightOf p c k (Node a (Node s sr Red ks d) Black ka b) # ctx) t"
      and eq: "m_size T1 = m_size T" "m_minimum T1 = m_minimum T"
      using remove_outer_right_black [OF at [unfolded a] True] by auto
    obtain T' where "remove_finish_right p a T1 = Inr (m_root T', T')" "rep_at T' ctx (Node a (Node s sr Black ks d) c ka (Node p b Black k t))" "m_size T' = m_size T" "m_minimum T' = m_minimum T"
      using remove_finish_right_ok [OF at1] eq by auto
    moreover have "\<exists>h'. rb h' (plug ctx (Node a (Node s sr Black ks d) c ka (Node p b Black k t))) \<and> black (plug ctx (Node a (Node s sr Black ks d) c ka (Node p b Black k t)))"
      using ctx t a by (intro rb_plug_frame [OF ctx]) (auto split: if_splits)
    ultimately show ?thesis using rest out a
      by (auto simp: tree_repaired_def rep_at_def elems_plug intro!: exI [of _ T'] exI [of _ "plug ctx (Node a (Node s sr Black ks d) c ka (Node p b Black k t))"])
  qed
qed

lemma remove_rest_right_up:
  assumes at: "rep_at T (RightOf p c k (Node s sr Black ks sl) # ctx) t" and t: "black t" "rb h t" and ctx: "rb_ctx (Suc h) (RightOf p c k (Node s sr Black ks sl) # ctx)"
    and blk: "black sl" "black sr"
  shows "\<exists>T'. remove_rest_right p s T = Inr (p, T') \<and> rep_at T' ctx (Node p (Node s sr Red ks sl) c k t) \<and> short_place ctx (Node p (Node s sr Red ks sl) c k t) \<and>
    m_size T' = m_size T \<and> m_minimum T' = m_minimum T"
proof -
  have s: "s \<noteq> 0" "rep (nodes T) s sl" "rep (nodes T) s sr" "left_child (nodes T s) = root_of sr" "right_child (nodes T s) = root_of sl"
    using rep_atD(1) [OF at] by simp_all
  have "rep_at T (LeftOf p c k t # ctx) (Node s sr Black ks sl)" using at by (simp add: rep_at_up)
  from rep_at_color [OF this, of Red] have "rep_at (T\<lparr>nodes := set_color s Red (nodes T)\<rparr>) ctx (Node p (Node s sr Red ks sl) c k t)" by (simp add: rep_at_up)
  moreover have "short_place ctx (Node p (Node s sr Red ks sl) c k t)"
  proof (cases c)
    case Red
    then show ?thesis using t ctx blk unfolding short_place_def by (auto intro!: exI [of _ "Suc h"])
  next
    case Black
    then show ?thesis using t ctx blk unfolding short_place_def by (auto intro!: exI [of _ "Suc h"])
  qed
  ultimately show ?thesis using s blk is_black_root [OF s(2)] is_black_root [OF s(3)] by (auto simp: remove_rest_right_def)
qed

lemma remove_fixup_right_ok:
  assumes at: "rep_at T (RightOf p c k S # ctx) t" and t: "black t" "rb h t" and ctx: "rb_ctx (Suc h) (RightOf p c k S # ctx)"
  shows "round_done (remove_fixup_right p T) T (RightOf p c k S # ctx) t"
proof -
  obtain s sl cs ks sr where S: "S = Node s sr cs ks sl" using ctx by (cases S) auto
  show ?thesis
  proof (cases cs)
    case Black
    note at' = at [unfolded S Black] and ctx' = ctx [unfolded S Black]
    have eq: "remove_fixup_right p T = remove_rest_right p s T"
      using remove_sibling_right_black [OF at'] by (simp add: remove_fixup_right_def)
    show ?thesis
    proof (cases "black sl \<and> black sr")
      case True
      then show ?thesis using remove_rest_right_up [OF at' t ctx'] eq S Black by (auto intro!: round_doneI1 simp: elems_plug)
    next
      case False
      then show ?thesis using remove_rest_right_finish [OF at' t ctx'] eq S Black by (simp add: round_done_repaired)
    qed
  next
    case Red
    note at' = at [unfolded S Red] and ctx' = ctx [unfolded S Red]
    have c: "c = Black" using ctx' color.exhaust by (auto split: if_splits)
    obtain x l k2 r where sl: "sl = (Node x r Black k2 l)" using ctx' c color.exhaust by (cases sl) auto
    obtain T1 where sib: "remove_sibling_right p T = Inr (x, T1)" and at1: "rep_at T1 (RightOf p Red k sl # RightOf s Black ks sr # ctx) t"
      and eq: "m_size T1 = m_size T" "m_minimum T1 = m_minimum T"
      using remove_sibling_right_red [OF at'] sl by auto
    have rest: "remove_fixup_right p T = remove_rest_right p x T1" using sib by (simp add: remove_fixup_right_def)
    have ctx1: "rb_ctx (Suc h) (RightOf p Red k sl # RightOf s Black ks sr # ctx)" using ctx' c sl by (auto split: if_splits)
    have el: "elems (plug ctx (fill (RightOf s Black ks sr) (fill (RightOf p Red k sl) t))) = elems (plug (RightOf p c k S # ctx) t)"
      using S by (simp add: elems_plug)
    show ?thesis
    proof (cases "black l \<and> black r")
      case True
      then obtain T' where "remove_rest_right p x T1 = Inr (p, T')" "rep_at T' (RightOf s Black ks sr # ctx) (Node p (Node x r Red k2 l) Red k t)"
        "short_place (RightOf s Black ks sr # ctx) (Node p (Node x r Red k2 l) Red k t)" "m_size T' = m_size T1" "m_minimum T' = m_minimum T1"
        using remove_rest_right_up [OF at1 [unfolded sl] t ctx1 [unfolded sl]] by auto
      then show ?thesis using rest eq el sl by (intro round_doneI1 [of T' "RightOf s Black ks sr # ctx" "(Node p (Node x r Red k2 l) Red k t)"]) (simp_all add: elems_plug)
    next
      case False
      then have "tree_repaired (remove_fixup_right p T) T1 (plug ctx (fill (RightOf s Black ks sr) (fill (RightOf p Red k sl) t)))"
        using remove_rest_right_finish [OF at1 [unfolded sl] t ctx1 [unfolded sl]] rest sl by simp
      then show ?thesis using eq el by (rule round_done_repaired)
    qed
  qed
qed

section \<open>The loop\<close>

text \<open>The node at which the loop ends is turned black.\<close>
definition loop_done :: "(addr \<times> 'k rb_tree) result \<Rightarrow> 'k rb_tree \<Rightarrow> 'k rbt \<Rightarrow> bool" where
  "loop_done res T t \<longleftrightarrow> (\<exists>x T' t' h. res = Inr (x, T') \<and> x \<noteq> 0 \<and> rep_tree (T'\<lparr>nodes := set_color x Black (nodes T')\<rparr>) t' \<and>
     rb h t' \<and> black t' \<and> elems t' = elems t \<and> m_size T' = m_size T \<and> m_minimum T' = m_minimum T)"

lemma loop_doneI:
  assumes "rep_tree (T'\<lparr>nodes := set_color x Black (nodes T')\<rparr>) t'" and "rb h t'" and "black t'" and "elems t' = elems t"
    and "m_size T' = m_size T" and "m_minimum T' = m_minimum T" and "x \<noteq> 0" and "res = Inr (x, T')"
  shows "loop_done res T t"
  using assms unfolding loop_done_def by blast

text \<open>The loop ends at a red node and at the root.\<close>
lemma loop_done_red:
  assumes "rep_at T ctx t" and "short_place ctx t" and "\<not> black t"
  shows "loop_done (remove_fixups_loop (Suc fuel) (root_of t) up T) T (plug ctx t)"
proof -
  obtain x l k r where t: "t = Node x l Red k r" using assms(3) color.exhaust by (cases t) auto
  obtain h where h: "rb h (Node x l Black k r)" "rb_ctx h ctx" using assms(2) t by (auto simp: short_place_def)
  obtain h' where "rb h' (plug ctx (Node x l Black k r))" "black (plug ctx (Node x l Black k r))" using rb_plug [OF h(2,1)] by auto
  moreover have "x \<noteq> 0" "color (nodes T x) = Red" using rep_atD(2) [OF assms(1)] t by simp_all
  moreover have "rep_tree (T\<lparr>nodes := set_color x Black (nodes T)\<rparr>) (plug ctx (Node x l Black k r))"
    using rep_at_color [OF assms(1) [unfolded t], of Black] by (simp add: rep_at_def)
  ultimately show ?thesis using t
    by (intro loop_doneI [of x T "plug ctx (Node x l Black k r)" h']) (simp_all add: elems_plug is_black_def)
qed

lemma loop_done_root:
  assumes "rep_tree T t" and "rb h t" and "black t" and "t \<noteq> Leaf"
  shows "loop_done (remove_fixups_loop (Suc fuel) (m_root T) up T) T t"
proof -
  obtain x l k r where t: "t = Node x l Black k r" using assms(3,4) by (cases t) auto
  have "x \<noteq> 0" "m_root T = x" using assms(1) t by (simp_all add: rep_tree_def)
  moreover have "rep_at T [] (Node x l Black k r)" using assms(1) t by (simp add: rep_at_def)
  then have "rep_tree (T\<lparr>nodes := set_color x Black (nodes T)\<rparr>) t" using rep_at_color [of T "[]" x l Black k r Black] t by (simp add: rep_at_def)
  ultimately show ?thesis using assms(2,3) by (intro loop_doneI [of x T t h]) simp_all
qed

lemma loop_done_cong:
  assumes "loop_done res T t" and "m_size T = m_size T'" and "m_minimum T = m_minimum T'" and "elems t = elems t'"
  shows "loop_done res T' t'"
  using assms by (simp add: loop_done_def)

text \<open>A round that is not the last.\<close>
lemma remove_round_ok:
  assumes at: "rep_at T (f # ctx) t" and t: "black t" "rb h t" and ctx: "rb_ctx (Suc h) (f # ctx)"
  defines "res \<equiv> (if left_child (nodes T (frame_addr f)) = root_of t then remove_fixup_left (frame_addr f) T else remove_fixup_right (frame_addr f) T)"
  shows "round_done res T (f # ctx) t"
    and "remove_fixups_loop (Suc fuel) (root_of t) (top_addr (f # ctx)) T = bindR res (\<lambda>(node', t').
      if node' = 0 then Inl OutOfBounds else remove_fixups_loop fuel node' (parent (nodes t' node')) t')"
proof -
  note at' = rep_atD [OF at]
  have S: "frame_tree f \<noteq> Leaf" using ctx by (cases "frame_tree f") auto
  show "round_done res T (f # ctx) t"
  proof (cases f)
    case (LeftOf p c k r)
    then show ?thesis using remove_fixup_left_ok [OF at [unfolded LeftOf] t ctx [unfolded LeftOf]] at'(1) by (simp add: res_def)
  next
    case (RightOf p c k l)
    have "root_of l \<noteq> root_of t"
    proof
      assume *: "root_of l = root_of t"
      then have "root_of t \<in> set (addrs l)" "root_of t \<noteq> 0" using root_in_addrs [of l] S RightOf at'(1) rep_root_0 [of "nodes T" p l] by auto
      moreover from this have "root_of t \<in> set (addrs t)" using root_in_addrs [of t] by (cases t) auto
      ultimately show False using at'(5) RightOf by auto
    qed
    then show ?thesis using RightOf remove_fixup_right_ok [OF at [unfolded RightOf] t ctx [unfolded RightOf]] at'(1) by (simp add: res_def)
  qed
  have "frame_addr f \<noteq> 0" using at'(1) by (cases f) simp_all
  moreover have "root_of t \<noteq> m_root T"
  proof
    assume *: "root_of t = m_root T"
    have "m_root T = root_of (plug (f # ctx) Leaf)" using at'(6) root_of_plug by metis
    moreover have "plug (f # ctx) Leaf \<noteq> Leaf" by simp
    ultimately have "m_root T \<in> set (addrs (plug (f # ctx) Leaf))" using root_in_addrs by metis
    then have in_ctx: "m_root T \<in> set (ctx_addrs (f # ctx))"
      using mset_addrs_plug [of "f # ctx" Leaf] by (metis add_0 addrs.simps(1) mset.simps(1) set_mset_mset)
    have "m_root T \<noteq> 0" using at at'(6) rep_root_0 [of "nodes T" 0 "plug (f # ctx) t"] by (auto simp: rep_at_def rep_tree_def)
    then have "t \<noteq> Leaf" using * by auto
    then show False using at'(5) root_in_addrs [of t] * in_ctx by metis
  qed
  moreover have "is_black (nodes T) (root_of t)" using is_black_root [OF at'(2)] t(1) by simp
  ultimately show "remove_fixups_loop (Suc fuel) (root_of t) (top_addr (f # ctx)) T = bindR res (\<lambda>(node', t').
      if node' = 0 then Inl OutOfBounds else remove_fixups_loop fuel node' (parent (nodes t' node')) t')"
    by (simp add: res_def)
qed

lemma round_cases:
  assumes "round_done res T ctx t" and "loop = bindR res (\<lambda>(node', t').
      if node' = 0 then Inl OutOfBounds else remove_fixups_loop fuel node' (parent (nodes t' node')) t')"
  obtains (up) T' ctx' t' where "rep_at T' ctx' t'" "short_place ctx' t'" "t' \<noteq> Leaf" "black t' \<longrightarrow> length ctx' < length ctx"
        "elems (plug ctx' t') = elems (plug ctx t)" "m_size T' = m_size T" "m_minimum T' = m_minimum T"
        "loop = remove_fixups_loop fuel (root_of t') (top_addr ctx') T'"
    | (repaired) T' t' h' where "rep_tree T' t'" "t' \<noteq> Leaf" "rb h' t'" "black t'" "elems t' = elems (plug ctx t)"
        "m_size T' = m_size T" "m_minimum T' = m_minimum T"
        "loop = remove_fixups_loop fuel (m_root T') (parent (nodes T' (m_root T'))) T'"
  using assms(1) unfolding round_done_def
proof (elim exE conjE disjE)
  fix T' ctx' t'
  assume res: "res = Inr (root_of t', T')" and at: "rep_at T' ctx' t'" "t' \<noteq> Leaf" and *: "short_place ctx' t'"
    "black t' \<longrightarrow> length ctx' < length ctx" "elems (plug ctx' t') = elems (plug ctx t)" "m_size T' = m_size T" "m_minimum T' = m_minimum T"
  obtain x l c k r where t': "t' = Node x l c k r" using at(2) by (cases t') auto
  then have "x \<noteq> 0" "parent (nodes T' x) = top_addr ctx'" using rep_atD(2) [OF at(1)] by simp_all
  then have "loop = remove_fixups_loop fuel (root_of t') (top_addr ctx') T'" using assms(2) res t' by simp
  then show ?thesis using up [of T' ctx' t'] at * by blast
next
  fix T' t' h
  assume res: "res = Inr (m_root T', T')" and t': "rep_tree T' t'" "t' \<noteq> Leaf" and *: "rb h t'" "black t'" "elems t' = elems (plug ctx t)"
    "m_size T' = m_size T" "m_minimum T' = m_minimum T"
  have "m_root T' \<noteq> 0" using t' rep_root_0 [of "nodes T'" 0 t'] by (simp add: rep_tree_def)
  then have "loop = remove_fixups_loop fuel (m_root T') (parent (nodes T' (m_root T'))) T'" using assms(2) res by simp
  then show ?thesis using repaired [of T' t' h] t' * by blast
qed

lemma remove_fixups_loop_ok:
  assumes "rep_at T ctx t" and "short_place ctx t" and "ctx = [] \<Longrightarrow> t \<noteq> Leaf" and "length ctx + 2 \<le> fuel"
  shows "loop_done (remove_fixups_loop fuel (root_of t) (top_addr ctx) T) T (plug ctx t)"
  using assms
proof (induction "length ctx" arbitrary: ctx t T fuel rule: less_induct)
  case less
  obtain fuel' where fuel: "fuel = Suc (Suc fuel')" using less.prems(4) by (cases fuel; cases "fuel - 1") auto
  consider "\<not> black t" | "black t" "ctx = []" | f ctx' where "black t" "ctx = f # ctx'" by (cases ctx) auto
  then show ?case
  proof cases
    case 1
    then show ?thesis using loop_done_red less.prems fuel by blast
  next
    case 2
    then obtain h where "rb h t" using less.prems(2) by (auto simp: short_place_def)
    then show ?thesis using loop_done_root [of T t h "Suc fuel'" 0] less.prems(1,3) 2 fuel by (simp add: rep_at_def rep_tree_def)
  next
    case (3 f ctx')
    obtain h where h: "rb h t" "rb_ctx (Suc h) (f # ctx')" using less.prems(2) 3 by (auto simp: short_place_def)
    note round = remove_round_ok [OF less.prems(1) [unfolded 3(2)] 3(1) h]
    from round(1) consider
      (up) T' ctx'' t' where "rep_at T' ctx'' t'" "short_place ctx'' t'" "t' \<noteq> Leaf" "black t' \<longrightarrow> length ctx'' < length ctx"
        "elems (plug ctx'' t') = elems (plug ctx t)" "m_size T' = m_size T" "m_minimum T' = m_minimum T"
        "remove_fixups_loop fuel (root_of t) (top_addr ctx) T = remove_fixups_loop (Suc fuel') (root_of t') (top_addr ctx'') T'"
    | (repaired) T' t' h' where "rep_tree T' t'" "t' \<noteq> Leaf" "rb h' t'" "black t'" "elems t' = elems (plug ctx t)"
        "m_size T' = m_size T" "m_minimum T' = m_minimum T"
        "remove_fixups_loop fuel (root_of t) (top_addr ctx) T = remove_fixups_loop (Suc fuel') (m_root T') (parent (nodes T' (m_root T'))) T'"
      using round(2) [of "Suc fuel'"] unfolding 3(2) fuel by (rule round_cases)
    then show ?thesis
    proof cases
      case up
      have "loop_done (remove_fixups_loop (Suc fuel') (root_of t') (top_addr ctx'') T') T' (plug ctx'' t')"
      proof (cases "black t'")
        case True
        then show ?thesis using less.hyps [of ctx'' T' t' "Suc fuel'"] up less.prems(4) fuel by auto
      next
        case False
        then show ?thesis using loop_done_red up by blast
      qed
      then show ?thesis unfolding up(8) using up(6,7,5) by (rule loop_done_cong)
    next
      case repaired
      then show ?thesis using loop_done_cong [OF loop_done_root] by metis
    qed
  qed
qed

lemma remove_fixups_ok:
  assumes "rep_at T ctx t" and "short_place ctx t" and "ctx = [] \<Longrightarrow> t \<noteq> Leaf" and "length ctx \<le> m_size T"
  shows "\<exists>T' t' h. remove_fixups (root_of t) (top_addr ctx) T = Inr T' \<and> rep_tree T' t' \<and> rb h t' \<and> black t' \<and>
    elems t' = elems (plug ctx t) \<and> m_size T' = m_size T \<and> m_minimum T' = m_minimum T"
proof -
  obtain x T' t' h where "remove_fixups_loop (Suc (Suc (m_size T))) (root_of t) (top_addr ctx) T = Inr (x, T')" "x \<noteq> 0"
    "rep_tree (T'\<lparr>nodes := set_color x Black (nodes T')\<rparr>) t'" "rb h t'" "black t'" "elems t' = elems (plug ctx t)"
    "m_size T' = m_size T" "m_minimum T' = m_minimum T"
    using remove_fixups_loop_ok [OF assms(1-3), of "Suc (Suc (m_size T))"] assms(4) unfolding loop_done_def by auto
  then show ?thesis by (intro exI [of _ "T'\<lparr>nodes := set_color x Black (nodes T')\<rparr>"] exI [of _ t'] exI [of _ h]) (simp add: remove_fixups_def)
qed

end
