(* ===== verification/Tree_Swap.thy ===== *)
theory Tree_Swap
  imports Tree_Fixup
begin

text \<open>
  The first part of \<^verbatim>\<open>remove\<close> of \<^verbatim>\<open>AK/RedBlackTree.h\<close>: a node with two children changes places with its successor, and a node with
  at most one child is replaced by it.
\<close>

section \<open>A node with at most one child\<close>

lemma replace_child_relink:
  "replace_child up x y T = (if up \<noteq> 0 then T\<lparr>nodes := relink up x y (nodes T)\<rparr> else T\<lparr>m_root := y\<rparr>)"
  by (simp add: replace_child_def relink_def)

definition only_child :: "'k rbt \<Rightarrow> 'k rbt \<Rightarrow> 'k rbt" where
  "only_child l r = (if l \<noteq> Leaf then l else r)"

lemma splice_out_ok:
  assumes at: "rep_at T ctx (Node x l c k r)" and one: "l = Leaf \<or> r = Leaf"
  defines "T' \<equiv> splice_out x (root_of (only_child l r)) T"
  shows "rep_at T' ctx (only_child l r)" and "color (nodes T' x) = c" and "parent (nodes T' x) = top_addr ctx"
    and "m_size T' = m_size T" and "m_minimum T' = m_minimum T"
proof -
  let ?ch = "only_child l r"
  note at' = rep_atD [OF at]
  have x: "x \<noteq> 0" "nodes T x = \<lparr>left_child = root_of l, right_child = root_of r, parent = top_addr ctx, color = c, key = k\<rparr>"
    using at'(2) by simp_all
  define n1 where "n1 = (if root_of ?ch \<noteq> 0 then set_parent (root_of ?ch) (top_addr ctx) (nodes T) else nodes T)"
  have ch: "rep (nodes T) x ?ch" "distinct (addrs ?ch)" "x \<notin> set (addrs ?ch)" "\<And>a. a \<in> set (addrs ?ch) \<Longrightarrow> a \<notin> set (ctx_addrs ctx)"
    using at'(2,3,5) by (cases "l = Leaf"; auto simp: only_child_def)+
  have rep1: "rep n1 (top_addr ctx) ?ch" unfolding n1_def using rep_reparent [OF ch(1,2)] by simp
  have far: "n1 a = nodes T a" if "a \<notin> set (addrs ?ch)" for a
    using that root_in_addrs [of ?ch] by (cases ?ch) (auto simp: n1_def set_simps)
  have T': "T' = replace_child (top_addr ctx) x (root_of ?ch) (T\<lparr>nodes := n1\<rparr>)"
    using far [OF ch(3)] x unfolding T'_def splice_out_def x(2) rb_node.simps n1_def [symmetric] Let_def by simp
  have ctx1: "rep_ctx n1 ctx x" using at'(1) by (auto intro!: rep_ctx_agree [of "nodes T"] far dest: ch(4))
  have xc: "x \<notin> set (ctx_addrs ctx)" using at'(5) by simp
  have "rep_at T' ctx ?ch \<and> nodes T' x = nodes T x \<and> m_size T' = m_size T \<and> m_minimum T' = m_minimum T"
  proof (cases ctx)
    case Nil
    then show ?thesis using T' rep1 ch(2) far [OF ch(3)] by (simp add: replace_child_def rep_at_def rep_tree_def)
  next
    case (Cons f fs)
    have top: "top_addr ctx \<noteq> 0" "top_addr ctx \<in> set (ctx_addrs ctx)" using ctx1 Cons by (cases f; simp)+
    have T2: "T' = T\<lparr>nodes := relink (top_addr ctx) x (root_of ?ch) n1\<rparr>" using T' top(1) by (simp add: replace_child_relink)
    have "rep_at T' ctx ?ch"
    proof (rule rep_atI [where n = "relink (top_addr ctx) x (root_of ?ch) n1"])
      show "rep_ctx (relink (top_addr ctx) x (root_of ?ch) n1) ctx (root_of ?ch)"
        using rep_ctx_relink [of n1 f fs x "root_of ?ch"] ctx1 x(1) at'(4) xc Cons by simp
      show "rep (relink (top_addr ctx) x (root_of ?ch) n1) (top_addr ctx) ?ch"
        using rep1 top(2) ch(4) by (auto intro!: rep_agree [of n1] relink_other)
      show "distinct (addrs ?ch @ ctx_addrs ctx)" using ch(2,4) at'(4) by auto
      show "m_root T' = root_of (plug ctx ?ch)" using T2 at'(6) Cons root_of_plug [of f fs "Node x l c k r" ?ch] by simp
    qed (simp add: T2)
    moreover have "x \<noteq> top_addr ctx" using top(2) xc by auto
    ultimately show ?thesis using T2 far [OF ch(3)] by simp
  qed
  then show "rep_at T' ctx ?ch" "color (nodes T' x) = c" "parent (nodes T' x) = top_addr ctx"
    "m_size T' = m_size T" "m_minimum T' = m_minimum T" using x(2) by simp_all
qed

section \<open>Two nodes change places\<close>

definition swap_addr :: "addr \<Rightarrow> addr \<Rightarrow> addr \<Rightarrow> addr" where
  "swap_addr x s a = (if a = x then s else if a = s then x else a)"

text \<open>The nodes keep their keys, so the keys move with them.\<close>
fun exchange :: "addr \<times> 'k \<Rightarrow> addr \<times> 'k \<Rightarrow> 'k rbt \<Rightarrow> 'k rbt" where
  "exchange x s Leaf = Leaf"
| "exchange x s (Node a l c k r) =
     Node (swap_addr (fst x) (fst s) a) (exchange x s l) c (if a = fst x then snd s else if a = fst s then snd x else k) (exchange x s r)"

definition swapped :: "addr \<times> 'k \<Rightarrow> addr \<times> 'k \<Rightarrow> 'k rb_node \<Rightarrow> addr \<Rightarrow> 'k rb_node" where
  "swapped x s v a = \<lparr>left_child = swap_addr (fst x) (fst s) (left_child v), right_child = swap_addr (fst x) (fst s) (right_child v),
     parent = swap_addr (fst x) (fst s) (parent v), color = color v, key = if a = fst x then snd s else if a = fst s then snd x else key v\<rparr>"

lemma root_of_exchange: "fst x \<noteq> 0 \<Longrightarrow> fst s \<noteq> 0 \<Longrightarrow> root_of (exchange x s t) = swap_addr (fst x) (fst s) (root_of t)"
  by (cases t) (simp_all add: swap_addr_def)

lemma rep_exchange:
  "rep n p t \<Longrightarrow> fst x \<noteq> 0 \<Longrightarrow> fst s \<noteq> 0 \<Longrightarrow> (\<And>a. a \<in> set (addrs t) \<Longrightarrow> n' (swap_addr (fst x) (fst s) a) = swapped x s (n a) a) \<Longrightarrow>
   rep n' (swap_addr (fst x) (fst s) p) (exchange x s t)"
proof (induction t arbitrary: p)
  case (Node a l c k r)
  have "swap_addr (fst x) (fst s) a \<noteq> 0" using Node.prems by (simp add: swap_addr_def)
  then show ?case using Node by (simp add: root_of_exchange swapped_def)
qed simp

lemma exchange_other: "fst x \<notin> set (addrs t) \<Longrightarrow> fst s \<notin> set (addrs t) \<Longrightarrow> exchange x s t = t"
  by (induction t) (auto simp: swap_addr_def)

lemma addrs_exchange: "addrs (exchange x s t) = map (swap_addr (fst x) (fst s)) (addrs t)"
  by (induction t) simp_all

lemma swap_addr_inj: "inj (swap_addr x s)"
  by (auto simp: inj_def swap_addr_def)

lemma rb_exchange [simp]: "black (exchange x s t) = black t" "rb h (exchange x s t) = rb h t"
proof -
  show "black (exchange x s t) = black t" for t by (cases t) simp_all
  then show "rb h (exchange x s t) = rb h t" by (induction h t rule: rb.induct) simp_all
qed

lemma exchange_plug:
  "fst x \<notin> set (ctx_addrs ctx) \<Longrightarrow> fst s \<notin> set (ctx_addrs ctx) \<Longrightarrow> exchange x s (plug ctx t) = plug ctx (exchange x s t)"
proof (induction ctx arbitrary: t)
  case (Cons f ctx)
  then show ?case by (cases f) (auto simp: exchange_other swap_addr_def)
qed simp

lemma plug_append: "plug (ctx @ ctx') t = plug ctx' (plug ctx t)"
  by (induction ctx arbitrary: t) simp_all


section \<open>Links\<close>

text \<open>The pointers between two nodes agree.\<close>
lemma child_parent:
  "rep n p t \<Longrightarrow> a \<in> set (addrs t) \<Longrightarrow> b \<noteq> 0 \<Longrightarrow> left_child (n a) = b \<or> right_child (n a) = b \<Longrightarrow> parent (n b) = a \<and> b \<in> set (addrs t)"
proof (induction t arbitrary: p)
  case (Node a' l c k r)
  have "root_of l = b \<Longrightarrow> parent (n b) = a' \<and> b \<in> set (addrs l)" "root_of r = b \<Longrightarrow> parent (n b) = a' \<and> b \<in> set (addrs r)"
    using Node.prems(1,3) by (cases l; cases r; auto)+
  then show ?case using Node by auto
qed simp

lemma parent_child:
  "rep n p t \<Longrightarrow> a \<in> set (addrs t) \<Longrightarrow> parent (n a) = b \<Longrightarrow>
   a = root_of t \<and> b = p \<or> b \<in> set (addrs t) \<and> (left_child (n b) = a \<or> right_child (n b) = a)"
proof (induction t arbitrary: p)
  case (Node a' l c k r)
  consider "a = a'" | "a \<in> set (addrs l)" | "a \<in> set (addrs r)" using Node.prems(2) by auto
  then show ?case
  proof cases
    case 2
    then show ?thesis using Node.IH(1) [of a'] Node.prems by auto
  next
    case 3
    then show ?thesis using Node.IH(2) [of a'] Node.prems by auto
  qed (use Node.prems in simp)
qed simp

text \<open>The first node of a tree.\<close>
lemma first_place:
  "t \<noteq> Leaf \<Longrightarrow> \<exists>ctx s c k r. t = plug ctx (Node s Leaf c k r) \<and> before ctx = []"
proof (induction t)
  case (Node a l c k r)
  show ?case
  proof (cases "l = Leaf")
    case True
    then show ?thesis by (intro exI [of _ "[]"]) simp
  next
    case False
    then obtain ctx s c' k' r' where "l = plug ctx (Node s Leaf c' k' r')" "before ctx = []" using Node.IH(1) by blast
    moreover have "before (ctx @ [LeftOf a c k r]) = before ctx" for ctx
      by (induction ctx rule: before.induct) simp_all
    ultimately show ?thesis by (intro exI [of _ "ctx @ [LeftOf a c k r]"] exI) (auto simp: plug_append)
  qed
qed simp


section \<open>Changing places with the successor\<close>

lemma swapped_other:
  "a \<noteq> fst x \<Longrightarrow> a \<noteq> fst s \<Longrightarrow> swapped x s v a = v\<lparr>left_child := swap_addr (fst x) (fst s) (left_child v),
     right_child := swap_addr (fst x) (fst s) (right_child v), parent := swap_addr (fst x) (fst s) (parent v)\<rparr>"
  by (cases v) (simp add: swapped_def)

text \<open>The links of the nodes around the two.\<close>
definition around_first :: "bool \<Rightarrow> addr \<Rightarrow> addr \<Rightarrow> 'k rb_nodes \<Rightarrow> 'k rb_nodes" where
  "around_first nb x s n =
     (let n2 = (if nb then set_parent (left_child (n x)) s n else set_parent (right_child (n x)) s (set_parent (left_child (n x)) s n));
          n3 = (if parent (n x) \<noteq> 0 then relink (parent (n x)) x s n2 else n2)
      in if right_child (n s) \<noteq> 0 then set_parent (right_child (n s)) x n3 else n3)"

definition around :: "bool \<Rightarrow> addr \<Rightarrow> addr \<Rightarrow> 'k rb_nodes \<Rightarrow> 'k rb_nodes" where
  "around nb x s n = (if nb then around_first nb x s n else relink (parent (n s)) s x (around_first nb x s n))"

lemma around_first_other:
  "a \<noteq> left_child (n x) \<Longrightarrow> nb \<or> a \<noteq> right_child (n x) \<Longrightarrow> a \<noteq> parent (n x) \<Longrightarrow> a \<noteq> right_child (n s) \<Longrightarrow> around_first nb x s n a = n a"
  by (auto simp: around_first_def Let_def set_parent_def)

lemma relink_around_eq:
  assumes "x \<noteq> s" and "left_child (nodes T x) \<notin> {x, s}" and "right_child (nodes T x) \<noteq> x" and "nb \<longleftrightarrow> right_child (nodes T x) = s"
    and "parent (nodes T x) \<notin> {x, s}"
  shows "relink_around nb x s T = T\<lparr>m_root := if parent (nodes T x) = 0 then s else m_root T, nodes := around_first nb x s (nodes T)\<rparr>"
proof -
  define n2 where "n2 = (if nb then set_parent (left_child (nodes T x)) s (nodes T)
    else set_parent (right_child (nodes T x)) s (set_parent (left_child (nodes T x)) s (nodes T)))"
  define n3 where "n3 = (if parent (nodes T x) \<noteq> 0 then relink (parent (nodes T x)) x s n2 else n2)"
  have x2: "n2 x = nodes T x" "n2 s = nodes T s" using assms(1-4) by (auto simp: n2_def set_parent_def)
  have s3: "n3 s = nodes T s" using x2 assms(5) by (auto simp: n3_def)
  have t3: "replace_child (parent (nodes T x)) x s (T\<lparr>nodes := n2\<rparr>) = T\<lparr>m_root := if parent (nodes T x) = 0 then s else m_root T, nodes := n3\<rparr>"
    by (simp add: replace_child_relink n3_def)
  have n2: "n2 = (if \<not> nb then set_parent (right_child (set_parent (left_child (nodes T x)) s (nodes T) x)) s (set_parent (left_child (nodes T x)) s (nodes T))
      else set_parent (left_child (nodes T x)) s (nodes T))"
    using assms(2) by (simp add: n2_def set_parent_def)
  show ?thesis unfolding relink_around_def Let_def n2 [symmetric] x2 t3 around_first_def n2_def [symmetric] n3_def [symmetric] by (simp add: s3)
qed


text \<open>The fields of the two nodes.\<close>
lemma relink_eq:
  assumes ne: "x \<noteq> s" "s \<noteq> 0" "left_child (nodes T x) \<notin> {x, s}" "right_child (nodes T x) \<noteq> x" "parent (nodes T x) \<notin> {x, s}"
      "right_child (nodes T s) \<notin> {x, s}" "parent (nodes T s) \<notin> {0, s}"
    and nb: "parent (nodes T s) = x \<longleftrightarrow> right_child (nodes T x) = s"
    and suc: "successor (Suc (m_size T)) (nodes T) x = Inr s"
  shows "\<exists>n. relink_with_successor x T = Inr (T\<lparr>m_root := if parent (nodes T x) = 0 then s else m_root T, nodes := n\<rparr>) \<and>
    n x = \<lparr>left_child = left_child (nodes T s), right_child = right_child (nodes T s),
      parent = if parent (nodes T s) = x then s else parent (nodes T s), color = color (nodes T s), key = key (nodes T x)\<rparr> \<and>
    n s = \<lparr>left_child = left_child (nodes T x), right_child = if parent (nodes T s) = x then x else right_child (nodes T x),
      parent = parent (nodes T x), color = color (nodes T x), key = key (nodes T s)\<rparr> \<and>
    (\<forall>a. a \<noteq> x \<longrightarrow> a \<noteq> s \<longrightarrow> n a = around (parent (nodes T s) = x) x s (nodes T) a)"
proof -
  let ?nb = "parent (nodes T s) = x"
  define m where "m = around ?nb x s (nodes T)"
  define root where "root = (if parent (nodes T x) = 0 then s else m_root T)"
  define n4 where "n4 = around_first ?nb x s (nodes T)"
  have ar: "relink_around ?nb x s T = T\<lparr>m_root := root, nodes := n4\<rparr>"
    using relink_around_eq [OF ne(1,3,4) nb ne(5)] by (simp add: n4_def root_def)
  have m: "m = (if ?nb then n4 else relink (parent (nodes T s)) s x n4)" by (simp add: m_def n4_def around_def)
  have n4: "n4 x = nodes T x" "n4 s = nodes T s"
    using ne nb unfolding n4_def by (auto intro!: around_first_other)
  then have mx: "m x = nodes T x" "m s = nodes T s" using m ne nb by auto
  define n5 where "n5 = (if ?nb then set_parent x s (set_parent s (parent (nodes T x)) m)
    else set_parent s (parent (nodes T x)) (set_parent x (parent (nodes T s)) m))"
  have par: "relink_parents ?nb x s (T\<lparr>m_root := root, nodes := n4\<rparr>) = T\<lparr>m_root := root, nodes := n5\<rparr>"
    using n4 mx m ne(7) by (simp add: relink_parents_def replace_child_relink n5_def Let_def)
  define n where "n = swap_colors x s (swap_children ?nb x s n5)"
  have "relink_with_successor x T = Inr (T\<lparr>m_root := root, nodes := n\<rparr>)"
    using suc ne(2) by (simp add: relink_with_successor_def ar par n_def)
  moreover have "n x = \<lparr>left_child = left_child (nodes T s), right_child = right_child (nodes T s),
      parent = if ?nb then s else parent (nodes T s), color = color (nodes T s), key = key (nodes T x)\<rparr>"
    using mx ne(1) by (simp add: n_def n5_def swap_colors_def swap_children_def Let_def set_simps)
  moreover have "n s = \<lparr>left_child = left_child (nodes T x), right_child = if ?nb then x else right_child (nodes T x),
      parent = parent (nodes T x), color = color (nodes T x), key = key (nodes T s)\<rparr>"
    using mx ne(1) by (simp add: n_def n5_def swap_colors_def swap_children_def Let_def set_simps)
  moreover have "n a = m a" if "a \<noteq> x" "a \<noteq> s" for a
    using that by (simp add: n_def n5_def swap_colors_def swap_children_def Let_def set_simps)
  ultimately show ?thesis by (auto simp: root_def m_def)
qed


lemma set_parent_fields [simp]:
  "left_child (set_parent p q n a) = left_child (n a)" "right_child (set_parent p q n a) = right_child (n a)"
  "parent (set_parent p q n a) = (if a = p then q else parent (n a))"
  "color (set_parent p q n a) = color (n a)" "key (set_parent p q n a) = key (n a)"
  by (simp_all add: set_parent_def)

lemma relink_fields [simp]:
  "left_child (relink u x y n a) = (if a = u \<and> left_child (n u) = x then y else left_child (n a))"
  "right_child (relink u x y n a) = (if a = u \<and> left_child (n u) \<noteq> x then y else right_child (n a))"
  "parent (relink u x y n a) = parent (n a)" "color (relink u x y n a) = color (n a)" "key (relink u x y n a) = key (n a)"
  by (simp_all add: relink_def set_left_def set_right_def)

text \<open>Which nodes of the tree point to a node.\<close>
definition links_of :: "'k rb_nodes \<Rightarrow> addr set \<Rightarrow> addr \<Rightarrow> bool" where
  "links_of n A x \<longleftrightarrow> (\<forall>a \<in> A. (left_child (n a) = x \<or> right_child (n a) = x \<longrightarrow> a = parent (n x)) \<and>
     (parent (n a) = x \<longrightarrow> a = left_child (n x) \<or> a = right_child (n x)))"

lemma around_swapped:
  assumes a: "a \<in> A" "a \<noteq> 0" "a \<noteq> x" "a \<noteq> s" and links: "links_of n A x" "links_of n A s" and ls: "left_child (n s) = 0"
    and nb: "nb \<longleftrightarrow> parent (n s) = x" "nb \<longleftrightarrow> right_child (n x) = s"
    and par: "parent (n (left_child (n x))) = x" "parent (n (right_child (n x))) = x" "right_child (n s) \<noteq> 0 \<Longrightarrow> parent (n (right_child (n s))) = s"
    and up: "parent (n x) \<noteq> 0 \<Longrightarrow> (left_child (n (parent (n x))) = x) \<noteq> (right_child (n (parent (n x))) = x)"
    and us: "\<not> nb \<Longrightarrow> left_child (n (parent (n s))) = s \<and> right_child (n (parent (n s))) \<noteq> s \<and> parent (n s) \<noteq> parent (n x)" and xs: "x \<noteq> s"
  shows "around nb x s n a = swapped (x, k) (s, k') (n a) a"
proof (rule rb_node.equality)
  have la: "a \<noteq> parent (n x) \<Longrightarrow> left_child (n a) \<noteq> x \<and> right_child (n a) \<noteq> x"
      "a \<noteq> left_child (n x) \<Longrightarrow> a \<noteq> right_child (n x) \<Longrightarrow> parent (n a) \<noteq> x"
      "a \<noteq> parent (n s) \<Longrightarrow> left_child (n a) \<noteq> s \<and> right_child (n a) \<noteq> s" "a \<noteq> right_child (n s) \<Longrightarrow> parent (n a) \<noteq> s"
    using links a(1,2) ls unfolding links_of_def by metis+
  consider "parent (n x) = a" "parent (n s) \<noteq> a" | "parent (n s) = a" "\<not> nb" "parent (n x) \<noteq> a" | "parent (n x) \<noteq> a" "parent (n s) \<noteq> a"
    using us nb(1) a(3) by metis
  then have "left_child (around nb x s n a) = left_child (swapped (x, k) (s, k') (n a) a) \<and>
      right_child (around nb x s n a) = right_child (swapped (x, k) (s, k') (n a) a)"
  proof cases
    case 1
    then have "left_child (n a) \<noteq> s" "right_child (n a) \<noteq> s" using la(3) by auto
    then show ?thesis using 1 up a by (auto simp: around_def around_first_def Let_def swapped_other swap_addr_def)
  next
    case 2
    then have "left_child (n a) \<noteq> x" "right_child (n a) \<noteq> x" "left_child (n a) = s" "right_child (n a) \<noteq> s" using la(1) us by auto
    then show ?thesis using 2 a xs by (simp add: around_def around_first_def Let_def swapped_other swap_addr_def)
  next
    case 3
    then have "left_child (n a) \<noteq> x" "right_child (n a) \<noteq> x" "left_child (n a) \<noteq> s" "right_child (n a) \<noteq> s" using la(1,3) by auto
    then show ?thesis using 3 a by (simp add: around_def around_first_def Let_def swapped_other swap_addr_def)
  qed
  then show "left_child (around nb x s n a) = left_child (swapped (x, k) (s, k') (n a) a)"
    "right_child (around nb x s n a) = right_child (swapped (x, k) (s, k') (n a) a)" by simp_all
  have p: "parent (around nb x s n a) = (if right_child (n s) \<noteq> 0 \<and> a = right_child (n s) then x
      else if \<not> nb \<and> a = right_child (n x) \<or> a = left_child (n x) then s else parent (n a))"
    by (simp add: around_def around_first_def Let_def)
  consider "right_child (n s) = a" | "right_child (n s) \<noteq> a" "left_child (n x) = a \<or> right_child (n x) = a"
    | "right_child (n s) \<noteq> a" "left_child (n x) \<noteq> a" "right_child (n x) \<noteq> a" by blast
  then show "parent (around nb x s n a) = parent (swapped (x, k) (s, k') (n a) a)"
  proof cases
    case 1
    then show ?thesis using p par(3) a xs by (simp add: swapped_other swap_addr_def)
  next
    case 2
    then have "parent (n a) = x" using par by auto
    moreover have "\<not> nb \<or> left_child (n x) = a" using 2 nb(2) a(4) by auto
    ultimately show ?thesis using p 2 a by (auto simp: swapped_other swap_addr_def)
  next
    case 3
    then have "parent (n a) \<noteq> x" "parent (n a) \<noteq> s" using la(2,4) by auto
    then show ?thesis using p 3 a by (simp add: swapped_other swap_addr_def)
  qed
qed (use a in \<open>simp_all add: around_def around_first_def Let_def swapped_other\<close>)

end
