(* ===== verification/Tree_Unlink.thy ===== *)
theory Tree_Unlink
  imports Tree_Swap
begin

text \<open>
  A node with two children changes places with its successor: the tree has the same shape and colors, and the two nodes are exchanged.
\<close>

text \<open>In a tree, the nodes that point to a node are its parent and its children.\<close>
lemma links_of_tree:
  assumes "rep n 0 t" and "x \<in> set (addrs t)"
  shows "links_of n (set (addrs t)) x"
proof -
  have "x \<noteq> 0" using assms(2) rep_addrs_nonzero [OF assms(1)] by metis
  show ?thesis unfolding links_of_def
  proof (intro ballI conjI impI)
    fix a assume a: "a \<in> set (addrs t)"
    show "a = parent (n x)" if "left_child (n a) = x \<or> right_child (n a) = x" using child_parent [OF assms(1) a \<open>x \<noteq> 0\<close> that] by simp
    show "a = left_child (n x) \<or> a = right_child (n x)" if "parent (n a) = x" using parent_child [OF assms(1) a that] \<open>x \<noteq> 0\<close> by auto
  qed
qed

text \<open>The parent of the subtree at a place has it as one of its children.\<close>
lemma top_links:
  assumes "rep_at T ctx t" and "t \<noteq> Leaf" and "top_addr ctx \<noteq> 0"
  shows "(left_child (nodes T (top_addr ctx)) = root_of t) \<noteq> (right_child (nodes T (top_addr ctx)) = root_of t)"
    and "top_addr ctx \<in> set (ctx_addrs ctx)"
proof -
  note at = rep_atD [OF assms(1)]
  obtain f fs where ctx: "ctx = f # fs" using assms(3) by (cases ctx) auto
  have "root_of t \<noteq> root_of (frame_tree f)"
  proof
    assume *: "root_of t = root_of (frame_tree f)"
    have "root_of t \<noteq> 0" using rep_root_0 [OF at(2)] assms(2) by simp
    then have "frame_tree f \<noteq> Leaf" using * by auto
    then have "root_of t \<in> set (ctx_addrs ctx)" using root_in_addrs [of "frame_tree f"] * ctx by (cases f) auto
    then show False using at(5) root_in_addrs [OF assms(2)] by blast
  qed
  then show "(left_child (nodes T (top_addr ctx)) = root_of t) \<noteq> (right_child (nodes T (top_addr ctx)) = root_of t)"
    using at(1) ctx by (cases f) auto
  show "top_addr ctx \<in> set (ctx_addrs ctx)" using ctx by (cases f) simp_all
qed

lemma root_in_context: "root_of (plug (f # ctx) t) \<in> set (ctx_addrs (f # ctx))"
proof -
  have "root_of (plug (f # ctx) t) = root_of (plug (f # ctx) Leaf)" by (rule root_of_plug)
  moreover have "plug (f # ctx) Leaf \<noteq> Leaf" by simp
  ultimately have "root_of (plug (f # ctx) t) \<in> set (addrs (plug (f # ctx) Leaf))" using root_in_addrs by metis
  then show ?thesis by (metis add_0 addrs.simps(1) mset.simps(1) mset_addrs_plug set_mset_mset)
qed

text \<open>A node with two children and its successor, the first node of the right subtree.\<close>
lemma successor_pair:
  assumes at: "rep_at T ctx (Node x l c k r)" and l: "l \<noteq> Leaf" and r: "r = plug rctx (Node s Leaf cs ks rs)" and first: "before rctx = []"
  defines "n \<equiv> nodes T"
  shows "n x = \<lparr>left_child = root_of l, right_child = root_of r, parent = top_addr ctx, color = c, key = k\<rparr>" and "x \<noteq> 0"
    and "left_child (n s) = 0" and "right_child (n s) = root_of rs" and "color (n s) = cs" and "key (n s) = ks" and "s \<noteq> 0"
    and "x \<noteq> s" and "root_of l \<notin> {0, x, s}" and "root_of r \<notin> {0, x}" and "top_addr ctx \<notin> {x, s}" and "root_of rs \<notin> {x, s}"
    and "parent (n s) \<notin> {0, s}" and "parent (n s) = x \<longleftrightarrow> root_of r = s"
    and "parent (n s) \<noteq> x \<Longrightarrow> left_child (n (parent (n s))) = s \<and> right_child (n (parent (n s))) \<noteq> s \<and> parent (n s) \<noteq> top_addr ctx"
    and "x \<notin> set (ctx_addrs ctx)" "s \<notin> set (ctx_addrs ctx)" "x \<notin> set (addrs l)" "s \<notin> set (addrs l)" "x \<notin> set (addrs rs)" "s \<notin> set (addrs rs)"
    and "x \<notin> set (ctx_addrs rctx)" "s \<notin> set (ctx_addrs rctx)"
proof -
  have at_s: "rep_at T (rctx @ RightOf x c k l # ctx) (Node s Leaf cs ks rs)" using at r by (simp add: rep_at_def plug_append)
  note X = rep_atD [OF at] and S = rep_atD [OF at_s]
  show nx: "n x = \<lparr>left_child = root_of l, right_child = root_of r, parent = top_addr ctx, color = c, key = k\<rparr>" "x \<noteq> 0"
    using X(2) by (simp_all add: n_def)
  show ns: "left_child (n s) = 0" "right_child (n s) = root_of rs" "color (n s) = cs" "key (n s) = ks" "s \<noteq> 0"
    using S(2) by (simp_all add: n_def)
  have us: "parent (n s) = top_addr (rctx @ RightOf x c k l # ctx)" using S(2) by (simp add: n_def)
  have addrs_r: "set (addrs r) = insert s (set (addrs rs)) \<union> set (ctx_addrs rctx)"
    unfolding r by (simp add: mset_addrs_plug flip: set_mset_mset)
  have ctx_s: "ctx_addrs (rctx @ RightOf x c k l # ctx) = ctx_addrs rctx @ x # addrs l @ ctx_addrs ctx" by (simp add: ctx_addrs_def)
  have D: "distinct (s # addrs rs @ ctx_addrs rctx @ x # addrs l @ ctx_addrs ctx)" using S(3,4,5) by (auto simp: ctx_s)
  show "x \<noteq> s" "x \<notin> set (ctx_addrs ctx)" "s \<notin> set (ctx_addrs ctx)" "x \<notin> set (addrs l)" "s \<notin> set (addrs l)" "x \<notin> set (addrs rs)" "s \<notin> set (addrs rs)"
    "x \<notin> set (ctx_addrs rctx)" "s \<notin> set (ctx_addrs rctx)" using D by auto
  have rl: "root_of l \<in> set (addrs l)" using root_in_addrs l by blast
  then show "root_of l \<notin> {0, x, s}" using D X(2) rep_root_0 [of "nodes T" x l] l by auto
  have "r \<noteq> Leaf" using r by simp
  then have rr: "root_of r \<in> set (addrs r)" "root_of r \<noteq> 0" using root_in_addrs X(2) rep_root_0 [of "nodes T" x r] by auto
  then show "root_of r \<notin> {0, x}" using D addrs_r by auto
  have top: "top_addr ctx = 0 \<or> top_addr ctx \<in> set (ctx_addrs ctx)" using top_links(2) [OF at] by auto
  then show "top_addr ctx \<notin> {x, s}" using D nx(2) ns(5) by auto
  show "root_of rs \<notin> {x, s}" using D nx(2) ns(5) root_in_addrs [of rs] by (cases rs) auto
  have us': "top_addr (rctx @ RightOf x c k l # ctx) \<in> set (ctx_addrs rctx) \<union> {x}"
  proof (cases rctx)
    case (Cons f fs)
    then show ?thesis by (cases f) simp_all
  qed simp
  have nz: "top_addr (rctx @ RightOf x c k l # ctx) \<noteq> 0"
  proof (cases rctx)
    case (Cons f fs)
    then show ?thesis using S(1) by (cases f) simp_all
  qed (use nx in simp)
  then show "parent (n s) \<notin> {0, s}" using us us' D by auto
  show "parent (n s) = x \<longleftrightarrow> root_of r = s"
  proof (cases rctx)
    case Nil
    then show ?thesis using us r by simp
  next
    case (Cons f fs)
    then have *: "parent (n s) \<in> set (ctx_addrs rctx)" using us by (cases f) simp_all
    have "root_of r \<in> set (ctx_addrs rctx)" using root_in_context Cons r by blast
    then show ?thesis using D * by auto
  qed
  show "left_child (n (parent (n s))) = s \<and> right_child (n (parent (n s))) \<noteq> s \<and> parent (n s) \<noteq> top_addr ctx" if far: "parent (n s) \<noteq> x"
  proof -
    have "rctx = [] \<Longrightarrow> parent (n s) = x" using us by simp
    then obtain f fs where rc: "rctx = f # fs" using far by (cases rctx) simp_all
    then obtain a ca ka ra where f: "f = LeftOf a ca ka ra" using first by (cases f) auto
    have na: "left_child (n a) = s" "parent (n s) = a" using S(1,2) rc f by (simp_all add: n_def)
    then have "right_child (n a) \<noteq> s" using top_links(1) [OF at_s] nz rc f by (auto simp: n_def)
    then show ?thesis using na top D rc f S(1) by auto
  qed
qed


lemma relink_ok:
  assumes at: "rep_at T ctx (Node x l c k r)" and l: "l \<noteq> Leaf" and r: "r = plug rctx (Node s Leaf cs ks rs)" and first: "before rctx = []"
    and suc: "successor (Suc (m_size T)) (nodes T) x = Inr s"
  shows "\<exists>T'. relink_with_successor x T = Inr T' \<and> rep_at T' (rctx @ RightOf s c ks l # ctx) (Node x Leaf cs k rs) \<and>
    plug (rctx @ RightOf s c ks l # ctx) (Node x Leaf cs k rs) = exchange (x, k) (s, ks) (plug ctx (Node x l c k r)) \<and>
    m_size T' = m_size T \<and> m_minimum T' = m_minimum T"
proof -
  let ?n = "nodes T" and ?t = "plug ctx (Node x l c k r)" and ?ex = "exchange (x, k) (s, ks)"
  note pair = successor_pair [OF at l r first]
  have t: "rep ?n 0 ?t" "distinct (addrs ?t)" "m_root T = root_of ?t" using at by (simp_all add: rep_at_def rep_tree_def)
  have x_in: "x \<in> set (addrs ?t)" and s_in: "s \<in> set (addrs ?t)" unfolding r by (auto simp: mset_addrs_plug simp flip: set_mset_mset)
  have child: "parent (?n b) = x" if "b = root_of l \<or> b = root_of r" for b
    using child_parent [OF t(1) x_in, of b] pair(1,9,10) that by auto
  have child_s: "parent (?n (root_of rs)) = s" if "root_of rs \<noteq> 0" using child_parent [OF t(1) s_in that] pair(4) by simp
  have up: "top_addr ctx \<noteq> 0 \<Longrightarrow> (left_child (?n (top_addr ctx)) = x) \<noteq> (right_child (?n (top_addr ctx)) = x)"
    using top_links(1) [OF at] by simp
  obtain n where eq: "relink_with_successor x T = Inr (T\<lparr>m_root := if top_addr ctx = 0 then s else m_root T, nodes := n\<rparr>)"
    and n: "n x = \<lparr>left_child = 0, right_child = root_of rs, parent = if parent (?n s) = x then s else parent (?n s), color = cs, key = k\<rparr>"
      "n s = \<lparr>left_child = root_of l, right_child = if parent (?n s) = x then x else root_of r, parent = top_addr ctx, color = c, key = ks\<rparr>"
      "\<And>a. a \<noteq> x \<Longrightarrow> a \<noteq> s \<Longrightarrow> n a = around (parent (?n s) = x) x s ?n a"
  proof -
    have "left_child (?n x) \<notin> {x, s}" "right_child (?n x) \<noteq> x" "parent (?n x) \<notin> {x, s}" "right_child (?n s) \<notin> {x, s}"
      "parent (?n s) = x \<longleftrightarrow> right_child (?n x) = s" using pair(1,4,9-12,14) by simp_all
    from relink_eq [OF pair(8,7) this(1-4) pair(13) this(5) suc] show ?thesis using that pair(1,3-6) by auto
  qed
  have "n (swap_addr x s a) = swapped (x, k) (s, ks) (?n a) a" if a: "a \<in> set (addrs ?t)" for a
  proof -
    consider "a = x" | "a = s" | "a \<noteq> x" "a \<noteq> s" by blast
    then show ?thesis
    proof cases
      case 1
      then show ?thesis using n(2) pair(1,8,9,10,11,14) by (auto simp: swap_addr_def swapped_def)
    next
      case 2
      then show ?thesis using n(1) pair(2-8,12,13) by (auto simp: swap_addr_def swapped_def)
    next
      case 3
      have "a \<noteq> 0" using a rep_addrs_nonzero [OF t(1)] by metis
      then have "around (parent (?n s) = x) x s ?n a = swapped (x, k) (s, ks) (?n a) a"
        using around_swapped [OF a _ 3 links_of_tree [OF t(1) x_in] links_of_tree [OF t(1) s_in] pair(3) refl]
          pair(1,4,8,14,15) child child_s up by simp
      then show ?thesis using 3 n(3) by (simp add: swap_addr_def)
    qed
  qed
  then have rep': "rep n 0 (?ex ?t)" using rep_exchange [OF t(1), of "(x, k)" "(s, ks)" n] pair(2,7) by (simp add: swap_addr_def)
  have ex: "?ex ?t = plug (rctx @ RightOf s c ks l # ctx) (Node x Leaf cs k rs)"
    unfolding r using pair(8,16-23) by (simp add: exchange_plug exchange_other plug_append swap_addr_def)
  have "distinct (addrs (?ex ?t))" using t(2) inj_on_subset [OF swap_addr_inj] by (simp add: addrs_exchange distinct_map)
  moreover have "root_of (?ex ?t) = (if top_addr ctx = 0 then s else m_root T)"
  proof (cases ctx)
    case Nil
    then show ?thesis by (simp add: swap_addr_def)
  next
    case (Cons f fs)
    then have "top_addr ctx \<noteq> 0" using rep_atD(1) [OF at] by (cases f) simp_all
    moreover have "root_of ?t \<in> set (ctx_addrs ctx)" using root_in_context Cons by blast
    then have "root_of ?t \<noteq> x" "root_of ?t \<noteq> s" using pair(16,17) by metis+
    ultimately show ?thesis using root_of_exchange [of "(x, k)" "(s, ks)" ?t] pair(2,7) t(3) by (simp add: swap_addr_def)
  qed
  ultimately have "rep_at (T\<lparr>m_root := if top_addr ctx = 0 then s else m_root T, nodes := n\<rparr>) (rctx @ RightOf s c ks l # ctx) (Node x Leaf cs k rs)"
    using rep' unfolding rep_at_def rep_tree_def ex by simp
  then show ?thesis using eq ex by simp
qed

end
