(* ===== verification/Tree_Remove.thy ===== *)
theory Tree_Remove
  imports Tree_Unlink
begin

text \<open>
  \<^verbatim>\<open>remove\<close> of \<^verbatim>\<open>AK/RedBlackTree.h\<close>: the element of the node is taken out of the sequence that the tree holds.
\<close>

lemma short_after_splice:
  assumes "rb h (plug ctx (Node x l Black k r))" and "black (plug ctx (Node x l Black k r))" and "l = Leaf \<or> r = Leaf"
  shows "short_place ctx (only_child l r)"
proof -
  let ?ch = "only_child l r"
  obtain h' where h: "rb_ctx h' ctx" "0 < h'" "rb (h' - 1) l" "rb (h' - 1) r" using rb_unplug [OF assms(1,2)] by auto
  then have ch: "rb (h' - 1) ?ch" by (simp add: only_child_def)
  show ?thesis
  proof (cases "black ?ch")
    case True
    then show ?thesis using ch h(1,2) unfolding short_place_def by (auto intro!: exI [of _ "h' - 1"])
  next
    case False
    then obtain a la ka ra where "?ch = Node a la Red ka ra" using color.exhaust by (cases ?ch) auto
    then show ?thesis using ch h(1,2) unfolding short_place_def by (auto intro!: exI [of _ h'])
  qed
qed

text \<open>A node with at most one child is taken out and the tree repaired.\<close>
lemma splice_and_repair:
  assumes at: "rep_at T ctx (Node x l c k r)" and one: "l = Leaf \<or> r = Leaf"
    and rb: "rb h (plug ctx (Node x l c k r))" "black (plug ctx (Node x l c k r))"
    and len: "length (elems (plug ctx (Node x l c k r))) = m_size T" "1 < m_size T"
  defines "T1 \<equiv> splice_out x (root_of (only_child l r)) T"
  shows "\<exists>T' t' h'. (if color (nodes T1 x) \<noteq> Red then remove_fixups (root_of (only_child l r)) (parent (nodes T1 x)) T1 else Inr T1) = Inr T' \<and>
    rep_tree T' t' \<and> rb h' t' \<and> black t' \<and> elems t' = before ctx @ elems (only_child l r) @ after ctx \<and>
    m_size T' = m_size T \<and> m_minimum T' = m_minimum T"
proof -
  let ?ch = "only_child l r"
  note T1 = splice_out_ok [OF at one, folded T1_def]
  have size: "length ctx \<le> m_size T1" using length_ctx [of ctx "Node x l c k r"] len(1) T1(4) by simp
  have el: "elems (plug ctx ?ch) = before ctx @ elems ?ch @ after ctx" by (simp add: elems_plug)
  show ?thesis
  proof (cases c)
    case Black
    have "?ch \<noteq> Leaf" if "ctx = []" using len that by (cases l; cases r) (auto simp: only_child_def)
    then show ?thesis using remove_fixups_ok [OF T1(1) short_after_splice [OF rb [unfolded Black] one] _ size] T1(2-5) el Black by simp
  next
    case Red
    obtain h' where h: "rb_ctx h' ctx" "rb h' ?ch" "black ?ch" using rb_unplug [OF rb] Red by (auto simp: only_child_def)
    have "ctx \<noteq> []" using rb(2) Red by (cases ctx) auto
    then obtain h'' where "rb h'' (plug ctx ?ch)" "black (plug ctx ?ch)" using rb_plug [OF h(1,2)] h(3) by auto
    then show ?thesis using T1 el Red by (intro exI [of _ T1] exI [of _ "plug ctx ?ch"] exI [of _ h'']) (simp add: rep_at_def)
  qed
qed

text \<open>The node, with its successor where it has two children, ends at a place with at most one child.\<close>
lemma relink_if_needed:
  assumes at: "rep_at T ctx (Node x l c k r)" and rb: "rb h (plug ctx (Node x l c k r))" "black (plug ctx (Node x l c k r))"
    and suc: "successor (Suc (m_size T)) (nodes T) x = Inr (address_of (elems r @ after ctx))"
  shows "\<exists>T' ctx' l' c' r'. (if left_child (nodes T x) \<noteq> 0 \<and> right_child (nodes T x) \<noteq> 0 then relink_with_successor x T else Inr T) = Inr T' \<and>
    rep_at T' ctx' (Node x l' c' k r') \<and> (l' = Leaf \<or> r' = Leaf) \<and> rb h (plug ctx' (Node x l' c' k r')) \<and> black (plug ctx' (Node x l' c' k r')) \<and>
    before ctx' @ elems (only_child l' r') @ after ctx' = before ctx @ elems l @ elems r @ after ctx \<and>
    length (elems (plug ctx' (Node x l' c' k r'))) = length (elems (plug ctx (Node x l c k r))) \<and>
    m_size T' = m_size T \<and> m_minimum T' = m_minimum T"
proof (cases "l = Leaf \<or> r = Leaf")
  case True
  then have "\<not> (left_child (nodes T x) \<noteq> 0 \<and> right_child (nodes T x) \<noteq> 0)" using rep_atD(2) [OF at] by auto
  then show ?thesis using at rb True
    by (intro exI [of _ T] exI [of _ ctx] exI [of _ l] exI [of _ c] exI [of _ r]) (auto simp: only_child_def)
next
  case False
  then have two: "left_child (nodes T x) \<noteq> 0" "right_child (nodes T x) \<noteq> 0"
    using rep_atD(2) [OF at] rep_root_0 [of "nodes T" x l] rep_root_0 [of "nodes T" x r] by auto
  obtain rctx s cs ks rs where r: "r = plug rctx (Node s Leaf cs ks rs)" and first: "before rctx = []" using first_place False by blast
  then have "successor (Suc (m_size T)) (nodes T) x = Inr s" using suc by (simp add: elems_plug)
  from relink_ok [OF at _ r first this] obtain T' where T': "relink_with_successor x T = Inr T'"
    "rep_at T' (rctx @ RightOf s c ks l # ctx) (Node x Leaf cs k rs)"
    "plug (rctx @ RightOf s c ks l # ctx) (Node x Leaf cs k rs) = exchange (x, k) (s, ks) (plug ctx (Node x l c k r))"
    "m_size T' = m_size T" "m_minimum T' = m_minimum T" using False by auto
  let ?ctx = "rctx @ RightOf s c ks l # ctx"
  have same: "rb h (plug ?ctx (Node x Leaf cs k rs)) = rb h (plug ctx (Node x l c k r))"
    "black (plug ?ctx (Node x Leaf cs k rs)) = black (plug ctx (Node x l c k r))"
    using T'(3) by simp_all
  have "elems (plug ?ctx rs) = before ctx @ elems l @ elems r @ after ctx" unfolding r by (simp add: plug_append elems_plug first)
  then have "before ?ctx @ elems rs @ after ?ctx = before ctx @ elems l @ elems r @ after ctx" by (simp only: elems_plug)
  moreover have "length (elems (plug ?ctx (Node x Leaf cs k rs))) = length (elems (plug ctx (Node x l c k r)))"
    unfolding r by (simp add: plug_append elems_plug)
  ultimately show ?thesis using T' two same rb
    by (intro exI [of _ T'] exI [of _ ?ctx] exI [of _ Leaf] exI [of _ cs] exI [of _ rs]) (simp add: only_child_def)
qed

lemma rb_remove_ok:
  assumes "tree_holds T (xs @ (x, k) # ys)"
  shows "\<exists>T'. rb_remove x T = Inr T' \<and> tree_holds T' (xs @ ys)"
proof -
  obtain t h where t: "rep_tree T t" "rb h t" "black t" "elems t = xs @ (x, k) # ys" and s: "sorted_by snd (xs @ (x, k) # ys)"
    and len: "m_size T = length (xs @ (x, k) # ys)" "length (xs @ (x, k) # ys) < size_limit" and mn: "m_minimum T = address_of (xs @ (x, k) # ys)"
    using assms by (auto elim!: tree_holdsE simp: address_of_def)
  obtain ctx l c r where p: "t = plug ctx (Node x l c k r)" and at: "rep_at T ctx (Node x l c k r)"
    and xs: "xs = before ctx @ elems l" and ys: "ys = elems r @ after ctx" using t(1,4) by (rule element_place)
  have x0: "x \<noteq> 0" using rep_atD(2) [OF at] by simp
  have suc: "successor (Suc (m_size T)) (nodes T) x = Inr (address_of ys)" using successor_ok [OF assms] len(1) by simp
  show ?thesis
  proof (cases "m_size T = 1")
    case True
    then have "xs @ ys = []" using len(1) by simp
    moreover have "T\<lparr>m_root := 0, m_minimum := 0, m_size := 0\<rparr> = empty_tree (nodes T)" by (cases T) (simp add: empty_tree_def)
    ultimately show ?thesis using True x0 empty_tree_holds [of "nodes T"] by (simp add: rb_remove_def)
  next
    case False
    define T0 where "T0 = (if m_minimum T = x then T\<lparr>m_minimum := address_of ys\<rparr> else T)"
    have "distinct (map fst (xs @ (x, k) # ys))" using t(1,4) unfolding rep_tree_def by (metis map_fst_elems)
    then have mn0: "m_minimum T0 = address_of (xs @ ys)" using mn by (cases xs) (auto simp: T0_def)
    have T0: "nodes T0 = nodes T" "m_size T0 = m_size T" "rep_at T0 ctx (Node x l c k r)"
      using at by (simp_all add: T0_def rep_at_def rep_tree_def)
    have "successor (Suc (m_size T0)) (nodes T0) x = Inr (address_of (elems r @ after ctx))" using suc ys by (simp only: T0)
    from relink_if_needed [OF T0(3) t(2,3) [unfolded p] this] obtain T1 ctx' l' c' r' where
      relink: "(if left_child (nodes T0 x) \<noteq> 0 \<and> right_child (nodes T0 x) \<noteq> 0 then relink_with_successor x T0 else Inr T0) = Inr T1"
      and at1: "rep_at T1 ctx' (Node x l' c' k r')" and one: "l' = Leaf \<or> r' = Leaf"
      and rb1: "rb h (plug ctx' (Node x l' c' k r'))" "black (plug ctx' (Node x l' c' k r'))"
      and el: "before ctx' @ elems (only_child l' r') @ after ctx' = xs @ ys"
      and sz: "length (elems (plug ctx' (Node x l' c' k r'))) = length (elems t)"
      and eq1: "m_size T1 = m_size T" "m_minimum T1 = m_minimum T0"
      using xs ys p T0(2) by auto
    let ?ch = "root_of (only_child l' r')"
    define T2 where "T2 = splice_out x ?ch T1"
    obtain T3 t3 h3 where rep: "(if color (nodes T2 x) \<noteq> Red then remove_fixups ?ch (parent (nodes T2 x)) T2 else Inr T2) = Inr T3"
      and t3: "rep_tree T3 t3" "rb h3 t3" "black t3" "elems t3 = xs @ ys" and eq3: "m_size T3 = m_size T1" "m_minimum T3 = m_minimum T1"
      using splice_and_repair [OF at1 one rb1, folded T2_def] sz t(4) len(1) eq1 False el by auto
    have child: "(if left_child (nodes T1 x) \<noteq> 0 then left_child (nodes T1 x) else right_child (nodes T1 x)) = ?ch"
      using rep_atD(2) [OF at1] rep_root_0 [of "nodes T1" x l'] by (auto simp: only_child_def)
    have "rb_remove x T = Inr (T3\<lparr>m_size := size_sub (m_size T3) 1\<rparr>)"
    proof -
      have m0: "(if m_minimum T = x then bindR (successor (Suc (m_size T)) (nodes T) x) (\<lambda>s. Inr (T\<lparr>m_minimum := s\<rparr>)) else Inr T) = Inr T0"
        using suc by (simp add: T0_def)
      show ?thesis unfolding rb_remove_def m0 bindR.simps relink child Let_def T2_def [symmetric] rep using x0 False by simp
    qed
    moreover have "tree_holds (T3\<lparr>m_size := size_sub (m_size T3) 1\<rparr>) (xs @ ys)"
      using t3 s len eq1 eq3 mn0 by (intro tree_holdsI [of _ t3 h3]) (auto simp: rep_tree_def sorted_append size_simps address_of_def)
    ultimately show ?thesis by blast
  qed
qed

end
