(* ===== verification/Red_Black_Map.thy ===== *)
theory Red_Black_Map
  imports Tree_Insert Tree_Remove
begin

text \<open>
  \<^verbatim>\<open>RedBlackTree\<close> and its iterator in \<^verbatim>\<open>AK/RedBlackTree.h\<close>, on the base tree: the nodes have values, and the memory of a new node is an
  argument, with 0 where there is none. The tree refines a list of entries in the order of the keys.
\<close>

section \<open>Operations\<close>

record ('k, 'v) rb_map =
  tree :: "'k rb_tree"
  value_at :: "addr \<Rightarrow> 'v"

definition empty_map :: "'k rb_nodes \<Rightarrow> (addr \<Rightarrow> 'v) \<Rightarrow> ('k, 'v) rb_map" where
  "empty_map n vs = \<lparr>tree = empty_tree n, value_at = vs\<rparr>"

definition value_or_null :: "('k, 'v) rb_map \<Rightarrow> addr \<Rightarrow> 'v option" where
  "value_or_null m node = (if node = 0 then None else Some (value_at m node))"

definition map_find :: "'k::linorder \<Rightarrow> ('k, 'v) rb_map \<Rightarrow> 'v option result" where
  "map_find k m = bindR (find (Suc (m_size (tree m))) (nodes (tree m)) (m_root (tree m)) k) (\<lambda>node. Inr (value_or_null m node))"

definition map_find_largest_not_above :: "'k::linorder \<Rightarrow> ('k, 'v) rb_map \<Rightarrow> 'v option result" where
  "map_find_largest_not_above k m =
     bindR (find_largest_not_above (Suc (m_size (tree m))) (nodes (tree m)) 0 (m_root (tree m)) k) (\<lambda>node. Inr (value_or_null m node))"

definition map_find_smallest_not_below :: "'k::linorder \<Rightarrow> ('k, 'v) rb_map \<Rightarrow> 'v option result" where
  "map_find_smallest_not_below k m =
     bindR (find_smallest_not_below (Suc (m_size (tree m))) (nodes (tree m)) 0 (m_root (tree m)) k) (\<lambda>node. Inr (value_or_null m node))"

definition try_insert :: "addr \<Rightarrow> 'k::linorder \<Rightarrow> 'v \<Rightarrow> ('k, 'v) rb_map \<Rightarrow> ('k, 'v) rb_map result" where
  "try_insert node k v m =
     (if node = 0 then Inl (Err ENOMEM)
      else bindR (rb_insert node ((tree m)\<lparr>nodes := (nodes (tree m))(node := new_node k)\<rparr>)) (\<lambda>t.
           Inr \<lparr>tree = t, value_at = (value_at m)(node := v)\<rparr>))"

text \<open>\<^verbatim>\<open>MUST\<close>: an error of the call stops the program.\<close>
definition map_insert :: "addr \<Rightarrow> 'k::linorder \<Rightarrow> 'v \<Rightarrow> ('k, 'v) rb_map \<Rightarrow> ('k, 'v) rb_map result" where
  "map_insert node k v m = (case try_insert node k v m of Inl (Err e) \<Rightarrow> Inl VerifyFailed | r \<Rightarrow> r)"

text \<open>Taking a node out of the tree; the node is deleted without its children.\<close>
definition remove_node :: "addr \<Rightarrow> ('k, 'v) rb_map \<Rightarrow> ('k, 'v) rb_map result" where
  "remove_node node m =
     bindR (rb_remove node (tree m)) (\<lambda>t. Inr (m\<lparr>tree := t\<lparr>nodes := set_left node 0 (set_right node 0 (nodes t))\<rparr>\<rparr>))"

definition map_remove :: "'k::linorder \<Rightarrow> ('k, 'v) rb_map \<Rightarrow> (bool \<times> ('k, 'v) rb_map) result" where
  "map_remove k m =
     bindR (find (Suc (m_size (tree m))) (nodes (tree m)) (m_root (tree m)) k) (\<lambda>node.
     if node = 0 then Inr (False, m) else bindR (remove_node node m) (\<lambda>m'. Inr (True, m')))"

definition unsafe_remove :: "'k::linorder \<Rightarrow> ('k, 'v) rb_map \<Rightarrow> ('v \<times> ('k, 'v) rb_map) result" where
  "unsafe_remove k m =
     bindR (find (Suc (m_size (tree m))) (nodes (tree m)) (m_root (tree m)) k) (\<lambda>node.
     if node = 0 then Inl VerifyFailed else bindR (remove_node node m) (\<lambda>m'. Inr (value_at m' node, m')))"

definition map_clear :: "('k, 'v) rb_map \<Rightarrow> ('k, 'v) rb_map" where
  "map_clear m = m\<lparr>tree := (tree m)\<lparr>m_root := 0, m_minimum := 0, m_size := 0\<rparr>\<rparr>"

section \<open>Iterators\<close>

record rb_iterator =
  m_node :: addr
  m_prev :: addr

definition map_begin :: "('k, 'v) rb_map \<Rightarrow> rb_iterator" where
  "map_begin m = \<lparr>m_node = m_minimum (tree m), m_prev = 0\<rparr>"

definition map_end :: rb_iterator where
  "map_end = \<lparr>m_node = 0, m_prev = 0\<rparr>"

definition map_begin_from :: "'k::linorder \<Rightarrow> ('k, 'v) rb_map \<Rightarrow> rb_iterator result" where
  "map_begin_from k m =
     bindR (find (Suc (m_size (tree m))) (nodes (tree m)) (m_root (tree m)) k) (\<lambda>node. Inr \<lparr>m_node = node, m_prev = 0\<rparr>)"

definition iterator_at :: "('k, 'v) rb_map \<Rightarrow> addr \<Rightarrow> rb_iterator result" where
  "iterator_at m node =
     (if node = 0 then Inr map_end
      else bindR (predecessor (Suc (m_size (tree m))) (nodes (tree m)) node) (\<lambda>prev. Inr \<lparr>m_node = node, m_prev = prev\<rparr>))"

definition find_largest_not_above_iterator :: "'k::linorder \<Rightarrow> ('k, 'v) rb_map \<Rightarrow> rb_iterator result" where
  "find_largest_not_above_iterator k m =
     bindR (find_largest_not_above (Suc (m_size (tree m))) (nodes (tree m)) 0 (m_root (tree m)) k) (iterator_at m)"

definition find_smallest_not_below_iterator :: "'k::linorder \<Rightarrow> ('k, 'v) rb_map \<Rightarrow> rb_iterator result" where
  "find_smallest_not_below_iterator k m =
     bindR (find_smallest_not_below (Suc (m_size (tree m))) (nodes (tree m)) 0 (m_root (tree m)) k) (iterator_at m)"

definition iterator_next :: "('k, 'v) rb_map \<Rightarrow> rb_iterator \<Rightarrow> rb_iterator result" where
  "iterator_next m it =
     (if m_node it = 0 then Inr it
      else bindR (successor (Suc (m_size (tree m))) (nodes (tree m)) (m_node it)) (\<lambda>node. Inr \<lparr>m_node = node, m_prev = m_node it\<rparr>))"

definition iterator_prev :: "('k, 'v) rb_map \<Rightarrow> rb_iterator \<Rightarrow> rb_iterator result" where
  "iterator_prev m it =
     (if m_prev it = 0 then Inr it
      else bindR (predecessor (Suc (m_size (tree m))) (nodes (tree m)) (m_prev it)) (\<lambda>prev. Inr \<lparr>m_node = m_prev it, m_prev = prev\<rparr>))"

text \<open>A loop over the tree: the keys and values of the nodes the iterator visits.\<close>
fun walk :: "nat \<Rightarrow> ('k, 'v) rb_map \<Rightarrow> rb_iterator \<Rightarrow> ('k \<times> 'v) list result" where
  "walk 0 m it = Inl NeverReturns"
| "walk (Suc fuel) m it =
     (if m_node it = 0 then Inr []
      else bindR (iterator_next m it) (\<lambda>it'.
           bindR (walk fuel m it') (\<lambda>rest.
           Inr ((key (nodes (tree m) (m_node it)), value_at m (m_node it)) # rest))))"

section \<open>The contents of a tree\<close>

text \<open>An entry has the address of its node.\<close>
type_synonym ('k, 'v) entry = "addr \<times> 'k \<times> 'v"

abbreviation entry_key :: "('k, 'v) entry \<Rightarrow> 'k" where
  "entry_key e \<equiv> fst (snd e)"

abbreviation entry_value :: "('k, 'v) entry \<Rightarrow> 'v" where
  "entry_value e \<equiv> snd (snd e)"

definition element :: "('k, 'v) entry \<Rightarrow> addr \<times> 'k" where
  "element e = (fst e, entry_key e)"

lemma element_simps [simp]: "fst (element e) = fst e" "snd (element e) = entry_key e"
  by (simp_all add: element_def)

text \<open>The entries of a tree are in the order of their keys, and the keys are different.\<close>
definition map_holds :: "('k::linorder, 'v) rb_map \<Rightarrow> ('k, 'v) entry list \<Rightarrow> bool" where
  "map_holds m es \<longleftrightarrow> tree_holds (tree m) (map element es) \<and> distinct (map entry_key es) \<and> (\<forall>e \<in> set es. value_at m (fst e) = entry_value e)"

lemma empty_map_holds: "map_holds (empty_map n vs) []"
  by (simp add: map_holds_def empty_map_def empty_tree_holds)

text \<open>Only the nodes of the tree matter.\<close>
lemma tree_holds_agree:
  assumes "tree_holds T es" and "\<And>a. a \<in> fst ` set es \<Longrightarrow> n a = nodes T a"
  shows "tree_holds (T\<lparr>nodes := n\<rparr>) es"
proof -
  obtain t h where t: "rep_tree T t" "rb h t" "black t" "elems t = es" and s: "sorted_by snd es" "m_size T = length es" "length es < size_limit"
    "m_minimum T = (case es of [] \<Rightarrow> 0 | e # _ \<Rightarrow> fst e)" using assms(1) by (rule tree_holdsE)
  have "set (addrs t) = fst ` set es" using t(4) map_fst_elems [of t] by (metis list.set_map)
  then have "rep n 0 t" using t(1) assms(2) unfolding rep_tree_def by (auto intro: rep_agree [of "nodes T"])
  then show ?thesis using t s by (intro tree_holdsI [of _ t h]) (simp_all add: rep_tree_def)
qed

lemma tree_holds_nonzero:
  assumes "tree_holds T es" and "e \<in> set es"
  shows "fst e \<noteq> 0"
proof -
  obtain t where "rep_tree T t" "elems t = es" using assms(1) by (auto elim: tree_holdsE)
  then have "0 \<notin> fst ` set es" using rep_addrs_nonzero [of "nodes T" 0 t] by (auto simp: rep_tree_def simp flip: map_fst_elems)
  then show ?thesis using assms(2) by (metis image_eqI)
qed

lemma tree_holds_distinct: "tree_holds T es \<Longrightarrow> distinct (map fst es)"
  by (elim tree_holdsE) (auto simp: rep_tree_def)

lemma tree_holds_key:
  assumes "tree_holds T es" and "e \<in> set es"
  shows "key (nodes T (fst e)) = snd e"
proof -
  obtain t where t: "rep_tree T t" "elems t = es" using assms(1) by (auto elim: tree_holdsE)
  obtain xs ys where "es = xs @ (fst e, snd e) # ys" using assms(2) by (metis prod.collapse split_list)
  then obtain ctx l c r where "rep_at T ctx (Node (fst e) l c (snd e) r)" using element_place [OF t(1)] t(2) by metis
  from rep_atD(2) [OF this] show ?thesis by simp
qed


section \<open>Operations on the contents\<close>

lemma map_insert_by: "(\<And>e. kf' (f e) = kf e) \<Longrightarrow> map f (insert_by kf r es) = insert_by kf' (f r) (map f es)"
  by (induction es) simp_all

lemma map_find_not_above:
  "(\<And>e. kf' (f e) = kf e) \<Longrightarrow> find_not_above kf' k (map_option f c) (map f es) = map_option f (find_not_above kf k c es)"
proof (induction es arbitrary: c)
  case (Cons e es)
  then show ?case using Cons.IH [of "Some e"] by simp
qed simp

lemma map_find_not_below: "(\<And>e. kf' (f e) = kf e) \<Longrightarrow> find_not_below kf' k (map f es) = map_option f (find_not_below kf k es)"
  by (induction es) simp_all

text \<open>Different keys make the result of a search unique.\<close>
lemma found_entry:
  assumes "map_holds m es" and "found (map element es) (map_option element q) a" and "\<And>e. q = Some e \<Longrightarrow> e \<in> set es"
  shows "value_or_null m a = map_option entry_value q"
proof (cases q)
  case None
  then show ?thesis using assms(2) by (simp add: found_def value_or_null_def)
next
  case (Some e)
  then obtain e' where e': "e' \<in> set es" "a = fst e'" "entry_key e' = entry_key e" "a \<noteq> 0" using assms(2) by (auto simp: found_def element_def)
  then have "e' = e" using assms(1,3) Some by (auto simp: map_holds_def distinct_map inj_on_def)
  then show ?thesis using e' assms(1) Some by (simp add: value_or_null_def map_holds_def)
qed

lemma find_not_above_in: "find_not_above kf k c es = Some e \<Longrightarrow> e \<in> set es \<or> c = Some e"
  by (induction es arbitrary: c) (auto split: if_splits)

lemma find_not_below_in: "find_not_below kf k es = Some e \<Longrightarrow> e \<in> set es"
  by (induction es) (auto split: if_splits)

lemma map_find_largest_not_above_ok:
  assumes "map_holds m es"
  shows "map_find_largest_not_above k m = Inr (map_option entry_value (find_not_above entry_key k None es))"
proof -
  have t: "tree_holds (tree m) (map element es)" using assms by (simp add: map_holds_def)
  obtain a where a: "find_largest_not_above (Suc (m_size (tree m))) (nodes (tree m)) 0 (m_root (tree m)) k = Inr a"
    "found (map element es) (find_not_above snd k None (map element es)) a" using tree_find_not_above [OF t] by blast
  have "found (map element es) (map_option element (find_not_above entry_key k None es)) a"
    using a(2) map_find_not_above [of snd element entry_key k None es] by simp
  then have "value_or_null m a = map_option entry_value (find_not_above entry_key k None es)"
    by (rule found_entry [OF assms]) (auto dest: find_not_above_in)
  then show ?thesis using a(1) by (simp add: map_find_largest_not_above_def)
qed

lemma map_find_smallest_not_below_ok:
  assumes "map_holds m es"
  shows "map_find_smallest_not_below k m = Inr (map_option entry_value (find_not_below entry_key k es))"
proof -
  have t: "tree_holds (tree m) (map element es)" using assms by (simp add: map_holds_def)
  obtain a where a: "find_smallest_not_below (Suc (m_size (tree m))) (nodes (tree m)) 0 (m_root (tree m)) k = Inr a"
    "found (map element es) (find_not_below snd k (map element es)) a" using tree_find_not_below [OF t] by blast
  have "found (map element es) (map_option element (find_not_below entry_key k es)) a"
    using a(2) map_find_not_below [of snd element entry_key k es] by (cases "find_not_below entry_key k es") simp_all
  then have "value_or_null m a = map_option entry_value (find_not_below entry_key k es)"
    by (rule found_entry [OF assms]) (auto dest: find_not_below_in)
  then show ?thesis using a(1) by (simp add: map_find_smallest_not_below_def)
qed

text \<open>The node with a key.\<close>
lemma find_node:
  assumes "map_holds m es"
  obtains (none) "find (Suc (m_size (tree m))) (nodes (tree m)) (m_root (tree m)) k = Inr 0" "k \<notin> entry_key ` set es"
  | (node) xs a v ys where "find (Suc (m_size (tree m))) (nodes (tree m)) (m_root (tree m)) k = Inr a" "a \<noteq> 0" "es = xs @ (a, k, v) # ys"
proof -
  have t: "tree_holds (tree m) (map element es)" using assms by (simp add: map_holds_def)
  obtain a where a: "find (Suc (m_size (tree m))) (nodes (tree m)) (m_root (tree m)) k = Inr a"
    "if k \<in> snd ` set (map element es) then a \<noteq> 0 \<and> (a, k) \<in> set (map element es) else a = 0" using tree_find [OF t] by blast
  show ?thesis
  proof (cases "k \<in> entry_key ` set es")
    case True
    then have "k \<in> snd ` set (map element es)" by (auto simp: image_iff)
    then have "a \<noteq> 0" "(a, k) \<in> set (map element es)" using a(2) by simp_all
    then obtain v where "(a, k, v) \<in> set es" by (auto simp: element_def)
    then obtain xs ys where "es = xs @ (a, k, v) # ys" by (meson split_list)
    with a(1) \<open>a \<noteq> 0\<close> show ?thesis by (rule node)
  next
    case False
    then have "k \<notin> snd ` set (map element es)" by (auto simp: image_iff)
    then show ?thesis using none [OF _ False] a by simp
  qed
qed


lemma map_find_ok:
  assumes "map_holds m es"
  shows "map_find k m = Inr (map_option entry_value (List.find (\<lambda>e. entry_key e = k) es))"
  using assms
proof (cases rule: find_node [where k = k])
  case none
  then have "List.find (\<lambda>e. entry_key e = k) es = None" by (auto simp: find_None_iff image_iff)
  then show ?thesis using none by (simp add: map_find_def value_or_null_def)
next
  case (node xs a v ys)
  have "distinct (map entry_key es)" "value_at m a = v" using assms node(3) by (auto simp: map_holds_def)
  then have "k \<notin> entry_key ` set xs" using node(3) by auto
  then have "List.find (\<lambda>e. entry_key e = k) es = Some (a, k, v)" unfolding node(3) by (induction xs) auto
  then show ?thesis using node \<open>value_at m a = v\<close> by (simp add: map_find_def value_or_null_def)
qed

lemma try_insert_ok:
  assumes "map_holds m es" and "a \<noteq> 0" and "a \<notin> fst ` set es" and "k \<notin> entry_key ` set es" and "Suc (length es) < size_limit"
  shows "\<exists>m'. try_insert a k v m = Inr m' \<and> map_holds m' (insert_by entry_key (a, k, v) es)"
proof -
  let ?T = "(tree m)\<lparr>nodes := (nodes (tree m))(a := new_node k)\<rparr>"
  have "tree_holds ?T (map element es)" using assms(1,3) by (intro tree_holds_agree) (auto simp: map_holds_def image_iff)
  moreover have "fresh_node ?T a k" using assms(2) by (simp add: fresh_node_def)
  moreover have "a \<notin> fst ` set (map element es)" using assms(3) by (auto simp: image_iff)
  ultimately obtain T' where T': "rb_insert a ?T = Inr T'" "tree_holds T' (insert_by snd (a, k) (map element es))"
    using rb_insert_ok [of ?T "map element es" a k] assms(5) by auto
  have "insert_by snd (a, k) (map element es) = map element (insert_by entry_key (a, k, v) es)"
    using map_insert_by [of snd element entry_key "(a, k, v)" es] by (simp add: element_def)
  moreover have "distinct (map entry_key (insert_by entry_key (a, k, v) es))"
    using assms(1,4) by (intro distinct_insert_by) (auto simp: map_holds_def)
  ultimately show ?thesis using T' assms(1-3) by (auto simp: try_insert_def map_holds_def image_iff)
qed

lemma remove_node_ok:
  assumes "map_holds m (xs @ (a, k, v) # ys)"
  shows "\<exists>m'. remove_node a m = Inr m' \<and> map_holds m' (xs @ ys) \<and> value_at m' = value_at m"
proof -
  have t: "tree_holds (tree m) (map element xs @ (a, k) # map element ys)" using assms by (simp add: map_holds_def element_def)
  from rb_remove_ok [OF t] obtain T' where T': "rb_remove a (tree m) = Inr T'" "tree_holds T' (map element (xs @ ys))" by auto
  have "a \<notin> set (map fst (map element (xs @ ys)))" using tree_holds_distinct [OF t] by simp
  then have "a \<notin> fst ` set (map element (xs @ ys))" by (metis list.set_map)
  then have "tree_holds (T'\<lparr>nodes := set_left a 0 (set_right a 0 (nodes T'))\<rparr>) (map element (xs @ ys))"
    using T'(2) by (intro tree_holds_agree) (auto simp: set_simps)
  then show ?thesis using T'(1) assms by (auto simp: remove_node_def map_holds_def)
qed

lemma map_remove_ok:
  assumes "map_holds m es"
  shows "\<exists>m'. map_remove k m = Inr (k \<in> entry_key ` set es, m') \<and> map_holds m' (filter (\<lambda>e. entry_key e \<noteq> k) es)"
  using assms
proof (cases rule: find_node [where k = k])
  case none
  then have "filter (\<lambda>e. entry_key e \<noteq> k) es = es" by (auto simp: filter_id_conv)
  then show ?thesis using none assms by (simp add: map_remove_def)
next
  case (node xs a v ys)
  then obtain m' where m': "remove_node a m = Inr m'" "map_holds m' (xs @ ys)" using remove_node_ok [OF assms [unfolded node(3)]] by auto
  have "distinct (map entry_key es)" using assms by (simp add: map_holds_def)
  then have "filter (\<lambda>e. entry_key e \<noteq> k) xs = xs" "filter (\<lambda>e. entry_key e \<noteq> k) ys = ys"
    using node(3) by (auto simp: filter_id_conv image_iff)
  then have "filter (\<lambda>e. entry_key e \<noteq> k) es = xs @ ys" using node(3) by simp
  then show ?thesis using node m' by (simp add: map_remove_def)
qed


section \<open>Sequences of operations\<close>

datatype ('k, 'v) map_op = Insert addr 'k 'v | Remove 'k | Find 'k | FindNotAbove 'k | FindNotBelow 'k | Clear

datatype 'v answer = Done | Removed bool | Answer "'v option"

fun map_step :: "('k::linorder, 'v) map_op \<Rightarrow> ('k, 'v) rb_map \<Rightarrow> ('v answer \<times> ('k, 'v) rb_map) result" where
  "map_step (Insert node k v) m = bindR (try_insert node k v m) (\<lambda>m'. Inr (Done, m'))"
| "map_step (Remove k) m = bindR (map_remove k m) (\<lambda>(b, m'). Inr (Removed b, m'))"
| "map_step (Find k) m = bindR (map_find k m) (\<lambda>v. Inr (Answer v, m))"
| "map_step (FindNotAbove k) m = bindR (map_find_largest_not_above k m) (\<lambda>v. Inr (Answer v, m))"
| "map_step (FindNotBelow k) m = bindR (map_find_smallest_not_below k m) (\<lambda>v. Inr (Answer v, m))"
| "map_step Clear m = Inr (Done, map_clear m)"

primrec map_run :: "('k::linorder, 'v) map_op list \<Rightarrow> ('k, 'v) rb_map \<Rightarrow> ('v answer list \<times> ('k, 'v) rb_map) result" where
  "map_run [] m = Inr ([], m)"
| "map_run (x # ops) m = bindR (map_step x m) (\<lambda>am. bindR (map_run ops (snd am)) (\<lambda>rm. Inr (fst am # fst rm, snd rm)))"

text \<open>The same on the list of entries.\<close>
fun list_step :: "('k::linorder, 'v) map_op \<Rightarrow> ('k, 'v) entry list \<Rightarrow> 'v answer \<times> ('k, 'v) entry list" where
  "list_step (Insert node k v) es = (Done, insert_by entry_key (node, k, v) es)"
| "list_step (Remove k) es = (Removed (k \<in> entry_key ` set es), filter (\<lambda>e. entry_key e \<noteq> k) es)"
| "list_step (Find k) es = (Answer (map_option entry_value (List.find (\<lambda>e. entry_key e = k) es)), es)"
| "list_step (FindNotAbove k) es = (Answer (map_option entry_value (find_not_above entry_key k None es)), es)"
| "list_step (FindNotBelow k) es = (Answer (map_option entry_value (find_not_below entry_key k es)), es)"
| "list_step Clear es = (Done, [])"

primrec list_run :: "('k::linorder, 'v) map_op list \<Rightarrow> ('k, 'v) entry list \<Rightarrow> 'v answer list \<times> ('k, 'v) entry list" where
  "list_run [] es = ([], es)"
| "list_run (x # ops) es = (let ar = list_step x es; rs = list_run ops (snd ar) in (fst ar # fst rs, snd rs))"

text \<open>A new entry has memory that no node of the tree has, a new key, and the size does not overflow.\<close>
fun op_ok :: "('k, 'v) map_op \<Rightarrow> ('k, 'v) entry list \<Rightarrow> bool" where
  "op_ok (Insert node k v) es \<longleftrightarrow> node \<noteq> 0 \<and> node \<notin> fst ` set es \<and> k \<notin> entry_key ` set es \<and> Suc (length es) < size_limit"
| "op_ok _ es \<longleftrightarrow> True"

primrec ops_ok :: "('k::linorder, 'v) map_op list \<Rightarrow> ('k, 'v) entry list \<Rightarrow> bool" where
  "ops_ok [] es \<longleftrightarrow> True"
| "ops_ok (x # ops) es \<longleftrightarrow> op_ok x es \<and> ops_ok ops (snd (list_step x es))"

lemma map_clear_ok: "map_holds (map_clear m) []"
proof -
  have "(tree m)\<lparr>m_root := 0, m_minimum := 0, m_size := 0\<rparr> = empty_tree (nodes (tree m))" by (cases "tree m") (simp add: empty_tree_def)
  then show ?thesis by (simp add: map_holds_def map_clear_def empty_tree_holds)
qed

lemma map_step_ok:
  assumes "map_holds m es" and "op_ok x es"
  shows "\<exists>m'. map_step x m = Inr (fst (list_step x es), m') \<and> map_holds m' (snd (list_step x es))"
proof (cases x)
  case (Insert a k v)
  then show ?thesis using try_insert_ok [OF assms(1), of a k v] assms(2) by auto
next
  case (Remove k)
  then show ?thesis using map_remove_ok [OF assms(1), of k] by auto
qed (use assms(1) map_clear_ok [of m] in
  \<open>simp_all add: map_find_ok map_find_largest_not_above_ok map_find_smallest_not_below_ok\<close>)

lemma map_run_ok:
  "map_holds m es \<Longrightarrow> ops_ok ops es \<Longrightarrow> \<exists>m'. map_run ops m = Inr (fst (list_run ops es), m') \<and> map_holds m' (snd (list_run ops es))"
proof (induction ops arbitrary: m es)
  case (Cons x ops)
  obtain m1 where "map_step x m = Inr (fst (list_step x es), m1)" "map_holds m1 (snd (list_step x es))"
    using map_step_ok [OF Cons.prems(1)] Cons.prems(2) by auto
  moreover obtain m2 where "map_run ops m1 = Inr (fst (list_run ops (snd (list_step x es))), m2)" "map_holds m2 (snd (list_run ops (snd (list_step x es))))"
    using Cons.IH [OF calculation(2)] Cons.prems(2) by auto
  ultimately show ?case by (simp add: Let_def)
qed simp

section \<open>Walking over the tree\<close>

lemma walk_ok:
  "map_holds m (xs @ ys) \<Longrightarrow> m_node it = address_of (map element ys) \<Longrightarrow>
   walk (Suc (length ys)) m it = Inr (map (\<lambda>e. (entry_key e, entry_value e)) ys)"
proof (induction ys arbitrary: xs it)
  case (Cons e ys)
  have t: "tree_holds (tree m) (map element xs @ (fst e, entry_key e) # map element ys)"
    using Cons.prems(1) by (simp add: map_holds_def element_def)
  have "successor (Suc (m_size (tree m))) (nodes (tree m)) (fst e) = Inr (address_of (map element ys))"
    using t by (intro successor_ok [OF t]) (auto elim!: tree_holdsE)
  moreover have "fst e \<noteq> 0" "key (nodes (tree m) (fst e)) = entry_key e"
    using tree_holds_nonzero [OF t, of "(fst e, entry_key e)"] tree_holds_key [OF t, of "(fst e, entry_key e)"] by simp_all
  moreover have "value_at m (fst e) = entry_value e" using Cons.prems(1) by (simp add: map_holds_def)
  moreover have "walk (Suc (length ys)) m \<lparr>m_node = address_of (map element ys), m_prev = fst e\<rparr> = Inr (map (\<lambda>e. (entry_key e, entry_value e)) ys)"
    using Cons.prems(1) by (intro Cons.IH [of "xs @ [e]"]) simp_all
  ultimately show ?case using Cons.prems(2) by (simp add: iterator_next_def)
qed simp

end
