(* ===== verification/Intrusive_Tree.thy ===== *)
theory Intrusive_Tree
  imports Red_Black_Map
begin

text \<open>
  \<^verbatim>\<open>AK/IntrusiveRedBlackTree.h\<close>: the nodes are members of the objects in the tree, and stay in memory when they are taken out. A node knows
  whether it is in a tree.
\<close>

section \<open>Operations\<close>

record 'k intrusive_tree =
  base_tree :: "'k rb_tree"
  m_in_tree :: "addr \<Rightarrow> bool"

definition set_key :: "addr \<Rightarrow> 'k \<Rightarrow> 'k rb_nodes \<Rightarrow> 'k rb_nodes" where
  "set_key p k n = n(p := (n p)\<lparr>key := k\<rparr>)"

definition intrusive_insert :: "'k::linorder \<Rightarrow> addr \<Rightarrow> 'k intrusive_tree \<Rightarrow> 'k intrusive_tree result" where
  "intrusive_insert k node s =
     (if m_in_tree s node then Inl VerifyFailed
      else bindR (rb_insert node ((base_tree s)\<lparr>nodes := set_key node k (nodes (base_tree s))\<rparr>)) (\<lambda>t.
           Inr \<lparr>base_tree = t, m_in_tree = (m_in_tree s)(node := True)\<rparr>))"

definition intrusive_remove :: "'k::linorder \<Rightarrow> 'k intrusive_tree \<Rightarrow> (bool \<times> 'k intrusive_tree) result" where
  "intrusive_remove k s =
     bindR (find (Suc (m_size (base_tree s))) (nodes (base_tree s)) (m_root (base_tree s)) k) (\<lambda>node.
     if node = 0 then Inr (False, s)
     else bindR (rb_remove node (base_tree s)) (\<lambda>t.
          Inr (True, \<lparr>base_tree = t\<lparr>nodes := set_left node 0 (set_right node 0 (nodes t))\<rparr>, m_in_tree = (m_in_tree s)(node := False)\<rparr>)))"

fun clear_nodes :: "nat \<Rightarrow> addr \<Rightarrow> 'k intrusive_tree \<Rightarrow> 'k intrusive_tree result" where
  "clear_nodes 0 node s = Inl NeverReturns"
| "clear_nodes (Suc fuel) node s =
     (if node = 0 then Inr s
      else bindR (clear_nodes fuel (right_child (nodes (base_tree s) node)) s) (\<lambda>s1.
           let s2 = s1\<lparr>base_tree := (base_tree s1)\<lparr>nodes := set_right node 0 (nodes (base_tree s1))\<rparr>\<rparr>
           in bindR (clear_nodes fuel (left_child (nodes (base_tree s2) node)) s2) (\<lambda>s3.
              Inr \<lparr>base_tree = (base_tree s3)\<lparr>nodes := set_left node 0 (nodes (base_tree s3))\<rparr>, m_in_tree = (m_in_tree s3)(node := False)\<rparr>)))"

definition intrusive_clear :: "'k intrusive_tree \<Rightarrow> 'k intrusive_tree result" where
  "intrusive_clear s =
     bindR (clear_nodes (Suc (m_size (base_tree s))) (m_root (base_tree s)) s) (\<lambda>s'.
     Inr (s'\<lparr>base_tree := (base_tree s')\<lparr>m_root := 0, m_minimum := 0, m_size := 0\<rparr>\<rparr>))"

section \<open>The nodes in the tree\<close>

definition intrusive_holds :: "'k::linorder intrusive_tree \<Rightarrow> (addr \<times> 'k) list \<Rightarrow> bool" where
  "intrusive_holds s es \<longleftrightarrow> tree_holds (base_tree s) es \<and> (\<forall>a. m_in_tree s a \<longleftrightarrow> a \<in> fst ` set es)"

text \<open>A node that was in no tree before: all fields have the values that a new object gives them, except the key.\<close>
definition unused_node :: "'k rb_node \<Rightarrow> bool" where
  "unused_node v \<longleftrightarrow> left_child v = 0 \<and> right_child v = 0 \<and> parent v = 0 \<and> color v = Red"

lemma intrusive_insert_ok:
  assumes "intrusive_holds s es" and "a \<noteq> 0" and "a \<notin> fst ` set es" and "unused_node (nodes (base_tree s) a)" and "Suc (length es) < size_limit"
  shows "\<exists>s'. intrusive_insert k a s = Inr s' \<and> intrusive_holds s' (insert_by snd (a, k) es)"
proof -
  let ?T = "(base_tree s)\<lparr>nodes := set_key a k (nodes (base_tree s))\<rparr>"
  have "tree_holds ?T es" using assms(1,3) by (intro tree_holds_agree) (auto simp: intrusive_holds_def set_key_def)
  moreover have "fresh_node ?T a k" using assms(2,4) by (cases "nodes (base_tree s) a") (simp add: fresh_node_def unused_node_def new_node_def set_key_def)
  ultimately obtain T' where "rb_insert a ?T = Inr T'" "tree_holds T' (insert_by snd (a, k) es)" using rb_insert_ok assms(3,5) by blast
  then show ?thesis using assms(1,3) by (auto simp: intrusive_insert_def intrusive_holds_def)
qed

lemma intrusive_remove_ok:
  assumes "intrusive_holds s es"
  shows "if k \<in> snd ` set es then \<exists>xs a ys s'. es = xs @ (a, k) # ys \<and> intrusive_remove k s = Inr (True, s') \<and> intrusive_holds s' (xs @ ys)
    else intrusive_remove k s = Inr (False, s)"
proof -
  have t: "tree_holds (base_tree s) es" using assms by (simp add: intrusive_holds_def)
  obtain a where a: "find (Suc (m_size (base_tree s))) (nodes (base_tree s)) (m_root (base_tree s)) k = Inr a"
    "if k \<in> snd ` set es then a \<noteq> 0 \<and> (a, k) \<in> set es else a = 0" using tree_find [OF t] by blast
  show ?thesis
  proof (cases "k \<in> snd ` set es")
    case True
    then have a2: "a \<noteq> 0" "(a, k) \<in> set es" using a(2) by simp_all
    obtain xs ys where es: "es = xs @ (a, k) # ys" using a2(2) by (meson split_list)
    obtain T' where T': "rb_remove a (base_tree s) = Inr T'" "tree_holds T' (xs @ ys)" using rb_remove_ok [OF t [unfolded es]] by blast
    have d: "a \<notin> fst ` set (xs @ ys)" using tree_holds_distinct [OF t] es by auto
    have "tree_holds (T'\<lparr>nodes := set_left a 0 (set_right a 0 (nodes T'))\<rparr>) (xs @ ys)"
      using T'(2) d by (intro tree_holds_agree) (auto simp: set_simps)
    moreover have "((m_in_tree s)(a := False)) b \<longleftrightarrow> b \<in> fst ` set (xs @ ys)" for b
      using assms d es by (auto simp: intrusive_holds_def)
    ultimately have "intrusive_holds \<lparr>base_tree = T'\<lparr>nodes := set_left a 0 (set_right a 0 (nodes T'))\<rparr>, m_in_tree = (m_in_tree s)(a := False)\<rparr> (xs @ ys)"
      by (simp add: intrusive_holds_def del: fun_upd_apply)
    then show ?thesis using True es a(1) a2(1) T'(1) by (auto simp: intrusive_remove_def)
  next
    case False
    then show ?thesis using a by (simp add: intrusive_remove_def)
  qed
qed

section \<open>Clearing\<close>

lemma clear_nodes_ok:
  "rep (nodes (base_tree s)) p t \<Longrightarrow> distinct (addrs t) \<Longrightarrow> length (elems t) < fuel \<Longrightarrow>
   \<exists>s'. clear_nodes fuel (root_of t) s = Inr s' \<and> (\<forall>a. m_in_tree s' a \<longleftrightarrow> m_in_tree s a \<and> a \<notin> set (addrs t)) \<and>
     (\<forall>a. a \<notin> set (addrs t) \<longrightarrow> nodes (base_tree s') a = nodes (base_tree s) a)"
proof (induction t arbitrary: s p fuel)
  case Leaf
  then show ?case by (cases fuel) auto
next
  case (Node a l c k r)
  obtain fuel' where fuel: "fuel = Suc fuel'" using Node.prems(3) by (cases fuel) auto
  have na: "a \<noteq> 0" "nodes (base_tree s) a = \<lparr>left_child = root_of l, right_child = root_of r, parent = p, color = c, key = k\<rparr>"
    "rep (nodes (base_tree s)) a l" "rep (nodes (base_tree s)) a r" using Node.prems(1) by simp_all
  obtain s1 where s1: "clear_nodes fuel' (root_of r) s = Inr s1" "\<forall>b. m_in_tree s1 b \<longleftrightarrow> m_in_tree s b \<and> b \<notin> set (addrs r)"
    "\<forall>b. b \<notin> set (addrs r) \<longrightarrow> nodes (base_tree s1) b = nodes (base_tree s) b"
    using Node.IH(2) [OF na(4), of fuel'] Node.prems fuel by auto
  define s2 where "s2 = s1\<lparr>base_tree := (base_tree s1)\<lparr>nodes := set_right a 0 (nodes (base_tree s1))\<rparr>\<rparr>"
  have "nodes (base_tree s2) b = nodes (base_tree s) b" if "b \<in> set (addrs l)" for b
    using that s1(3) Node.prems(2) by (auto simp: s2_def set_right_def)
  then have "rep (nodes (base_tree s2)) a l" using na(3) by (auto intro: rep_agree [of "nodes (base_tree s)"])
  then obtain s3 where s3: "clear_nodes fuel' (root_of l) s2 = Inr s3" "\<forall>b. m_in_tree s3 b \<longleftrightarrow> m_in_tree s2 b \<and> b \<notin> set (addrs l)"
    "\<forall>b. b \<notin> set (addrs l) \<longrightarrow> nodes (base_tree s3) b = nodes (base_tree s2) b"
    using Node.IH(1) [of s2 a fuel'] Node.prems fuel by auto
  have "left_child (set_right a 0 (nodes (base_tree s1)) a) = root_of l" using s1(3) na(2) Node.prems(2) by (simp add: set_right_def)
  then have "clear_nodes fuel a s =
      Inr \<lparr>base_tree = (base_tree s3)\<lparr>nodes := set_left a 0 (nodes (base_tree s3))\<rparr>, m_in_tree = (m_in_tree s3)(a := False)\<rparr>"
    using na s1(1) s3(1) fuel unfolding s2_def [symmetric] by (simp add: s2_def [symmetric])
  moreover have "m_in_tree s2 = m_in_tree s1" by (simp add: s2_def)
  moreover have "nodes (base_tree s2) b = nodes (base_tree s1) b" if "b \<noteq> a" for b using that by (simp add: s2_def set_right_def)
  ultimately show ?case using s1(2,3) s3(2,3) by (auto simp: set_left_def)
qed

lemma intrusive_clear_ok:
  assumes "intrusive_holds s es"
  shows "\<exists>s'. intrusive_clear s = Inr s' \<and> intrusive_holds s' []"
proof -
  obtain t where t: "rep (nodes (base_tree s)) 0 t" "m_root (base_tree s) = root_of t" "elems t = es" "distinct (addrs t)" "m_size (base_tree s) = length es"
    using assms by (auto elim!: tree_holdsE simp: rep_tree_def intrusive_holds_def)
  obtain s' where s': "clear_nodes (Suc (m_size (base_tree s))) (root_of t) s = Inr s'" "\<forall>a. m_in_tree s' a \<longleftrightarrow> m_in_tree s a \<and> a \<notin> set (addrs t)"
    using clear_nodes_ok [OF t(1,4), of "Suc (m_size (base_tree s))"] t(3,5) by auto
  have "set (addrs t) = fst ` set es" using t(3) map_fst_elems [of t] by (metis list.set_map)
  then have out: "\<not> m_in_tree s' a" for a using s'(2) assms by (simp add: intrusive_holds_def)
  have "(base_tree s')\<lparr>m_root := 0, m_minimum := 0, m_size := 0\<rparr> = empty_tree (nodes (base_tree s'))" by (cases "base_tree s'") (simp add: empty_tree_def)
  then have "intrusive_holds (s'\<lparr>base_tree := (base_tree s')\<lparr>m_root := 0, m_minimum := 0, m_size := 0\<rparr>\<rparr>) []"
    using out by (simp add: intrusive_holds_def empty_tree_holds)
  then show ?thesis using s'(1) unfolding intrusive_clear_def t(2) by simp
qed

section \<open>Inserting a node again\<close>

text \<open>In a tree with three nodes the root has two children, so a new node is not put below the root.\<close>
lemma rb_zero_size: "rb 0 t \<Longrightarrow> length (elems t) \<le> 1"
proof (cases t)
  case (Node a l c k r)
  assume "rb 0 t"
  then have "c = Red" "black l" "black r" "rb 0 l" "rb 0 r" using Node by (cases c; simp)+
  moreover have "u = Leaf" if "black u" "rb 0 u" for u :: "'a rbt"
  proof (cases u)
    case (Node b l' c' k' r')
    then show ?thesis using that by (cases c') simp_all
  qed simp
  ultimately show ?thesis using Node by simp
qed simp

lemma root_children:
  assumes "rb h t" and "black t" and "3 \<le> length (elems t)"
  shows "\<exists>a l k r. t = Node a l Black k r \<and> l \<noteq> Leaf \<and> r \<noteq> Leaf"
proof (cases t)
  case (Node a l c k r)
  then have c: "c = Black" using assms(2) by (cases c) simp_all
  have "rb (h - 1) l" "rb (h - 1) r" using assms(1) Node c by simp_all
  moreover have "l \<noteq> Leaf"
  proof
    assume "l = Leaf"
    then have "h - 1 = 0" using \<open>rb (h - 1) l\<close> by simp
    then have "length (elems r) \<le> 1" using rb_zero_size \<open>rb (h - 1) r\<close> by simp
    then show False using assms(3) Node \<open>l = Leaf\<close> by simp
  qed
  moreover have "r \<noteq> Leaf"
  proof
    assume "r = Leaf"
    then have "h - 1 = 0" using \<open>rb (h - 1) r\<close> by simp
    then have "length (elems l) \<le> 1" using rb_zero_size \<open>rb (h - 1) l\<close> by simp
    then show False using assms(3) Node \<open>r = Leaf\<close> by simp
  qed
  ultimately show ?thesis using Node c by blast
qed (use assms(3) in simp)

lemma length_descend: "length ctx + (if t = Leaf then 0 else 1) \<le> length (descend k t ctx)"
proof (induction t arbitrary: ctx)
  case (Node a l c k' r)
  show ?case using Node.IH(1) [of "LeftOf a c k' r # ctx"] Node.IH(2) [of "RightOf a c k' l # ctx"] by (auto split: if_splits)
qed simp

lemma descend_two:
  assumes "rb h t" and "black t" and "3 \<le> length (elems t)"
  shows "\<exists>f g ctx. descend k t [] = f # g # ctx"
proof -
  obtain a l k' r where t: "t = Node a l Black k' r" "l \<noteq> Leaf" "r \<noteq> Leaf" using root_children [OF assms] by blast
  have "2 \<le> length (descend k t [])"
    using t length_descend [of "[LeftOf a Black k' r]" l k] length_descend [of "[RightOf a Black k' l]" r k] by simp
  then show ?thesis by (cases "descend k t []"; cases "tl (descend k t [])") auto
qed

lemma rb_insert_black:
  assumes "tree_holds T es" and "3 \<le> length es" and "x \<noteq> 0" and "x \<notin> fst ` set es" and "color (nodes T x) = Black"
  shows "rb_insert x T = Inl VerifyFailed"
proof -
  obtain t h where t: "rep_tree T t" "rb h t" "black t" "elems t = es" and len: "m_size T = length es"
    using assms(1) by (auto elim!: tree_holdsE)
  let ?k = "key (nodes T x)"
  obtain f g ctx where d: "descend ?k t [] = f # g # ctx" using descend_two [OF t(2,3)] t(4) assms(2) by blast
  have plug: "plug (f # g # ctx) Leaf = t" using plug_descend [of ?k t "[]"] d by simp
  then have at: "rep_at T (f # g # ctx) Leaf" using t(1) by (simp add: rep_at_def)
  have p: "insert_parent (Suc (m_size T)) (nodes T) ?k 0 (m_root T) = Inr (frame_addr f)"
    using t len d insert_parent_ok [of "nodes T" 0 t "Suc (m_size T)" "[]" ?k] by (simp add: rep_tree_def)
  have f: "frame_addr f \<noteq> 0" "parent (nodes T (frame_addr f)) \<noteq> 0"
    using rep_atD(1) [OF at] by (cases f; cases g; simp)+
  have "frame_addr f \<in> set (addrs t)"
    using plug mset_addrs_plug [of "f # g # ctx" Leaf] by (cases f) (auto dest!: arg_cong [of _ _ set_mset])
  then have "frame_addr f \<noteq> x" using assms(4) t(4) map_fst_elems [of t] by (metis list.set_map)
  then show ?thesis using p f assms(3,5) by (auto simp: rb_insert_def insert_fixups_def Let_def set_simps)
qed

text \<open>Only into an empty tree does the parent that a node had before matter.\<close>
lemma insert_parent_set_parent: "insert_parent fuel (set_parent a p n) k up temp = insert_parent fuel n k up temp"
proof (induction fuel arbitrary: up temp)
  case (Suc fuel)
  have "key (set_parent a p n b) = key (n b)" "left_child (set_parent a p n b) = left_child (n b)"
    "right_child (set_parent a p n b) = right_child (n b)" for b by (simp_all add: set_parent_def)
  then show ?case using Suc by simp
qed simp

lemma rb_insert_stale_parent:
  assumes "insert_parent (Suc (m_size T)) (nodes T) (key (nodes T x)) 0 (m_root T) \<noteq> Inr 0"
  shows "rb_insert x (T\<lparr>nodes := set_parent x p (nodes T)\<rparr>) = rb_insert x T"
proof -
  have k: "key (set_parent x p (nodes T) a) = key (nodes T a)" for a by (simp add: set_parent_def)
  have sel: "nodes (T\<lparr>nodes := n\<rparr>) = n" "m_root (T\<lparr>nodes := n\<rparr>) = m_root T" "m_size (T\<lparr>nodes := n\<rparr>) = m_size T"
    "T\<lparr>nodes := n, nodes := n'\<rparr> = T\<lparr>nodes := n'\<rparr>" for n n' by simp_all
  show ?thesis
  proof (cases "insert_parent (Suc (m_size T)) (nodes T) (key (nodes T x)) 0 (m_root T)")
    case (Inl e)
    then show ?thesis unfolding rb_insert_def sel k insert_parent_set_parent by (simp only: bindR.simps)
  next
    case (Inr up)
    let ?N = "\<lambda>n. set_parent x up (if key (nodes T x) < key (nodes T up) then set_left up x n else set_right up x n)"
    have link: "?N (set_parent x p (nodes T)) = ?N (nodes T)"
      by (auto simp: set_parent_def set_left_def set_right_def fun_eq_iff)
    have up: "up \<noteq> 0" using assms Inr by simp
    show ?thesis
      unfolding rb_insert_def Let_def sel k insert_parent_set_parent Inr bindR.simps link if_not_P [OF up] by (rule refl)
  qed
qed

lemma rb_insert_again:
  assumes "tree_holds T es" and "es \<noteq> []" and "x \<noteq> 0" and "x \<notin> fst ` set es" and "Suc (length es) < size_limit"
    and "left_child (nodes T x) = 0" and "right_child (nodes T x) = 0" and "color (nodes T x) = Red"
  shows "\<exists>T'. rb_insert x T = Inr T' \<and> tree_holds T' (insert_by snd (x, key (nodes T x)) es)"
proof -
  let ?T = "T\<lparr>nodes := set_parent x 0 (nodes T)\<rparr>" and ?k = "key (nodes T x)"
  have "tree_holds ?T es" using assms(1,4) by (intro tree_holds_agree) (auto simp: set_parent_def)
  moreover have "fresh_node ?T x ?k"
    using assms(3,6-8) by (cases "nodes T x") (simp add: fresh_node_def new_node_def set_parent_def)
  moreover obtain t h where t: "rep_tree T t" "elems t = es" "m_size T = length es" using assms(1) by (auto elim!: tree_holdsE)
  moreover have "insert_parent (Suc (m_size T)) (nodes T) ?k 0 (m_root T) \<noteq> Inr 0"
  proof -
    have plug: "plug (descend ?k t []) Leaf = t" by (simp add: plug_descend)
    then obtain f ctx where d: "descend ?k t [] = f # ctx" using t(2) assms(2) by (cases "descend ?k t []") auto
    then have "rep_at T (f # ctx) Leaf" using t(1) plug by (simp add: rep_at_def)
    then have "frame_addr f \<noteq> 0" using rep_atD(1) [of T "f # ctx" Leaf] by (cases f) simp_all
    then show ?thesis
      using t d insert_parent_ok [of "nodes T" 0 t "Suc (m_size T)" "[]" ?k] by (simp add: rep_tree_def)
  qed
  ultimately show ?thesis using rb_insert_ok [of ?T es x ?k] rb_insert_stale_parent [of T x 0] assms(4,5) by simp
qed

lemma intrusive_insert_again:
  assumes "intrusive_holds s es" and "3 \<le> length es" and "a \<noteq> 0" and "a \<notin> fst ` set es" and "Suc (length es) < size_limit"
    and "left_child (nodes (base_tree s) a) = 0" and "right_child (nodes (base_tree s) a) = 0"
  shows "if color (nodes (base_tree s) a) = Black then intrusive_insert k a s = Inl VerifyFailed
    else \<exists>s'. intrusive_insert k a s = Inr s' \<and> intrusive_holds s' (insert_by snd (a, k) es)"
proof -
  let ?T = "(base_tree s)\<lparr>nodes := set_key a k (nodes (base_tree s))\<rparr>"
  have T: "tree_holds ?T es" using assms(1,4) by (intro tree_holds_agree) (auto simp: intrusive_holds_def set_key_def)
  have out: "\<not> m_in_tree s a" using assms(1,4) by (simp add: intrusive_holds_def)
  have sel: "left_child (nodes ?T a) = 0" "right_child (nodes ?T a) = 0" "key (nodes ?T a) = k" "color (nodes ?T a) = color (nodes (base_tree s) a)"
    using assms(6,7) by (simp_all add: set_key_def)
  show ?thesis
  proof (cases "color (nodes (base_tree s) a)")
    case Black
    then show ?thesis using rb_insert_black [OF T assms(2-4)] sel(4) out by (simp add: intrusive_insert_def)
  next
    case Red
    have "es \<noteq> []" using assms(2) by auto
    from rb_insert_again [OF T this assms(3-5) sel(1,2)] sel(3,4) Red obtain T' where
      "rb_insert a ?T = Inr T'" "tree_holds T' (insert_by snd (a, k) es)" by auto
    then show ?thesis using out assms(1) Red by (auto simp: intrusive_insert_def intrusive_holds_def)
  qed
qed

lemma intrusive_remove_children:
  assumes "intrusive_remove k s = Inr (True, s')" and "\<not> m_in_tree s' a" and "m_in_tree s a"
  shows "left_child (nodes (base_tree s') a) = 0 \<and> right_child (nodes (base_tree s') a) = 0"
  using assms by (auto simp: intrusive_remove_def bindR_Inr_iff set_left_def set_right_def split: if_splits)

end
