(* ===== verification/Red_Black_Use.thy ===== *)
theory Red_Black_Use
  imports Intrusive_Tree "HOL-Library.Code_Target_Nat"
begin

text \<open>
  What the red-black trees of \<^verbatim>\<open>AK\<close> promise to their users: the tree is a map in the order of the keys, it stays balanced, walking over it visits
  the entries in order, and an intrusive node is marked exactly while it is in the tree. A node that was taken out of an intrusive tree keeps its color, and
  a black one fails a check when it is inserted again.
\<close>

section \<open>The base tree\<close>

text \<open>
  C4: The base tree keeps its structure: inserting a new node and removing a node of the tree end without a failed check, a null dereference or an
  endless loop, and leave a tree with consistent pointers, no red node below a red one, the same number of black nodes on every path, the keys in order, and
  the right size and minimum. The sequence of elements gains the new one in its place, or loses the one removed. Keys may occur more than once.
\<close>
theorem rb_operations_keep_tree:
  assumes "tree_holds T es"
  shows "(fresh_node T x k \<and> x \<notin> fst ` set es \<and> Suc (length es) < size_limit \<longrightarrow>
       (\<exists>T'. rb_insert x T = Inr T' \<and> tree_holds T' (insert_by snd (x, k) es))) \<and>
    (\<forall>xs y k' ys. es = xs @ (y, k') # ys \<longrightarrow> (\<exists>T'. rb_remove y T = Inr T' \<and> tree_holds T' (xs @ ys)))"
  using rb_insert_ok [OF assms] rb_remove_ok assms by blast

text \<open>A tree with one node, for examples.\<close>
lemma one_node: "\<exists>T. tree_holds T [(1, 5 :: int)] \<and> fresh_node T 2 3"
proof -
  let ?n = "(\<lambda>a. if a = 1 then \<lparr>left_child = 0, right_child = 0, parent = 0, color = Black, key = 5\<rparr> else new_node 3) :: int rb_nodes"
  have "tree_holds \<lparr>nodes = ?n, m_root = 1, m_size = 1, m_minimum = 1\<rparr> [(1, 5)]"
    by (rule tree_holdsI [of _ "Node 1 Leaf Black 5 Leaf" 1]) (simp_all add: rep_tree_def)
  then show ?thesis by (intro exI) (auto simp: fresh_node_def)
qed

theorem rb_operations_keep_tree_witness:
  "\<exists>T T'. tree_holds T [(1, 5 :: int)] \<and> rb_insert 2 T = Inr T' \<and> tree_holds T' [(2, 3), (1, 5)]"
proof -
  obtain T where "tree_holds T [(1, 5 :: int)]" "fresh_node T 2 3" using one_node by blast
  then show ?thesis using rb_operations_keep_tree [of T "[(1, 5)]" 2 3] by auto
qed

text \<open>
  C26: The tree is balanced: a search and the way down to the place of a new node take a number of rounds that is logarithmic in the number of nodes, since
  they end within any number of rounds that makes a power of two larger than the square of the number of nodes plus one.
\<close>
theorem rb_rounds_logarithmic:
  assumes "tree_holds T es" and "(length es + 1)\<^sup>2 < 2 ^ rounds"
  shows "(\<exists>a. find rounds (nodes T) (m_root T) k = Inr a) \<and> (\<exists>a. insert_parent rounds (nodes T) k 0 (m_root T) = Inr a)"
proof -
  obtain t h where t: "rep (nodes T) 0 t" "m_root T = root_of t" "rb h t" "black t" "elems t = es"
    using assms(1) by (auto elim!: tree_holdsE simp: rep_tree_def)
  have "(2 :: nat) ^ tree_height t < 2 ^ rounds" using tree_height_bound [OF t(3,4)] assms(2) unfolding t(5) by (rule le_less_trans)
  then have "tree_height t < rounds" by simp
  then show ?thesis using find_rounds [OF t(1)] insert_parent_rounds [OF t(1)] t(2) by simp
qed

theorem rb_rounds_logarithmic_witness:
  "\<exists>T a. tree_holds T [(1, 5 :: int)] \<and> find 3 (nodes T) (m_root T) 5 = Inr a"
proof -
  obtain T where "tree_holds T [(1, 5 :: int)]" using one_node by blast
  moreover have "(length [(1 :: addr, 5 :: int)] + 1)\<^sup>2 < 2 ^ 3" by (simp add: power2_eq_square)
  ultimately show ?thesis using rb_rounds_logarithmic [of T "[(1, 5)]" 3 5] by blast
qed

section \<open>The map\<close>

text \<open>
  C2: \<^verbatim>\<open>RedBlackTree\<close> implements a map in the order of the keys: any sequence of insertions of new keys, removals, the three searches and
  clearing gives the answers that the sorted list of the entries gives, no call fails, and at the end the tree holds the entries of the list.
\<close>
theorem rb_map_refines:
  assumes "ops_ok ops []"
  shows "\<exists>m. map_run ops (empty_map n vs) = Inr (fst (list_run ops []), m) \<and> map_holds m (snd (list_run ops []))"
  using map_run_ok [OF empty_map_holds assms] .

theorem rb_map_refines_witness:
  "\<exists>m. map_run [Insert 1 20 ''b'', Insert 2 10 ''a'', Insert 3 30 ''c'', Remove 20, Find 20, FindNotAbove (25 :: int), FindNotBelow 25]
     (empty_map (\<lambda>_. new_node 0) (\<lambda>_. ''x'')) = Inr ([Done, Done, Done, Removed True, Answer None, Answer (Some ''a''), Answer (Some ''c'')], m)"
  using rb_map_refines [of "[Insert 1 20 ''b'', Insert 2 10 ''a'', Insert 3 30 ''c'', Remove 20, Find 20, FindNotAbove (25 :: int), FindNotBelow 25]"
    "\<lambda>_. new_node 0" "\<lambda>_. ''x''"]
  by auto

text \<open>
  C27: A loop with the iterators of \<^verbatim>\<open>RedBlackTree\<close>, from the minimum and with one step to the successor for every entry, ends after as many steps as there are
  entries, and visits all of them in the order of their keys.
\<close>
theorem rb_walk_in_order:
  assumes "map_holds m es"
  shows "walk (Suc (length es)) m (map_begin m) = Inr (map (\<lambda>e. (entry_key e, entry_value e)) es) \<and> sorted (map entry_key es)"
proof
  have "m_minimum (tree m) = address_of (map element es)" and s: "sorted_by snd (map element es)"
    using assms by (auto simp: map_holds_def address_of_def elim!: tree_holdsE)
  then show "walk (Suc (length es)) m (map_begin m) = Inr (map (\<lambda>e. (entry_key e, entry_value e)) es)"
    using walk_ok [of m "[]" es "map_begin m"] assms by (simp add: map_begin_def)
  show "sorted (map entry_key es)" using s by (simp add: comp_def)
qed

theorem rb_walk_in_order_witness:
  "\<exists>m. map_run [Insert 1 (20 :: int) ''b'', Insert 2 10 ''a''] (empty_map (\<lambda>_. new_node 0) (\<lambda>_. ''x'')) = Inr ([Done, Done], m) \<and>
     walk 3 m (map_begin m) = Inr [(10, ''a''), (20, ''b'')]"
proof -
  let ?ops = "[Insert 1 (20 :: int) ''b'', Insert 2 10 ''a'']"
  have ok: "ops_ok ?ops []" and eq: "list_run ?ops [] = ([Done, Done], [(2, 10, ''a''), (1, 20, ''b'')])" by simp_all
  obtain m where m: "map_run ?ops (empty_map (\<lambda>_. new_node 0) (\<lambda>_. ''x'')) = Inr ([Done, Done], m)" "map_holds m [(2, 10, ''a''), (1, 20, ''b'')]"
    using map_run_ok [OF empty_map_holds ok] unfolding eq by auto
  have "walk (Suc (length [(2 :: addr, 10 :: int, ''a''), (1, 20, ''b'')])) m (map_begin m) = Inr [(10, ''a''), (20, ''b'')]"
    using rb_walk_in_order [OF m(2)] by simp
  moreover have "Suc (length [(2 :: addr, 10 :: int, ''a''), (1, 20, ''b'')]) = 3" by simp
  ultimately show ?thesis using m(1) by metis
qed

section \<open>Intrusive trees\<close>

text \<open>
  C33: The nodes of an intrusive tree are marked exactly while they are in it. Inserting a node that was never in a tree succeeds, inserting one that is in
  the tree fails the check, removing a key takes out one node with it or says that there is none, and clearing marks every node as taken out.
\<close>
theorem intrusive_marks_exact:
  assumes "intrusive_holds s es"
  shows "(a \<noteq> 0 \<and> a \<notin> fst ` set es \<and> unused_node (nodes (base_tree s) a) \<and> Suc (length es) < size_limit \<longrightarrow>
       (\<exists>s'. intrusive_insert k a s = Inr s' \<and> intrusive_holds s' (insert_by snd (a, k) es))) \<and>
    (a \<in> fst ` set es \<longrightarrow> intrusive_insert k a s = Inl VerifyFailed) \<and>
    (if k \<in> snd ` set es then \<exists>xs b ys s'. es = xs @ (b, k) # ys \<and> intrusive_remove k s = Inr (True, s') \<and> intrusive_holds s' (xs @ ys)
     else intrusive_remove k s = Inr (False, s)) \<and>
    (\<exists>s'. intrusive_clear s = Inr s' \<and> intrusive_holds s' [])"
proof (intro conjI impI)
  show "\<exists>s'. intrusive_insert k a s = Inr s' \<and> intrusive_holds s' (insert_by snd (a, k) es)"
    if "a \<noteq> 0 \<and> a \<notin> fst ` set es \<and> unused_node (nodes (base_tree s) a) \<and> Suc (length es) < size_limit"
    using intrusive_insert_ok [OF assms, of a k] that by blast
  show "intrusive_insert k a s = Inl VerifyFailed" if "a \<in> fst ` set es"
    using assms that by (simp add: intrusive_insert_def intrusive_holds_def)
qed (rule intrusive_remove_ok [OF assms] intrusive_clear_ok [OF assms])+

theorem intrusive_marks_exact_witness:
  "\<exists>s s'. intrusive_holds s [(1, 5 :: int)] \<and> intrusive_remove 5 s = Inr (True, s') \<and> intrusive_holds s' []"
proof -
  obtain T where T: "tree_holds T [(1, 5 :: int)]" using one_node by blast
  define s where "s = \<lparr>base_tree = T, m_in_tree = (\<lambda>a. a = 1)\<rparr>"
  have "intrusive_holds s [(1, 5)]" using T by (auto simp: s_def intrusive_holds_def)
  then show ?thesis using intrusive_marks_exact [of s "[(1, 5)]" 1 5] by (auto simp: Cons_eq_append_conv)
qed

text \<open>
  C39: When a node can be inserted again after it was taken out of an intrusive tree: \<^verbatim>\<open>remove\<close> resets the children and the mark of the node, but not its
  color. As long as three nodes are in the tree, the node can be inserted, with any key, exactly if it happened to be red when it was unlinked; a
  black one fails the check at the start of \<^verbatim>\<open>insert_fixups\<close>.
\<close>
theorem intrusive_reinsert_exact:
  assumes "intrusive_holds s es" and "4 \<le> length es" and "intrusive_remove k s = Inr (True, s')"
    and "a \<in> fst ` set es" and "\<not> m_in_tree s' a"
  shows "if color (nodes (base_tree s') a) = Black then intrusive_insert k' a s' = Inl VerifyFailed
    else \<exists>s'' xs ys. es = xs @ (a, k) # ys \<and> intrusive_insert k' a s' = Inr s'' \<and> intrusive_holds s'' (insert_by snd (a, k') (xs @ ys))"
proof -
  obtain xs b ys where es: "es = xs @ (b, k) # ys" and h: "intrusive_holds s' (xs @ ys)"
    using intrusive_remove_ok [OF assms(1), of k] assms(3) by (auto split: if_splits)
  have b: "b = a" using assms(4,5) es h by (auto simp: intrusive_holds_def)
  have T: "tree_holds (base_tree s) es" "m_in_tree s a" using assms(1,4) by (simp_all add: intrusive_holds_def)
  then obtain t where t: "rep (nodes (base_tree s)) 0 t" "elems t = es" "length es < size_limit" by (auto elim!: tree_holdsE simp: rep_tree_def)
  have "a \<noteq> 0" using rep_addrs_nonzero [OF t(1)] assms(4) t(2) map_fst_elems [of t] by (metis list.set_map)
  moreover have "a \<notin> fst ` set (xs @ ys)" using assms(5) h by (simp add: intrusive_holds_def)
  ultimately have "if color (nodes (base_tree s') a) = Black then intrusive_insert k' a s' = Inl VerifyFailed
      else \<exists>s''. intrusive_insert k' a s' = Inr s'' \<and> intrusive_holds s'' (insert_by snd (a, k') (xs @ ys))"
    using intrusive_insert_again [OF h, of a k'] intrusive_remove_children [OF assms(3,5) T(2)] es assms(2) t(3) by simp
  then show ?thesis using es b by metis
qed

definition example_intrusive :: "int intrusive_tree" where
  "example_intrusive =
     \<lparr>base_tree = \<lparr>nodes = (\<lambda>a. if a = 1 then \<lparr>left_child = 0, right_child = 0, parent = 2, color = Black, key = 1\<rparr>
        else if a = 2 then \<lparr>left_child = 1, right_child = 3, parent = 0, color = Black, key = 2\<rparr>
        else if a = 3 then \<lparr>left_child = 0, right_child = 4, parent = 2, color = Black, key = 3\<rparr>
        else if a = 4 then \<lparr>left_child = 0, right_child = 0, parent = 3, color = Red, key = 4\<rparr> else new_node 0),
      m_root = 2, m_size = 4, m_minimum = 1\<rparr>, m_in_tree = (\<lambda>a. 1 \<le> a \<and> a \<le> 4)\<rparr>"

lemma example_intrusive_holds: "intrusive_holds example_intrusive [(1, 1), (2, 2), (3, 3), (4, 4)]"
proof -
  have "tree_holds (base_tree example_intrusive) [(1, 1), (2, 2), (3, 3), (4, 4)]"
    by (rule tree_holdsI [of _ "Node 2 (Node 1 Leaf Black 1 Leaf) Black 2 (Node 3 Leaf Black 3 (Node 4 Leaf Red 4 Leaf))" 2])
      (simp_all add: rep_tree_def example_intrusive_def)
  then show ?thesis by (auto simp: intrusive_holds_def example_intrusive_def)
qed

lemma example_removed:
  "(case intrusive_remove 1 example_intrusive of
     Inr (True, s) \<Rightarrow> \<not> m_in_tree s 1 \<and> color (nodes (base_tree s) 1) = Black | _ \<Rightarrow> False)"
  "(case intrusive_remove 4 example_intrusive of
     Inr (True, s) \<Rightarrow> \<not> m_in_tree s 4 \<and> color (nodes (base_tree s) 4) = Red | _ \<Rightarrow> False)"
  by code_simp+

theorem intrusive_reinsert_exact_witness:
  "(\<exists>s. intrusive_remove 1 example_intrusive = Inr (True, s) \<and> intrusive_insert 1 1 s = Inl VerifyFailed) \<and>
   (\<exists>s s'. intrusive_remove 4 example_intrusive = Inr (True, s) \<and> intrusive_insert 9 4 s = Inr s')"
proof -
  obtain s1 s4 where s1: "intrusive_remove 1 example_intrusive = Inr (True, s1)" "\<not> m_in_tree s1 1" "color (nodes (base_tree s1) 1) = Black"
    and s4: "intrusive_remove 4 example_intrusive = Inr (True, s4)" "\<not> m_in_tree s4 4" "color (nodes (base_tree s4) 4) = Red"
    using example_removed by (auto split: sum.splits prod.splits bool.splits)
  show ?thesis
    using intrusive_reinsert_exact [OF example_intrusive_holds _ s1(1) _ s1(2), of 1] s1
      intrusive_reinsert_exact [OF example_intrusive_holds _ s4(1) _ s4(2), of 9] s4 by auto
qed

end
