(* ===== verification/Tcp_Packet.thy ===== *)
theory Tcp_Packet
  imports Bits
begin

text \<open>
  \<^verbatim>\<open>Kernel/Net/TCP.h\<close>: the header of a TCP packet as it lies in memory, its flags and options. \<^verbatim>\<open>NetworkOrdered\<close> fields are
  most significant byte first. An address is the number \<open>to_u32()\<close> gives, whose least significant byte is the first of the address.
\<close>

type_synonym u16 = "16 word"
type_synonym ipv4_address = u32

section \<open>Bytes in network order\<close>

definition be16 :: "u16 \<Rightarrow> u8 list" where
  "be16 w = [ucast (drop_bit 8 w), ucast w]"

definition of_be16 :: "u8 \<Rightarrow> u8 \<Rightarrow> u16" where
  "of_be16 a b = push_bit 8 (ucast a) OR ucast b"

definition be32 :: "u32 \<Rightarrow> u8 list" where
  "be32 w = be16 (ucast (drop_bit 16 w)) @ be16 (ucast w)"

definition of_be32 :: "u8 \<Rightarrow> u8 \<Rightarrow> u8 \<Rightarrow> u8 \<Rightarrow> u32" where
  "of_be32 a b c d = push_bit 16 (ucast (of_be16 a b)) OR ucast (of_be16 c d)"

lemma of_be16_be16 [simp]: "of_be16 (ucast (drop_bit 8 w)) (ucast w) = w"
  unfolding of_be16_def by (rule bit_word_eqI) (auto simp: bit_simps)

lemma length_be16 [simp]: "length (be16 w) = 2"
  by (simp add: be16_def)

lemma length_be32 [simp]: "length (be32 w) = 4"
  by (simp add: be32_def)

lemma of_be32_be32:
  "of_be32 (be32 w ! 0) (be32 w ! 1) (be32 w ! 2) (be32 w ! 3) = w"
proof -
  have "of_be32 (be32 w ! 0) (be32 w ! 1) (be32 w ! 2) (be32 w ! 3) = push_bit 16 (ucast (ucast (drop_bit 16 w) :: u16)) OR ucast (ucast w :: u16)"
    by (simp add: of_be32_def be32_def be16_def)
  also have "\<dots> = w" by (rule bit_word_eqI) (auto simp: bit_simps)
  finally show ?thesis .
qed

section \<open>The header\<close>

abbreviation FIN :: u16 where "FIN \<equiv> 0x01"
abbreviation SYN :: u16 where "SYN \<equiv> 0x02"
abbreviation RST :: u16 where "RST \<equiv> 0x04"
abbreviation PSH :: u16 where "PSH \<equiv> 0x08"
abbreviation ACK :: u16 where "ACK \<equiv> 0x10"
abbreviation URG :: u16 where "URG \<equiv> 0x20"

record tcp_packet =
  source_port :: u16
  destination_port :: u16
  sequence_number :: u32
  ack_number :: u32
  flags_and_data_offset :: u16
  window_size :: u16
  tcp_checksum :: u16
  urgent :: u16

definition zero_packet :: tcp_packet where
  "zero_packet = \<lparr>source_port = 0, destination_port = 0, sequence_number = 0, ack_number = 0, flags_and_data_offset = 0,
     window_size = 0, tcp_checksum = 0, urgent = 0\<rparr>"

definition packet_flags :: "tcp_packet \<Rightarrow> u16" where
  "packet_flags p = flags_and_data_offset p AND 0x1ff"

definition set_flags :: "u16 \<Rightarrow> tcp_packet \<Rightarrow> tcp_packet" where
  "set_flags fl p = p\<lparr>flags_and_data_offset := (flags_and_data_offset p AND NOT 0x1ff) OR (fl AND 0x1ff)\<rparr>"

definition data_offset :: "tcp_packet \<Rightarrow> nat" where
  "data_offset p = unat (drop_bit 12 (flags_and_data_offset p AND 0xf000))"

definition set_data_offset :: "u16 \<Rightarrow> tcp_packet \<Rightarrow> tcp_packet" where
  "set_data_offset n p = p\<lparr>flags_and_data_offset := (flags_and_data_offset p AND NOT 0xf000) OR push_bit 12 n\<rparr>"

definition header_size :: "tcp_packet \<Rightarrow> nat" where
  "header_size p = data_offset p * 4"

definition has_flag :: "u16 \<Rightarrow> u16 \<Rightarrow> bool" where
  "has_flag fl f \<longleftrightarrow> fl AND f \<noteq> 0"

abbreviation has_syn :: "tcp_packet \<Rightarrow> bool" where "has_syn p \<equiv> has_flag (packet_flags p) SYN"
abbreviation has_ack :: "tcp_packet \<Rightarrow> bool" where "has_ack p \<equiv> has_flag (packet_flags p) ACK"
abbreviation has_fin :: "tcp_packet \<Rightarrow> bool" where "has_fin p \<equiv> has_flag (packet_flags p) FIN"
abbreviation has_rst :: "tcp_packet \<Rightarrow> bool" where "has_rst p \<equiv> has_flag (packet_flags p) RST"

text \<open>The twenty bytes of \<^verbatim>\<open>TCPPacket\<close>.\<close>
definition header_bytes :: "tcp_packet \<Rightarrow> u8 list" where
  "header_bytes p = be16 (source_port p) @ be16 (destination_port p) @ be32 (sequence_number p) @ be32 (ack_number p) @
     be16 (flags_and_data_offset p) @ be16 (window_size p) @ be16 (tcp_checksum p) @ be16 (urgent p)"

text \<open>The same bytes read through a pointer to \<^verbatim>\<open>TCPPacket\<close>.\<close>
definition packet_at :: "(nat \<Rightarrow> u8) \<Rightarrow> tcp_packet" where
  "packet_at r = \<lparr>source_port = of_be16 (r 0) (r 1), destination_port = of_be16 (r 2) (r 3),
     sequence_number = of_be32 (r 4) (r 5) (r 6) (r 7), ack_number = of_be32 (r 8) (r 9) (r 10) (r 11),
     flags_and_data_offset = of_be16 (r 12) (r 13), window_size = of_be16 (r 14) (r 15),
     tcp_checksum = of_be16 (r 16) (r 17), urgent = of_be16 (r 18) (r 19)\<rparr>"

lemma length_header_bytes [simp]: "length (header_bytes p) = 20"
  by (simp add: header_bytes_def)

lemma packet_at_header_bytes: "packet_at (\<lambda>k. (header_bytes p @ rest) ! k) = p"
  by (cases p) (simp add: packet_at_def header_bytes_def be32_def be16_def of_be32_def nth_append, auto intro!: bit_word_eqI simp: bit_simps)

lemma mask_set_low: "((w AND NOT m) OR (v AND m)) AND m = (v AND m :: 'a::len word)"
  by (rule bit_word_eqI) (auto simp: bit_simps)

lemma mask_other: "k AND m = 0 \<Longrightarrow> ((w AND NOT m) OR (v AND m)) AND k = (w AND k :: 'a::len word)"
proof (rule bit_word_eqI)
  fix i assume k: "k AND m = 0" and i: "i < LENGTH('a)"
  have "\<not> (bit k i \<and> bit m i)" using k by (metis bit_and_iff bit_0_eq bot_apply bot_bool_def)
  then show "bit (((w AND NOT m) OR (v AND m)) AND k) i = bit (w AND k) i" using i by (auto simp: bit_simps)
qed

lemma packet_flags_set: "fl AND 0x1ff = fl \<Longrightarrow> packet_flags (set_flags fl p) = fl"
  unfolding packet_flags_def set_flags_def using mask_set_low [of "flags_and_data_offset p" "0x1ff" fl] by simp

lemma data_offset_set_flags: "data_offset (set_flags fl p) = data_offset p"
  unfolding data_offset_def set_flags_def using mask_other [of "0xf000" "0x1ff" "flags_and_data_offset p" fl] by simp

section \<open>Options\<close>

abbreviation option_end :: u8 where "option_end \<equiv> 0"
abbreviation option_nop :: u8 where "option_nop \<equiv> 1"
abbreviation option_mss :: u8 where "option_mss \<equiv> 2"
abbreviation option_window_scale :: u8 where "option_window_scale \<equiv> 3"

definition TCPOptionMSS :: "u16 \<Rightarrow> u8 list" where
  "TCPOptionMSS mss = [option_mss, 4] @ be16 mss"

definition TCPOptionWindowScale :: "u8 \<Rightarrow> u8 list" where
  "TCPOptionWindowScale scale = [option_window_scale, 3, scale]"

text \<open>Where the options start that the callback is called with, from the position \<open>next_option\<close> on.\<close>
function for_each_option :: "(nat \<Rightarrow> u8) \<Rightarrow> nat \<Rightarrow> nat \<Rightarrow> nat list" where
  "for_each_option r options_end next_option =
     (if \<not> next_option < options_end then []
      else if options_end - next_option < 2 then []
      else if r next_option = option_end then []
      else if r next_option = option_nop then for_each_option r options_end (next_option + 1)
      else if unat (r (next_option + 1)) < 2 then []
      else next_option # for_each_option r options_end (next_option + unat (r (next_option + 1))))"
  by pat_completeness auto
termination
  by (relation "measure (\<lambda>(r, options_end, next_option). options_end - next_option)") auto

declare for_each_option.simps [simp del]

end
