(* ===== verification/Internet_Checksum.thy ===== *)
theory Internet_Checksum
  imports Tcp_Packet "HOL-Library.Code_Target_Nat"
begin

text \<open>
  The two computations of the ones' complement checksum of the internet protocols: \<^verbatim>\<open>TCPSocket::compute_tcp_checksum\<close>, which
  folds the carry back after every word, and \<^verbatim>\<open>InternetChecksum\<close> of \<^verbatim>\<open>Kernel/Net/IP/IP.h\<close>, which folds at the end.
  A packet is the memory from its header on.
\<close>

section \<open>Definitions\<close>

fun words_of :: "u8 list \<Rightarrow> u16 list" where
  "words_of (a # b # bs) = of_be16 a b # words_of bs"
| "words_of _ = []"

definition address_bytes :: "ipv4_address \<Rightarrow> u8 list" where
  "address_bytes a = [ucast a, ucast (drop_bit 8 a), ucast (drop_bit 16 a), ucast (drop_bit 24 a)]"

definition add_folded :: "u32 \<Rightarrow> u16 \<Rightarrow> u32" where
  "add_folded c w =
     (let checksum = c + ucast w in if checksum > 0xffff then drop_bit 16 checksum + (checksum AND 0xffff) else checksum)"

definition pseudo_header :: "ipv4_address \<Rightarrow> ipv4_address \<Rightarrow> nat \<Rightarrow> u8 list" where
  "pseudo_header source destination packet_size =
     address_bytes source @ address_bytes destination @ [0, 6] @ be16 (of_nat packet_size)"

definition compute_tcp_checksum :: "ipv4_address \<Rightarrow> ipv4_address \<Rightarrow> u8 list \<Rightarrow> u16 \<Rightarrow> u16 result" where
  "compute_tcp_checksum source destination packet payload_size =
     (let p = packet_at (\<lambda>k. packet ! k);
          packet_size = header_size p + unat payload_size
      in if packet_size \<ge> 2 ^ 16 then Inl VerifyFailed
         else if data_offset p * 4 \<noteq> header_size p then Inl VerifyFailed
         else let payload = take (unat payload_size) (drop (header_size p) packet);
                  c1 = foldl add_folded 0 (words_of (pseudo_header source destination packet_size));
                  c2 = foldl add_folded c1 (words_of (take (header_size p) packet));
                  c3 = foldl add_folded c2 (words_of payload);
                  c4 = (if payload_size AND 1 \<noteq> 0 then add_folded c3 (push_bit 8 (ucast (payload ! (unat payload_size - 1)))) else c3)
              in Inr (NOT (ucast c4)))"

record internet_checksum =
  m_checksum :: u32
  m_uneven_payload :: bool

definition new_checksum :: internet_checksum where
  "new_checksum = \<lparr>m_checksum = 0, m_uneven_payload = False\<rparr>"

definition add_late :: "u32 \<Rightarrow> u16 \<Rightarrow> u32" where
  "add_late c w = (let c1 = c + ucast w in if c1 AND 0x80000000 \<noteq> 0 then (c1 AND 0xffff) OR drop_bit 16 c1 else c1)"

definition checksum_add :: "u8 list \<Rightarrow> internet_checksum \<Rightarrow> internet_checksum result" where
  "checksum_add bytes k =
     (if m_uneven_payload k then Inl VerifyFailed
      else let k1 = k\<lparr>m_checksum := foldl add_late (m_checksum k) (words_of bytes)\<rparr>
           in if odd (length bytes)
              then Inr \<lparr>m_checksum = m_checksum k1 + push_bit 8 (ucast (last bytes)), m_uneven_payload = True\<rparr>
              else Inr k1)"

lemma fold_once: "unat ((c AND 0xffff) + drop_bit 16 c :: u32) = unat c mod 2 ^ 16 + unat c div 2 ^ 16"
proof -
  have "(c AND 0xffff :: u32) = take_bit 16 c" by (simp add: take_bit_eq_mask mask_eq_exp_minus_1)
  then have a: "unat (c AND 0xffff :: u32) = unat c mod 2 ^ 16" by (simp only: unsigned_take_bit_eq) (simp only: take_bit_eq_mod)
  have d: "unat (drop_bit 16 c) = unat c div 2 ^ 16" by (simp only: unat_drop_bit_eq) (simp only: drop_bit_eq_div)
  have "unat c < 2 ^ 32" using unsigned_less [of c] by simp
  then have "unat c div 2 ^ 16 < 2 ^ 16" by (simp add: div_less_iff_less_mult)
  moreover have "unat c mod 2 ^ 16 < 2 ^ 16" by simp
  ultimately have "unat c mod 2 ^ 16 + unat c div 2 ^ 16 < 2 ^ 32" by simp
  then show ?thesis using a d by (simp add: unat_word_ariths)
qed

function fold_carries :: "u32 \<Rightarrow> u32" where
  "fold_carries c = (if drop_bit 16 c \<noteq> 0 then fold_carries ((c AND 0xffff) + drop_bit 16 c) else c)"
  by pat_completeness auto
termination
proof (relation "measure unat", simp)
  fix c :: u32 assume "drop_bit 16 c \<noteq> 0"
  then have "unat c div 2 ^ 16 \<noteq> 0" by (metis unat_drop_bit_eq drop_bit_eq_div unat_eq_0)
  then have "0 < unat c div 2 ^ 16" by simp
  then have "unat c mod 2 ^ 16 + unat c div 2 ^ 16 < unat c mod 2 ^ 16 + 2 ^ 16 * (unat c div 2 ^ 16)" by (intro add_strict_left_mono) simp
  then show "((c AND 0xffff) + drop_bit 16 c, c) \<in> measure unat" by (simp only: in_measure fold_once mod_mult_div_eq)
qed

declare fold_carries.simps [simp del]

definition checksum_finish :: "internet_checksum \<Rightarrow> u16" where
  "checksum_finish k = ucast (NOT (fold_carries (m_checksum k)) AND 0xffff)"

section \<open>Ones' complement sums\<close>

text \<open>The sum of numbers with the carries out of sixteen bits added back.\<close>
definition ones_sum :: "nat \<Rightarrow> nat" where
  "ones_sum s = (if s = 0 then 0 else (s - 1) mod 65535 + 1)"

lemma ones_sum_le: "ones_sum s \<le> 65535"
  by (simp add: ones_sum_def Suc_le_eq)

lemma ones_sum_small: "s \<le> 65535 \<Longrightarrow> ones_sum s = s"
  by (auto simp: ones_sum_def)

lemma ones_sum_eq_0: "ones_sum s = 0 \<longleftrightarrow> s = 0"
  by (simp add: ones_sum_def)

lemma ones_sum_cong: "ones_sum s mod 65535 = s mod 65535"
proof (cases s)
  case (Suc n)
  then show ?thesis by (simp add: ones_sum_def mod_Suc_eq)
qed (simp add: ones_sum_def)

lemma mod_pred_cong:
  fixes a b :: nat
  assumes "Suc a mod m = Suc b mod m"
  shows "a mod m = b mod m"
proof (cases "b \<le> a")
  case True
  then obtain q where "Suc a = Suc b + m * q" by (rule mod_eq_nat1E [OF assms Suc_le_mono [THEN iffD2]])
  then show ?thesis by simp
next
  case False
  then have "Suc a \<le> Suc b" by simp
  then obtain q where "Suc b = Suc a + m * q" by (rule mod_eq_nat1E [OF assms [symmetric]])
  then show ?thesis by simp
qed

lemma ones_sum_unique:
  assumes "v \<le> 65535" and "v mod 65535 = s mod 65535" and "v = 0 \<longleftrightarrow> s = 0"
  shows "v = ones_sum s"
proof (cases s)
  case (Suc b)
  then obtain a where a: "v = Suc a" using assms(3) by (cases v) simp_all
  have "a mod 65535 = b mod 65535" by (rule mod_pred_cong) (use assms(2) Suc a in simp)
  moreover have "a mod 65535 = a" using assms(1) a by simp
  ultimately show ?thesis using Suc a by (simp add: ones_sum_def)
qed (use assms in \<open>simp add: ones_sum_def\<close>)

lemma ones_sum_add: "ones_sum (ones_sum a + b) = ones_sum (a + b)"
proof (rule ones_sum_unique [OF ones_sum_le])
  have "ones_sum (ones_sum a + b) mod 65535 = (ones_sum a + b) mod 65535" by (rule ones_sum_cong)
  also have "\<dots> = (ones_sum a mod 65535 + b) mod 65535" by (rule mod_add_left_eq [symmetric])
  also have "\<dots> = (a + b) mod 65535" by (simp only: ones_sum_cong mod_add_left_eq)
  finally show "ones_sum (ones_sum a + b) mod 65535 = (a + b) mod 65535" .
  show "ones_sum (ones_sum a + b) = 0 \<longleftrightarrow> a + b = 0" by (simp add: ones_sum_def)
qed

lemma ones_sum_complement: "ones_sum (s + (65535 - ones_sum s)) = 65535"
proof (rule ones_sum_unique [symmetric])
  have "(s + (65535 - ones_sum s)) mod 65535 = (s mod 65535 + (65535 - ones_sum s)) mod 65535" by (rule mod_add_left_eq [symmetric])
  also have "\<dots> = (ones_sum s + (65535 - ones_sum s)) mod 65535" by (simp only: ones_sum_cong [of s, symmetric] mod_add_left_eq)
  also have "\<dots> = 65535 mod 65535" using ones_sum_le [of s] by simp
  finally show "65535 mod 65535 = (s + (65535 - ones_sum s)) mod 65535" by simp
  show "(65535::nat) = 0 \<longleftrightarrow> s + (65535 - ones_sum s) = 0" by (cases "s = 0") (simp_all add: ones_sum_def)
qed simp

text \<open>The sum of the words of some bytes, the last of an odd number of bytes being the upper half of a word.\<close>
definition word_sum :: "u8 list \<Rightarrow> nat" where
  "word_sum bytes = sum_list (map unat (words_of bytes)) + (if odd (length bytes) then 256 * unat (last bytes) else 0)"

lemma unat_add_folded:
  assumes "unat c \<le> 65535"
  shows "unat (add_folded c w) = ones_sum (unat c + unat w)"
proof -
  have w: "unat w < 65536" using unsigned_less [of w] by simp
  have s: "unat (c + ucast w) = unat c + unat w" using assms w by (simp add: unat_word_ariths unsigned_ucast_eq take_bit_nat_eq_self)
  have big: "c + ucast w > 0xffff \<longleftrightarrow> unat c + unat w > 65535" using s by (simp add: word_less_nat_alt)
  show ?thesis
  proof (cases "unat c + unat w > 65535")
    case True
    have "unat (add_folded c w) = (unat c + unat w) mod 2 ^ 16 + (unat c + unat w) div 2 ^ 16"
      using True big fold_once [of "c + ucast w"] s by (simp add: add_folded_def Let_def add.commute)
    moreover have "(unat c + unat w) div 2 ^ 16 = 1" using True assms w by (simp add: div_nat_eqI)
    moreover have "(unat c + unat w) mod 2 ^ 16 = unat c + unat w - 65536" using True assms w by (subst le_mod_geq) simp_all
    ultimately have "unat (add_folded c w) = unat c + unat w - 65535" using True by simp
    moreover have "(unat c + unat w) mod 65535 = (unat c + unat w - 65535) mod 65535" using True by (intro le_mod_geq) simp
    ultimately show ?thesis using True assms w by (intro ones_sum_unique) simp_all
  next
    case False
    then show ?thesis using big s by (simp add: add_folded_def Let_def ones_sum_small)
  qed
qed

lemma unat_foldl_folded: "unat c \<le> 65535 \<Longrightarrow> unat (foldl add_folded c ws) = ones_sum (unat c + sum_list (map unat ws))"
proof (induction ws arbitrary: c)
  case (Cons w ws)
  have "unat (add_folded c w) \<le> 65535" using unat_add_folded [OF Cons.prems] ones_sum_le by simp
  then show ?case using Cons.IH unat_add_folded [OF Cons.prems] by (simp add: ones_sum_add add.assoc)
qed (simp add: ones_sum_small)

lemma unat_high_byte: "unat (push_bit 8 (ucast (b :: u8)) :: u16) = 256 * unat b"
proof -
  have "unat b < 256" using unsigned_less [of b] by simp
  then show ?thesis by (simp only: unsigned_push_bit_eq) (simp add: push_bit_eq_mult unsigned_ucast_eq take_bit_eq_mod)
qed

lemma unat_not: "unat (NOT w :: 'a::len word) = 2 ^ LENGTH('a) - 1 - unat w"
proof -
  have "uint (NOT w) = 2 ^ LENGTH('a) - 1 - uint w"
    by (simp add: unsigned_not_eq take_bit_not_eq_mask_diff mask_eq_exp_minus_1 take_bit_int_eq_self)
  then have "int (unat (NOT w)) + int (unat w) = int (2 ^ LENGTH('a)) - 1" by simp
  then show ?thesis by linarith
qed

section \<open>The checksum of a TCP packet\<close>

lemma length_words_of [simp]: "length (words_of bs) = length bs div 2"
  by (induction bs rule: words_of.induct) simp_all

lemma words_of_nth: "Suc (2 * k) < length bs \<Longrightarrow> words_of bs ! k = of_be16 (bs ! (2 * k)) (bs ! Suc (2 * k))"
proof (induction bs arbitrary: k rule: words_of.induct)
  case (1 a b bs)
  then show ?case by (cases k) simp_all
qed simp_all

lemma words_of_update: "Suc (2 * k) < length bs \<Longrightarrow> words_of (bs[2 * k := a, Suc (2 * k) := b]) = (words_of bs)[k := of_be16 a b]"
proof (induction bs arbitrary: k rule: words_of.induct)
  case (1 x y bs)
  then show ?case by (cases k) simp_all
qed simp_all

lemma words_of_append: "even (length xs) \<Longrightarrow> words_of (xs @ ys) = words_of xs @ words_of ys"
  by (induction xs rule: words_of.induct) simp_all

lemma word_sum_append:
  assumes "even (length xs)"
  shows "word_sum (xs @ ys) = word_sum xs + word_sum ys"
  using assms by (cases "ys = []") (simp_all add: word_sum_def words_of_append)

lemma word_sum_update:
  assumes "Suc (2 * k) < length bs" and "even (length bs)" and "bs ! (2 * k) = 0" and "bs ! Suc (2 * k) = 0"
  shows "word_sum (bs[2 * k := a, Suc (2 * k) := b]) = word_sum bs + unat (of_be16 a b)"
proof -
  have k: "k < length (words_of bs)" using assms(1) by simp
  have z: "words_of bs ! k = 0" using words_of_nth [OF assms(1)] assms(3,4) by (simp add: of_be16_def)
  show ?thesis using assms(2) k z
    by (simp add: word_sum_def words_of_update [OF assms(1)] map_update sum_list_update)
qed

lemma length_pseudo_header [simp]: "length (pseudo_header a b n) = 12"
  by (simp add: pseudo_header_def address_bytes_def)

lemma word_odd_iff: "w AND 1 \<noteq> 0 \<longleftrightarrow> odd (unat (w :: 'a::len word))"
proof -
  have "bit (unat w) 0 = bit w 0" by (rule trans [OF bit_unsigned_iff]) simp
  then show ?thesis by (simp add: bit_0 and_one_eq mod_2_eq_odd)
qed

lemma compute_tcp_checksum_eq:
  fixes packet :: "u8 list"
  defines "p \<equiv> packet_at (\<lambda>k. packet ! k)"
  assumes "length packet = header_size p + unat n" and "length packet < 2 ^ 16"
  shows "\<exists>c. compute_tcp_checksum source destination packet n = Inr c \<and>
    unat c = 65535 - ones_sum (word_sum (pseudo_header source destination (length packet)) + word_sum packet)"
proof -
  let ?h = "take (header_size p) packet" and ?d = "drop (header_size p) packet" and ?s = "pseudo_header source destination (length packet)"
  let ?c3 = "foldl add_folded (foldl add_folded (foldl add_folded 0 (words_of ?s)) (words_of ?h)) (words_of ?d)"
  define c4 where "c4 = (if n AND 1 \<noteq> 0 then add_folded ?c3 (push_bit 8 (ucast (?d ! (unat n - 1)))) else ?c3)"
  have d: "length ?d = unat n" "take (unat n) ?d = ?d" using assms(2) by simp_all
  have even: "even (length ?h)" using assms(2) by (simp add: header_size_def)
  have c3: "unat ?c3 = ones_sum (word_sum ?s + word_sum ?h + sum_list (map unat (words_of ?d)))"
    using even by (simp add: unat_foldl_folded ones_sum_le ones_sum_add word_sum_def add.assoc)
  have "unat c4 = ones_sum (word_sum ?s + word_sum ?h + word_sum ?d)"
  proof (cases "odd (unat n)")
    case True
    then have l: "?d ! (unat n - 1) = last ?d" using d(1) by (subst last_conv_nth) (auto simp: odd_pos)
    have "unat ?c3 \<le> 65535" using c3 ones_sum_le by simp
    then have "unat c4 = ones_sum (unat ?c3 + 256 * unat (last ?d))"
      using True l unfolding c4_def word_odd_iff by (simp only: not_False_eq_True if_True unat_add_folded unat_high_byte)
    moreover have "word_sum ?d = sum_list (map unat (words_of ?d)) + 256 * unat (last ?d)"
      using True d(1) unfolding word_sum_def by simp
    ultimately show ?thesis unfolding c3 ones_sum_add by (simp only: add.assoc)
  next
    case False
    then show ?thesis using c3 d(1) unfolding c4_def word_odd_iff by (simp add: word_sum_def)
  qed
  moreover have "word_sum ?h + word_sum ?d = word_sum packet" using word_sum_append [OF even, of ?d] by simp
  ultimately have c4: "unat c4 = ones_sum (word_sum ?s + word_sum packet)" by (simp add: add.assoc)
  have r: "compute_tcp_checksum source destination packet n = Inr (NOT (ucast c4))"
    using assms(2,3) d by (simp add: compute_tcp_checksum_def Let_def p_def [symmetric] c4_def header_size_def)
  have "unat (ucast c4 :: u16) = unat c4"
    using c4 ones_sum_le [of "word_sum ?s + word_sum packet"] by (simp add: unsigned_ucast_eq take_bit_nat_eq_self)
  then show ?thesis using r c4 by (simp add: unat_not)
qed

lemma tcp_checksum_stored:
  fixes packet :: "u8 list"
  assumes "length packet = header_size (packet_at (\<lambda>k. packet ! k)) + unat payload_size"
    and "20 \<le> header_size (packet_at (\<lambda>k. packet ! k))" and "length packet < 2 ^ 16"
    and "packet ! 16 = 0" and "packet ! 17 = 0"
  shows "\<exists>c. compute_tcp_checksum source destination packet payload_size = Inr c \<and>
    compute_tcp_checksum source destination (packet[16 := be16 c ! 0, 17 := be16 c ! 1]) payload_size = Inr 0"
proof -
  let ?s = "pseudo_header source destination (length packet)"
  obtain c where c: "compute_tcp_checksum source destination packet payload_size = Inr c"
      "unat c = 65535 - ones_sum (word_sum ?s + word_sum packet)"
    using compute_tcp_checksum_eq [OF assms(1,3)] by blast
  define q where "q = packet[16 := be16 c ! 0, 17 := be16 c ! 1]"
  have len: "length q = length packet" by (simp add: q_def)
  have "header_size (packet_at (\<lambda>k. q ! k)) = header_size (packet_at (\<lambda>k. packet ! k))"
    by (simp add: q_def packet_at_def header_size_def data_offset_def)
  then obtain c' where c': "compute_tcp_checksum source destination q payload_size = Inr c'"
      "unat c' = 65535 - ones_sum (word_sum ?s + word_sum q)"
    using compute_tcp_checksum_eq [of q payload_size] assms(1,3) len by auto
  let ?h = "header_size (packet_at (\<lambda>k. packet ! k))"
  have even: "even (length (take ?h packet))" using assms(1) by (simp add: header_size_def)
  have long: "17 < length (take ?h packet)" using assms(1,2) by simp
  have "word_sum q = word_sum (take ?h q) + word_sum (drop ?h q)"
    using word_sum_append [of "take ?h q" "drop ?h q"] even len by simp
  also have "take ?h q = (take ?h packet)[2 * 8 := be16 c ! 0, Suc (2 * 8) := be16 c ! 1]"
    by (simp add: q_def take_update_swap)
  also have "drop ?h q = drop ?h packet" using assms(2) by (simp add: q_def)
  also have "word_sum ((take ?h packet)[2 * 8 := be16 c ! 0, Suc (2 * 8) := be16 c ! 1]) = word_sum (take ?h packet) + unat c"
    using word_sum_update [of 8 "take ?h packet" "be16 c ! 0" "be16 c ! 1"] even long assms(2,4,5) by (simp add: be16_def)
  also have "word_sum (take ?h packet) + unat c + word_sum (drop ?h packet) = word_sum packet + unat c"
    using word_sum_append [OF even, of "drop ?h packet"] by simp
  finally have "ones_sum (word_sum ?s + word_sum q) = 65535"
    using ones_sum_complement [of "word_sum ?s + word_sum packet"] c(2) by (simp add: add.assoc)
  then have "c' = 0" using c'(2) by (simp add: unat_eq_0)
  then show ?thesis using c(1) c'(1) q_def by blast
qed

text \<open>
  C22: The checksum of a TCP packet shorter than 64 KiB, computed while the checksum field is zero and then stored there, is right: computing
  the checksum over the finished packet gives zero, which is how a receiver checks it.
\<close>
theorem tcp_checksum_verifies:
  fixes packet :: "u8 list"
  assumes "length packet = header_size (packet_at (\<lambda>k. packet ! k)) + unat payload_size"
    and "20 \<le> header_size (packet_at (\<lambda>k. packet ! k))" and "length packet < 2 ^ 16"
    and "packet ! 16 = 0" and "packet ! 17 = 0"
  shows "\<exists>c. compute_tcp_checksum source destination packet payload_size = Inr c \<and>
    compute_tcp_checksum source destination (packet[16 := be16 c ! 0, 17 := be16 c ! 1]) payload_size = Inr 0"
  by (rule tcp_checksum_stored [OF assms])

theorem tcp_checksum_verifies_witness:
  "\<exists>c. compute_tcp_checksum 0x0100007f 0x0200007f [0, 80, 128, 0, 0, 0, 0, 1, 0, 0, 0, 2, 0x50, 0x18, 1, 0, 0, 0, 0, 0, 7, 8, 9] 3 = Inr c \<and>
     compute_tcp_checksum 0x0100007f 0x0200007f
       ([0, 80, 128, 0, 0, 0, 0, 1, 0, 0, 0, 2, 0x50, 0x18, 1, 0, 0, 0, 0, 0, 7, 8, 9][16 := be16 c ! 0, 17 := be16 c ! 1]) 3 = Inr 0"
  by (rule tcp_checksum_verifies; code_simp)

section \<open>The checksum object\<close>

text \<open>Several parts added one after the other, as the pseudo header and the data of a packet are.\<close>
fun checksum_adds :: "u8 list list \<Rightarrow> internet_checksum \<Rightarrow> internet_checksum result" where
  "checksum_adds [] k = Inr k"
| "checksum_adds (bytes # parts) k = bindR (checksum_add bytes k) (checksum_adds parts)"

lemma top_bit_clear:
  assumes "unat (x :: u32) < 2 ^ 31"
  shows "x AND 0x80000000 = 0"
proof (rule bit_word_eqI)
  fix i assume i: "i < LENGTH(32)"
  have e: "(0x80000000 :: u32) = 2 ^ 31" by simp
  have "\<not> bit x 31"
  proof
    assume "bit x 31"
    then have "bit (unat x) 31" by (simp add: bit_unsigned_iff)
    then show False using assms by (simp add: bit_iff_odd)
  qed
  then show "bit (x AND 0x80000000) i = bit (0 :: u32) i" unfolding e bit_and_iff bit_exp_iff by auto
qed

lemma unat_add_late:
  assumes "unat c + unat w < 2 ^ 31"
  shows "unat (add_late c w) = unat c + unat w"
proof -
  have "unat (ucast w :: u32) = unat w" using assms by (simp add: unsigned_ucast_eq take_bit_nat_eq_self)
  then have "unat (c + ucast w) = unat c + unat w" using assms by (simp add: unat_word_ariths)
  then show ?thesis using top_bit_clear [of "c + ucast w"] assms by (simp add: add_late_def Let_def)
qed

lemma unat_foldl_late:
  "unat c + sum_list (map unat ws) < 2 ^ 31 \<Longrightarrow> unat (foldl add_late c ws) = unat c + sum_list (map unat ws)"
proof (induction ws arbitrary: c)
  case (Cons w ws)
  have "unat (add_late c w) = unat c + unat w" using Cons.prems by (intro unat_add_late) simp
  then show ?case using Cons.IH [of "add_late c w"] Cons.prems by (simp add: add.assoc)
qed simp

lemma word_sum_bound: "word_sum bytes \<le> 65535 * ((length bytes + 1) div 2)"
proof -
  have w: "sum_list (map unat ws) \<le> 65535 * length ws" for ws :: "u16 list"
  proof (induction ws)
    case (Cons w ws)
    moreover have "unat w < 2 ^ LENGTH(16)" by (rule unsigned_less)
    ultimately show ?case by simp
  qed simp
  have "unat (last bytes) < 2 ^ LENGTH(8)" by (rule unsigned_less)
  then have l: "unat (last bytes) \<le> 255" by simp
  show ?thesis using w [of "words_of bytes"] l by (cases "even (length bytes)") (auto simp: word_sum_def elim!: oddE evenE)
qed

lemma unat_fold_carries: "unat (fold_carries c) = ones_sum (unat c)"
proof (induction c rule: fold_carries.induct)
  case (1 c)
  show ?case
  proof (cases "drop_bit 16 c = 0")
    case True
    then have "unat c div 2 ^ 16 = 0" by (metis unat_drop_bit_eq drop_bit_eq_div unat_eq_0)
    then have "unat c \<le> 65535" by (simp add: div_eq_0_iff)
    then show ?thesis using True by (simp add: fold_carries.simps ones_sum_small)
  next
    case False
    let ?a = "unat c mod 2 ^ 16" and ?b = "unat c div 2 ^ 16"
    have s: "unat c = ?a + ?b + 65535 * ?b" using mod_mult_div_eq [of "unat c" "2 ^ 16"] by simp
    have "ones_sum (?a + ?b) = ones_sum (unat c)"
    proof (rule ones_sum_unique [OF ones_sum_le])
      have "ones_sum (?a + ?b) mod 65535 = (?a + ?b) mod 65535" by (rule ones_sum_cong)
      also have "\<dots> = (?a + ?b + 65535 * ?b) mod 65535" by (rule mod_mult_self2 [symmetric])
      finally show "ones_sum (?a + ?b) mod 65535 = unat c mod 65535" using s by simp
      have "?a + ?b = 0 \<longleftrightarrow> unat c = 0"
      proof
        assume "?a + ?b = 0"
        then show "unat c = 0" using s by linarith
      qed simp
      then show "ones_sum (?a + ?b) = 0 \<longleftrightarrow> unat c = 0" by (simp only: ones_sum_eq_0)
    qed
    then show ?thesis using 1 [OF False] False by (simp add: fold_carries.simps [of c] fold_once)
  qed
qed

lemma unat_checksum_finish: "unat (checksum_finish k) = 65535 - ones_sum (unat (m_checksum k))"
proof -
  let ?f = "fold_carries (m_checksum k)"
  have "(ucast (NOT ?f AND 0xffff) :: u16) = NOT (ucast ?f)"
  proof (rule bit_word_eqI)
    fix i assume "i < LENGTH(16)"
    moreover have "(0xffff :: u32) = mask 16" by (simp add: mask_eq_exp_minus_1)
    ultimately show "bit (ucast (NOT ?f AND 0xffff) :: u16) i = bit (NOT (ucast ?f) :: u16) i"
      by (simp only: bit_ucast_iff bit_and_iff bit_not_iff bit_mask_iff) auto
  qed
  moreover have "unat (ucast ?f :: u16) = unat ?f"
    using ones_sum_le [of "unat (m_checksum k)"] by (simp add: unsigned_ucast_eq take_bit_nat_eq_self unat_fold_carries)
  ultimately show ?thesis by (simp add: checksum_finish_def unat_not unat_fold_carries)
qed

lemma checksum_add_exact:
  assumes "\<not> m_uneven_payload k" and "unat (m_checksum k) + word_sum bytes < 2 ^ 31"
  shows "\<exists>k'. checksum_add bytes k = Inr k' \<and> unat (m_checksum k') = unat (m_checksum k) + word_sum bytes \<and>
    m_uneven_payload k' = odd (length bytes)"
proof -
  let ?f = "foldl add_late (m_checksum k) (words_of bytes)"
  have f: "unat ?f = unat (m_checksum k) + sum_list (map unat (words_of bytes))"
    using assms(2) by (intro unat_foldl_late) (simp add: word_sum_def)
  show ?thesis
  proof (cases "odd (length bytes)")
    case True
    have "unat (last bytes) < 256" using unsigned_less [of "last bytes"] by simp
    then have "unat (push_bit 8 (ucast (last bytes)) :: u32) = 256 * unat (last bytes)"
      by (simp only: unsigned_push_bit_eq) (simp add: push_bit_eq_mult unsigned_ucast_eq take_bit_eq_mod)
    then have "unat (?f + push_bit 8 (ucast (last bytes))) = unat (m_checksum k) + word_sum bytes"
      using f True assms(2) by (simp add: unat_word_ariths word_sum_def)
    then show ?thesis using assms(1) True by (simp add: checksum_add_def Let_def)
  next
    case False
    then show ?thesis using assms(1) f by (simp add: checksum_add_def Let_def word_sum_def)
  qed
qed

lemma checksum_adds_exact:
  assumes "\<not> m_uneven_payload k" and "list_all (\<lambda>bs. even (length bs)) (butlast parts)"
    and "unat (m_checksum k) + word_sum (concat parts) < 2 ^ 31"
  shows "\<exists>k'. checksum_adds parts k = Inr k' \<and> unat (m_checksum k') = unat (m_checksum k) + word_sum (concat parts)"
  using assms
proof (induction parts arbitrary: k)
  case (Cons bs parts)
  show ?case
  proof (cases "parts = []")
    case True
    then show ?thesis using checksum_add_exact [of k bs] Cons.prems by auto
  next
    case False
    then have e: "even (length bs)" using Cons.prems(2) by simp
    then have s: "word_sum (concat (bs # parts)) = word_sum bs + word_sum (concat parts)" by (simp add: word_sum_append)
    then obtain k1 where k1: "checksum_add bs k = Inr k1" "unat (m_checksum k1) = unat (m_checksum k) + word_sum bs" "\<not> m_uneven_payload k1"
      using checksum_add_exact [of k bs] Cons.prems e by auto
    then show ?thesis using Cons.IH [of k1] Cons.prems False s by (simp add: add.assoc)
  qed
qed (simp add: word_sum_def)

text \<open>
  C28: For at most 64 KiB in parts of which only the last may have an odd length, the checksum object does not fail and gives the complement of the
  ones' complement sum of the bytes; for a TCP packet and its pseudo header that is the checksum \<^verbatim>\<open>compute_tcp_checksum\<close> gives.
\<close>
theorem internet_checksum_agrees:
  "(list_all (\<lambda>bs. even (length bs)) (butlast parts) \<and> length (concat parts) \<le> 2 ^ 16 \<longrightarrow>
     (\<exists>k. checksum_adds parts new_checksum = Inr k \<and> unat (checksum_finish k) = 65535 - ones_sum (word_sum (concat parts)))) \<and>
   (length packet = header_size (packet_at (\<lambda>k. packet ! k)) + unat payload_size \<and> length packet + 12 \<le> 2 ^ 16 \<longrightarrow>
     (\<exists>k. checksum_adds [pseudo_header source destination (length packet), packet] new_checksum = Inr k \<and>
        compute_tcp_checksum source destination packet payload_size = Inr (checksum_finish k)))"
proof -
  have main: "\<exists>k. checksum_adds parts new_checksum = Inr k \<and> unat (checksum_finish k) = 65535 - ones_sum (word_sum (concat parts))"
    if "list_all (\<lambda>bs. even (length bs)) (butlast parts)" "length (concat parts) \<le> 2 ^ 16" for parts
  proof -
    have "(length (concat parts) + 1) div 2 \<le> 32768" using that(2) by simp
    then have "word_sum (concat parts) \<le> 65535 * 32768" using word_sum_bound [of "concat parts"] by (meson le_trans mult_le_mono2)
    then show ?thesis using checksum_adds_exact [of new_checksum parts] that(1) by (auto simp: new_checksum_def unat_checksum_finish)
  qed
  have "\<exists>k. checksum_adds [pseudo_header source destination (length packet), packet] new_checksum = Inr k \<and>
      compute_tcp_checksum source destination packet payload_size = Inr (checksum_finish k)"
    if len: "length packet = header_size (packet_at (\<lambda>k. packet ! k)) + unat payload_size" "length packet + 12 \<le> 2 ^ 16"
  proof -
    let ?s = "pseudo_header source destination (length packet)"
    have e: "concat [?s, packet] = ?s @ packet" by simp
    obtain k where k: "checksum_adds [?s, packet] new_checksum = Inr k"
        "unat (checksum_finish k) = 65535 - ones_sum (word_sum ?s + word_sum packet)"
      using main [of "[?s, packet]"] len(2) unfolding e by (auto simp: word_sum_append)
    obtain c where c: "compute_tcp_checksum source destination packet payload_size = Inr c"
        "unat c = 65535 - ones_sum (word_sum ?s + word_sum packet)"
      using compute_tcp_checksum_eq [OF len(1)] len(2) by auto
    have "c = checksum_finish k" using k(2) c(2) by (simp add: word_unat_eq_iff)
    then show ?thesis using k(1) c(1) by simp
  qed
  then show ?thesis using main by blast
qed

theorem internet_checksum_agrees_witness:
  "\<exists>k. checksum_adds [pseudo_header 0x0100007f 0x0200007f 23, [0, 80, 128, 0, 0, 0, 0, 1, 0, 0, 0, 2, 0x50, 0x18, 1, 0, 0, 0, 0, 0, 7, 8, 9]] new_checksum = Inr k \<and>
     compute_tcp_checksum 0x0100007f 0x0200007f [0, 80, 128, 0, 0, 0, 0, 1, 0, 0, 0, 2, 0x50, 0x18, 1, 0, 0, 0, 0, 0, 7, 8, 9] 3 =
       Inr (checksum_finish k)"
proof -
  let ?p = "[0, 80, 128, 0, 0, 0, 0, 1, 0, 0, 0, 2, 0x50, 0x18, 1, 0, 0, 0, 0, 0, 7, 8, 9] :: u8 list"
  have h: "length ?p = header_size (packet_at (\<lambda>k. ?p ! k)) + unat (3 :: u16) \<and> length ?p + 12 \<le> 2 ^ 16" by code_simp
  have l: "length ?p = 23" by simp
  have "\<exists>k. checksum_adds [pseudo_header 0x0100007f 0x0200007f (length ?p), ?p] new_checksum = Inr k \<and>
      compute_tcp_checksum 0x0100007f 0x0200007f ?p 3 = Inr (checksum_finish k)"
    using internet_checksum_agrees [of "[]" ?p 3 "0x0100007f" "0x0200007f"] h by blast
  then show ?thesis unfolding l .
qed

text \<open>The bytes of 32768 words with all bits set and two more.\<close>
abbreviation long_message :: "u8 list" where
  "long_message \<equiv> concat (replicate 32768 [0xff, 0xff]) @ [0x7f, 0xff, 0xff, 0xff]"

lemma words_of_replicate: "words_of (concat (replicate n [a, b]) @ ys) = replicate n (of_be16 a b) @ words_of ys"
  by (induction n) simp_all

lemma long_message_words: "words_of long_message = (replicate 32768 0xffff @ [0x7fff]) @ [0xffff]"
proof -
  have "of_be16 0xff 0xff = 0xffff" "words_of [0x7f, 0xff, 0xff, 0xff] = [0x7fff, 0xffff]" by code_simp+
  then show ?thesis by (simp only: words_of_replicate append.assoc append_Cons append_Nil)
qed

lemma long_message_length: "length long_message = 65540"
  by (simp add: length_concat sum_list_replicate)

text \<open>
  The bound on the length is needed. The carry is put back with a bitwise or instead of an addition: 65540 bytes in one part
  get the checksum 1 where the complement of their sum is 0x8000.
\<close>
theorem internet_checksum_loses_carry:
  "\<exists>k. checksum_add long_message new_checksum = Inr k \<and> checksum_finish k = 1 \<and>
     65535 - ones_sum (word_sum long_message) = 0x8000"
proof -
  let ?ws = "replicate 32768 (0xffff :: u16) @ [0x7fff]"
  have s: "sum_list (map unat ?ws) = 2 ^ 31 - 1" by (simp add: map_replicate sum_list_replicate)
  then have "unat (foldl add_late 0 ?ws) = 2 ^ 31 - 1" using unat_foldl_late [of 0 ?ws] by simp
  then have c: "foldl add_late 0 ?ws = 0x7fffffff" by (simp add: word_unat_eq_iff)
  have "foldl add_late 0 (words_of long_message) = add_late 0x7fffffff 0xffff"
    by (simp only: long_message_words foldl_append [of _ _ ?ws] c foldl.simps)
  also have "\<dots> = 0xfffe" by code_simp
  finally have r: "checksum_add long_message new_checksum = Inr \<lparr>m_checksum = 0xfffe, m_uneven_payload = False\<rparr>"
    by (simp only: checksum_add_def long_message_length Let_def new_checksum_def) simp
  have "checksum_finish \<lparr>m_checksum = 0xfffe, m_uneven_payload = False\<rparr> = 1" by code_simp
  moreover have "word_sum long_message = 2 ^ 31 - 1 + 65535"
    using s by (simp only: word_sum_def long_message_words long_message_length map_append sum_list_append) simp
  ultimately show ?thesis using r by (simp add: ones_sum_def)
qed

end
