(* ===== verification/Tcp_Options.thy ===== *)
theory Tcp_Options
  imports Tcp_Packet "HOL-Library.Code_Target_Nat"
begin

text \<open>
  The options of TCP packets: how \<^verbatim>\<open>handle_tcp\<close> reads the window scale of the peer, and the scale of this side. A received packet is the list of the bytes of the IPv4 payload; reading
  behind its end is \<open>OutOfBounds\<close>.
\<close>

definition log2 :: "u64 \<Rightarrow> nat" where
  "log2 x = (if x = 0 then 0 else 63 - length (takeWhile (\<lambda>i. \<not> bit x (63 - i)) [0..<64]))"

definition receive_buffer_size :: u64 where
  "receive_buffer_size = 256 * 1024"

definition receive_window_scale :: nat where
  "receive_window_scale =
     (let buffer_size_bit_length = log2 receive_buffer_size + 1
      in if buffer_size_bit_length < 16 then 0 else buffer_size_bit_length - 16)"

text \<open>The callback of \<^verbatim>\<open>handle_tcp\<close>; the value of the option is its third byte.\<close>
definition window_scale_callback :: "u8 list \<Rightarrow> nat \<Rightarrow> u8 option \<Rightarrow> u8 option result" where
  "window_scale_callback packet opt send_window_scale =
     (if packet ! opt \<noteq> option_window_scale then Inr send_window_scale
      else if packet ! (opt + 1) \<noteq> 3 then Inr send_window_scale
      else if length packet \<le> opt + 2 then Inl OutOfBounds
      else if packet ! (opt + 2) > 14 then Inr send_window_scale
      else Inr (Some (packet ! (opt + 2))))"

fun window_scale_options :: "u8 list \<Rightarrow> nat list \<Rightarrow> u8 option \<Rightarrow> u8 option result" where
  "window_scale_options packet [] send_window_scale = Inr send_window_scale"
| "window_scale_options packet (opt # opts) send_window_scale =
     bindR (window_scale_callback packet opt send_window_scale) (window_scale_options packet opts)"

definition read_window_scale :: "u8 list \<Rightarrow> u8 option result" where
  "read_window_scale packet =
     (let p = packet_at (\<lambda>k. packet ! k)
      in if has_syn p then window_scale_options packet (for_each_option (\<lambda>k. packet ! k) (header_size p) 20) None else Inr None)"

section \<open>The walk over the options\<close>

lemma for_each_option_range:
  "opt \<in> set (for_each_option r options_end next_option) \<Longrightarrow> next_option \<le> opt \<and> opt + 2 \<le> options_end"
proof (induction r options_end next_option rule: for_each_option.induct)
  case (1 r options_end next_option)
  then show ?case by (subst (asm) (3) for_each_option.simps) (auto split: if_splits)
qed

lemma for_each_option_sorted: "sorted_wrt (<) (for_each_option r options_end next_option)"
proof (induction r options_end next_option rule: for_each_option.induct)
  case (1 r options_end next_option)
  have "next_option < opt" if "\<not> unat (r (next_option + 1)) < 2"
      and "opt \<in> set (for_each_option r options_end (next_option + unat (r (next_option + 1))))" for opt
    using that for_each_option_range [OF that(2)] by simp
  then show ?case using 1 by (subst for_each_option.simps) simp
qed

lemma window_scale_callback_ok:
  assumes "opt + 2 < length packet" and "\<forall>v. w = Some v \<longrightarrow> v \<le> 14"
  shows "\<exists>w'. window_scale_callback packet opt w = Inr w' \<and> (\<forall>v. w' = Some v \<longrightarrow> v \<le> 14)"
  using assms by (simp add: window_scale_callback_def not_less)

lemma window_scale_options_ok:
  assumes "\<forall>opt \<in> set opts. opt + 2 < length packet" and "\<forall>v. w = Some v \<longrightarrow> v \<le> 14"
  shows "\<exists>w'. window_scale_options packet opts w = Inr w' \<and> (\<forall>v. w' = Some v \<longrightarrow> v \<le> 14)"
  using assms
proof (induction opts arbitrary: w)
  case (Cons opt opts)
  obtain w1 where "window_scale_callback packet opt w = Inr w1" "\<forall>v. w1 = Some v \<longrightarrow> v \<le> 14"
    using window_scale_callback_ok [of opt packet w] Cons.prems by auto
  then show ?case using Cons.IH [of w1] Cons.prems(1) by simp
qed simp

text \<open>
  The walk over the options visits positions in increasing order whose kind and length lie inside the header. So if the packet has
  at least one byte behind its header, reading the window scale stays inside the packet and gives at most 14.
\<close>
theorem option_walk_in_header:
  "sorted_wrt (<) (for_each_option r options_end 20) \<and>
   (\<forall>opt \<in> set (for_each_option r options_end 20). 20 \<le> opt \<and> opt + 2 \<le> options_end) \<and>
   (header_size (packet_at (\<lambda>k. packet ! k)) < length packet \<longrightarrow>
     (\<exists>w. read_window_scale packet = Inr w \<and> (\<forall>v. w = Some v \<longrightarrow> v \<le> 14)))"
proof -
  let ?p = "packet_at (\<lambda>k. packet ! k)" and ?os = "for_each_option (\<lambda>k. packet ! k) (header_size (packet_at (\<lambda>k. packet ! k))) 20"
  have "\<exists>w. read_window_scale packet = Inr w \<and> (\<forall>v. w = Some v \<longrightarrow> v \<le> 14)" if "header_size ?p < length packet"
  proof -
    have "\<forall>opt \<in> set ?os. opt + 2 < length packet" using that for_each_option_range by fastforce
    then show ?thesis using window_scale_options_ok [of ?os packet None] by (simp add: read_window_scale_def Let_def)
  qed
  then show ?thesis using for_each_option_sorted for_each_option_range by blast
qed

theorem option_walk_in_header_witness:
  "\<exists>w. read_window_scale (header_bytes (zero_packet\<lparr>flags_and_data_offset := 0x6002\<rparr>) @ [1, 3, 3, 9, 7]) = Inr w \<and> (\<forall>v. w = Some v \<longrightarrow> v \<le> 14)"
proof -
  let ?p = "header_bytes (zero_packet\<lparr>flags_and_data_offset := 0x6002\<rparr>) @ [1, 3, 3, 9, 7]"
  have "header_size (packet_at (\<lambda>k. ?p ! k)) < length ?p" by code_simp
  then show ?thesis using option_walk_in_header [of "\<lambda>k. 0" 0 ?p] by blast
qed

text \<open>
  Only the kind and the length of an option are checked to be inside the header: for a SYN packet that consists of a header with a window
  scale option without its last byte, the value is read from behind the packet.
\<close>
theorem option_value_past_packet:
  "header_size (packet_at (\<lambda>k. (header_bytes (zero_packet\<lparr>flags_and_data_offset := 0x6002\<rparr>) @ [1, 1, 3, 3]) ! k)) = 24 \<and>
   length (header_bytes (zero_packet\<lparr>flags_and_data_offset := 0x6002\<rparr>) @ [1, 1, 3, 3]) = 24 \<and>
   read_window_scale (header_bytes (zero_packet\<lparr>flags_and_data_offset := 0x6002\<rparr>) @ [1, 1, 3, 3]) = Inl OutOfBounds"
  by (intro conjI; code_simp)

end
