(* ===== verification/Tcp_Send.thy ===== *)
theory Tcp_Send
  imports Tcp_Options Internet_Checksum Double_Buffer
begin

text \<open>
  \<^verbatim>\<open>TCPSocket::send_tcp_packet\<close> with \<^verbatim>\<open>NetworkAdapter::fill_in_ipv4_header\<close>: the frame with its Ethernet, IPv4 and TCP headers, options and payload is
  built in a packet buffer, and the state of the socket is updated. The buffer is the list of its bytes. The routing decision,
  the buffer that the adapter hands out, the memory of the payload, the time, and whether the list of unacknowledged packets can grow are arguments; the calls
  on the adapter are part of the result.
\<close>

section \<open>Packet buffers\<close>

text \<open>The six bytes of a hardware address.\<close>
type_synonym mac_address = "u8 \<times> u8 \<times> u8 \<times> u8 \<times> u8 \<times> u8"

definition mac_bytes :: "mac_address \<Rightarrow> u8 list" where
  "mac_bytes m = (case m of (a, b, c, d, e, f) \<Rightarrow> [a, b, c, d, e, f])"

definition mac_is_zero :: "mac_address \<Rightarrow> bool" where
  "mac_is_zero m \<longleftrightarrow> list_all (\<lambda>octet. octet = 0) (mac_bytes m)"

record network_adapter =
  adapter_mac_address :: mac_address
  adapter_mtu :: u32

record routing_decision =
  rd_adapter :: "network_adapter option"
  next_hop :: mac_address

definition routing_is_zero :: "routing_decision \<Rightarrow> bool" where
  "routing_is_zero r \<longleftrightarrow> rd_adapter r = None \<or> mac_is_zero (next_hop r)"

definition layer3_payload_offset :: nat where
  "layer3_payload_offset = 14"

definition ipv4_payload_offset :: nat where
  "ipv4_payload_offset = layer3_payload_offset + 20"

definition ethernet_header :: "mac_address \<Rightarrow> mac_address \<Rightarrow> u16 \<Rightarrow> u8 list" where
  "ethernet_header destination source ether_type = mac_bytes destination @ mac_bytes source @ be16 ether_type"

record ipv4_packet =
  version_and_ihl :: u8
  dscp_and_ecn :: u8
  ip_length :: u16
  ident :: u16
  flags_and_fragment :: u16
  ip_ttl :: u8
  ip_protocol :: u8
  ip_checksum :: u16
  ip_source :: ipv4_address
  ip_destination :: ipv4_address

definition zero_ipv4 :: ipv4_packet where
  "zero_ipv4 = \<lparr>version_and_ihl = 0, dscp_and_ecn = 0, ip_length = 0, ident = 0, flags_and_fragment = 0, ip_ttl = 0, ip_protocol = 0,
     ip_checksum = 0, ip_source = 0, ip_destination = 0\<rparr>"

definition set_version :: "u8 \<Rightarrow> ipv4_packet \<Rightarrow> ipv4_packet" where
  "set_version version p = p\<lparr>version_and_ihl := (version_and_ihl p AND 0x0f) OR push_bit 4 version\<rparr>"

definition set_internet_header_length :: "u8 \<Rightarrow> ipv4_packet \<Rightarrow> ipv4_packet" where
  "set_internet_header_length ihl p = p\<lparr>version_and_ihl := (version_and_ihl p AND 0xf0) OR (ihl AND 0x0f)\<rparr>"

definition ipv4_bytes :: "ipv4_packet \<Rightarrow> u8 list" where
  "ipv4_bytes p = [version_and_ihl p, dscp_and_ecn p] @ be16 (ip_length p) @ be16 (ident p) @ be16 (flags_and_fragment p) @
     [ip_ttl p, ip_protocol p] @ be16 (ip_checksum p) @ address_bytes (ip_source p) @ address_bytes (ip_destination p)"

definition ipv4_compute_checksum :: "ipv4_packet \<Rightarrow> u16 result" where
  "ipv4_compute_checksum p =
     (if ip_checksum p \<noteq> 0 then Inl VerifyFailed
      else bindR (checksum_add (ipv4_bytes p) new_checksum) (\<lambda>checksum. Inr (checksum_finish checksum)))"

definition fill_in_ipv4_header ::
    "network_adapter \<Rightarrow> u8 list \<Rightarrow> ipv4_address \<Rightarrow> mac_address \<Rightarrow> ipv4_address \<Rightarrow> u8 \<Rightarrow> nat \<Rightarrow> u8 \<Rightarrow> u8 \<Rightarrow> u8 list result" where
  "fill_in_ipv4_header adapter buffer source_ipv4 destination_mac destination_ipv4 protocol payload_size type_of_service ttl =
     (let ipv4_packet_size = size_add 20 payload_size
      in if \<not> ipv4_packet_size \<le> unat (adapter_mtu adapter) then Inl VerifyFailed
         else if length buffer \<noteq> size_add ipv4_payload_offset payload_size then Inl VerifyFailed
         else
           bindR (copy_in buffer 0 (ethernet_header destination_mac (adapter_mac_address adapter) 0x0800)) (\<lambda>buffer.
           let ipv4 = (set_internet_header_length 5 (set_version 4 zero_ipv4))\<lparr>dscp_and_ecn := type_of_service, ip_source := source_ipv4,
                 ip_destination := destination_ipv4, ip_protocol := protocol, ip_length := of_nat ipv4_packet_size, ident := 1, ip_ttl := ttl\<rparr>
           in bindR (ipv4_compute_checksum ipv4) (\<lambda>checksum.
              copy_in buffer layer3_payload_offset (ipv4_bytes (ipv4\<lparr>ip_checksum := checksum\<rparr>)))))"

section \<open>The socket\<close>

record outgoing_packet =
  op_ack_number :: u32
  op_buffer :: "u8 list"
  op_ipv4_payload_offset :: nat
  op_adapter :: network_adapter

record tcp_socket =
  local_address :: ipv4_address
  local_port :: u16
  peer_address :: ipv4_address
  peer_port :: u16
  type_of_service :: u8
  socket_ttl :: u8
  m_receive_buffer :: "double_buffer option"
  so_error :: "errno option"
  m_sequence_number :: u32
  m_ack_number :: u32
  m_packets_out :: u32
  m_bytes_out :: u32
  unacked_packets :: "outgoing_packet list"
  unacked_size :: nat
  in_retransmit_list :: bool
  m_last_ack_number_sent :: u32
  m_last_ack_sent_time :: int
  m_window_scaling_supported :: bool

text \<open>What the socket asks of the adapter.\<close>
datatype adapter_call = SendPacket "u8 list" | ReleasePacketBuffer

definition set_so_error :: "errno \<Rightarrow> tcp_socket \<Rightarrow> adapter_call list \<Rightarrow> tcp_socket \<times> adapter_call list \<times> unit result" where
  "set_so_error e s calls = (s\<lparr>so_error := Some e\<rparr>, calls, Inl (Err e))"

definition available_space_in_receive_buffer :: "tcp_socket \<Rightarrow> nat" where
  "available_space_in_receive_buffer s = (case m_receive_buffer s of Some b \<Rightarrow> m_space_for_writing b | None \<Rightarrow> 0)"

definition align_up_to :: "u64 \<Rightarrow> u64 \<Rightarrow> u64" where
  "align_up_to value alignment = (value + (alignment - 1)) AND NOT (alignment - 1)"

definition tcp_options_size :: "u16 \<Rightarrow> u64" where
  "tcp_options_size flags = (if has_flag flags SYN then 4 else 0) + (if has_flag flags SYN then 3 else 0)"

definition tcp_header_size :: "u16 \<Rightarrow> nat" where
  "tcp_header_size flags = unat (20 + align_up_to (tcp_options_size flags) 4)"

text \<open>The fields set before the payload is read; the rest of the header is zero.\<close>
definition tcp_header :: "tcp_socket \<Rightarrow> u16 \<Rightarrow> tcp_packet" where
  "tcp_header s flags =
     (let space = available_space_in_receive_buffer s;
          window = (if \<not> has_flag flags SYN \<and> m_window_scaling_supported s then drop_bit receive_window_scale space else space)
      in set_flags flags (set_data_offset (of_nat (tcp_header_size flags div 4))
           (zero_packet\<lparr>source_port := local_port s, destination_port := peer_port s, window_size := of_nat (min window 65535),
              sequence_number := m_sequence_number s\<rparr>)))"

text \<open>The memory of a payload, nothing if it cannot be read.\<close>
definition read_payload :: "u8 list option \<Rightarrow> nat \<Rightarrow> u8 list result" where
  "read_payload payload payload_size =
     (case payload of
        Some bytes \<Rightarrow> if payload_size \<le> length bytes then Inr (take payload_size bytes) else Inl (Err EFAULT)
      | None \<Rightarrow> Inl (Err EFAULT))"

definition write_options :: "network_adapter \<Rightarrow> u16 \<Rightarrow> u8 list \<Rightarrow> u8 list result" where
  "write_options adapter flags buffer =
     bindR (if has_flag flags SYN
            then let mss = ucast (ucast (adapter_mtu adapter) - 20 - 20 :: u64)
                 in bindR (copy_in buffer (ipv4_payload_offset + 20) (TCPOptionMSS mss)) (\<lambda>buffer. Inr (buffer, ipv4_payload_offset + 20 + 4))
            else Inr (buffer, ipv4_payload_offset + 20)) (\<lambda>(buffer, next_option).
     bindR (if has_flag flags SYN
            then bindR (copy_in buffer next_option (TCPOptionWindowScale (of_nat receive_window_scale))) (\<lambda>buffer. Inr (buffer, next_option + 3))
            else Inr (buffer, next_option)) (\<lambda>(buffer, next_option).
     if tcp_options_size flags mod 4 \<noteq> 0 then copy_in buffer next_option [option_end] else Inr buffer))"

text \<open>The rest of the packet, with the header that was written so far.\<close>
definition finish_packet :: "network_adapter \<Rightarrow> tcp_socket \<Rightarrow> u16 \<Rightarrow> nat \<Rightarrow> tcp_packet \<Rightarrow> u8 list \<Rightarrow> u8 list result" where
  "finish_packet adapter s flags payload_size header buffer =
     bindR (if has_flag flags ACK
            then copy_in buffer ipv4_payload_offset (header_bytes (header\<lparr>ack_number := m_ack_number s\<rparr>))
            else Inr buffer) (\<lambda>buffer.
     bindR (write_options adapter flags buffer) (\<lambda>buffer.
     bindR (compute_tcp_checksum (local_address s) (peer_address s) (drop ipv4_payload_offset buffer) (of_nat payload_size)) (\<lambda>checksum.
     copy_in buffer (ipv4_payload_offset + 16) (be16 checksum))))"

definition update_numbers :: "u16 \<Rightarrow> nat \<Rightarrow> int \<Rightarrow> tcp_socket \<Rightarrow> tcp_socket" where
  "update_numbers flags payload_size now s =
     (let s1 = (if has_flag flags ACK then s\<lparr>m_last_ack_number_sent := m_ack_number s, m_last_ack_sent_time := now\<rparr> else s)
      in s1\<lparr>m_sequence_number := (if has_flag flags SYN then m_sequence_number s1 + 1 else m_sequence_number s1 + of_nat payload_size)\<rparr>)"

definition send_tcp_packet ::
    "(nat \<Rightarrow> u8 list option) \<Rightarrow> bool \<Rightarrow> int \<Rightarrow> routing_decision \<Rightarrow> u16 \<Rightarrow> u8 list option option \<Rightarrow> nat \<Rightarrow> tcp_socket \<Rightarrow>
     tcp_socket \<times> adapter_call list \<times> unit result" where
  "send_tcp_packet acquire_packet_buffer append_ok now routing_decision flags payload payload_size s =
     (case rd_adapter routing_decision of
        None \<Rightarrow> set_so_error EHOSTUNREACH s []
      | Some adapter \<Rightarrow>
     if routing_is_zero routing_decision then set_so_error EHOSTUNREACH s []
     else
     let buffer_size = size_add (size_add ipv4_payload_offset (tcp_header_size flags)) payload_size
     in case acquire_packet_buffer buffer_size of
        None \<Rightarrow> set_so_error ENOMEM s []
      | Some buffer \<Rightarrow>
     (case fill_in_ipv4_header adapter buffer (local_address s) (next_hop routing_decision) (peer_address s) 6
             (size_sub buffer_size ipv4_payload_offset) (type_of_service s) (socket_ttl s) of
        Inl e \<Rightarrow> (s, [], Inl e)
      | Inr buffer \<Rightarrow>
     if local_port s = 0 then (s, [], Inl VerifyFailed)
     else
     let header = tcp_header s flags
     in case copy_in buffer ipv4_payload_offset (header_bytes header) of
        Inl e \<Rightarrow> (s, [], Inl e)
      | Inr buffer \<Rightarrow>
     (case (case payload of None \<Rightarrow> Inr [] | Some memory \<Rightarrow> read_payload memory payload_size) of
        Inl (Err e) \<Rightarrow> set_so_error e s [ReleasePacketBuffer]
      | Inl e \<Rightarrow> (s, [], Inl e)
      | Inr bytes \<Rightarrow>
     case bindR (copy_in buffer (ipv4_payload_offset + header_size header) bytes) (finish_packet adapter s flags payload_size header) of
        Inl e \<Rightarrow> (s, [], Inl e)
      | Inr frame \<Rightarrow>
     let s1 = update_numbers flags payload_size now s;
         expect_ack = (has_syn (packet_at (\<lambda>k. frame ! (ipv4_payload_offset + k))) \<or> payload_size > 0);
         sent = (\<lambda>s. (s\<lparr>m_packets_out := m_packets_out s + 1, m_bytes_out := m_bytes_out s + of_nat buffer_size\<rparr>,
                   SendPacket frame # (if expect_ack then [] else [ReleasePacketBuffer]), Inr ()))
     in if \<not> expect_ack then sent s1
        else if \<not> append_ok then set_so_error ENOMEM s1 []
        else sent (s1\<lparr>unacked_packets := unacked_packets s1 @ [\<lparr>op_ack_number = m_sequence_number s1, op_buffer = frame,
                        op_ipv4_payload_offset = ipv4_payload_offset, op_adapter = adapter\<rparr>],
                      unacked_size := size_add (unacked_size s1) payload_size, in_retransmit_list := True\<rparr>))))"

section \<open>Writing parts of the buffer\<close>

lemma copy_in_part: "length xs = offset \<Longrightarrow> length ys = length bytes \<Longrightarrow> copy_in (xs @ ys @ zs) offset bytes = Inr (xs @ bytes @ zs)"
  by (auto simp: copy_in_def)

lemma length_ethernet_header [simp]: "length (ethernet_header a b t) = 14"
  by (cases a; cases b) (simp add: ethernet_header_def mac_bytes_def)

lemma length_ipv4_bytes [simp]: "length (ipv4_bytes p) = 20"
  by (simp add: ipv4_bytes_def address_bytes_def)

lemma split_parts:
  assumes "length (xs :: 'a list) = a + b"
  obtains ys zs where "xs = ys @ zs" "length ys = a" "length zs = b"
  using assms by (intro that [of "take a xs" "drop a xs"]) simp_all

section \<open>The IPv4 header\<close>

text \<open>The checksum of the finished header, which a receiver computes with the same object, is zero.\<close>
lemma ipv4_checksum_stored:
  assumes "ip_checksum p = 0"
  shows "\<exists>c k. ipv4_compute_checksum p = Inr c \<and> checksum_add (ipv4_bytes (p\<lparr>ip_checksum := c\<rparr>)) new_checksum = Inr k \<and> checksum_finish k = 0"
proof -
  have small: "unat (m_checksum new_checksum) + word_sum bs < 2 ^ 31" if "length bs = 20" for bs
    using word_sum_bound [of bs] that by (simp add: new_checksum_def)
  have add: "\<exists>k. checksum_add bs new_checksum = Inr k \<and> unat (m_checksum k) = word_sum bs" if "length bs = 20" for bs
    using checksum_add_exact [OF _ small [OF that]] by (auto simp: new_checksum_def)
  obtain k where k: "checksum_add (ipv4_bytes p) new_checksum = Inr k" "unat (m_checksum k) = word_sum (ipv4_bytes p)"
    using add [of "ipv4_bytes p"] by auto
  define c where "c = checksum_finish k"
  have c: "unat c = 65535 - ones_sum (word_sum (ipv4_bytes p))" by (simp add: c_def unat_checksum_finish k(2))
  obtain k' where k': "checksum_add (ipv4_bytes (p\<lparr>ip_checksum := c\<rparr>)) new_checksum = Inr k'"
      "unat (m_checksum k') = word_sum (ipv4_bytes (p\<lparr>ip_checksum := c\<rparr>))"
    using add [of "ipv4_bytes (p\<lparr>ip_checksum := c\<rparr>)"] by auto
  have "ipv4_bytes (p\<lparr>ip_checksum := c\<rparr>) = (ipv4_bytes p)[2 * 5 := be16 c ! 0, Suc (2 * 5) := be16 c ! 1]"
    using assms by (simp add: ipv4_bytes_def be16_def address_bytes_def)
  moreover have "word_sum ((ipv4_bytes p)[2 * 5 := be16 c ! 0, Suc (2 * 5) := be16 c ! 1]) = word_sum (ipv4_bytes p) + unat (of_be16 (be16 c ! 0) (be16 c ! 1))"
    using assms by (intro word_sum_update) (simp_all add: ipv4_bytes_def be16_def address_bytes_def)
  moreover have "of_be16 (be16 c ! 0) (be16 c ! 1) = c" by (simp add: be16_def)
  ultimately have "ones_sum (unat (m_checksum k')) = 65535"
    using k'(2) ones_sum_complement [of "word_sum (ipv4_bytes p)"] c by simp
  then have "checksum_finish k' = 0" using unat_checksum_finish [of k'] by (simp add: unat_eq_0)
  then show ?thesis using k(1) k'(1) assms c_def by (auto simp: ipv4_compute_checksum_def)
qed

text \<open>The IPv4 header that is put in front of a payload.\<close>
definition ipv4_header_ok :: "u8 list \<Rightarrow> ipv4_address \<Rightarrow> ipv4_address \<Rightarrow> nat \<Rightarrow> bool" where
  "ipv4_header_ok header source destination packet_size \<longleftrightarrow>
     (\<exists>p k. header = ipv4_bytes p \<and> version_and_ihl p = 0x45 \<and> ip_protocol p = 6 \<and> ip_source p = source \<and> ip_destination p = destination \<and>
        unat (ip_length p) = packet_size \<and> checksum_add header new_checksum = Inr k \<and> checksum_finish k = 0)"

lemma fill_in_ipv4_header_ok:
  assumes "length buffer = 34 + n" and "20 + n \<le> unat (adapter_mtu adapter)" and "unat (adapter_mtu adapter) < 2 ^ 16"
  shows "\<exists>h. fill_in_ipv4_header adapter buffer source mac destination 6 n tos ttl =
      Inr (ethernet_header mac (adapter_mac_address adapter) 0x0800 @ h @ drop 34 buffer) \<and> length h = 20 \<and> ipv4_header_ok h source destination (20 + n)"
proof -
  obtain e r where er: "buffer = e @ r" "length e = 14" "length r = 20 + n" using split_parts [of buffer 14 "20 + n"] assms(1) by auto
  obtain i d where id: "r = i @ d" "length i = 20" "length d = n" using split_parts [OF er(3)] .
  let ?e = "ethernet_header mac (adapter_mac_address adapter) 0x0800"
  let ?p = "(set_internet_header_length 5 (set_version 4 zero_ipv4))\<lparr>dscp_and_ecn := tos, ip_source := source,
     ip_destination := destination, ip_protocol := 6, ip_length := of_nat (20 + n), ident := 1, ip_ttl := ttl\<rparr>"
  have "ip_checksum ?p = 0" by (simp add: set_internet_header_length_def set_version_def zero_ipv4_def)
  from ipv4_checksum_stored [OF this] obtain c k where
    c: "ipv4_compute_checksum ?p = Inr c" "checksum_add (ipv4_bytes (?p\<lparr>ip_checksum := c\<rparr>)) new_checksum = Inr k" "checksum_finish k = 0" by blast
  have n: "size_add 20 n = 20 + n" "size_add ipv4_payload_offset n = 34 + n"
    using assms by (simp_all add: size_simps ipv4_payload_offset_def layer3_payload_offset_def)
  have w1: "copy_in buffer 0 ?e = Inr (?e @ i @ d)" using copy_in_part [of "[]" 0 e ?e "i @ d"] er id by simp
  have w2: "copy_in (?e @ i @ d) layer3_payload_offset (ipv4_bytes (?p\<lparr>ip_checksum := c\<rparr>)) = Inr (?e @ ipv4_bytes (?p\<lparr>ip_checksum := c\<rparr>) @ d)"
    using id by (intro copy_in_part) (simp_all add: layer3_payload_offset_def)
  have "fill_in_ipv4_header adapter buffer source mac destination 6 n tos ttl = Inr (?e @ ipv4_bytes (?p\<lparr>ip_checksum := c\<rparr>) @ d)"
    using assms(1,2) unfolding fill_in_ipv4_header_def Let_def n by (simp only: w1 bindR.simps c(1) w2) simp
  moreover have "d = drop 34 buffer" using er id by simp
  moreover have "unat (of_nat (20 + n) :: u16) = 20 + n"
    using assms(2,3) by (simp only: unsigned_of_nat) (simp add: take_bit_nat_eq_self)
  then have "ipv4_header_ok (ipv4_bytes (?p\<lparr>ip_checksum := c\<rparr>)) source destination (20 + n)"
    unfolding ipv4_header_ok_def
    using c(2,3) by (intro exI [of _ "?p\<lparr>ip_checksum := c\<rparr>"] exI [of _ k])
      (simp add: set_internet_header_length_def set_version_def zero_ipv4_def del: of_nat_add)
  ultimately show ?thesis by (metis length_ipv4_bytes)
qed

section \<open>The TCP header and its options\<close>

lemma tcp_sizes:
  "tcp_header_size flags = (if has_flag flags SYN then 28 else 20)"
  "tcp_options_size flags mod 4 \<noteq> 0 \<longleftrightarrow> has_flag flags SYN"
proof -
  have "align_up_to 7 4 = 8" "align_up_to 0 4 = 0" by code_simp+
  then show "tcp_header_size flags = (if has_flag flags SYN then 28 else 20)" "tcp_options_size flags mod 4 \<noteq> 0 \<longleftrightarrow> has_flag flags SYN"
    by (simp_all add: tcp_header_size_def tcp_options_size_def)
qed

lemma tcp_header_fields:
  assumes "flags AND 0x1ff = flags"
  shows "source_port (tcp_header s flags) = local_port s" "destination_port (tcp_header s flags) = peer_port s"
    "sequence_number (tcp_header s flags) = m_sequence_number s" "packet_flags (tcp_header s flags) = flags"
    "header_size (tcp_header s flags) = tcp_header_size flags" "tcp_checksum (tcp_header s flags) = 0"
proof -
  let ?p = "zero_packet\<lparr>source_port := a, destination_port := b, window_size := w, sequence_number := n\<rparr>"
  have "data_offset (set_data_offset 7 p) = 7" "data_offset (set_data_offset 5 p) = 5" if "flags_and_data_offset p = 0" for p
    using that by (simp_all add: data_offset_def set_data_offset_def)
  then show "header_size (tcp_header s flags) = tcp_header_size flags"
    by (simp add: tcp_header_def Let_def header_size_def data_offset_set_flags tcp_sizes zero_packet_def)
  show "packet_flags (tcp_header s flags) = flags" using assms by (simp add: tcp_header_def Let_def packet_flags_set)
qed (simp_all add: tcp_header_def Let_def set_flags_def set_data_offset_def zero_packet_def)

text \<open>The window that the socket offers: the free space of the receive buffer in units of eight bytes once scaling was agreed on.\<close>
definition offered_window :: "tcp_socket \<Rightarrow> u16 \<Rightarrow> nat" where
  "offered_window s flags =
     min (if \<not> has_flag flags SYN \<and> m_window_scaling_supported s then available_space_in_receive_buffer s div 8
          else available_space_in_receive_buffer s) 65535"

lemma tcp_header_window: "unat (window_size (tcp_header s flags)) = offered_window s flags"
proof -
  have r: "receive_window_scale = 3" by code_simp
  have "(2 :: nat) ^ receive_window_scale = 8" unfolding r by simp
  moreover have "unat (of_nat (min w 65535) :: u16) = min w 65535" for w
    by (simp only: unsigned_of_nat) (simp add: take_bit_nat_eq_self)
  ultimately show ?thesis
    by (simp add: tcp_header_def Let_def offered_window_def set_flags_def set_data_offset_def drop_bit_eq_div del: of_nat_min)
qed

text \<open>The bytes between the header and the payload.\<close>
definition tcp_options :: "network_adapter \<Rightarrow> u16 \<Rightarrow> u8 list" where
  "tcp_options adapter flags =
     (if has_flag flags SYN
      then TCPOptionMSS (ucast (ucast (adapter_mtu adapter) - 20 - 20 :: u64)) @ TCPOptionWindowScale 3 @ [option_end] else [])"

lemma length_tcp_options: "length (tcp_options adapter flags) = tcp_header_size flags - 20"
  by (simp add: tcp_options_def tcp_sizes TCPOptionMSS_def TCPOptionWindowScale_def)

lemma window_scale_3: "(of_nat receive_window_scale :: u8) = 3"
  by code_simp

lemma write_options_ok:
  assumes "length f = 54" and "length os = tcp_header_size flags - 20"
  shows "write_options adapter flags (f @ os @ d) = Inr (f @ tcp_options adapter flags @ d)"
proof (cases "has_flag flags SYN")
  case True
  let ?mss = "ucast (ucast (adapter_mtu adapter) - 20 - 20 :: u64) :: u16"
  have "length os = 4 + 4" using assms(2) True by (simp add: tcp_sizes)
  then obtain o1 r where o1: "os = o1 @ r" "length o1 = 4" "length r = 3 + 1" using split_parts [of os 4 4] by auto
  obtain o2 o3 where o2: "r = o2 @ o3" "length o2 = 3" "length o3 = 1" using split_parts [OF o1(3)] .
  have w1: "copy_in (f @ os @ d) (ipv4_payload_offset + 20) (TCPOptionMSS ?mss) = Inr (f @ TCPOptionMSS ?mss @ r @ d)"
    using copy_in_part [of f 54 o1 "TCPOptionMSS ?mss" "r @ d"] assms(1) o1
    by (simp add: ipv4_payload_offset_def layer3_payload_offset_def TCPOptionMSS_def)
  have w2: "copy_in (f @ TCPOptionMSS ?mss @ r @ d) (ipv4_payload_offset + 20 + 4) (TCPOptionWindowScale 3) =
      Inr (f @ TCPOptionMSS ?mss @ TCPOptionWindowScale 3 @ o3 @ d)"
    using copy_in_part [of "f @ TCPOptionMSS ?mss" 58 o2 "TCPOptionWindowScale 3" "o3 @ d"] assms(1) o2
    by (simp add: ipv4_payload_offset_def layer3_payload_offset_def TCPOptionMSS_def TCPOptionWindowScale_def)
  have w3: "copy_in (f @ TCPOptionMSS ?mss @ TCPOptionWindowScale 3 @ o3 @ d) (ipv4_payload_offset + 20 + 4 + 3) [option_end] =
      Inr (f @ TCPOptionMSS ?mss @ TCPOptionWindowScale 3 @ [option_end] @ d)"
    using copy_in_part [of "f @ TCPOptionMSS ?mss @ TCPOptionWindowScale 3" 61 o3 "[option_end]" d] assms(1) o2
    by (simp add: ipv4_payload_offset_def layer3_payload_offset_def TCPOptionMSS_def TCPOptionWindowScale_def)
  show ?thesis
    unfolding write_options_def Let_def window_scale_3 using True tcp_sizes(2) [of flags]
    by (simp only: if_True w1 w2 w3 bindR.simps prod.case tcp_options_def append_assoc)
next
  case False
  then show ?thesis using assms tcp_sizes by (simp add: write_options_def tcp_options_def)
qed

text \<open>The peer finds the window scale in the options.\<close>
lemma read_tcp_options:
  assumes "packet_flags p = flags" and "header_size p = tcp_header_size flags"
  shows "read_window_scale (header_bytes p @ tcp_options adapter flags @ data) = Inr (if has_flag flags SYN then Some 3 else None)"
proof (cases "has_flag flags SYN")
  case True
  let ?b = "header_bytes p @ tcp_options adapter flags @ data"
  obtain x y where o: "tcp_options adapter flags = [2, 4, x, y, 3, 3, 3, 0]"
    using True by (simp add: tcp_options_def TCPOptionMSS_def TCPOptionWindowScale_def be16_def)
  have at: "?b ! (20 + k) = (tcp_options adapter flags @ data) ! k" for k
    using nth_append_length_plus [of "header_bytes p" "tcp_options adapter flags @ data" k] by simp
  have b: "?b ! 20 = 2" "?b ! 21 = 4" "?b ! 24 = 3" "?b ! 25 = 3" "?b ! 26 = 3" "?b ! 27 = 0"
    using at [of 0] at [of 1] at [of 4] at [of 5] at [of 6] at [of 7] by (simp_all add: o)
  have p: "packet_at (\<lambda>k. ?b ! k) = p" by (rule packet_at_header_bytes)
  have h: "header_size p = 28" using assms(2) True by (simp add: tcp_sizes)
  have walk: "for_each_option (\<lambda>k. ?b ! k) 28 20 = [20, 24]" using b by (simp add: for_each_option.simps)
  have "length ?b = 28 + length data" by (simp add: o)
  then have "window_scale_options ?b [20, 24] None = Inr (Some 3)" using b by (simp add: window_scale_callback_def)
  then show ?thesis using assms(1) True h walk unfolding read_window_scale_def p Let_def by simp
next
  case False
  then show ?thesis unfolding read_window_scale_def packet_at_header_bytes Let_def using assms(1) by simp
qed

section \<open>The finished packet\<close>

text \<open>The header with everything but the checksum.\<close>
definition full_header :: "tcp_socket \<Rightarrow> u16 \<Rightarrow> tcp_packet" where
  "full_header s flags = (if has_flag flags ACK then (tcp_header s flags)\<lparr>ack_number := m_ack_number s\<rparr> else tcp_header s flags)"

lemma packet_flags_update [simp]:
  "packet_flags (p\<lparr>ack_number := a\<rparr>) = packet_flags p" "packet_flags (p\<lparr>tcp_checksum := c\<rparr>) = packet_flags p"
  "header_size (p\<lparr>ack_number := a\<rparr>) = header_size p" "header_size (p\<lparr>tcp_checksum := c\<rparr>) = header_size p"
  by (simp_all add: packet_flags_def header_size_def data_offset_def)

lemma full_header_fields:
  assumes "flags AND 0x1ff = flags"
  shows "source_port (full_header s flags) = local_port s" "destination_port (full_header s flags) = peer_port s"
    "sequence_number (full_header s flags) = m_sequence_number s" "packet_flags (full_header s flags) = flags"
    "header_size (full_header s flags) = tcp_header_size flags" "tcp_checksum (full_header s flags) = 0"
    "has_flag flags ACK \<Longrightarrow> ack_number (full_header s flags) = m_ack_number s" "unat (window_size (full_header s flags)) = offered_window s flags"
  using tcp_header_fields [OF assms, of s] tcp_header_window [of s flags] by (simp_all add: full_header_def)

lemma header_bytes_checksum:
  "tcp_checksum p = 0 \<Longrightarrow> (header_bytes p @ rest)[16 := be16 c ! 0, 17 := be16 c ! 1] = header_bytes (p\<lparr>tcp_checksum := c\<rparr>) @ rest"
  by (simp add: header_bytes_def be32_def be16_def list_update_append)

lemma header_bytes_checksum_zero: "tcp_checksum p = 0 \<Longrightarrow> (header_bytes p @ rest) ! 16 = 0 \<and> (header_bytes p @ rest) ! 17 = 0"
  by (simp add: header_bytes_def be32_def be16_def nth_append)

lemma header_bytes_split:
  "\<exists>u v. length u = 16 \<and> (\<forall>c. header_bytes (p\<lparr>tcp_checksum := c\<rparr>) = u @ be16 c @ v)"
  by (rule exI [of _ "be16 (source_port p) @ be16 (destination_port p) @ be32 (sequence_number p) @ be32 (ack_number p) @
       be16 (flags_and_data_offset p) @ be16 (window_size p)"], rule exI [of _ "be16 (urgent p)"]) (simp add: header_bytes_def)

lemma finish_packet_ok:
  assumes "flags AND 0x1ff = flags" and "length f = 34" and "length os = tcp_header_size flags - 20"
    and "tcp_header_size flags + length data < 2 ^ 16"
  shows "\<exists>c. finish_packet adapter s flags (length data) (tcp_header s flags) (f @ header_bytes (tcp_header s flags) @ os @ data) =
      Inr (f @ header_bytes ((full_header s flags)\<lparr>tcp_checksum := c\<rparr>) @ tcp_options adapter flags @ data) \<and>
    compute_tcp_checksum (local_address s) (peer_address s)
      (header_bytes ((full_header s flags)\<lparr>tcp_checksum := c\<rparr>) @ tcp_options adapter flags @ data) (of_nat (length data)) = Inr 0"
proof -
  let ?h = "tcp_header s flags" and ?H = "full_header s flags" and ?o = "tcp_options adapter flags" and ?n = "of_nat (length data) :: u16"
  let ?p = "header_bytes ?H @ ?o @ data"
  note H = full_header_fields [OF assms(1), of s]
  have n: "unat ?n = length data" using assms(4) by (simp only: unsigned_of_nat) (simp add: take_bit_nat_eq_self)
  have ack: "(if has_flag flags ACK then copy_in (f @ header_bytes ?h @ os @ data) ipv4_payload_offset (header_bytes (?h\<lparr>ack_number := m_ack_number s\<rparr>))
      else Inr (f @ header_bytes ?h @ os @ data)) = Inr (f @ header_bytes ?H @ os @ data)"
    using copy_in_part [of f 34 "header_bytes ?h" "header_bytes (?h\<lparr>ack_number := m_ack_number s\<rparr>)" "os @ data"] assms(2)
    by (simp add: full_header_def ipv4_payload_offset_def layer3_payload_offset_def)
  have opts: "write_options adapter flags (f @ header_bytes ?H @ os @ data) = Inr (f @ ?p)"
    using write_options_ok [of "f @ header_bytes ?H" os flags adapter data] assms(2,3) by simp
  have at: "packet_at (\<lambda>k. ?p ! k) = ?H" by (rule packet_at_header_bytes)
  have ge: "20 \<le> tcp_header_size flags" by (simp add: tcp_sizes)
  have len: "length ?p = tcp_header_size flags + length data" using ge by (simp add: length_tcp_options)
  obtain c where c: "compute_tcp_checksum (local_address s) (peer_address s) ?p ?n = Inr c"
      "compute_tcp_checksum (local_address s) (peer_address s) (?p[16 := be16 c ! 0, 17 := be16 c ! 1]) ?n = Inr 0"
    using tcp_checksum_stored [of ?p ?n "local_address s" "peer_address s"] header_bytes_checksum_zero [OF H(6), of "?o @ data"]
      at len H(5) ge n assms(4) by auto
  have upd: "?p[16 := be16 c ! 0, 17 := be16 c ! 1] = header_bytes (?H\<lparr>tcp_checksum := c\<rparr>) @ ?o @ data"
    by (rule header_bytes_checksum [OF H(6)])
  obtain u v where uv: "header_bytes ?H = u @ be16 0 @ v" "header_bytes (?H\<lparr>tcp_checksum := c\<rparr>) = u @ be16 c @ v" "length u = 16"
    using header_bytes_split [of ?H] H(6) by (metis tcp_packet.surjective tcp_packet.update_convs(7))
  have w: "copy_in (f @ ?p) (ipv4_payload_offset + 16) (be16 c) = Inr (f @ header_bytes (?H\<lparr>tcp_checksum := c\<rparr>) @ ?o @ data)"
    using copy_in_part [of "f @ u" 50 "be16 0" "be16 c" "v @ ?o @ data"] assms(2) uv
    by (simp add: ipv4_payload_offset_def layer3_payload_offset_def)
  have "drop ipv4_payload_offset (f @ ?p) = ?p" using assms(2) by (simp add: ipv4_payload_offset_def layer3_payload_offset_def)
  then have "finish_packet adapter s flags (length data) ?h (f @ header_bytes ?h @ os @ data) = Inr (f @ header_bytes (?H\<lparr>tcp_checksum := c\<rparr>) @ ?o @ data)"
    unfolding finish_packet_def ack bindR.simps opts by (simp only: c(1) bindR.simps w)
  then show ?thesis using c(2) upd by auto
qed

text \<open>What the receiver of a frame finds in it.\<close>
definition frame_ok :: "network_adapter \<Rightarrow> mac_address \<Rightarrow> tcp_socket \<Rightarrow> u16 \<Rightarrow> u8 list \<Rightarrow> u8 list \<Rightarrow> bool" where
  "frame_ok adapter mac s flags data frame \<longleftrightarrow>
     (let packet = drop 34 frame; p = packet_at (\<lambda>k. packet ! k)
      in take 14 frame = ethernet_header mac (adapter_mac_address adapter) 0x0800 \<and>
         ipv4_header_ok (take 20 (drop 14 frame)) (local_address s) (peer_address s) (20 + length packet) \<and>
         source_port p = local_port s \<and> destination_port p = peer_port s \<and> sequence_number p = m_sequence_number s \<and>
         packet_flags p = flags \<and> (has_flag flags ACK \<longrightarrow> ack_number p = m_ack_number s) \<and>
         unat (window_size p) = offered_window s flags \<and> header_size p = (if has_flag flags SYN then 28 else 20) \<and> drop (header_size p) packet = data \<and>
         read_window_scale packet = Inr (if has_flag flags SYN then Some 3 else None) \<and>
         compute_tcp_checksum (local_address s) (peer_address s) packet (of_nat (length data)) = Inr 0)"

lemma frame_okI:
  assumes "flags AND 0x1ff = flags" and "length h = 20" and "ipv4_header_ok h (local_address s) (peer_address s) (20 + tcp_header_size flags + length data)"
    and "compute_tcp_checksum (local_address s) (peer_address s)
      (header_bytes ((full_header s flags)\<lparr>tcp_checksum := c\<rparr>) @ tcp_options adapter flags @ data) (of_nat (length data)) = Inr 0"
  shows "frame_ok adapter mac s flags data (ethernet_header mac (adapter_mac_address adapter) 0x0800 @ h @
    header_bytes ((full_header s flags)\<lparr>tcp_checksum := c\<rparr>) @ tcp_options adapter flags @ data)"
proof -
  let ?p = "header_bytes ((full_header s flags)\<lparr>tcp_checksum := c\<rparr>) @ tcp_options adapter flags @ data"
  let ?f = "ethernet_header mac (adapter_mac_address adapter) 0x0800 @ h @ ?p"
  note H = full_header_fields [OF assms(1), of s]
  have d: "drop 34 ?f = ?p" "take 14 ?f = ethernet_header mac (adapter_mac_address adapter) 0x0800" "take 20 (drop 14 ?f) = h"
    using assms(2) by simp_all
  have at: "packet_at (\<lambda>k. ?p ! k) = (full_header s flags)\<lparr>tcp_checksum := c\<rparr>" by (rule packet_at_header_bytes)
  have len: "length ?p = tcp_header_size flags + length data" "length (header_bytes ((full_header s flags)\<lparr>tcp_checksum := c\<rparr>) @ tcp_options adapter flags) = tcp_header_size flags"
    by (simp_all add: length_tcp_options tcp_sizes)
  have "drop (tcp_header_size flags) ?p = data" using len(2) by (metis append_assoc append_eq_conv_conj)
  moreover have "read_window_scale ?p = Inr (if has_flag flags SYN then Some 3 else None)"
    using read_tcp_options [of "(full_header s flags)\<lparr>tcp_checksum := c\<rparr>" flags adapter data] H by simp
  ultimately show ?thesis
    unfolding frame_ok_def Let_def d at len(1) using H assms(3,4) tcp_sizes(1) [of flags] by (simp add: add.assoc)
qed

text \<open>
  C36: A packet that a socket sends is read back by its peer. If there is a route, the socket has a port, the packet fits into the transmission unit of the adapter and the adapter hands out
  a buffer of the size asked for, whatever bytes the buffer held before: the frame built in it carries the hardware addresses, an IPv4 header with the
  addresses and the length and a valid checksum, the ports, the sequence number, the flags and with ACK the acknowledgement number, the free space of the receive buffer as the window, a
  header of 28 bytes with SYN and of 20 bytes otherwise, then exactly the payload, and a valid TCP checksum; the peer reads the window scale 3 from a SYN packet and none from another one. The frame is sent and counted, and kept until it is
  acknowledged if it carries SYN or payload; if it then cannot be kept, it is not sent and the call fails with ENOMEM, though the sequence number has advanced.
\<close>
theorem tcp_packet_round_trip:
  fixes now :: int
  assumes "rd_adapter r = Some adapter" and "\<not> mac_is_zero (next_hop r)" and "local_port s \<noteq> 0" and "flags AND 0x1ff = flags"
    and "20 + tcp_header_size flags + length data \<le> unat (adapter_mtu adapter)" and "unat (adapter_mtu adapter) < 2 ^ 16"
    and "acquire (34 + tcp_header_size flags + length data) = Some buffer" and "length buffer = 34 + tcp_header_size flags + length data"
    and "payload = Some (Some data) \<or> payload = None \<and> data = []"
  defines "s1 \<equiv> update_numbers flags (length data) now s"
    and "expect_ack \<equiv> has_flag flags SYN \<or> data \<noteq> []"
  shows "\<exists>frame. frame_ok adapter (next_hop r) s flags data frame \<and>
    send_tcp_packet acquire append_ok now r flags payload (length data) s =
      (if expect_ack \<and> \<not> append_ok then set_so_error ENOMEM s1 []
       else let s2 = (if expect_ack
                      then s1\<lparr>unacked_packets := unacked_packets s1 @ [\<lparr>op_ack_number = m_sequence_number s1, op_buffer = frame,
                               op_ipv4_payload_offset = 34, op_adapter = adapter\<rparr>],
                             unacked_size := size_add (unacked_size s1) (length data), in_retransmit_list := True\<rparr>
                      else s1)
            in (s2\<lparr>m_packets_out := m_packets_out s2 + 1, m_bytes_out := m_bytes_out s2 + of_nat (34 + tcp_header_size flags + length data)\<rparr>,
                SendPacket frame # (if expect_ack then [] else [ReleasePacketBuffer]), Inr ()))"
proof -
  let ?h = "tcp_header s flags" and ?n = "length data" and ?T = "tcp_header_size flags"
  have off: "ipv4_payload_offset = 34" by (simp add: ipv4_payload_offset_def layer3_payload_offset_def)
  have size: "size_add (size_add ipv4_payload_offset ?T) ?n = 34 + ?T + ?n" "size_sub (34 + ?T + ?n) ipv4_payload_offset = ?T + ?n"
    using assms(5,6) by (simp_all add: off size_simps)
  let ?e = "ethernet_header (next_hop r) (adapter_mac_address adapter) 0x0800"
  have len: "length buffer = 34 + (?T + ?n)" "20 + (?T + ?n) \<le> unat (adapter_mtu adapter)" using assms(5,8) by simp_all
  from fill_in_ipv4_header_ok [OF len assms(6)] obtain ip where ip: "fill_in_ipv4_header adapter buffer (local_address s) (next_hop r) (peer_address s) 6 (?T + ?n) (type_of_service s) (socket_ttl s) =
      Inr (?e @ ip @ drop 34 buffer)" "length ip = 20" "ipv4_header_ok ip (local_address s) (peer_address s) (20 + (?T + ?n))" by blast
  have T: "?T = 20 + (?T - 20)" by (simp add: tcp_sizes)
  have "length (drop 34 buffer) = 20 + (?T - 20 + ?n)" using assms(8) T by simp
  then obtain h0 q where q: "drop 34 buffer = h0 @ q" "length h0 = 20" "length q = ?T - 20 + ?n" by (rule split_parts)
  obtain os d0 where od: "q = os @ d0" "length os = ?T - 20" "length d0 = ?n" using split_parts [OF q(3)] .
  let ?f = "?e @ ip"
  have w1: "copy_in (?e @ ip @ drop 34 buffer) ipv4_payload_offset (header_bytes ?h) = Inr (?f @ header_bytes ?h @ os @ d0)"
    using copy_in_part [of ?f 34 h0 "header_bytes ?h" "os @ d0"] q od ip(2) by (simp add: off)
  obtain bytes where bytes: "(case payload of None \<Rightarrow> Inr [] | Some memory \<Rightarrow> read_payload memory ?n) = Inr bytes" "bytes = data"
    using assms(9) by (auto simp: read_payload_def)
  have w2: "copy_in (?f @ header_bytes ?h @ os @ d0) (ipv4_payload_offset + header_size ?h) data = Inr (?f @ header_bytes ?h @ os @ data)"
    using copy_in_part [of "?f @ header_bytes ?h @ os" "34 + ?T" d0 data "[]"] od ip(2) T tcp_header_fields(5) [OF assms(4), of s] by (simp add: off)
  have "?T + ?n < 2 ^ 16" using assms(5,6) by simp
  from finish_packet_ok [OF assms(4) _ od(2) this, of ?f adapter s] ip(2) obtain c where
    c: "finish_packet adapter s flags ?n ?h (?f @ header_bytes ?h @ os @ data) =
      Inr (?f @ header_bytes ((full_header s flags)\<lparr>tcp_checksum := c\<rparr>) @ tcp_options adapter flags @ data)"
    "compute_tcp_checksum (local_address s) (peer_address s)
      (header_bytes ((full_header s flags)\<lparr>tcp_checksum := c\<rparr>) @ tcp_options adapter flags @ data) (of_nat ?n) = Inr 0" by auto
  define frame where "frame = ?f @ header_bytes ((full_header s flags)\<lparr>tcp_checksum := c\<rparr>) @ tcp_options adapter flags @ data"
  have ok: "frame_ok adapter (next_hop r) s flags data frame"
    using frame_okI [OF assms(4) ip(2) _ c(2), of "next_hop r"] ip(3) by (simp add: frame_def add.assoc)
  have "packet_at (\<lambda>k. frame ! (ipv4_payload_offset + k)) = (full_header s flags)\<lparr>tcp_checksum := c\<rparr>"
    using packet_at_header_bytes [of "(full_header s flags)\<lparr>tcp_checksum := c\<rparr>" "tcp_options adapter flags @ data"] ip(2)
    by (simp add: frame_def off nth_append)
  then have syn: "has_syn (packet_at (\<lambda>k. frame ! (ipv4_payload_offset + k))) \<or> ?n > 0 \<longleftrightarrow> expect_ack"
    using full_header_fields(4) [OF assms(4), of s] by (simp add: expect_ack_def)
  have z: "\<not> routing_is_zero r" using assms(1,2) by (simp add: routing_is_zero_def)
  have "send_tcp_packet acquire append_ok now r flags payload ?n s =
     (let sent = (\<lambda>s. (s\<lparr>m_packets_out := m_packets_out s + 1, m_bytes_out := m_bytes_out s + of_nat (34 + ?T + ?n)\<rparr>,
                   SendPacket frame # (if expect_ack then [] else [ReleasePacketBuffer]), Inr ()))
     in if \<not> expect_ack then sent s1
        else if \<not> append_ok then set_so_error ENOMEM s1 []
        else sent (s1\<lparr>unacked_packets := unacked_packets s1 @ [\<lparr>op_ack_number = m_sequence_number s1, op_buffer = frame,
                        op_ipv4_payload_offset = ipv4_payload_offset, op_adapter = adapter\<rparr>],
                      unacked_size := size_add (unacked_size s1) ?n, in_retransmit_list := True\<rparr>))"
    unfolding send_tcp_packet_def assms(1) option.case if_not_P [OF z] Let_def size assms(7) ip(1) sum.case if_not_P [OF assms(3)] w1
      bytes w2 bindR.simps c(1) frame_def [symmetric] syn s1_def by (rule refl)
  then show ?thesis using ok by (intro exI [of _ frame]) (simp add: Let_def off)
qed

definition example_adapter :: network_adapter where
  "example_adapter = \<lparr>adapter_mac_address = (2, 0, 0, 0, 0, 1), adapter_mtu = 1500\<rparr>"

definition example_route :: routing_decision where
  "example_route = \<lparr>rd_adapter = Some example_adapter, next_hop = (2, 0, 0, 0, 0, 2)\<rparr>"

definition example_socket :: tcp_socket where
  "example_socket = \<lparr>local_address = 0x0100a8c0, local_port = 49152, peer_address = 0x0200a8c0, peer_port = 80, type_of_service = 0, socket_ttl = 64,
     m_receive_buffer = None, so_error = None, m_sequence_number = 7, m_ack_number = 9, m_packets_out = 0, m_bytes_out = 0, unacked_packets = [],
     unacked_size = 0, in_retransmit_list = False, m_last_ack_number_sent = 0, m_last_ack_sent_time = 0, m_window_scaling_supported = False\<rparr>"

theorem tcp_packet_round_trip_witness:
  "(\<exists>frame s. frame_ok example_adapter (2, 0, 0, 0, 0, 2) example_socket SYN [] frame \<and> m_sequence_number s = 8 \<and>
     send_tcp_packet (\<lambda>n. Some (replicate n 0xaa)) True 0 example_route SYN None 0 example_socket = (s, [SendPacket frame], Inr ())) \<and>
   (\<exists>frame s. frame_ok example_adapter (2, 0, 0, 0, 0, 2) example_socket 0x18 [1, 2, 3] frame \<and> m_sequence_number s = 10 \<and> unacked_size s = 3 \<and>
     send_tcp_packet (\<lambda>n. Some (replicate n 0xaa)) True 0 example_route 0x18 (Some (Some [1, 2, 3])) 3 example_socket = (s, [SendPacket frame], Inr ()))"
proof -
  have r: "rd_adapter example_route = Some example_adapter" "\<not> mac_is_zero (next_hop example_route)" "local_port example_socket \<noteq> 0"
    "unat (adapter_mtu example_adapter) < 2 ^ 16" "next_hop example_route = (2, 0, 0, 0, 0, 2)"
    by (simp_all add: example_route_def example_adapter_def example_socket_def mac_is_zero_def mac_bytes_def)
  have f: "has_flag SYN SYN" "\<not> has_flag 0x18 SYN" by code_simp+
  have n: "m_sequence_number (update_numbers SYN 0 0 example_socket) = 8" "m_sequence_number (update_numbers 0x18 3 0 example_socket) = 10"
    "unacked_size (update_numbers 0x18 3 0 example_socket) = 0"
    by code_simp+
  have l: "length [1, 2, 3 :: u8] = 3" by simp
  have mtu: "unat (adapter_mtu example_adapter) = 1500" by (simp add: example_adapter_def)
  note t = tcp_packet_round_trip [OF r(1-3) _ _ r(4), where acquire = "\<lambda>n. Some (replicate n 0xaa)", OF _ _ refl]
  obtain frame1 where 1: "frame_ok example_adapter (2, 0, 0, 0, 0, 2) example_socket SYN [] frame1"
    "\<exists>s. send_tcp_packet (\<lambda>n. Some (replicate n 0xaa)) True 0 example_route SYN None 0 example_socket = (s, [SendPacket frame1], Inr ()) \<and> m_sequence_number s = 8"
    using t [where flags = SYN and data = "[]" and payload = None and now = 0 and append_ok = True] r(5) f(1) n(1) mtu
    by (auto simp: tcp_sizes Let_def)
  obtain frame2 where 2: "frame_ok example_adapter (2, 0, 0, 0, 0, 2) example_socket 0x18 [1, 2, 3] frame2"
    "\<exists>s. send_tcp_packet (\<lambda>n. Some (replicate n 0xaa)) True 0 example_route 0x18 (Some (Some [1, 2, 3])) 3 example_socket = (s, [SendPacket frame2], Inr ()) \<and>
       m_sequence_number s = 10 \<and> unacked_size s = 3"
    using t [where flags = "0x18" and data = "[1, 2, 3]" and payload = "Some (Some [1, 2, 3])" and now = 0 and append_ok = True, unfolded l] r(5) f(2) n(2,3) mtu
    by (auto simp: tcp_sizes Let_def size_simps)
  show ?thesis using 1 2 by blast
qed

end
