(* ===== verification/Spec2Isabelle.thy ===== *)
theory Spec2Isabelle
  imports Kmalloc Bitmap_Find Region Pledge Veil Mutex_Use Address_Space_Layout Double_Buffer Inode_Metadata Red_Black_Use
    Internet_Checksum Tcp_Options Tcp_Send
begin

text \<open>
  This library models parts of the SerenityOS repository, most of them from its kernel, and proves properties of them. Definitions keep
  the names of the code where that is possible, and every theory opens with the files it models.

  \<^bold>\<open>How the code is modelled.\<close> A class is a record, an enumeration a datatype, a member function a function from the state to
  the state after the call and its result. A failed \<^verbatim>\<open>VERIFY\<close>, an access outside of an object, a loop that does not end and an
  \<^verbatim>\<open>errno\<close> are values of the type \<open>error\<close>, and a function that can end in one of them has a result of type \<open>error + 'a\<close>.
  \<open>size_t\<close> and addresses are natural numbers with the wrap at $2^{64}$ written out where a caller can reach it; flags, masks and
  counters that are used as bits are words of their width. What the code takes from outside, such as user memory, success of allocations, random numbers and the
  resolution of a path in the file system, is an argument. Loops are recursive functions. A loop that can run forever is a partial function whose value
  \<open>None\<close>, or the error \<open>NeverReturns\<close>, means that it does not return, and the theorems on it say when it returns.

  \<^bold>\<open>Bitmaps\<close> (\<^verbatim>\<open>AK/BitmapView.h\<close>, \<^verbatim>\<open>AK/Bitmap.h\<close>, \<^verbatim>\<open>AK/BuiltinWrappers.h\<close>). \<open>Bits\<close> has the bit counting
  helpers, \<open>Bitmap\<close> the operations on bytes, \<open>Bitmap_Ranges\<close>, \<open>Bitmap_Search\<close> and \<open>Bitmap_Find\<close> what they do to the sequence of
  bits: filling, counting, growing, and the searches for free ranges, each equal to a specification on lists of booleans.

  \<^bold>\<open>The kernel heap\<close> (\<^verbatim>\<open>Kernel/Heap\<close>). \<open>Heap\<close> is the bitmap allocator with its headers in memory (\<open>Memory\<close>, \<open>Chunk_Map\<close>), \<open>Slab\<close> the slab heaps
  and \<open>Kmalloc\<close> the choice between them. Both satisfy the locale of \<open>Allocator\<close>, whose lemmas say that blocks handed out by any sequence
  of calls do not overlap.

  \<^bold>\<open>Physical pages\<close> (\<^verbatim>\<open>Kernel/Memory/PhysicalZone\<close>, \<^verbatim>\<open>PhysicalRegion\<close>). \<open>Physical_Zone\<close> is the buddy allocator with its free lists in the shared
  page entries (\<open>Linked_List\<close>, \<open>Buddy\<close>); \<open>Zone_Invariant\<close> and \<open>Zone\<close> relate it to the set of free blocks. \<open>Physical_Region\<close> has the zones of a region, and \<open>Region\<close>
  interprets the locale of \<open>Page_Pool\<close>: pages handed out are different, and taking a page fails only if none is free.

  \<^bold>\<open>Address spaces\<close> (\<^verbatim>\<open>Kernel/Memory/VirtualRange\<close>, \<^verbatim>\<open>RegionTree\<close>). \<open>Address_Space\<close> has the ranges and the placement of regions, \<open>Address_Space_Layout\<close>
  the invariant that regions are in order and disjoint, with placement and lookup exact.
  \<open>Ordered_List\<close> is the sorted list of entries that a search tree stands for.

  \<^bold>\<open>Red-black trees\<close> (\<^verbatim>\<open>AK/RedBlackTree.h\<close>, \<^verbatim>\<open>AK/IntrusiveRedBlackTree.h\<close>). \<open>Red_Black_Tree\<close> has the rotations, searches, insertion and removal on nodes with pointers.
  \<open>Tree_Shape\<close> relates the pointers to a tree, \<open>Tree_Balance\<close> has the rules on colors and black heights; \<open>Tree_Insert\<close>, \<open>Tree_Search\<close>, \<open>Tree_Fixup\<close>, \<open>Tree_Swap\<close>, \<open>Tree_Unlink\<close>
  and \<open>Tree_Remove\<close> show that the operations keep them. \<open>Red_Black_Map\<close> adds values and iterators, \<open>Intrusive_Tree\<close> the trees whose nodes are members of other objects, and
  \<open>Red_Black_Use\<close> shows that a sequence of operations answers as the sorted list does, with a number of rounds logarithmic in the number of nodes, and when a node can be inserted again.

  \<^bold>\<open>Processes\<close>. \<open>Credentials\<close> and \<open>Set_Ids\<close> are \<^verbatim>\<open>Kernel/Security/Credentials\<close> and \<^verbatim>\<open>Syscalls/setuid.cpp\<close>: no sequence of calls gives a process an id it did not have. \<open>Pledge\<close>
  is \<^verbatim>\<open>Syscalls/pledge.cpp\<close> and the part of \<^verbatim>\<open>Syscalls/execve.cpp\<close> that replaces the promises: until then promises are only given up, and the next program has no others than those kept for it. \<open>Unveil\<close> and \<open>Veil\<close> are \<^verbatim>\<open>Syscalls/unveil.cpp\<close> with \<^verbatim>\<open>AK/Trie.h\<close> and the check in
  \<^verbatim>\<open>VirtualFileSystem.cpp\<close>: the tree of a process refines the map of the unveiled paths with longest prefix matching. \<open>String_View\<close> has the strings and \<^verbatim>\<open>KLexicalPath\<close>.
  \<open>Inode_Metadata\<close> has the access checks on files and device numbers.

  \<^bold>\<open>Mutexes\<close> (\<^verbatim>\<open>Kernel/Locking/Mutex.cpp\<close>). \<open>Mutex\<close> has the operations, split where a thread waits; \<open>Mutual_Exclusion\<close> the step relation of a system of threads and its
  invariant; \<open>Mutex_Use\<close> shows that no check in the code fails, that an exclusive holder is alone until it gives up the lock, and that no wakeup is lost.

  \<^bold>\<open>Buffers\<close>. The locale of \<open>Fifo\<close> is the contract of a queue of bytes; \<open>Double_Buffer\<close> (\<^verbatim>\<open>Kernel/Library/DoubleBuffer\<close>) is interpreted as one.

  \<^bold>\<open>TCP packets\<close> (\<^verbatim>\<open>Kernel/Net/TCP.h\<close>, \<^verbatim>\<open>Kernel/Net/IP/IP.h\<close>, \<^verbatim>\<open>Kernel/Net/IP/IPv4.h\<close>, parts of \<^verbatim>\<open>TCPSocket.cpp\<close>, \<^verbatim>\<open>NetworkAdapter.cpp\<close> and \<^verbatim>\<open>NetworkTask.cpp\<close>). \<open>Tcp_Packet\<close> has the header as bytes
  in network order and the walk over its options, \<open>Tcp_Options\<close> how the window scale is read from them, and \<open>Internet_Checksum\<close> the two computations of the checksum: a packet with its
  checksum stored verifies, and for up to 64 KiB both give the complement of the ones' complement sum. \<open>Tcp_Send\<close> has the whole of \<^verbatim>\<open>send_tcp_packet\<close> with the Ethernet and IPv4 headers: the frame it
  sends is read back by the peer.

  \<^bold>\<open>How the parts interact.\<close> The heap and the zones keep their free chunks in bitmaps and use the lemmas of the bitmap theories; the slab heaps take their blocks from the heap;
  regions of pages are made of zones; the regions of an address space are kept in a red-black tree, of which \<open>Address_Space\<close> uses the sorted list that \<open>Red_Black_Use\<close> shows it to be; system calls for ids are guarded by promises; the veil is checked with the lexical paths; a TCP socket offers the space of its double buffer as the window.

  \<^bold>\<open>Bounds.\<close> The mutex theorems assume fewer than $2^{32}$ locks given out at once, because the counter has 32 bits. A heap has less memory than the address space, a zone at most
  4096 pages, an address space ends below $2^{64}$. The loops that follow pointers in a red-black tree have the number of nodes as fuel, and the theorems show that they end before it is used up. Where a theorem needs such a bound, it is a hypothesis.

  \<^bold>\<open>Not modelled.\<close> Drivers, boot code and the architecture layer program hardware. Userland, the other operations of sockets, routing and the TCP state machine, on-disk file systems, the scheduler and the
  rest of \<^verbatim>\<open>AK\<close> are not part of the library: they are far larger than what is here, and the parts of the kernel that the others rely on come first. Reference counting and ownership
  templates have no behaviour beyond the lifetime of objects. Spinlocks and interrupts are not modelled: every operation that holds a spinlock is one step.
\<close>

end
